(* ===== verification/Prelude.thy ===== *)
theory Prelude
  imports Main "HOL-Library.Word" "HOL-Library.Multiset"
begin

unbundle bit_operations_syntax

text \<open>
  What every component theory shares: the names of the C integer types, the return codes of
  \<^verbatim>\<open>src/src/include/gnunet_common.h\<close>, the collections of rewrite rules the component proofs
  use, and generic facts on machine words, lists and options.
\<close>

section \<open>C integers and return codes\<close>

type_synonym uint8 = "8 word"
type_synonym uint16 = "16 word"
type_synonym uint32 = "32 word"
type_synonym uint64 = "64 word"

abbreviation (input) UINT64_MAX :: uint64 where "UINT64_MAX \<equiv> - 1"
abbreviation (input) UINT32_MAX :: uint32 where "UINT32_MAX \<equiv> - 1"

abbreviation (input) GNUNET_OK :: int where "GNUNET_OK \<equiv> 1"
abbreviation (input) GNUNET_SYSERR :: int where "GNUNET_SYSERR \<equiv> - 1"
abbreviation (input) GNUNET_YES :: int where "GNUNET_YES \<equiv> 1"
abbreviation (input) GNUNET_NO :: int where "GNUNET_NO \<equiv> 0"

named_theorems container_defs \<open>definitions of the container operations\<close>

section \<open>Words\<close>

lemma unat_minus_one_64: "unat (UINT64_MAX) = 2 ^ 64 - 1"
  by (simp only: unsigned_minus_1_eq_mask mask_eq_exp_minus_1) simp

lemma word_add_no_wrap:
  fixes a b :: "'a::len word"
  shows "(a + b < a) = (2 ^ LENGTH('a) \<le> unat a + unat b)"
proof (cases "unat a + unat b < 2 ^ LENGTH('a)")
  case True
  then show ?thesis by (simp add: word_less_nat_alt unat_word_ariths)
next
  case False
  have b: "unat b < 2 ^ LENGTH('a)" and a: "unat a < 2 ^ LENGTH('a)"
    by (rule unsigned_less)+
  then have "unat a + unat b - 2 ^ LENGTH('a) < 2 ^ LENGTH('a)"
    using False by linarith
  then have "(unat a + unat b) mod 2 ^ LENGTH('a) = unat a + unat b - 2 ^ LENGTH('a)"
    using False by (simp only: le_mod_geq not_less mod_less)
  moreover have "unat a + unat b - 2 ^ LENGTH('a) < unat a" using False b by linarith
  ultimately show ?thesis using False by (simp add: word_less_nat_alt unat_word_ariths)
qed

lemma unat_add_no_wrap:
  fixes a b :: "'a::len word"
  shows "unat a + unat b < 2 ^ LENGTH('a) \<Longrightarrow> unat (a + b) = unat a + unat b"
  by (simp add: unat_word_ariths)

lemma unat_sub_le:
  fixes a b :: "'a::len word"
  shows "b \<le> a \<Longrightarrow> unat (a - b) = unat a - unat b"
  by (simp add: unat_sub word_le_nat_alt)

text \<open>The overflow test \<open>a * b / b != a\<close> is exact.\<close>

lemma word_mult_overflow_check:
  fixes a b :: "'a::len word"
  assumes "b \<noteq> 0"
  shows "(a * b div b = a) = (unat a * unat b < 2 ^ LENGTH('a))"
proof (cases "unat a * unat b < 2 ^ LENGTH('a)")
  case True
  then have "unat (a * b) = unat a * unat b" by (simp add: unat_mult_lem)
  with assms have "unat (a * b div b) = unat a"
    by (simp add: unat_div unat_eq_0)
  then show ?thesis using True by (simp add: word_unat_eq_iff)
next
  case False
  have "unat (a * b) < 2 ^ LENGTH('a)" by (rule unsigned_less)
  with False have "unat (a * b) < unat a * unat b" by linarith
  then have "unat (a * b) div unat b < unat a" by (rule less_mult_imp_div_less)
  then have "unat (a * b div b) \<noteq> unat a" by (simp add: unat_div)
  then show ?thesis using False by auto
qed

lemma unat_mod_lt: "b \<noteq> 0 \<Longrightarrow> unat (a mod b) < unat (b :: 'a::len word)"
  by (simp add: unat_mod unat_gt_0)

lemma unat_ucast_32_64 [simp]: "unat (ucast (x :: uint32) :: uint64) = unat x"
  using unsigned_less[where 'a = nat, of x] by (simp add: unsigned_ucast_eq take_bit_nat_eq_self)

section \<open>Lists of buckets\<close>

lemma mset_concat_update:
  assumes "i < length xs"
  shows "mset (concat (xs[i := ys])) + mset (xs ! i) = mset (concat xs) + mset ys"
proof -
  have "concat xs = concat (take i xs) @ xs ! i @ concat (drop (Suc i) xs)"
    using id_take_nth_drop[OF assms] by (metis concat.simps(2) concat_append)
  moreover have "concat (xs[i := ys]) = concat (take i xs) @ ys @ concat (drop (Suc i) xs)"
    by (simp add: upd_conv_take_nth_drop[OF assms])
  ultimately show ?thesis by simp
qed

lemma set_concat_nth: "x \<in> set (concat xs) \<longleftrightarrow> (\<exists>i < length xs. x \<in> set (xs ! i))"
  by (auto simp: in_set_conv_nth) (metis nth_mem)+

lemma filter_concat_bucket:
  assumes "i < length xs" and "\<And>j x. j < length xs \<Longrightarrow> x \<in> set (xs ! j) \<Longrightarrow> P x \<Longrightarrow> j = i"
  shows "filter P (concat xs) = filter P (xs ! i)"
proof -
  have "\<not> P x" if x: "x \<in> set (concat (take i xs))" for x
  proof -
    from x assms(1) obtain j where "j < i" "x \<in> set (xs ! j)"
      unfolding set_concat_nth by auto
    then show ?thesis using assms(1) assms(2)[of j x] by auto
  qed
  then have "filter P (concat (take i xs)) = []" by (simp add: filter_empty_conv)
  moreover have "\<not> P x" if x: "x \<in> set (concat (drop (Suc i) xs))" for x
  proof -
    from x obtain j where "j < length xs - Suc i" "x \<in> set (xs ! (Suc i + j))"
      unfolding set_concat_nth by auto
    moreover from this have "Suc i + j < length xs" by linarith
    ultimately show ?thesis using assms(2)[of "Suc i + j" x] by auto
  qed
  then have "filter P (concat (drop (Suc i) xs)) = []" by (simp add: filter_empty_conv)
  moreover have "concat xs = concat (take i xs) @ xs ! i @ concat (drop (Suc i) xs)"
    using id_take_nth_drop[OF assms(1)] by (metis concat.simps(2) concat_append)
  ultimately show ?thesis by simp
qed

lemma mset_filter_partition: "mset (filter P xs) + mset (filter (\<lambda>x. \<not> P x) xs) = mset xs"
  by (induction xs) auto

lemma diff_filter_mset: "M - filter_mset P M = filter_mset (\<lambda>x. \<not> P x) M"
  by (simp add: multiset_eq_iff)

end
