(* ===== verification/Endian.thy ===== *)
theory Endian
  imports Prelude
begin

unbundle bit_operations_syntax

text \<open>
  Byte order conversion (\<^verbatim>\<open>src/src/util/common_endian.c\<close>) for the little-endian hosts the
  development models: the host-to-network and network-to-host conversions of 16-bit and 32-bit values
  (C library) and of 64-bit values (GNUnet), and that they undo each other; and the bytes of a word in memory.
\<close>

section \<open>32-bit conversion\<close>

text \<open>\<^verbatim>\<open>htonl\<close> of the C library on a little-endian host reverses the four bytes of a word.\<close>

definition htonl :: "uint32 \<Rightarrow> uint32" where
  "htonl x = push_bit 24 (x AND 255) OR push_bit 16 (drop_bit 8 x AND 255)
     OR push_bit 8 (drop_bit 16 x AND 255) OR drop_bit 24 x"

lemma and_255: "x AND (255 :: 'a::len word) = take_bit 8 x"
  by (simp add: take_bit_eq_mask mask_eq_exp_minus_1)

lemma bit_and_255: "bit (x AND (255::'a::len word)) n = (n < 8 \<and> bit x n)"
  by (simp add: and_255 bit_take_bit_iff)

lemma htonl_bits: "bit (htonl x) n = (n < 32 \<and> 
    (if n < 8 then bit x (24 + n) else if n < 16 then bit x (8 + n)
     else if n < 24 then bit x (n - 8) else bit x (n - 24)))"
  unfolding htonl_def bit_or_iff bit_push_bit_iff bit_and_255 bit_drop_bit_eq o_def
  by (auto dest: bit_imp_le_length)

lemma htonl_htonl [simp]: "htonl (htonl x) = x"
  by (rule bit_word_eqI) (auto simp: htonl_bits)

section \<open>16-bit conversion\<close>

definition htons :: "uint16 \<Rightarrow> uint16" where
  "htons x = push_bit 8 (x AND 255) OR drop_bit 8 x"

lemma htons_bits: "bit (htons x) n = (n < 16 \<and> (if n < 8 then bit x (8 + n) else bit x (n - 8)))"
  unfolding htons_def bit_or_iff bit_push_bit_iff bit_and_255 bit_drop_bit_eq o_def
  by (auto dest: bit_imp_le_length)

lemma htons_htons [simp]: "htons (htons x) = x"
  by (rule bit_word_eqI) (auto simp: htons_bits)

section \<open>64-bit conversion\<close>

text \<open>\<^verbatim>\<open>GNUNET_htonll\<close> and \<^verbatim>\<open>GNUNET_ntohll\<close>, the little-endian branch: each half of the
  64-bit value is reversed and the halves change places.\<close>

definition GNUNET_htonll :: "uint64 \<Rightarrow> uint64" where
  "GNUNET_htonll n =
     push_bit 32 (ucast (htonl (ucast n))) + ucast (htonl (ucast (drop_bit 32 n)))"

definition GNUNET_ntohll :: "uint64 \<Rightarrow> uint64" where
  "GNUNET_ntohll n =
     push_bit 32 (ucast (htonl (ucast n))) + ucast (htonl (ucast (drop_bit 32 n)))"

lemma GNUNET_ntohll_eq: "GNUNET_ntohll = GNUNET_htonll"
  by (simp add: fun_eq_iff GNUNET_ntohll_def GNUNET_htonll_def)

lemma GNUNET_htonll_or: "GNUNET_htonll n =
     push_bit 32 (ucast (htonl (ucast n))) OR ucast (htonl (ucast (drop_bit 32 n)))"
  unfolding GNUNET_htonll_def
  by (rule disjunctive_add) (auto simp: bit_push_bit_iff bit_ucast_iff dest: bit_imp_le_length)

lemma GNUNET_htonll_bits: "bit (GNUNET_htonll x) n = (n < 64 \<and>
    (if n < 32 then bit (htonl (ucast (drop_bit 32 x))) n else bit (htonl (ucast x)) (n - 32)))"
  unfolding GNUNET_htonll_or bit_or_iff bit_push_bit_iff bit_ucast_iff
  by (auto dest: bit_imp_le_length)

lemma GNUNET_htonll_lo: "ucast (GNUNET_htonll x) = htonl (ucast (drop_bit 32 x))"
  by (rule bit_word_eqI) (auto simp: bit_ucast_iff GNUNET_htonll_bits)

lemma GNUNET_htonll_hi: "ucast (drop_bit 32 (GNUNET_htonll x)) = htonl (ucast x)"
  by (rule bit_word_eqI) (auto simp: bit_ucast_iff bit_drop_bit_eq GNUNET_htonll_bits)

lemma GNUNET_htonll_htonll [simp]: "GNUNET_htonll (GNUNET_htonll x) = x"
  by (rule bit_word_eqI)
   (auto simp: GNUNET_htonll_bits[of "GNUNET_htonll x"] GNUNET_htonll_lo GNUNET_htonll_hi bit_ucast_iff
      bit_drop_bit_eq)
lemma GNUNET_ntohll_htonll [simp]: "GNUNET_ntohll (GNUNET_htonll x) = x"
  by (simp add: GNUNET_ntohll_eq)

section \<open>Words in memory\<close>

text \<open>The bytes of a word as they lie in memory, little endian, and the word they make.\<close>

definition le_bytes :: "nat \<Rightarrow> 'a::len word \<Rightarrow> uint8 list" where
  "le_bytes n w = map (\<lambda>i. ucast (drop_bit (8 * i) w)) [0..<n]"

fun le_word :: "uint8 list \<Rightarrow> 'a::len word" where
  "le_word [] = 0"
| "le_word (b # bs) = ucast b OR push_bit 8 (le_word bs)"

lemma bit_le_word: "bit (le_word bs :: 'a::len word) n = (n < LENGTH('a) \<and> n < 8 * length bs \<and> bit (bs ! (n div 8)) (n mod 8))"
proof (induction bs arbitrary: n)
  case (Cons b bs)
  show ?case
  proof (cases "n < 8")
    case True
    then show ?thesis by (auto simp: bit_or_iff bit_push_bit_iff bit_ucast_iff)
  next
    case False
    then obtain m where m: "n = 8 + m" using le_Suc_ex not_less by blast
    then have "n div 8 = Suc (m div 8)" by presburger
    with m show ?thesis using Cons.IH[of m] by (auto simp: bit_or_iff bit_push_bit_iff bit_ucast_iff dest: bit_imp_le_length)
  qed
qed simp

lemma le_word_bytes:
  assumes "LENGTH('a::len) = 8 * n"
  shows "le_word (le_bytes n (w :: 'a word)) = w"
proof (rule bit_word_eqI)
  fix m assume m: "m < LENGTH('a)"
  then have "m div 8 < n" using assms by auto
  then show "bit (le_word (le_bytes n w) :: 'a word) m = bit w m"
    using m assms by (simp add: bit_le_word le_bytes_def bit_ucast_iff bit_drop_bit_eq)
qed

lemma length_le_bytes [simp]: "length (le_bytes n w) = n"
  by (simp add: le_bytes_def)

end
