(* ===== verification/Time.thy ===== *)
theory Time
  imports Endian "HOL-Library.Extended_Nat"
begin

text \<open>
  Time values (\<^verbatim>\<open>src/src/util/time.c\<close>). Absolute and relative times are 64-bit counts of
  microseconds in which the largest value stands for ``forever''. The arithmetic of the file is
  modelled on words, wrap-around included; the abstract view reads a time as an extended natural
  number, and the refinement lemmas say that each operation is the extended-number operation,
  rounded up to forever where the count does not fit.
\<close>

section \<open>Time values and the clock\<close>

record GNUNET_TIME_Absolute =
  abs_value_us :: uint64

record GNUNET_TIME_Relative =
  rel_value_us :: uint64

record GNUNET_TIME_AbsoluteNBO =
  abs_value_us_nbo :: uint64

record GNUNET_TIME_RelativeNBO =
  rel_value_us_nbo :: uint64

text \<open>
  The reading of \<^verbatim>\<open>gettimeofday\<close> and the static variable \<^verbatim>\<open>timestamp_offset\<close> (a
  \<^verbatim>\<open>long long\<close>, whose two's complement word is what the conversion to \<^verbatim>\<open>uint64_t\<close> adds).
\<close>

record time_env =
  tv_sec :: uint64
  tv_usec :: uint64
  timestamp_offset :: uint64

definition GNUNET_TIME_set_offset :: "uint64 \<Rightarrow> time_env \<Rightarrow> time_env" where
  "GNUNET_TIME_set_offset off env = env\<lparr>timestamp_offset := off\<rparr>"

definition GNUNET_TIME_get_offset :: "time_env \<Rightarrow> uint64" where
  "GNUNET_TIME_get_offset env = timestamp_offset env"

definition GNUNET_TIME_relative_get_zero :: GNUNET_TIME_Relative where
  "GNUNET_TIME_relative_get_zero = \<lparr>rel_value_us = 0\<rparr>"

definition GNUNET_TIME_absolute_get_zero :: GNUNET_TIME_Absolute where
  "GNUNET_TIME_absolute_get_zero = \<lparr>abs_value_us = 0\<rparr>"

definition GNUNET_TIME_relative_get_unit :: GNUNET_TIME_Relative where
  "GNUNET_TIME_relative_get_unit = \<lparr>rel_value_us = 1\<rparr>"

definition GNUNET_TIME_relative_get_millisecond :: GNUNET_TIME_Relative where
  "GNUNET_TIME_relative_get_millisecond = \<lparr>rel_value_us = 1000\<rparr>"

definition GNUNET_TIME_relative_get_second :: GNUNET_TIME_Relative where
  "GNUNET_TIME_relative_get_second = \<lparr>rel_value_us = 1000 * 1000\<rparr>"

definition GNUNET_TIME_relative_get_minute :: GNUNET_TIME_Relative where
  "GNUNET_TIME_relative_get_minute = \<lparr>rel_value_us = 60 * 1000 * 1000\<rparr>"

definition GNUNET_TIME_relative_get_hour :: GNUNET_TIME_Relative where
  "GNUNET_TIME_relative_get_hour = \<lparr>rel_value_us = 60 * 60 * 1000 * 1000\<rparr>"

definition GNUNET_TIME_relative_get_forever :: GNUNET_TIME_Relative where
  "GNUNET_TIME_relative_get_forever = \<lparr>rel_value_us = UINT64_MAX\<rparr>"

definition GNUNET_TIME_absolute_get_forever :: GNUNET_TIME_Absolute where
  "GNUNET_TIME_absolute_get_forever = \<lparr>abs_value_us = UINT64_MAX\<rparr>"

definition GNUNET_TIME_absolute_get :: "time_env \<Rightarrow> GNUNET_TIME_Absolute" where
  "GNUNET_TIME_absolute_get env =
     \<lparr>abs_value_us = (tv_sec env * 1000 * 1000 + tv_usec env) + timestamp_offset env\<rparr>"

text \<open>Rounding to whole seconds: the return code tells whether the value was rounded already.\<close>

definition GNUNET_TIME_round_abs :: "GNUNET_TIME_Absolute \<Rightarrow> int \<times> GNUNET_TIME_Absolute" where
  "GNUNET_TIME_round_abs tm =
     (if abs_value_us tm = abs_value_us GNUNET_TIME_absolute_get_forever then (GNUNET_OK, tm)
      else if abs_value_us tm mod 1000000 = 0 then (GNUNET_OK, tm)
      else (GNUNET_NO, tm\<lparr>abs_value_us := abs_value_us tm - abs_value_us tm mod 1000000\<rparr>))"

definition GNUNET_TIME_round_rel :: "GNUNET_TIME_Relative \<Rightarrow> int \<times> GNUNET_TIME_Relative" where
  "GNUNET_TIME_round_rel rt =
     (if rel_value_us rt = rel_value_us GNUNET_TIME_relative_get_forever then (GNUNET_OK, rt)
      else if rel_value_us rt mod 1000000 = 0 then (GNUNET_OK, rt)
      else (GNUNET_NO, rt\<lparr>rel_value_us := rel_value_us rt - rel_value_us rt mod 1000000\<rparr>))"

section \<open>Arithmetic\<close>

definition GNUNET_TIME_relative_to_absolute ::
  "time_env \<Rightarrow> GNUNET_TIME_Relative \<Rightarrow> GNUNET_TIME_Absolute" where
  "GNUNET_TIME_relative_to_absolute env rel =
     (if rel_value_us rel = UINT64_MAX then GNUNET_TIME_absolute_get_forever
      else let now = GNUNET_TIME_absolute_get env in
        if rel_value_us rel + abs_value_us now < rel_value_us rel
        then GNUNET_TIME_absolute_get_forever
        else \<lparr>abs_value_us = rel_value_us rel + abs_value_us now\<rparr>)"

definition GNUNET_TIME_relative_min ::
  "GNUNET_TIME_Relative \<Rightarrow> GNUNET_TIME_Relative \<Rightarrow> GNUNET_TIME_Relative" where
  "GNUNET_TIME_relative_min t1 t2 = (if rel_value_us t1 < rel_value_us t2 then t1 else t2)"

definition GNUNET_TIME_relative_max ::
  "GNUNET_TIME_Relative \<Rightarrow> GNUNET_TIME_Relative \<Rightarrow> GNUNET_TIME_Relative" where
  "GNUNET_TIME_relative_max t1 t2 = (if rel_value_us t1 > rel_value_us t2 then t1 else t2)"

definition GNUNET_TIME_absolute_min ::
  "GNUNET_TIME_Absolute \<Rightarrow> GNUNET_TIME_Absolute \<Rightarrow> GNUNET_TIME_Absolute" where
  "GNUNET_TIME_absolute_min t1 t2 = (if abs_value_us t1 < abs_value_us t2 then t1 else t2)"

definition GNUNET_TIME_absolute_max ::
  "GNUNET_TIME_Absolute \<Rightarrow> GNUNET_TIME_Absolute \<Rightarrow> GNUNET_TIME_Absolute" where
  "GNUNET_TIME_absolute_max t1 t2 = (if abs_value_us t1 > abs_value_us t2 then t1 else t2)"

definition GNUNET_TIME_absolute_get_remaining ::
  "time_env \<Rightarrow> GNUNET_TIME_Absolute \<Rightarrow> GNUNET_TIME_Relative" where
  "GNUNET_TIME_absolute_get_remaining env future =
     (if abs_value_us future = UINT64_MAX then GNUNET_TIME_relative_get_forever
      else let now = GNUNET_TIME_absolute_get env in
        if abs_value_us now > abs_value_us future then GNUNET_TIME_relative_get_zero
        else \<lparr>rel_value_us = abs_value_us future - abs_value_us now\<rparr>)"

definition GNUNET_TIME_absolute_get_difference ::
  "GNUNET_TIME_Absolute \<Rightarrow> GNUNET_TIME_Absolute \<Rightarrow> GNUNET_TIME_Relative" where
  "GNUNET_TIME_absolute_get_difference start end =
     (if abs_value_us end = UINT64_MAX then GNUNET_TIME_relative_get_forever
      else if abs_value_us end < abs_value_us start then GNUNET_TIME_relative_get_zero
      else \<lparr>rel_value_us = abs_value_us end - abs_value_us start\<rparr>)"

definition GNUNET_TIME_absolute_get_duration ::
  "time_env \<Rightarrow> GNUNET_TIME_Absolute \<Rightarrow> GNUNET_TIME_Relative" where
  "GNUNET_TIME_absolute_get_duration env whence =
     (let now = GNUNET_TIME_absolute_get env in
      if abs_value_us whence > abs_value_us now then GNUNET_TIME_relative_get_zero
      else \<lparr>rel_value_us = abs_value_us now - abs_value_us whence\<rparr>)"

definition GNUNET_TIME_absolute_add ::
  "GNUNET_TIME_Absolute \<Rightarrow> GNUNET_TIME_Relative \<Rightarrow> GNUNET_TIME_Absolute" where
  "GNUNET_TIME_absolute_add start duration =
     (if abs_value_us start = UINT64_MAX \<or> rel_value_us duration = UINT64_MAX
      then GNUNET_TIME_absolute_get_forever
      else if abs_value_us start + rel_value_us duration < abs_value_us start
      then GNUNET_TIME_absolute_get_forever
      else \<lparr>abs_value_us = abs_value_us start + rel_value_us duration\<rparr>)"

definition GNUNET_TIME_absolute_subtract ::
  "GNUNET_TIME_Absolute \<Rightarrow> GNUNET_TIME_Relative \<Rightarrow> GNUNET_TIME_Absolute" where
  "GNUNET_TIME_absolute_subtract start duration =
     (if abs_value_us start \<le> rel_value_us duration then GNUNET_TIME_absolute_get_zero
      else if abs_value_us start = abs_value_us GNUNET_TIME_absolute_get_forever
      then GNUNET_TIME_absolute_get_forever
      else \<lparr>abs_value_us = abs_value_us start - rel_value_us duration\<rparr>)"

definition GNUNET_TIME_relative_multiply ::
  "GNUNET_TIME_Relative \<Rightarrow> uint64 \<Rightarrow> GNUNET_TIME_Relative" where
  "GNUNET_TIME_relative_multiply rel factor =
     (if factor = 0 then GNUNET_TIME_relative_get_zero
      else if rel_value_us rel = rel_value_us GNUNET_TIME_relative_get_forever
      then GNUNET_TIME_relative_get_forever
      else let ret = rel_value_us rel * factor in
        if ret div factor \<noteq> rel_value_us rel then GNUNET_TIME_relative_get_forever
        else \<lparr>rel_value_us = ret\<rparr>)"

definition GNUNET_TIME_relative_saturating_multiply ::
  "GNUNET_TIME_Relative \<Rightarrow> uint64 \<Rightarrow> GNUNET_TIME_Relative" where
  "GNUNET_TIME_relative_saturating_multiply rel factor =
     (if factor = 0 then GNUNET_TIME_relative_get_zero
      else if rel_value_us rel = rel_value_us GNUNET_TIME_relative_get_forever
      then GNUNET_TIME_relative_get_forever
      else let ret = rel_value_us rel * factor in
        if ret div factor \<noteq> rel_value_us rel then GNUNET_TIME_relative_get_forever
        else \<lparr>rel_value_us = ret\<rparr>)"

definition GNUNET_TIME_relative_divide ::
  "GNUNET_TIME_Relative \<Rightarrow> uint64 \<Rightarrow> GNUNET_TIME_Relative" where
  "GNUNET_TIME_relative_divide rel factor =
     (if factor = 0 \<or> rel_value_us rel = rel_value_us GNUNET_TIME_relative_get_forever
      then GNUNET_TIME_relative_get_forever
      else \<lparr>rel_value_us = rel_value_us rel div factor\<rparr>)"

definition GNUNET_TIME_relative_add ::
  "GNUNET_TIME_Relative \<Rightarrow> GNUNET_TIME_Relative \<Rightarrow> GNUNET_TIME_Relative" where
  "GNUNET_TIME_relative_add a1 a2 =
     (if rel_value_us a1 = UINT64_MAX \<or> rel_value_us a2 = UINT64_MAX
      then GNUNET_TIME_relative_get_forever
      else if rel_value_us a1 + rel_value_us a2 < rel_value_us a1
      then GNUNET_TIME_relative_get_forever
      else \<lparr>rel_value_us = rel_value_us a1 + rel_value_us a2\<rparr>)"

definition GNUNET_TIME_relative_subtract ::
  "GNUNET_TIME_Relative \<Rightarrow> GNUNET_TIME_Relative \<Rightarrow> GNUNET_TIME_Relative" where
  "GNUNET_TIME_relative_subtract a1 a2 =
     (if rel_value_us a2 \<ge> rel_value_us a1 then GNUNET_TIME_relative_get_zero
      else if rel_value_us a1 = UINT64_MAX then GNUNET_TIME_relative_get_forever
      else \<lparr>rel_value_us = rel_value_us a1 - rel_value_us a2\<rparr>)"

text \<open>Network byte order.\<close>

definition GNUNET_TIME_relative_hton :: "GNUNET_TIME_Relative \<Rightarrow> GNUNET_TIME_RelativeNBO" where
  "GNUNET_TIME_relative_hton a = \<lparr>rel_value_us_nbo = GNUNET_htonll (rel_value_us a)\<rparr>"

definition GNUNET_TIME_relative_ntoh :: "GNUNET_TIME_RelativeNBO \<Rightarrow> GNUNET_TIME_Relative" where
  "GNUNET_TIME_relative_ntoh a = \<lparr>rel_value_us = GNUNET_ntohll (rel_value_us_nbo a)\<rparr>"

definition GNUNET_TIME_absolute_hton :: "GNUNET_TIME_Absolute \<Rightarrow> GNUNET_TIME_AbsoluteNBO" where
  "GNUNET_TIME_absolute_hton a = \<lparr>abs_value_us_nbo = GNUNET_htonll (abs_value_us a)\<rparr>"

definition GNUNET_TIME_absolute_ntoh :: "GNUNET_TIME_AbsoluteNBO \<Rightarrow> GNUNET_TIME_Absolute" where
  "GNUNET_TIME_absolute_ntoh a = \<lparr>abs_value_us = GNUNET_ntohll (abs_value_us_nbo a)\<rparr>"

lemmas time_defs =
  GNUNET_TIME_relative_get_zero_def GNUNET_TIME_absolute_get_zero_def
  GNUNET_TIME_relative_get_forever_def GNUNET_TIME_absolute_get_forever_def
  GNUNET_TIME_absolute_add_def GNUNET_TIME_absolute_subtract_def
  GNUNET_TIME_absolute_get_difference_def GNUNET_TIME_relative_to_absolute_def
  GNUNET_TIME_absolute_get_remaining_def GNUNET_TIME_absolute_get_duration_def
  GNUNET_TIME_relative_multiply_def GNUNET_TIME_relative_saturating_multiply_def
  GNUNET_TIME_relative_divide_def GNUNET_TIME_relative_add_def
  GNUNET_TIME_relative_subtract_def

section \<open>Times as extended natural numbers\<close>

definition time_abs :: "uint64 \<Rightarrow> enat" where
  "time_abs t = (if t = UINT64_MAX then \<infinity> else enat (unat t))"

text \<open>What a 64-bit time can hold of an extended number: everything from the largest word on
  is forever.\<close>

definition saturate :: "enat \<Rightarrow> enat" where
  "saturate x = (if x < enat (2 ^ 64 - 1) then x else \<infinity>)"

lemma time_abs_eq_infinity [simp]: "time_abs t = \<infinity> \<longleftrightarrow> t = UINT64_MAX"
  by (simp add: time_abs_def)

lemma time_abs_max [simp]: "time_abs UINT64_MAX = \<infinity>"
  by simp

lemma unat_lt_forever: "t \<noteq> UINT64_MAX \<longleftrightarrow> unat t < 2 ^ 64 - 1"
proof -
  have "unat t < 2 ^ 64" using unsigned_less[of t] by simp
  moreover have "t = UINT64_MAX \<longleftrightarrow> unat t = 2 ^ 64 - 1"
    by (simp only: unat_minus_one_64[symmetric] word_unat_eq_iff)
  ultimately show ?thesis by linarith
qed

lemma saturate_time_abs: "saturate (enat (unat t)) = time_abs t"
  using unat_lt_forever[of t] by (auto simp: saturate_def time_abs_def)

lemma saturate_big: "2 ^ 64 \<le> n \<Longrightarrow> saturate (enat n) = \<infinity>"
  by (simp add: saturate_def)

lemma saturate_infinity [simp]: "saturate \<infinity> = \<infinity>"
  by (simp add: saturate_def)

text \<open>The words the additions of the file compute, read as extended numbers.\<close>

lemma time_abs_add:
  "time_abs (if a = UINT64_MAX \<or> b = UINT64_MAX \<or> a + b < a then UINT64_MAX else a + b) =
   saturate (time_abs a + time_abs b)"
proof (cases "a = UINT64_MAX \<or> b = UINT64_MAX")
  case True
  then show ?thesis by (auto simp: time_abs_def)
next
  case fin: False
  show ?thesis
  proof (cases "a + b < a")
    case True
    then have "2 ^ 64 \<le> unat a + unat b" by (simp add: word_add_no_wrap)
    with fin True show ?thesis by (auto simp: time_abs_def saturate_big)
  next
    case False
    then have "unat (a + b) = unat a + unat b" by (simp add: word_add_no_wrap unat_add_no_wrap)
    with fin False show ?thesis
      by (auto simp: saturate_time_abs[of "a + b", symmetric] time_abs_def[of a] time_abs_def[of b])
  qed
qed

lemma time_abs_mult:
  assumes "f \<noteq> 0"
  shows "time_abs (if a = UINT64_MAX \<or> a * f div f \<noteq> a then UINT64_MAX else a * f) =
    saturate (time_abs a * enat (unat f))"
proof (cases "a = UINT64_MAX")
  case True
  with assms show ?thesis by (simp add: time_abs_def unat_eq_0 imult_infinity zero_enat_def[symmetric])
next
  case fin: False
  show ?thesis
  proof (cases "unat a * unat f < 2 ^ 64")
    case True
    then have "unat (a * f) = unat a * unat f" by (simp add: unat_mult_lem[symmetric])
    with fin True assms show ?thesis
      by (simp add: word_mult_overflow_check saturate_time_abs[of "a * f", symmetric]
          time_abs_def[of a])
  next
    case False
    with fin assms show ?thesis
      by (simp add: word_mult_overflow_check time_abs_def[of a] saturate_big)
  qed
qed

section \<open>The operations refine extended arithmetic\<close>

text \<open>C26: adding a duration to a point in time is addition of extended naturals, saturated to
  forever exactly when an argument is forever or the sum does not fit in 64 bits.\<close>

theorem absolute_add_refines:
  "time_abs (abs_value_us (GNUNET_TIME_absolute_add s d)) =
   saturate (time_abs (abs_value_us s) + time_abs (rel_value_us d))"
  using time_abs_add[of "abs_value_us s" "rel_value_us d"]
  by (auto simp: time_defs split: if_splits)

text \<open>Both multiplications compute the saturated product of extended naturals: the division
  test catches every overflow, and a zero factor gives zero even for forever.\<close>

lemma relative_multiply_refines:
  "time_abs (rel_value_us (GNUNET_TIME_relative_multiply r f)) =
     saturate (time_abs (rel_value_us r) * enat (unat f)) \<and>
   GNUNET_TIME_relative_saturating_multiply r f = GNUNET_TIME_relative_multiply r f"
proof (cases "f = 0")
  case True
  then show ?thesis
    by (simp add: time_defs time_abs_def saturate_def zero_enat_def)
next
  case False
  then show ?thesis
    using time_abs_mult[of f "rel_value_us r"]
    by (auto simp: time_defs Let_def split: if_splits)
qed

lemma difference_of_earlier:
  "abs_value_us s \<le> abs_value_us e \<Longrightarrow> abs_value_us e \<noteq> UINT64_MAX \<Longrightarrow>
   rel_value_us (GNUNET_TIME_absolute_get_difference s e) = abs_value_us e - abs_value_us s"
  by (auto simp: time_defs dest: leD)

lemma diff_not_max: "(s :: uint64) \<le> e \<Longrightarrow> e \<noteq> UINT64_MAX \<Longrightarrow> e - s \<noteq> UINT64_MAX"
  by (simp only: unat_lt_forever unat_sub_le)

text \<open>The difference of two times undoes the addition: from an earlier time it leads back
  to the later one, forever included.\<close>

lemma absolute_add_difference:
  assumes "abs_value_us s \<le> abs_value_us e"
  shows "GNUNET_TIME_absolute_add s (GNUNET_TIME_absolute_get_difference s e) = e"
proof (cases "abs_value_us e = UINT64_MAX")
  case True
  then show ?thesis by (cases e) (simp add: time_defs)
next
  case False
  with assms have "abs_value_us s \<noteq> UINT64_MAX" by (auto simp: word_le_nat_alt unat_lt_forever)
  moreover have "\<not> abs_value_us e < abs_value_us s" using assms by simp
  ultimately show ?thesis
    using assms False diff_not_max[OF assms False] difference_of_earlier[OF assms False]
    by (cases e) (simp add: GNUNET_TIME_absolute_add_def)
qed

text \<open>A deadline set a duration ahead leaves exactly that duration, as long as the clock
  does not move and the deadline fits: the remaining time of the absolute time of \<open>r\<close> is \<open>r\<close>.\<close>

lemma remaining_of_relative:
  assumes "rel_value_us r = UINT64_MAX \<or>
    unat (rel_value_us r) + unat (abs_value_us (GNUNET_TIME_absolute_get env)) < 2 ^ 64 - 1"
  shows "GNUNET_TIME_absolute_get_remaining env (GNUNET_TIME_relative_to_absolute env r) = r"
proof (cases "rel_value_us r = UINT64_MAX")
  case True
  then show ?thesis by (cases r) (simp add: time_defs)
next
  case False
  let ?n = "abs_value_us (GNUNET_TIME_absolute_get env)"
  have lt: "unat (rel_value_us r) + unat ?n < 2 ^ 64 - 1" using assms False by simp
  then have eq: "unat (rel_value_us r + ?n) = unat (rel_value_us r) + unat ?n"
    by (intro unat_add_no_wrap) simp
  have "\<not> rel_value_us r + ?n < rel_value_us r" "\<not> rel_value_us r + ?n < ?n"
    by (simp_all add: word_less_nat_alt eq)
  moreover have "rel_value_us r + ?n \<noteq> UINT64_MAX" using lt by (simp only: unat_lt_forever eq)
  ultimately show ?thesis using False
    by (cases r) (simp add: GNUNET_TIME_relative_to_absolute_def
        GNUNET_TIME_absolute_get_remaining_def)
qed

text \<open>Times survive the wire: network byte order conversion and its inverse.\<close>

lemma time_nbo_roundtrip:
  "GNUNET_TIME_absolute_ntoh (GNUNET_TIME_absolute_hton a) = a \<and>
   GNUNET_TIME_relative_ntoh (GNUNET_TIME_relative_hton r) = r"
  by (simp add: GNUNET_TIME_absolute_ntoh_def GNUNET_TIME_absolute_hton_def
      GNUNET_TIME_relative_ntoh_def GNUNET_TIME_relative_hton_def)

lemma relative_subtract_refines:
  "time_abs (rel_value_us (GNUNET_TIME_relative_subtract a b)) =
   (if rel_value_us b = UINT64_MAX then 0
    else time_abs (rel_value_us a) - time_abs (rel_value_us b))"
  using unat_lt_forever[of "rel_value_us a"] unat_lt_forever[of "rel_value_us b"]
  by (auto simp: time_defs time_abs_def zero_enat_def word_le_nat_alt unat_sub_le diff_not_max
      unat_minus_one_64)

lemma round_down_word:
  fixes t :: uint64
  shows "(t - t mod 1000000) mod 1000000 = 0" and "t - t mod 1000000 \<le> t"
proof -
  have "unat (t mod 1000000) \<le> unat t" by (simp add: unat_mod)
  then have le: "t mod 1000000 \<le> t" by (simp add: word_le_nat_alt)
  then have eq: "unat (t - t mod 1000000) = unat t - unat t mod 1000000"
    by (simp add: unat_sub_le unat_mod)
  then have "unat ((t - t mod 1000000) mod 1000000) = 0" by (simp add: unat_mod)
  then show "(t - t mod 1000000) mod 1000000 = 0" by (simp add: unat_eq_0)
  show "t - t mod 1000000 \<le> t" by (simp add: word_le_nat_alt eq)
qed

text \<open>Rounding returns whole seconds not after the given time, leaves forever alone, and
  reports \<^verbatim>\<open>GNUNET_OK\<close> exactly when nothing changed.\<close>

lemma round_abs_correct:
  assumes "GNUNET_TIME_round_abs t = (rc, t')"
  shows "(abs_value_us t' = UINT64_MAX \<or> abs_value_us t' mod 1000000 = 0) \<and>
    abs_value_us t' \<le> abs_value_us t \<and> (rc = GNUNET_OK \<longleftrightarrow> t' = t)"
proof (cases "abs_value_us t = UINT64_MAX \<or> abs_value_us t mod 1000000 = 0")
  case True
  with assms have "rc = GNUNET_OK \<and> t' = t"
    by (simp add: GNUNET_TIME_round_abs_def time_defs split: if_splits)
  with True show ?thesis by simp
next
  case False
  with assms have "rc = GNUNET_NO \<and> abs_value_us t' = abs_value_us t - abs_value_us t mod 1000000"
    by (auto simp: GNUNET_TIME_round_abs_def time_defs)
  with False show ?thesis using round_down_word[of "abs_value_us t"] by (metis zero_neq_one)
qed

end
