(* ===== verification/HashCode.thy ===== *)
theory HashCode
  imports Endian
begin

unbundle bit_operations_syntax

text \<open>
  512-bit hash codes (\<^verbatim>\<open>src/src/util/crypto_hash.c\<close>): the component-wise arithmetic, the
  total order used to sort hash codes, the XOR metric the DHT uses to rank peers, and single-bit
  access. A hash code is its array \<^verbatim>\<open>bits\<close> of sixteen 32-bit words; byte \<open>j\<close> of the structure
  is byte \<open>j mod 4\<close> of word \<open>j div 4\<close> in little-endian order.
\<close>

section \<open>The structure and its operations\<close>

record GNUNET_HashCode =
  bits :: "uint32 list"

definition hash_words :: nat where
  "hash_words = 16"

definition hash_wf :: "GNUNET_HashCode \<Rightarrow> bool" where
  "hash_wf h \<longleftrightarrow> length (bits h) = hash_words"

definition GNUNET_CRYPTO_hash_distance_u32 :: "GNUNET_HashCode \<Rightarrow> GNUNET_HashCode \<Rightarrow> uint32" where
  "GNUNET_CRYPTO_hash_distance_u32 a b =
     (let x1 = drop_bit 16 (bits a ! 1 - bits b ! 1);
          x2 = drop_bit 16 (bits b ! 1 - bits a ! 1)
      in x1 * x2)"

text \<open>The three component-wise loops write \<^verbatim>\<open>result->bits[i]\<close> for \<open>i = 15, \<dots>, 0\<close>.\<close>

definition GNUNET_CRYPTO_hash_difference ::
  "GNUNET_HashCode \<Rightarrow> GNUNET_HashCode \<Rightarrow> GNUNET_HashCode" where
  "GNUNET_CRYPTO_hash_difference a b =
     \<lparr>bits = map (\<lambda>i. bits b ! i - bits a ! i) [0..<hash_words]\<rparr>"

definition GNUNET_CRYPTO_hash_sum ::
  "GNUNET_HashCode \<Rightarrow> GNUNET_HashCode \<Rightarrow> GNUNET_HashCode" where
  "GNUNET_CRYPTO_hash_sum a delta =
     \<lparr>bits = map (\<lambda>i. bits delta ! i + bits a ! i) [0..<hash_words]\<rparr>"

definition GNUNET_CRYPTO_hash_xor ::
  "GNUNET_HashCode \<Rightarrow> GNUNET_HashCode \<Rightarrow> GNUNET_HashCode" where
  "GNUNET_CRYPTO_hash_xor a b =
     \<lparr>bits = map (\<lambda>i. bits a ! i XOR bits b ! i) [0..<hash_words]\<rparr>"

definition hash_byte :: "GNUNET_HashCode \<Rightarrow> nat \<Rightarrow> uint8" where
  "hash_byte h j = ucast (drop_bit (8 * (j mod 4)) (bits h ! (j div 4)))"

text \<open>\<^verbatim>\<open>None\<close> is the failed assertion on an index outside the 512 bits.\<close>

definition GNUNET_CRYPTO_hash_get_bit :: "GNUNET_HashCode \<Rightarrow> nat \<Rightarrow> int option" where
  "GNUNET_CRYPTO_hash_get_bit code n =
     (if n < 8 * 64
      then Some (if hash_byte code (n div 8) AND push_bit (n mod 8) 1 > 0 then 1 else 0)
      else None)"

fun matching_bits_from :: "GNUNET_HashCode \<Rightarrow> GNUNET_HashCode \<Rightarrow> nat \<Rightarrow> nat \<Rightarrow> nat" where
  "matching_bits_from first second 0 i = i"
| "matching_bits_from first second (Suc k) i =
     (if GNUNET_CRYPTO_hash_get_bit first i \<noteq> GNUNET_CRYPTO_hash_get_bit second i then i
      else matching_bits_from first second k (Suc i))"

definition GNUNET_CRYPTO_hash_matching_bits :: "GNUNET_HashCode \<Rightarrow> GNUNET_HashCode \<Rightarrow> nat" where
  "GNUNET_CRYPTO_hash_matching_bits first second = matching_bits_from first second (64 * 8) 0"

text \<open>The comparison loop runs from word \<open>n - 1\<close> down to word 0.\<close>

fun hash_cmp_from :: "nat \<Rightarrow> uint32 list \<Rightarrow> uint32 list \<Rightarrow> int" where
  "hash_cmp_from 0 i1 i2 = 0"
| "hash_cmp_from (Suc i) i1 i2 =
     (if i1 ! i > i2 ! i then 1
      else if i1 ! i < i2 ! i then - 1
      else hash_cmp_from i i1 i2)"

definition GNUNET_CRYPTO_hash_cmp :: "GNUNET_HashCode \<Rightarrow> GNUNET_HashCode \<Rightarrow> int" where
  "GNUNET_CRYPTO_hash_cmp h1 h2 = hash_cmp_from hash_words (bits h1) (bits h2)"

fun hash_xorcmp_from :: "nat \<Rightarrow> uint32 list \<Rightarrow> uint32 list \<Rightarrow> uint32 list \<Rightarrow> int" where
  "hash_xorcmp_from 0 h1 h2 target = 0"
| "hash_xorcmp_from (Suc i) h1 h2 target =
     (let d1 = h1 ! i XOR target ! i; d2 = h2 ! i XOR target ! i in
      if d1 > d2 then 1
      else if d1 < d2 then - 1
      else hash_xorcmp_from i h1 h2 target)"

definition GNUNET_CRYPTO_hash_xorcmp ::
  "GNUNET_HashCode \<Rightarrow> GNUNET_HashCode \<Rightarrow> GNUNET_HashCode \<Rightarrow> int" where
  "GNUNET_CRYPTO_hash_xorcmp h1 h2 target =
     hash_xorcmp_from hash_words (bits h1) (bits h2) (bits target)"

section \<open>The number a hash code stands for\<close>

text \<open>Word 15 is the most significant one for the comparison functions.\<close>

fun words_val :: "nat \<Rightarrow> uint32 list \<Rightarrow> int" where
  "words_val 0 ws = 0"
| "words_val (Suc i) ws = uint (ws ! i) * 2 ^ (32 * i) + words_val i ws"

definition hash_val :: "GNUNET_HashCode \<Rightarrow> int" where
  "hash_val h = words_val hash_words (bits h)"

lemma words_val_bounds: "0 \<le> words_val n ws \<and> words_val n ws < 2 ^ (32 * n)"
proof (induction n)
  case 0
  then show ?case by simp
next
  case (Suc n)
  have "uint (ws ! n) \<le> 2 ^ 32 - 1" using uint_lt2p[of "ws ! n"] by simp
  then have "uint (ws ! n) * 2 ^ (32 * n) \<le> (2 ^ 32 - 1) * 2 ^ (32 * n)"
    by (rule mult_right_mono) simp
  also have "\<dots> = 2 ^ (32 * Suc n) - 2 ^ (32 * n)" by (simp add: power_add)
  finally have "uint (ws ! n) * 2 ^ (32 * n) \<le> 2 ^ (32 * Suc n) - 2 ^ (32 * n)" .
  moreover have "0 \<le> uint (ws ! n) * 2 ^ (32 * n)" by simp
  ultimately show ?case using Suc.IH unfolding words_val.simps by linarith
qed

lemma words_val_less:
  assumes "ws ! n < vs ! n"
  shows "words_val (Suc n) ws < words_val (Suc n) vs"
proof -
  have "uint (ws ! n) + 1 \<le> uint (vs ! n)" using assms by (simp add: word_less_def)
  then have "(uint (ws ! n) + 1) * 2 ^ (32 * n) \<le> uint (vs ! n) * 2 ^ (32 * n)"
    by (rule mult_right_mono) simp
  then show ?thesis
    using words_val_bounds[of n ws] words_val_bounds[of n vs] by (simp add: algebra_simps)
qed

lemma hash_cmp_from_val: "hash_cmp_from n ws vs = sgn (words_val n ws - words_val n vs)"
proof (induction n)
  case 0
  then show ?case by simp
next
  case (Suc n)
  consider "vs ! n < ws ! n" | "ws ! n < vs ! n" | "ws ! n = vs ! n" by fastforce
  then show ?case
  proof cases
    case 1
    then show ?thesis using words_val_less[OF 1] by simp
  next
    case 2
    then show ?thesis using words_val_less[OF 2] by (simp add: not_less_iff_gr_or_eq)
  next
    case 3
    then show ?thesis using Suc.IH by simp
  qed
qed

lemma hash_cmp_val: "GNUNET_CRYPTO_hash_cmp h1 h2 = sgn (hash_val h1 - hash_val h2)"
  by (simp add: GNUNET_CRYPTO_hash_cmp_def hash_val_def hash_cmp_from_val)

lemma words_val_inj:
  "words_val n ws = words_val n vs \<Longrightarrow> i < n \<Longrightarrow> ws ! i = vs ! i"
proof (induction n)
  case 0
  then show ?case by simp
next
  case (Suc n)
  have eq: "ws ! n = vs ! n"
    using words_val_less[of ws n vs] words_val_less[of vs n ws] Suc.prems(1) by fastforce
  with Suc show ?case by (cases "i = n") auto
qed

lemma hash_val_inj: "hash_wf g \<Longrightarrow> hash_wf h \<Longrightarrow> hash_val g = hash_val h \<longleftrightarrow> g = h"
  by (cases g; cases h)
    (auto simp: hash_val_def hash_wf_def intro!: nth_equalityI dest: words_val_inj)

section \<open>Correctness\<close>

text \<open>The comparison of two hash codes is the comparison of the 512-bit numbers they stand
  for, so it is a total order whose equality is equality of hash codes.\<close>

lemma hash_cmp_total_order:
  assumes "hash_wf h1" and "hash_wf h2"
  shows "GNUNET_CRYPTO_hash_cmp h1 h2 = sgn (hash_val h1 - hash_val h2) \<and>
    (GNUNET_CRYPTO_hash_cmp h1 h2 = 0 \<longleftrightarrow> h1 = h2)"
  using hash_val_inj[OF assms] by (simp add: hash_cmp_val sgn_0_0)

definition hash_of_word :: "uint32 \<Rightarrow> GNUNET_HashCode" where
  "hash_of_word w = \<lparr>bits = w # replicate 15 0\<rparr>"

lemma hash_of_word_wf [simp]: "hash_wf (hash_of_word w)"
  by (simp add: hash_of_word_def hash_wf_def hash_words_def)

lemma hash_xor_wf [simp]: "hash_wf (GNUNET_CRYPTO_hash_xor a b)"
  by (simp add: GNUNET_CRYPTO_hash_xor_def hash_wf_def)

lemma hash_xor_nth: "i < hash_words \<Longrightarrow> bits (GNUNET_CRYPTO_hash_xor a b) ! i = bits a ! i XOR bits b ! i"
  by (simp add: GNUNET_CRYPTO_hash_xor_def)

lemma hash_xorcmp_from_xor:
  "n \<le> hash_words \<Longrightarrow>
   hash_xorcmp_from n (bits h1) (bits h2) (bits t) =
   hash_cmp_from n (bits (GNUNET_CRYPTO_hash_xor h1 t)) (bits (GNUNET_CRYPTO_hash_xor h2 t))"
  by (induction n) (simp_all add: Let_def hash_xor_nth)

lemma hash_xor_cancel:
  "hash_wf a \<Longrightarrow> hash_wf b \<Longrightarrow> GNUNET_CRYPTO_hash_xor (GNUNET_CRYPTO_hash_xor a b) b = a"
  by (cases a) (auto simp: GNUNET_CRYPTO_hash_xor_def hash_wf_def xor.assoc intro!: nth_equalityI)

lemma hash_xor_inj:
  assumes "hash_wf a" "hash_wf b" "hash_wf t"
  shows "GNUNET_CRYPTO_hash_xor a t = GNUNET_CRYPTO_hash_xor b t \<longleftrightarrow> a = b"
  using hash_xor_cancel[OF assms(1,3)] hash_xor_cancel[OF assms(2,3)] by metis

text \<open>\<^verbatim>\<open>GNUNET_CRYPTO_hash_xorcmp\<close> ranks by the XOR metric of Kademlia: it compares the numbers
  \<open>h1 xor target\<close> and \<open>h2 xor target\<close>, and reports a tie only for equal hash codes.\<close>

lemma hash_xorcmp_metric:
  assumes "hash_wf h1" and "hash_wf h2" and "hash_wf t"
  shows "GNUNET_CRYPTO_hash_xorcmp h1 h2 t =
      sgn (hash_val (GNUNET_CRYPTO_hash_xor h1 t) - hash_val (GNUNET_CRYPTO_hash_xor h2 t)) \<and>
    (GNUNET_CRYPTO_hash_xorcmp h1 h2 t = 0 \<longleftrightarrow> h1 = h2)"
proof -
  have "GNUNET_CRYPTO_hash_xorcmp h1 h2 t =
      sgn (hash_val (GNUNET_CRYPTO_hash_xor h1 t) - hash_val (GNUNET_CRYPTO_hash_xor h2 t))"
    by (simp add: GNUNET_CRYPTO_hash_xorcmp_def hash_xorcmp_from_xor hash_cmp_from_val hash_val_def)
  then show ?thesis
    using hash_val_inj[of "GNUNET_CRYPTO_hash_xor h1 t" "GNUNET_CRYPTO_hash_xor h2 t"]
      hash_xor_inj[OF assms] by (simp add: sgn_0_0)
qed

text \<open>The sum undoes the difference: \<open>a + (b - a) = b\<close> and \<open>(a + d) - a = d\<close>, word by word
  with wrap-around.\<close>

lemma hash_sum_difference:
  assumes "hash_wf b"
  shows "GNUNET_CRYPTO_hash_sum a (GNUNET_CRYPTO_hash_difference a b) = b \<and>
    GNUNET_CRYPTO_hash_difference a (GNUNET_CRYPTO_hash_sum a b) = b"
  using assms
  by (cases b)
    (auto simp: GNUNET_CRYPTO_hash_sum_def GNUNET_CRYPTO_hash_difference_def hash_wf_def
      intro!: nth_equalityI)

lemma and_push_bit_pos: "(x AND push_bit k (1 :: 'a::len word) > 0) = bit x k"
  by (simp add: word_gt_0 bit_iff_and_push_bit_not_eq_0)

text \<open>Bit \<open>n\<close> is bit \<open>n mod 32\<close> of word \<open>n div 32\<close>: the byte view and the word view agree.\<close>

lemma hash_get_bit_word:
  assumes "n < 512"
  shows "GNUNET_CRYPTO_hash_get_bit h n =
    Some (if bit (bits h ! (n div 32)) (n mod 32) then 1 else 0)"
proof -
  have d: "n div 8 div 4 = n div 32" by simp
  have m: "8 * (n div 8 mod 4) + n mod 8 = n mod 32" using mod_mult2_eq[of n 8 4] by simp
  have "bit (hash_byte h (n div 8)) (n mod 8) = bit (bits h ! (n div 32)) (n mod 32)"
    unfolding hash_byte_def bit_ucast_iff bit_drop_bit_eq o_def d m by simp
  with assms show ?thesis unfolding GNUNET_CRYPTO_hash_get_bit_def and_push_bit_pos by simp
qed

lemma matching_bits_from_bounds:
  "i \<le> matching_bits_from a b k i" "matching_bits_from a b k i \<le> i + k"
proof (induction k arbitrary: i)
  case (Suc k)
  {
    case 1
    then show ?case using Suc.IH(1)[of "Suc i"] by simp
  next
    case 2
    then show ?case using Suc.IH(2)[of "Suc i"] by simp
  }
qed simp_all

lemma matching_bits_from_same:
  "i \<le> j \<Longrightarrow> j < matching_bits_from a b k i \<Longrightarrow>
   GNUNET_CRYPTO_hash_get_bit a j = GNUNET_CRYPTO_hash_get_bit b j"
proof (induction k arbitrary: i)
  case (Suc k)
  then show ?case using Suc.IH[of "Suc i"] by (cases "i = j") (auto split: if_splits)
qed simp

lemma matching_bits_from_differ:
  "matching_bits_from a b k i < i + k \<Longrightarrow>
   GNUNET_CRYPTO_hash_get_bit a (matching_bits_from a b k i) \<noteq>
   GNUNET_CRYPTO_hash_get_bit b (matching_bits_from a b k i)"
  by (induction k arbitrary: i) (auto split: if_splits)

lemma hash_eq_iff_bits:
  assumes "hash_wf a" "hash_wf b"
  shows "a = b \<longleftrightarrow> (\<forall>n < 512. GNUNET_CRYPTO_hash_get_bit a n = GNUNET_CRYPTO_hash_get_bit b n)"
proof
  assume eq: "\<forall>n < 512. GNUNET_CRYPTO_hash_get_bit a n = GNUNET_CRYPTO_hash_get_bit b n"
  have "bits a ! i = bits b ! i" if "i < 16" for i
  proof (rule bit_word_eqI)
    fix m assume "m < LENGTH(32)"
    then have m: "m < 32" by simp
    then have lt: "32 * i + m < 512" and ix: "(32 * i + m) div 32 = i" "(32 * i + m) mod 32 = m"
      using that by auto
    from eq lt have "GNUNET_CRYPTO_hash_get_bit a (32 * i + m) =
      GNUNET_CRYPTO_hash_get_bit b (32 * i + m)" by blast
    then show "bit (bits a ! i) m = bit (bits b ! i) m"
      unfolding hash_get_bit_word[OF lt] ix by (simp split: if_splits)
  qed
  then have "bits a = bits b" using assms
    by (intro nth_equalityI) (auto simp: hash_wf_def hash_words_def)
  then show "a = b" by simp
qed simp

text \<open>The number of matching bits is the length of the common prefix: all earlier bits
  agree, the bit there (if any is left) differs, and it is 512 exactly for equal hash codes.\<close>

lemma hash_matching_bits_prefix:
  assumes "hash_wf a" and "hash_wf b"
  shows "(\<forall>j < GNUNET_CRYPTO_hash_matching_bits a b.
      GNUNET_CRYPTO_hash_get_bit a j = GNUNET_CRYPTO_hash_get_bit b j) \<and>
    (GNUNET_CRYPTO_hash_matching_bits a b < 512 \<longrightarrow>
      GNUNET_CRYPTO_hash_get_bit a (GNUNET_CRYPTO_hash_matching_bits a b) \<noteq>
      GNUNET_CRYPTO_hash_get_bit b (GNUNET_CRYPTO_hash_matching_bits a b)) \<and>
    (GNUNET_CRYPTO_hash_matching_bits a b = 512 \<longleftrightarrow> a = b)"
proof -
  let ?r = "GNUNET_CRYPTO_hash_matching_bits a b"
  have same: "\<forall>j < ?r. GNUNET_CRYPTO_hash_get_bit a j = GNUNET_CRYPTO_hash_get_bit b j"
    unfolding GNUNET_CRYPTO_hash_matching_bits_def by (auto intro: matching_bits_from_same[of 0])
  have differ: "?r < 512 \<Longrightarrow> GNUNET_CRYPTO_hash_get_bit a ?r \<noteq> GNUNET_CRYPTO_hash_get_bit b ?r"
    using matching_bits_from_differ[of a b 512 0] by (simp add: GNUNET_CRYPTO_hash_matching_bits_def)
  have "?r \<le> 512"
    using matching_bits_from_bounds(2)[of a b 512 0] by (simp add: GNUNET_CRYPTO_hash_matching_bits_def)
  then have "a = b \<Longrightarrow> ?r = 512" using differ by fastforce
  moreover have "?r = 512 \<Longrightarrow> a = b" using same by (simp add: hash_eq_iff_bits[OF assms])
  ultimately show ?thesis using same differ by blast
qed

end
