(* ===== verification/Interfaces.thy ===== *)
theory Interfaces
  imports Prelude
begin

text \<open>
  The interfaces between components: a priority queue whose elements carry the address of their
  node, a multimap, and a multimap used as a finite map. Each is a locale over the operations a client
  calls, with the laws the provider promises; what clients need of any provider is proved here once.
  The heap interprets the first, each of the four chained hash maps the other two.
\<close>

section \<open>Priority queues with handles\<close>

text \<open>Taking the first element repeatedly.\<close>

fun pops :: "('q \<Rightarrow> 'a option \<times> 'q) \<Rightarrow> nat \<Rightarrow> 'q \<Rightarrow> 'a list \<times> 'q" where
  "pops pop 0 q = ([], q)"
| "pops pop (Suc k) q =
     (case pop q of
        (None, q') \<Rightarrow> ([], q')
      | (Some e, q') \<Rightarrow> (case pops pop k q' of (es, q'') \<Rightarrow> (e # es, q'')))"

locale handle_queue =
  fixes insert :: "'q \<Rightarrow> nat \<Rightarrow> 'a \<Rightarrow> uint64 \<Rightarrow> 'q option"
    and pop :: "'q \<Rightarrow> 'a option \<times> 'q"
    and data :: "'q \<Rightarrow> (nat \<times> 'a \<times> uint64) multiset"
    and inv :: "'q \<Rightarrow> bool"
    and before :: "uint64 \<Rightarrow> uint64 \<Rightarrow> bool"
  assumes insert_law: "inv q \<Longrightarrow> a \<notin> fst ` set_mset (data q) \<Longrightarrow>
      \<exists>q'. insert q a e c = Some q' \<and> inv q' \<and> data q' = add_mset (a, e, c) (data q)"
    and pop_empty: "inv q \<Longrightarrow> data q = {#} \<Longrightarrow> pop q = (None, q)"
    and pop_first: "inv q \<Longrightarrow> data q \<noteq> {#} \<Longrightarrow>
      \<exists>a e c q'. pop q = (Some e, q') \<and> inv q' \<and> data q = add_mset (a, e, c) (data q') \<and>
        (\<forall>a' e' c'. (a', e', c') \<in># data q \<longrightarrow> before c c')"
begin

text \<open>Popping everything lists the elements in the order of their costs: heap sort.\<close>

lemma pops_sorted:
  "inv q \<Longrightarrow> size (data q) = n \<Longrightarrow>
   \<exists>ts q'. pops pop n q = (map (\<lambda>(a, e, c). e) ts, q') \<and> mset ts = data q \<and> data q' = {#} \<and>
     sorted_wrt before (map (\<lambda>(a, e, c). c) ts)"
proof (induction n arbitrary: q)
  case 0
  then show ?case by simp
next
  case (Suc n)
  then have "data q \<noteq> {#}" by auto
  then obtain a e c q1 where p: "pop q = (Some e, q1)" and i: "inv q1"
    and d: "data q = add_mset (a, e, c) (data q1)"
    and b: "\<forall>a' e' c'. (a', e', c') \<in># data q \<longrightarrow> before c c'"
    using pop_first[OF Suc.prems(1)] by blast
  have "size (data q1) = n" using Suc.prems(2) d by simp
  then obtain ts q2 where r: "pops pop n q1 = (map (\<lambda>(a, e, c). e) ts, q2)" "mset ts = data q1"
      "data q2 = {#}" "sorted_wrt before (map (\<lambda>(a, e, c). c) ts)"
    using Suc.IH[OF i] by blast
  have "\<forall>t \<in> set ts. t \<in># data q" using r(2) d by (metis set_mset_mset union_single_eq_member
        add_mset_add_single insert_iff set_mset_add_mset_insert)
  then have "\<forall>x \<in> set (map (\<lambda>(a, e, c). c) ts). before c x" using b by auto
  then have "pops pop (Suc n) q = (map (\<lambda>(a, e, c). e) ((a, e, c) # ts), q2) \<and>
      mset ((a, e, c) # ts) = data q \<and> data q2 = {#} \<and>
      sorted_wrt before (map (\<lambda>(a, e, c). c) ((a, e, c) # ts))"
    using p d r by simp
  then show ?case by blast
qed

end

section \<open>Multimaps\<close>

locale multimap =
  fixes put :: "'m \<Rightarrow> 'k \<Rightarrow> 'v \<Rightarrow> 'm option"
    and remove :: "'m \<Rightarrow> 'k \<Rightarrow> 'v \<Rightarrow> int \<times> 'm"
    and entries :: "'m \<Rightarrow> ('k \<times> 'v) multiset"
    and inv :: "'m \<Rightarrow> bool"
    and room :: "'m \<Rightarrow> bool"
  assumes put_law: "inv m \<Longrightarrow> room m \<Longrightarrow>
      \<exists>m'. put m k v = Some m' \<and> inv m' \<and> entries m' = add_mset (k, v) (entries m)"
    and remove_law: "inv m \<Longrightarrow>
      inv (snd (remove m k v)) \<and> entries (snd (remove m k v)) = entries m - {#(k, v)#} \<and>
      (fst (remove m k v) = GNUNET_YES \<longleftrightarrow> (k, v) \<in># entries m)"
begin

text \<open>A pair that was put is found and taken out again, and the map is as before.\<close>

lemma put_remove:
  assumes "inv m" "room m"
  shows "\<exists>m'. put m k v = Some m' \<and> fst (remove m' k v) = GNUNET_YES \<and>
    entries (snd (remove m' k v)) = entries m"
  using put_law[OF assms, of k v] remove_law by fastforce

end

section \<open>Multimaps with one value per key\<close>

text \<open>
  The options of \<^verbatim>\<open>put\<close> (\<^verbatim>\<open>enum GNUNET_CONTAINER_MultiHashMapOption\<close> in
  \<^verbatim>\<open>src/src/include/gnunet_container_lib.h\<close>).
\<close>

datatype MultiHashMapOption = OPT_REPLACE | OPT_MULTIPLE | OPT_UNIQUE_ONLY | OPT_UNIQUE_FAST

text \<open>The pairs of a finite map.\<close>

definition map_entries :: "('k \<Rightarrow> 'v option) \<Rightarrow> ('k \<times> 'v) multiset" where
  "map_entries f = image_mset (\<lambda>k. (k, the (f k))) (mset_set (dom f))"

lemma map_entries_mem: "finite (dom f) \<Longrightarrow> (k, v) \<in># map_entries f \<longleftrightarrow> f k = Some v"
  by (auto simp: map_entries_def)

lemma map_entries_insert:
  assumes "finite (dom f)" "f k = None"
  shows "map_entries (f(k \<mapsto> v)) = add_mset (k, v) (map_entries f)"
proof -
  have "k \<notin> dom f" using assms(2) by auto
  then have "mset_set (insert k (dom f)) = add_mset k (mset_set (dom f))"
    using assms(1) by (rule mset_set.insert[rotated])
  moreover have "image_mset (\<lambda>j. (j, the ((f(k \<mapsto> v)) j))) (mset_set (dom f)) = map_entries f"
    unfolding map_entries_def using assms by (intro image_mset_cong) auto
  ultimately show ?thesis by (simp add: map_entries_def)
qed

lemma map_entries_delete:
  assumes "finite (dom f)"
  shows "filter_mset (\<lambda>p. fst p \<noteq> k) (map_entries f) = map_entries (f(k := None))"
proof -
  have "filter_mset (\<lambda>j. j \<noteq> k) (mset_set (dom f)) = mset_set (dom f - {k})"
    using assms by (simp add: filter_mset_mset_set set_diff_eq)
  then have "filter_mset (\<lambda>p. fst p \<noteq> k) (map_entries f) =
      image_mset (\<lambda>j. (j, the (f j))) (mset_set (dom f - {k}))"
    by (simp add: map_entries_def filter_mset_image_mset)
  also have "\<dots> = map_entries (f(k := None))"
    unfolding map_entries_def dom_fun_upd using assms by (auto intro!: image_mset_cong)
  finally show ?thesis .
qed

lemma map_entries_size: "size (map_entries f) = card (dom f)"
  by (simp add: map_entries_def)

lemma map_entries_remove:
  assumes "finite (dom f)" "f k = Some v"
  shows "map_entries f - {#(k, v)#} = map_entries (f(k := None))"
proof -
  have "f = (f(k := None))(k \<mapsto> v)" using assms(2) by auto
  then have "map_entries f = add_mset (k, v) (map_entries (f(k := None)))"
    using map_entries_insert[of "f(k := None)" k v] assms(1) by simp
  then show ?thesis by simp
qed

locale unique_map =
  fixes put :: "'m \<Rightarrow> 'k \<Rightarrow> 'v \<Rightarrow> MultiHashMapOption \<Rightarrow> (int \<times> 'm) option"
    and get :: "'m \<Rightarrow> 'k \<Rightarrow> 'v option"
    and contains :: "'m \<Rightarrow> 'k \<Rightarrow> int"
    and remove_pair :: "'m \<Rightarrow> 'k \<Rightarrow> 'v \<Rightarrow> int \<times> 'm"
    and remove_key :: "'m \<Rightarrow> 'k \<Rightarrow> int \<times> 'm"
    and count_of :: "'m \<Rightarrow> uint32"
    and entries :: "'m \<Rightarrow> ('k \<times> 'v) multiset"
    and inv :: "'m \<Rightarrow> bool"
    and room :: "'m \<Rightarrow> bool"
  assumes put_new: "inv m \<Longrightarrow> room m \<Longrightarrow> (\<And>v. (k, v) \<notin># entries m) \<Longrightarrow>
      \<exists>m'. put m k v opt = Some (GNUNET_OK, m') \<and> inv m' \<and> entries m' = add_mset (k, v) (entries m)"
    and get_law: "inv m \<Longrightarrow>
      (case get m k of None \<Rightarrow> \<forall>v. (k, v) \<notin># entries m | Some v \<Rightarrow> (k, v) \<in># entries m)"
    and contains_law: "inv m \<Longrightarrow> contains m k = (if \<exists>v. (k, v) \<in># entries m then GNUNET_YES else GNUNET_NO)"
    and remove_pair_law: "inv m \<Longrightarrow>
      inv (snd (remove_pair m k v)) \<and> entries (snd (remove_pair m k v)) = entries m - {#(k, v)#}"
    and remove_key_law: "inv m \<Longrightarrow>
      inv (snd (remove_key m k)) \<and>
      entries (snd (remove_key m k)) = filter_mset (\<lambda>p. fst p \<noteq> k) (entries m) \<and>
      room (snd (remove_key m k)) = room m"
    and count_law: "inv m \<Longrightarrow> count_of m = of_nat (size (entries m))"
begin

text \<open>As long as keys are only stored when they are absent, the map behaves as the finite map \<open>f\<close>.\<close>

lemma get_map: "inv m \<Longrightarrow> entries m = map_entries f \<Longrightarrow> finite (dom f) \<Longrightarrow> get m k = f k"
  using get_law[of m k] by (cases "get m k") (auto simp: map_entries_mem)

lemma contains_map:
  "inv m \<Longrightarrow> entries m = map_entries f \<Longrightarrow> finite (dom f) \<Longrightarrow>
   contains m k = (if f k = None then GNUNET_NO else GNUNET_YES)"
  using contains_law[of m k] by (auto simp: map_entries_mem)

lemma put_map:
  assumes "inv m" "room m" "entries m = map_entries f" "finite (dom f)" "f k = None"
  shows "\<exists>m'. put m k v opt = Some (GNUNET_OK, m') \<and> inv m' \<and> entries m' = map_entries (f(k \<mapsto> v))"
  using put_new[OF assms(1,2), of k v opt] assms by (simp add: map_entries_mem map_entries_insert)

lemma remove_key_map:
  assumes "inv m" "entries m = map_entries f" "finite (dom f)"
  shows "inv (snd (remove_key m k))" "entries (snd (remove_key m k)) = map_entries (f(k := None))"
    "room (snd (remove_key m k)) = room m"
  using remove_key_law[OF assms(1), of k] assms by (simp_all add: map_entries_delete)

lemma remove_pair_map:
  assumes "inv m" "entries m = map_entries f" "finite (dom f)" "f k = Some v"
  shows "inv (snd (remove_pair m k v))" "entries (snd (remove_pair m k v)) = map_entries (f(k := None))"
  using remove_pair_law[OF assms(1), of k v] assms by (simp_all add: map_entries_remove)

lemma count_map: "inv m \<Longrightarrow> entries m = map_entries f \<Longrightarrow> count_of m = of_nat (card (dom f))"
  using count_law by (simp add: map_entries_size)

end

end
