(* ===== verification/ChainMap.thy ===== *)
theory ChainMap
  imports Interfaces
begin

text \<open>
  The chained hash table behind all of GNUnet's multimaps. \<^verbatim>\<open>src/src/util/container_multihashmap.c\<close>,
  \<^verbatim>\<open>container_multipeermap.c\<close>, \<^verbatim>\<open>container_multishortmap.c\<close> and \<^verbatim>\<open>container_multihashmap32.c\<close> are the same
  code for different key types; here it is written once, for any key type \<open>'k\<close> and the function
  \<open>hash\<close> that reads 32 bits of a key, and the theories of the four maps instantiate it.
  A bucket is the list of the entries its \<^verbatim>\<open>next\<close> pointers link, head first. The small and the
  big entry layout (\<^verbatim>\<open>use_small_entries\<close>) differ in where the key is stored, by pointer or by
  value; a small entry's key is required to stay alive and unchanged while the entry is in the map,
  so both layouts are the same list of key-value pairs, and the two branches of every operation are
  one definition. The entry count and the number of buckets are 32-bit words.
\<close>

section \<open>State\<close>

record ('k, 'v) MapEntry =
  me_key :: 'k
  me_value :: 'v

record ('k, 'v) ChainMap =
  mhm_map :: "('k, 'v) MapEntry list list"
  mhm_size :: uint32
  map_length :: uint32
  use_small_entries :: bool
  modification_counter :: uint32

record ('k, 'v) ChainMapIterator =
  it_me :: "('k, 'v) MapEntry list"
  it_idx :: uint32
  it_modification_counter :: uint32

section \<open>Operations\<close>

text \<open>\<^verbatim>\<open>None\<close> is the failed assertion \<^verbatim>\<open>len > 0\<close>.\<close>

definition chainmap_create :: "uint32 \<Rightarrow> bool \<Rightarrow> ('k, 'v) ChainMap option" where
  "chainmap_create len do_not_copy_keys =
     (if len = 0 then None
      else Some \<lparr>mhm_map = replicate (unat len) [], mhm_size = 0, map_length = len,
                 use_small_entries = do_not_copy_keys, modification_counter = 0\<rparr>)"

text \<open>Destroying a map frees every entry of every chain; the result is the freed entries in order.\<close>

fun destroy_buckets :: "('k, 'v) MapEntry list list \<Rightarrow> ('k, 'v) MapEntry list" where
  "destroy_buckets [] = []"
| "destroy_buckets (b # bs) = b @ destroy_buckets bs"

definition chainmap_destroy :: "('k, 'v) ChainMap \<Rightarrow> ('k, 'v) MapEntry list" where
  "chainmap_destroy m = destroy_buckets (mhm_map m)"

definition idx_of :: "('k \<Rightarrow> uint32) \<Rightarrow> ('k, 'v) ChainMap \<Rightarrow> 'k \<Rightarrow> uint32" where
  "idx_of hash m key = (hash key) mod map_length m"

abbreviation chain_of :: "('k \<Rightarrow> uint32) \<Rightarrow> ('k, 'v) ChainMap \<Rightarrow> 'k \<Rightarrow> ('k, 'v) MapEntry list" where
  "chain_of hash m key \<equiv> mhm_map m ! unat (idx_of hash m key)"

definition chainmap_size :: "('k, 'v) ChainMap \<Rightarrow> uint32" where
  "chainmap_size m = mhm_size m"

fun chain_get :: "'k \<Rightarrow> ('k, 'v) MapEntry list \<Rightarrow> 'v option" where
  "chain_get key [] = None"
| "chain_get key (e # es) = (if key = me_key e then Some (me_value e) else chain_get key es)"

definition chainmap_get ::
  "('k \<Rightarrow> uint32) \<Rightarrow> ('k, 'v) ChainMap \<Rightarrow> 'k \<Rightarrow> 'v option" where
  "chainmap_get hash m key = chain_get key (chain_of hash m key)"

text \<open>
  Iteration with a callback that threads its closure \<open>'c\<close>; a \<^verbatim>\<open>NULL\<close> callback only counts. The
  flag tells that the callback asked to stop.
\<close>

fun iterate_chain ::
  "('c \<Rightarrow> 'k \<Rightarrow> 'v \<Rightarrow> int \<times> 'c) option \<Rightarrow> ('k, 'v) MapEntry list \<Rightarrow> int \<Rightarrow> 'c \<Rightarrow>
   bool \<times> int \<times> 'c" where
  "iterate_chain f [] n c = (False, n, c)"
| "iterate_chain f (e # es) n c =
     (case f of None \<Rightarrow> iterate_chain f es (n + 1) c
      | Some it \<Rightarrow>
          (case it c (me_key e) (me_value e) of (r, c') \<Rightarrow>
             if r \<noteq> GNUNET_OK then (True, n, c') else iterate_chain f es (n + 1) c'))"

fun iterate_buckets ::
  "('c \<Rightarrow> 'k \<Rightarrow> 'v \<Rightarrow> int \<times> 'c) option \<Rightarrow> ('k, 'v) MapEntry list list \<Rightarrow> int \<Rightarrow> 'c \<Rightarrow>
   bool \<times> int \<times> 'c" where
  "iterate_buckets f [] n c = (False, n, c)"
| "iterate_buckets f (b # bs) n c =
     (case iterate_chain f b n c of (stop, n', c') \<Rightarrow>
        if stop then (True, n', c') else iterate_buckets f bs n' c')"

definition chainmap_iterate ::
  "('k, 'v) ChainMap \<Rightarrow> ('c \<Rightarrow> 'k \<Rightarrow> 'v \<Rightarrow> int \<times> 'c) option \<Rightarrow> 'c \<Rightarrow> int \<times> 'c" where
  "chainmap_iterate m f c =
     (case iterate_buckets f (mhm_map m) 0 c of (stop, n, c') \<Rightarrow>
        (if stop then GNUNET_SYSERR else n, c'))"

fun chain_remove :: "'k \<Rightarrow> 'v \<Rightarrow> ('k, 'v) MapEntry list \<Rightarrow> ('k, 'v) MapEntry list option" where
  "chain_remove key value [] = None"
| "chain_remove key value (e # es) =
     (if key = me_key e \<and> value = me_value e then Some es
      else map_option ((#) e) (chain_remove key value es))"

definition chainmap_remove ::
  "('k \<Rightarrow> uint32) \<Rightarrow> ('k, 'v) ChainMap \<Rightarrow> 'k \<Rightarrow> 'v \<Rightarrow> int \<times> ('k, 'v) ChainMap" where
  "chainmap_remove hash m key value =
     (let m1 = m\<lparr>modification_counter := modification_counter m + 1\<rparr>;
          i = unat (idx_of hash m1 key)
      in case chain_remove key value (mhm_map m1 ! i) of
           None \<Rightarrow> (GNUNET_NO, m1)
         | Some es \<Rightarrow>
             (GNUNET_YES, m1\<lparr>mhm_map := (mhm_map m1)[i := es], mhm_size := mhm_size m1 - 1\<rparr>))"

text \<open>The remaining chain and the number of unlinked entries; each one decrements the size.\<close>

fun chain_remove_all :: "'k \<Rightarrow> ('k, 'v) MapEntry list \<Rightarrow> ('k, 'v) MapEntry list \<times> nat" where
  "chain_remove_all key [] = ([], 0)"
| "chain_remove_all key (e # es) =
     (let (es', n) = chain_remove_all key es
      in if key = me_key e then (es', Suc n) else (e # es', n))"

definition chainmap_remove_all ::
  "('k \<Rightarrow> uint32) \<Rightarrow> ('k, 'v) ChainMap \<Rightarrow> 'k \<Rightarrow> int \<times> ('k, 'v) ChainMap" where
  "chainmap_remove_all hash m key =
     (let m1 = m\<lparr>modification_counter := modification_counter m + 1\<rparr>;
          i = unat (idx_of hash m1 key);
          (es, n) = chain_remove_all key (mhm_map m1 ! i)
      in (int n, m1\<lparr>mhm_map := (mhm_map m1)[i := es], mhm_size := mhm_size m1 - of_nat n\<rparr>))"

definition remove_all :: "('k \<Rightarrow> uint32) \<Rightarrow> ('k, 'v) ChainMap \<Rightarrow> 'k \<Rightarrow> 'v \<Rightarrow> int \<times> ('k, 'v) ChainMap" where
  "remove_all hash m key value = (GNUNET_OK, snd (chainmap_remove hash m key value))"

text \<open>
  Clearing iterates over the map while the callback removes from it: the chain of bucket \<open>i\<close> is
  read when the loop reaches it, and \<^verbatim>\<open>nxt\<close> is taken before the entry is removed, so the callback
  sees every entry the chain had.
\<close>

fun clear_chain :: "('k \<Rightarrow> uint32) \<Rightarrow> ('k, 'v) MapEntry list \<Rightarrow> ('k, 'v) ChainMap \<Rightarrow> ('k, 'v) ChainMap" where
  "clear_chain hash [] m = m"
| "clear_chain hash (e # es) m = clear_chain hash es (snd (remove_all hash m (me_key e) (me_value e)))"

fun clear_from :: "('k \<Rightarrow> uint32) \<Rightarrow> nat \<Rightarrow> nat \<Rightarrow> ('k, 'v) ChainMap \<Rightarrow> ('k, 'v) ChainMap" where
  "clear_from hash 0 i m = m"
| "clear_from hash (Suc k) i m = clear_from hash k (Suc i) (clear_chain hash (mhm_map m ! i) m)"

definition chainmap_clear :: "('k \<Rightarrow> uint32) \<Rightarrow> ('k, 'v) ChainMap \<Rightarrow> uint32 \<times> ('k, 'v) ChainMap" where
  "chainmap_clear hash m =
     (mhm_size m, clear_from hash (unat (map_length m)) 0 m)"

fun chain_contains :: "'k \<Rightarrow> ('k, 'v) MapEntry list \<Rightarrow> int" where
  "chain_contains key [] = GNUNET_NO"
| "chain_contains key (e # es) = (if key = me_key e then GNUNET_YES else chain_contains key es)"

definition chainmap_contains :: "('k \<Rightarrow> uint32) \<Rightarrow> ('k, 'v) ChainMap \<Rightarrow> 'k \<Rightarrow> int" where
  "chainmap_contains hash m key = chain_contains key (chain_of hash m key)"

fun chain_contains_value :: "'k \<Rightarrow> 'v \<Rightarrow> ('k, 'v) MapEntry list \<Rightarrow> int" where
  "chain_contains_value key value [] = GNUNET_NO"
| "chain_contains_value key value (e # es) =
     (if key = me_key e \<and> me_value e = value then GNUNET_YES
      else chain_contains_value key value es)"

definition chainmap_contains_value ::
  "('k \<Rightarrow> uint32) \<Rightarrow> ('k, 'v) ChainMap \<Rightarrow> 'k \<Rightarrow> 'v \<Rightarrow> int" where
  "chainmap_contains_value hash m key value =
     chain_contains_value key value (chain_of hash m key)"

text \<open>
  Growing doubles the number of buckets and moves every entry to the front of its new chain.
  \<^verbatim>\<open>None\<close>: the doubled length wrapped to zero, and the next bucket computation divides by zero.
\<close>

fun grow_chain :: "('k \<Rightarrow> uint32) \<Rightarrow> uint32 \<Rightarrow> ('k, 'v) MapEntry list \<Rightarrow> ('k, 'v) MapEntry list list \<Rightarrow> ('k, 'v) MapEntry list list" where
  "grow_chain hash new_len [] new_map = new_map"
| "grow_chain hash new_len (e # es) new_map =
     (let idx = unat ((hash (me_key e)) mod new_len)
      in grow_chain hash new_len es (new_map[idx := e # new_map ! idx]))"

fun grow_buckets ::
  "('k \<Rightarrow> uint32) \<Rightarrow> uint32 \<Rightarrow> ('k, 'v) MapEntry list list \<Rightarrow> ('k, 'v) MapEntry list list \<Rightarrow> ('k, 'v) MapEntry list list" where
  "grow_buckets hash new_len [] new_map = new_map"
| "grow_buckets hash new_len (b # bs) new_map = grow_buckets hash new_len bs (grow_chain hash new_len b new_map)"

definition grow :: "('k \<Rightarrow> uint32) \<Rightarrow> ('k, 'v) ChainMap \<Rightarrow> ('k, 'v) ChainMap option" where
  "grow hash m =
     (let new_len = map_length m * 2
      in if new_len = 0 then None
         else Some (m\<lparr>modification_counter := modification_counter m + 1,
                      map_length := new_len,
                      mhm_map := grow_buckets hash new_len (mhm_map m) (replicate (unat new_len) [])\<rparr>))"

fun chain_replace :: "'k \<Rightarrow> 'v \<Rightarrow> ('k, 'v) MapEntry list \<Rightarrow> ('k, 'v) MapEntry list" where
  "chain_replace key value [] = []"
| "chain_replace key value (e # es) =
     (if key = me_key e then e\<lparr>me_value := value\<rparr> # es else e # chain_replace key value es)"

definition mhm_push :: "('k \<Rightarrow> uint32) \<Rightarrow> ('k, 'v) ChainMap \<Rightarrow> 'k \<Rightarrow> 'v \<Rightarrow> ('k, 'v) ChainMap" where
  "mhm_push hash m key value =
     (let i = unat (idx_of hash m key)
      in m\<lparr>mhm_map := (mhm_map m)[i := \<lparr>me_key = key, me_value = value\<rparr> # mhm_map m ! i],
           mhm_size := mhm_size m + 1\<rparr>)"

definition chainmap_put ::
  "('k \<Rightarrow> uint32) \<Rightarrow> ('k, 'v) ChainMap \<Rightarrow> 'k \<Rightarrow> 'v \<Rightarrow> MultiHashMapOption \<Rightarrow> (int \<times> ('k, 'v) ChainMap) option"
  where
  "chainmap_put hash m key value opt =
     (let i = unat (idx_of hash m key)
      in if opt \<noteq> OPT_MULTIPLE \<and> opt \<noteq> OPT_UNIQUE_FAST \<and>
            chain_contains key (mhm_map m ! i) = GNUNET_YES
         then (if opt = OPT_UNIQUE_ONLY then Some (GNUNET_SYSERR, m)
               else Some (GNUNET_NO, m\<lparr>mhm_map := (mhm_map m)[i := chain_replace key value (mhm_map m ! i)]\<rparr>))
         else if mhm_size m div 3 \<ge> map_length m div 4
         then map_option (\<lambda>m'. (GNUNET_OK, mhm_push hash m' key value)) (grow hash m)
         else Some (GNUNET_OK, mhm_push hash m key value))"

fun get_multiple_chain ::
  "('c \<Rightarrow> 'k \<Rightarrow> 'v \<Rightarrow> int \<times> 'c) option \<Rightarrow> 'k \<Rightarrow> ('k, 'v) MapEntry list \<Rightarrow>
   int \<Rightarrow> 'c \<Rightarrow> bool \<times> int \<times> 'c" where
  "get_multiple_chain f key [] n c = (False, n, c)"
| "get_multiple_chain f key (e # es) n c =
     (if key \<noteq> me_key e then get_multiple_chain f key es n c
      else case f of None \<Rightarrow> get_multiple_chain f key es (n + 1) c
      | Some it \<Rightarrow>
          (case it c key (me_value e) of (r, c') \<Rightarrow>
             if r \<noteq> GNUNET_OK then (True, n, c') else get_multiple_chain f key es (n + 1) c'))"

definition chainmap_get_multiple ::
  "('k \<Rightarrow> uint32) \<Rightarrow> ('k, 'v) ChainMap \<Rightarrow> 'k \<Rightarrow> ('c \<Rightarrow> 'k \<Rightarrow> 'v \<Rightarrow> int \<times> 'c) option \<Rightarrow> 'c \<Rightarrow>
   int \<times> 'c" where
  "chainmap_get_multiple hash m key f c =
     (case get_multiple_chain f key (chain_of hash m key) 0 c of (stop, n, c') \<Rightarrow>
        (if stop then GNUNET_SYSERR else n, c'))"

text \<open>
  The random entry: \<open>off\<close> is the random number below \<^verbatim>\<open>map->size\<close>. The chain scan gives the entry
  it stops at or the offset left over; falling off the last bucket is the \<^verbatim>\<open>GNUNET_break\<close> branch.
  The function returns an \<^verbatim>\<open>unsigned int\<close>, so \<^verbatim>\<open>GNUNET_SYSERR\<close> becomes the largest word.
\<close>

fun random_chain :: "('k, 'v) MapEntry list \<Rightarrow> uint32 \<Rightarrow> ('k, 'v) MapEntry + uint32" where
  "random_chain [] off = Inr off"
| "random_chain (e # es) off = (if off = 0 then Inl e else random_chain es (off - 1))"

fun random_buckets :: "('k, 'v) MapEntry list list \<Rightarrow> uint32 \<Rightarrow> ('k, 'v) MapEntry option" where
  "random_buckets [] off = None"
| "random_buckets (b # bs) off =
     (case random_chain b off of Inl e \<Rightarrow> Some e | Inr off' \<Rightarrow> random_buckets bs off')"

definition chainmap_get_random ::
  "('k, 'v) ChainMap \<Rightarrow> ('c \<Rightarrow> 'k \<Rightarrow> 'v \<Rightarrow> int \<times> 'c) option \<Rightarrow> 'c \<Rightarrow> uint32 \<Rightarrow> uint32 \<times> 'c"
  where
  "chainmap_get_random m f c off =
     (if mhm_size m = 0 then (0, c)
      else case f of None \<Rightarrow> (1, c)
      | Some it \<Rightarrow>
          (case random_buckets (mhm_map m) off of
             None \<Rightarrow> (- 1, c)
           | Some e \<Rightarrow>
               (case it c (me_key e) (me_value e) of (r, c') \<Rightarrow>
                  if r \<noteq> GNUNET_OK then (- 1, c') else (1, c'))))"

definition chainmap_iterator_create ::
  "('k, 'v) ChainMap \<Rightarrow> ('k, 'v) ChainMapIterator" where
  "chainmap_iterator_create m =
     \<lparr>it_me = mhm_map m ! 0, it_idx = 0, it_modification_counter = modification_counter m\<rparr>"

text \<open>
  One step of an iterator. \<^verbatim>\<open>None\<close> is the failed assertion that the map was not modified; an inner
  \<^verbatim>\<open>None\<close> is \<^verbatim>\<open>GNUNET_NO\<close>, no elements left. The loop that skips empty buckets ends because the
  index grows up to the length of the map; a \<open>uint32\<close> index below it cannot wrap.
\<close>

function iterator_skip ::
  "('k, 'v) ChainMap \<Rightarrow> uint32 \<Rightarrow> ('k, 'v) MapEntry list \<Rightarrow> uint32 \<times> ('k, 'v) MapEntry list" where
  "iterator_skip m idx me =
     (if idx \<ge> map_length m then (idx, me)
      else if me \<noteq> [] then (idx, me)
      else let idx' = idx + 1
        in iterator_skip m idx' (if idx' < map_length m then mhm_map m ! unat idx' else me))"
  by pat_completeness auto
termination
proof (relation "measure (\<lambda>(m, idx, me). unat (map_length m) - unat idx)", simp)
  fix m :: "('k, 'v) ChainMap" and idx idx' and me :: "('k, 'v) MapEntry list"
  assume lt: "\<not> map_length m \<le> idx" and eq: "idx' = idx + 1"
  then have "unat idx + 1 < 2 ^ 32"
    using unsigned_less[where 'a = nat, of "map_length m"] by (simp add: word_le_nat_alt)
  then have "unat (idx + 1) = unat idx + 1"
    using unat_add_no_wrap[of idx 1] by simp
  then show "((m, idx', if idx' < map_length m then mhm_map m ! unat idx' else me), m, idx, me)
      \<in> measure (\<lambda>(m, idx, me). unat (map_length m) - unat idx)"
    using lt eq by (simp add: word_le_nat_alt)
qed

declare iterator_skip.simps [simp del]

definition chainmap_iterator_next ::
  "('k, 'v) ChainMap \<Rightarrow> ('k, 'v) ChainMapIterator \<Rightarrow>
   ((('k, 'v) MapEntry) option \<times> ('k, 'v) ChainMapIterator) option" where
  "chainmap_iterator_next m iter =
     (if it_modification_counter iter \<noteq> modification_counter m then None
      else case iterator_skip m (it_idx iter) (it_me iter) of (idx, me) \<Rightarrow>
        if idx \<ge> map_length m then Some (None, iter\<lparr>it_idx := idx, it_me := me\<rparr>)
        else Some (Some (hd me), iter\<lparr>it_idx := idx, it_me := tl me\<rparr>))"

section \<open>Invariant and abstraction\<close>

text \<open>Every entry sits in the bucket of its key, there are \<^verbatim>\<open>map_length\<close> buckets, and \<^verbatim>\<open>size\<close> counts
  the entries.\<close>

definition chainmap_wf :: "('k \<Rightarrow> uint32) \<Rightarrow> ('k, 'v) ChainMap \<Rightarrow> bool" where
  "chainmap_wf hash m \<longleftrightarrow> map_length m \<noteq> 0 \<and> length (mhm_map m) = unat (map_length m) \<and>
     (\<forall>i < length (mhm_map m). \<forall>e \<in> set (mhm_map m ! i). unat (idx_of hash m (me_key e)) = i) \<and>
     mhm_size m = of_nat (length (concat (mhm_map m)))"

text \<open>The abstract value of a map: a multiset of key-value pairs, and the values under a key.\<close>

definition entry_pair :: "('k, 'v) MapEntry \<Rightarrow> 'k \<times> 'v" where
  "entry_pair e = (me_key e, me_value e)"

definition mhm_entries :: "('k, 'v) ChainMap \<Rightarrow> ('k \<times> 'v) multiset" where
  "mhm_entries m = image_mset entry_pair (mset (concat (mhm_map m)))"

lemma idx_of_lt: "chainmap_wf hash m \<Longrightarrow> unat (idx_of hash m key) < length (mhm_map m)"
  by (simp add: chainmap_wf_def idx_of_def unat_mod_lt)

lemma idx_of_update [simp]:
  "idx_of hash (m\<lparr>mhm_map := b\<rparr>) key = idx_of hash m key"
  "idx_of hash (m\<lparr>mhm_size := s\<rparr>) key = idx_of hash m key"
  "idx_of hash (m\<lparr>modification_counter := c\<rparr>) key = idx_of hash m key"
  by (simp_all add: idx_of_def)

lemma mhm_entries_update [simp]:
  "mhm_entries (m\<lparr>mhm_size := s\<rparr>) = mhm_entries m"
  "mhm_entries (m\<lparr>modification_counter := c\<rparr>) = mhm_entries m"
  by (simp_all add: mhm_entries_def)

lemma chainmap_wf_counter [simp]: "chainmap_wf hash (m\<lparr>modification_counter := c\<rparr>) = chainmap_wf hash m"
  by (simp add: chainmap_wf_def)

lemma size_mhm_entries: "size (mhm_entries m) = length (concat (mhm_map m))"
  by (simp add: mhm_entries_def)

lemma mhm_size_entries: "chainmap_wf hash m \<Longrightarrow> mhm_size m = of_nat (size (mhm_entries m))"
  by (simp add: chainmap_wf_def size_mhm_entries)

lemma chainmap_wf_bucket:
  "chainmap_wf hash m \<Longrightarrow> i < length (mhm_map m) \<Longrightarrow> e \<in> set (mhm_map m ! i) \<Longrightarrow> unat (idx_of hash m (me_key e)) = i"
  by (simp add: chainmap_wf_def)

text \<open>All entries of a key are in its chain.\<close>

lemma chain_of_filter:
  "chainmap_wf hash m \<Longrightarrow>
   filter (\<lambda>e. me_key e = key) (concat (mhm_map m)) = filter (\<lambda>e. me_key e = key) (chain_of hash m key)"
  by (rule filter_concat_bucket) (auto simp: idx_of_lt dest: chainmap_wf_bucket)

lemma mem_entries_chain:
  assumes "chainmap_wf hash m"
  shows "(key, v) \<in># mhm_entries m \<longleftrightarrow> (\<exists>e \<in> set (chain_of hash m key). me_key e = key \<and> me_value e = v)"
proof -
  have "(key, v) \<in># mhm_entries m \<longleftrightarrow>
      (\<exists>e \<in> set (filter (\<lambda>e. me_key e = key) (concat (mhm_map m))). me_value e = v)"
    by (auto simp: mhm_entries_def entry_pair_def)
  then show ?thesis using chain_of_filter[OF assms, of key] by auto
qed

lemma filter_entries_chain:
  assumes "chainmap_wf hash m"
  shows "filter_mset (\<lambda>p. fst p = key) (mhm_entries m) =
    image_mset entry_pair (mset (filter (\<lambda>e. me_key e = key) (chain_of hash m key)))"
proof -
  have "filter_mset (\<lambda>p. fst p = key) (mhm_entries m) =
      image_mset entry_pair (mset (filter (\<lambda>e. me_key e = key) (concat (mhm_map m))))"
    by (simp add: mhm_entries_def filter_mset_image_mset entry_pair_def)
  then show ?thesis by (simp only: chain_of_filter[OF assms])
qed

text \<open>Rewriting one bucket.\<close>

lemma chainmap_wf_bucket_update:
  assumes "chainmap_wf hash m" and "i < length (mhm_map m)"
    and "\<And>e. e \<in> set es \<Longrightarrow> unat (idx_of hash m (me_key e)) = i"
    and "sz + of_nat (length (mhm_map m ! i)) = mhm_size m + of_nat (length es)"
  shows "chainmap_wf hash (m\<lparr>mhm_map := (mhm_map m)[i := es], mhm_size := sz\<rparr>)"
proof -
  have "size (mset (concat ((mhm_map m)[i := es])) + mset (mhm_map m ! i)) =
      size (mset (concat (mhm_map m)) + mset es)"
    by (simp only: mset_concat_update[OF assms(2)])
  then have "length (concat ((mhm_map m)[i := es])) + length (mhm_map m ! i) =
      length (concat (mhm_map m)) + length es"
    by (simp only: size_union size_mset)
  then have "of_nat (length (concat ((mhm_map m)[i := es]))) + of_nat (length (mhm_map m ! i)) =
      (of_nat (length (concat (mhm_map m))) + of_nat (length es) :: uint32)"
    by (metis of_nat_add)
  with assms(1,4) have "sz = of_nat (length (concat ((mhm_map m)[i := es])))"
    unfolding chainmap_wf_def by (metis add_right_cancel)
  with assms(1-3) show ?thesis
    by (auto simp: chainmap_wf_def nth_list_update idx_of_def)
qed

lemma mhm_entries_bucket_update:
  assumes "i < length (mhm_map m)"
  shows "mhm_entries (m\<lparr>mhm_map := (mhm_map m)[i := es]\<rparr>) + image_mset entry_pair (mset (mhm_map m ! i)) =
    mhm_entries m + image_mset entry_pair (mset es)"
  unfolding mhm_entries_def
  using arg_cong[OF mset_concat_update[OF assms, of es], of "image_mset entry_pair"] by simp

section \<open>Lookup\<close>

lemma chain_get_None: "chain_get key es = None \<longleftrightarrow> (\<forall>e \<in> set es. me_key e \<noteq> key)"
  by (induction es) auto

lemma chain_get_Some: "chain_get key es = Some v \<Longrightarrow> \<exists>e \<in> set es. me_key e = key \<and> me_value e = v"
  by (induction es) (auto split: if_splits)

lemma chain_contains_iff: "chain_contains key es = GNUNET_YES \<longleftrightarrow> (\<exists>e \<in> set es. me_key e = key)"
  by (induction es) auto

lemma chain_contains_cases: "chain_contains key es = GNUNET_YES \<or> chain_contains key es = GNUNET_NO"
  by (induction es) auto

lemma chain_contains_value_iff:
  "chain_contains_value key v es = GNUNET_YES \<longleftrightarrow> (\<exists>e \<in> set es. me_key e = key \<and> me_value e = v)"
  by (induction es) auto

text \<open>Looking up a key returns a value stored under it, and \<^verbatim>\<open>NULL\<close> exactly when no pair with
  that key is in the map; the two membership tests decide membership of the key and of the pair.\<close>

lemma chainmap_lookup:
  assumes "chainmap_wf hash m"
  shows "(case chainmap_get hash m key of
      None \<Rightarrow> \<forall>v. (key, v) \<notin># mhm_entries m
    | Some v \<Rightarrow> (key, v) \<in># mhm_entries m) \<and>
    (chainmap_contains hash m key = GNUNET_YES \<longleftrightarrow> (\<exists>v. (key, v) \<in># mhm_entries m)) \<and>
    (chainmap_contains_value hash m key w = GNUNET_YES \<longleftrightarrow>
       (key, w) \<in># mhm_entries m)"
  by (auto simp: chainmap_get_def chainmap_contains_def
      chainmap_contains_value_def mem_entries_chain[OF assms]
      chain_get_None chain_contains_iff chain_contains_value_iff
      dest!: chain_get_Some split: option.split)

section \<open>Removal\<close>

lemma chain_remove_Some:
  "chain_remove key v es = Some es' \<Longrightarrow>
   image_mset entry_pair (mset es) = add_mset (key, v) (image_mset entry_pair (mset es')) \<and>
   set es' \<subseteq> set es"
  by (induction es arbitrary: es') (auto simp: entry_pair_def split: if_splits)

lemma chain_remove_None:
  "chain_remove key v es = None \<longleftrightarrow> (\<forall>e \<in> set es. \<not> (me_key e = key \<and> me_value e = v))"
  by (induction es) auto

lemma chain_remove_length: "chain_remove key v es = Some es' \<Longrightarrow> length es = Suc (length es')"
  by (induction es arbitrary: es') (auto split: if_splits)

lemma chainmap_remove_cases:
  assumes wf: "chainmap_wf hash m" and r: "chainmap_remove hash m key v = (rc, m')"
  shows "chainmap_wf hash m' \<and> (if (key, v) \<in># mhm_entries m
      then rc = GNUNET_YES \<and> mhm_entries m' = mhm_entries m - {#(key, v)#}
      else rc = GNUNET_NO \<and> mhm_entries m' = mhm_entries m)"
proof (cases "chain_remove key v (chain_of hash m key)")
  case None
  then have "(key, v) \<notin># mhm_entries m"
    by (auto simp: mem_entries_chain[OF wf] chain_remove_None)
  with None r wf show ?thesis
    by (auto simp: chainmap_remove_def Let_def)
next
  case (Some es)
  let ?i = "unat (idx_of hash m key)"
  have lt: "?i < length (mhm_map m)" using idx_of_lt[OF wf] .
  have mem: "(key, v) \<in># mhm_entries m"
    using Some chain_remove_None[of key v "chain_of hash m key"] by (auto simp: mem_entries_chain[OF wf])
  have m': "rc = GNUNET_YES" "m' = m\<lparr>modification_counter := modification_counter m + 1,
      mhm_map := (mhm_map m)[?i := es], mhm_size := mhm_size m - 1\<rparr>"
    using r Some by (auto simp: chainmap_remove_def Let_def)
  have "chainmap_wf hash (m\<lparr>mhm_map := (mhm_map m)[?i := es], mhm_size := mhm_size m - 1\<rparr>)"
    using chain_remove_Some[OF Some] chain_remove_length[OF Some] chainmap_wf_bucket[OF wf lt]
    by (intro chainmap_wf_bucket_update[OF wf lt]) auto
  then have wf': "chainmap_wf hash m'" unfolding m'(2) by (simp add: chainmap_wf_def idx_of_def)
  have "mhm_entries m' + image_mset entry_pair (mset (mhm_map m ! ?i)) =
      mhm_entries m + image_mset entry_pair (mset es)"
    using mhm_entries_bucket_update[OF lt, of es] unfolding m'(2) by (simp add: mhm_entries_def)
  then have "add_mset (key, v) (mhm_entries m') = mhm_entries m"
    using chain_remove_Some[OF Some] by simp
  then have "mhm_entries m' = mhm_entries m - {#(key, v)#}" by (metis add_mset_remove_trivial)
  with wf' mem m'(1) show ?thesis by simp
qed

text \<open>Removing a pair keeps the invariant, removes one occurrence of exactly that pair and
  answers \<^verbatim>\<open>GNUNET_YES\<close> if it was there, and changes nothing and answers \<^verbatim>\<open>GNUNET_NO\<close> otherwise.\<close>

lemma chainmap_remove_correct:
  assumes "chainmap_wf hash m"
  shows "chainmap_wf hash (snd (chainmap_remove hash m key v)) \<and>
    mhm_entries (snd (chainmap_remove hash m key v)) = mhm_entries m - {#(key, v)#} \<and>
    (fst (chainmap_remove hash m key v) = GNUNET_YES \<longleftrightarrow> (key, v) \<in># mhm_entries m)"
  using chainmap_remove_cases[OF assms, of key v]
  by (cases "chainmap_remove hash m key v") (auto split: if_splits)

lemma chain_remove_all_spec:
  "chain_remove_all key es =
   (filter (\<lambda>e. me_key e \<noteq> key) es, length (filter (\<lambda>e. me_key e = key) es))"
  by (induction es) auto

text \<open>Removing a key keeps the invariant, removes every pair with that key and nothing else, and
  returns how many there were.\<close>

lemma chainmap_remove_all_correct:
  assumes wf: "chainmap_wf hash m" and r: "chainmap_remove_all hash m key = (n, m')"
  shows "chainmap_wf hash m' \<and> mhm_entries m' = filter_mset (\<lambda>p. fst p \<noteq> key) (mhm_entries m) \<and>
    n = int (size (filter_mset (\<lambda>p. fst p = key) (mhm_entries m)))"
proof -
  let ?i = "unat (idx_of hash m key)"
  let ?es = "filter (\<lambda>e. me_key e \<noteq> key) (mhm_map m ! ?i)"
  let ?k = "length (filter (\<lambda>e. me_key e = key) (mhm_map m ! ?i))"
  have lt: "?i < length (mhm_map m)" using idx_of_lt[OF wf] .
  have m': "n = int ?k" "m' = m\<lparr>modification_counter := modification_counter m + 1,
      mhm_map := (mhm_map m)[?i := ?es], mhm_size := mhm_size m - of_nat ?k\<rparr>"
    using r by (auto simp: chainmap_remove_all_def chain_remove_all_spec
        Let_def)
  have len: "length (mhm_map m ! ?i) = ?k + length ?es"
    using sum_length_filter_compl[of "\<lambda>e. me_key e = key" "mhm_map m ! ?i"] by simp
  then have "chainmap_wf hash (m\<lparr>mhm_map := (mhm_map m)[?i := ?es], mhm_size := mhm_size m - of_nat ?k\<rparr>)"
    using chainmap_wf_bucket[OF wf lt] by (intro chainmap_wf_bucket_update[OF wf lt]) auto
  then have wf': "chainmap_wf hash m'" unfolding m'(2) by (simp add: chainmap_wf_def idx_of_def)
  let ?A = "image_mset entry_pair (mset (filter (\<lambda>e. me_key e = key) (mhm_map m ! ?i)))"
  let ?B = "image_mset entry_pair (mset ?es)"
  have split: "image_mset entry_pair (mset (mhm_map m ! ?i)) = ?A + ?B"
    unfolding image_mset_union[symmetric] mset_filter_partition ..
  have "mhm_entries m' + (?A + ?B) = mhm_entries m + ?B"
    using mhm_entries_bucket_update[OF lt, of ?es] unfolding m'(2) split by (simp add: mhm_entries_def)
  then have "mhm_entries m' + ?A = mhm_entries m"
    by (simp add: add.assoc[symmetric])
  moreover have A: "?A = filter_mset (\<lambda>p. fst p = key) (mhm_entries m)"
    by (simp add: filter_entries_chain[OF wf])
  ultimately have "mhm_entries m' = mhm_entries m - filter_mset (\<lambda>p. fst p = key) (mhm_entries m)"
    by (metis add_diff_cancel_right')
  then have ent: "mhm_entries m' = filter_mset (\<lambda>p. fst p \<noteq> key) (mhm_entries m)"
    by (simp only: diff_filter_mset)
  have "?k = size (filter_mset (\<lambda>p. fst p = key) (mhm_entries m))"
    unfolding A[symmetric] by (simp only: size_image_mset size_mset)
  with wf' ent m'(1) show ?thesis by simp
qed

section \<open>Clearing\<close>

lemma remove_head:
  assumes "i < length (mhm_map m)" and "unat (idx_of hash m (me_key e)) = i" and "mhm_map m ! i = e # es"
  shows "snd (remove_all hash m (me_key e) (me_value e)) =
    m\<lparr>modification_counter := modification_counter m + 1, mhm_map := (mhm_map m)[i := es],
      mhm_size := mhm_size m - 1\<rparr>"
  using assms by (simp add: remove_all_def chainmap_remove_def Let_def)

lemma clear_chain_spec:
  assumes "i < length (mhm_map m)" and "mhm_map m ! i = es"
    and "\<And>e. e \<in> set es \<Longrightarrow> unat (idx_of hash m (me_key e)) = i"
  shows "clear_chain hash es m =
    m\<lparr>modification_counter := modification_counter m + of_nat (length es),
      mhm_map := (mhm_map m)[i := []], mhm_size := mhm_size m - of_nat (length es)\<rparr>"
  using assms
proof (induction es arbitrary: m)
  case Nil
  then have "(mhm_map m)[i := []] = mhm_map m" by (metis list_update_id)
  then show ?case by simp
next
  case (Cons e es)
  let ?m = "snd (remove_all hash m (me_key e) (me_value e))"
  have m: "?m = m\<lparr>modification_counter := modification_counter m + 1, mhm_map := (mhm_map m)[i := es],
      mhm_size := mhm_size m - 1\<rparr>"
    using Cons.prems by (intro remove_head) auto
  have "clear_chain hash es ?m =
    ?m\<lparr>modification_counter := modification_counter ?m + of_nat (length es),
      mhm_map := (mhm_map ?m)[i := []], mhm_size := mhm_size ?m - of_nat (length es)\<rparr>"
    using Cons.prems unfolding m by (intro Cons.IH) (auto simp: idx_of_def)
  then show ?case by (simp add: m algebra_simps)
qed

lemma clear_from_spec:
  assumes "chainmap_wf hash m" and "i + k = length (mhm_map m)" and "\<forall>j < i. mhm_map m ! j = []"
  shows "chainmap_wf hash (clear_from hash k i m) \<and> length (mhm_map (clear_from hash k i m)) = length (mhm_map m) \<and>
    (\<forall>j < i + k. mhm_map (clear_from hash k i m) ! j = [])"
  using assms
proof (induction k arbitrary: i m)
  case 0
  then show ?case by simp
next
  case (Suc k)
  let ?es = "mhm_map m ! i"
  let ?m = "clear_chain hash ?es m"
  have lt: "i < length (mhm_map m)" using Suc.prems(2) by simp
  have m: "?m = m\<lparr>modification_counter := modification_counter m + of_nat (length ?es),
      mhm_map := (mhm_map m)[i := []], mhm_size := mhm_size m - of_nat (length ?es)\<rparr>"
    using chainmap_wf_bucket[OF Suc.prems(1) lt] by (intro clear_chain_spec[OF lt]) auto
  have "chainmap_wf hash (m\<lparr>mhm_map := (mhm_map m)[i := []], mhm_size := mhm_size m - of_nat (length ?es)\<rparr>)"
    by (rule chainmap_wf_bucket_update[OF Suc.prems(1) lt]) auto
  then have wf: "chainmap_wf hash ?m" unfolding m by (simp add: chainmap_wf_def idx_of_def)
  have "\<forall>j < Suc i. mhm_map ?m ! j = []" using Suc.prems(3) lt unfolding m by (auto simp: less_Suc_eq)
  moreover have "Suc i + k = length (mhm_map ?m)" using Suc.prems(2) unfolding m by simp
  ultimately have "chainmap_wf hash (clear_from hash k (Suc i) ?m) \<and>
      length (mhm_map (clear_from hash k (Suc i) ?m)) = length (mhm_map ?m) \<and>
      (\<forall>j < Suc i + k. mhm_map (clear_from hash k (Suc i) ?m) ! j = [])"
    by (intro Suc.IH[OF wf])
  moreover have "length (mhm_map ?m) = length (mhm_map m)" unfolding m by simp
  ultimately show ?case by simp
qed

text \<open>Clearing, which removes entries while it iterates over them, leaves an empty map in good
  shape and returns the number of entries there were.\<close>

lemma chainmap_clear_correct:
  assumes wf: "chainmap_wf hash m"
  shows "chainmap_wf hash (snd (chainmap_clear hash m)) \<and>
    mhm_entries (snd (chainmap_clear hash m)) = {#} \<and>
    mhm_size (snd (chainmap_clear hash m)) = 0 \<and>
    fst (chainmap_clear hash m) = of_nat (size (mhm_entries m))"
proof -
  let ?m = "snd (chainmap_clear hash m)"
  have "unat (map_length m) = length (mhm_map m)" using wf by (simp add: chainmap_wf_def)
  then have spec: "chainmap_wf hash ?m" "length (mhm_map ?m) = length (mhm_map m)"
      "\<forall>j < length (mhm_map m). mhm_map ?m ! j = []"
    using clear_from_spec[OF wf, of 0 "length (mhm_map m)"]
    by (auto simp: chainmap_clear_def)
  then have "concat (mhm_map ?m) = []" by (auto simp: in_set_conv_nth)
  then have ent: "mhm_entries ?m = {#}" by (simp add: mhm_entries_def)
  with mhm_size_entries[OF spec(1)] spec(1) show ?thesis
    by (simp add: chainmap_clear_def mhm_size_entries[OF wf])
qed

section \<open>Insertion and growth\<close>

lemma grow_chain_length [simp]: "length (grow_chain hash n es nm) = length nm"
  by (induction es arbitrary: nm) (simp_all add: Let_def)

lemma grow_chain_mset:
  "n \<noteq> 0 \<Longrightarrow> length nm = unat n \<Longrightarrow>
   mset (concat (grow_chain hash n es nm)) = mset es + mset (concat nm)"
proof (induction es arbitrary: nm)
  case (Cons e es)
  let ?i = "unat ((hash (me_key e)) mod n)"
  have "?i < length nm" using Cons.prems by (simp add: unat_mod_lt)
  then have "mset (concat (nm[?i := e # nm ! ?i])) = add_mset e (mset (concat nm))"
    using mset_concat_update[of ?i nm "e # nm ! ?i"] by simp
  then show ?case using Cons by (simp add: Let_def)
qed simp

definition placed :: "('k \<Rightarrow> uint32) \<Rightarrow> uint32 \<Rightarrow> ('k, 'v) MapEntry list list \<Rightarrow> bool" where
  "placed hash n nm \<longleftrightarrow> (\<forall>i < length nm. \<forall>e \<in> set (nm ! i). unat ((hash (me_key e)) mod n) = i)"

lemma placed_push:
  assumes "placed hash n nm"
  shows "placed hash n (nm[unat ((hash (me_key x)) mod n) := x # nm ! unat ((hash (me_key x)) mod n)])"
  unfolding placed_def
proof (intro allI impI ballI)
  fix i e
  let ?j = "unat ((hash (me_key x)) mod n)"
  assume i: "i < length (nm[?j := x # nm ! ?j])" and e: "e \<in> set (nm[?j := x # nm ! ?j] ! i)"
  show "unat ((hash (me_key e)) mod n) = i"
  proof (cases "i = ?j \<and> e = x")
    case False
    have lt: "i < length nm" using i by simp
    have "e \<in> set (nm ! i)" using False e lt by (cases "i = ?j") auto
    with lt assms show ?thesis unfolding placed_def by blast
  qed simp
qed

lemma grow_chain_placed: "placed hash n nm \<Longrightarrow> placed hash n (grow_chain hash n es nm)"
  by (induction es arbitrary: nm) (simp_all add: Let_def placed_push)

lemma grow_buckets_placed: "placed hash n nm \<Longrightarrow> placed hash n (grow_buckets hash n bs nm)"
  by (induction bs arbitrary: nm) (simp_all add: grow_chain_placed)

lemma grow_buckets_length [simp]: "length (grow_buckets hash n bs nm) = length nm"
  by (induction bs arbitrary: nm) simp_all

lemma grow_buckets_mset:
  "n \<noteq> 0 \<Longrightarrow> length nm = unat n \<Longrightarrow>
   mset (concat (grow_buckets hash n bs nm)) = mset (concat bs) + mset (concat nm)"
  by (induction bs arbitrary: nm) (simp_all add: grow_chain_mset)

lemma grow_correct:
  assumes wf: "chainmap_wf hash m" and g: "grow hash m = Some m'"
  shows "chainmap_wf hash m' \<and> mhm_entries m' = mhm_entries m \<and> map_length m' = map_length m * 2"
proof -
  let ?n = "map_length m * 2"
  let ?nm = "grow_buckets hash ?n (mhm_map m) (replicate (unat ?n) [])"
  have n: "?n \<noteq> 0" and m': "m' = m\<lparr>modification_counter := modification_counter m + 1,
      map_length := ?n, mhm_map := ?nm\<rparr>"
    using g by (auto simp: grow_def Let_def split: if_splits)
  have "placed hash ?n (replicate (unat ?n) [] :: ('a, 'b) MapEntry list list)" by (simp add: placed_def)
  then have "placed hash ?n ?nm" by (rule grow_buckets_placed)
  moreover have ms: "mset (concat ?nm) = mset (concat (mhm_map m))"
    using grow_buckets_mset[OF n, of "replicate (unat ?n) []" hash "mhm_map m"]
    by (simp add: concat_replicate_trivial)
  moreover have "length (concat ?nm) = length (concat (mhm_map m))" using ms by (metis size_mset)
  ultimately show ?thesis using n wf
    by (simp add: m' chainmap_wf_def idx_of_def mhm_entries_def placed_def)
qed

lemma grow_Some: "unat (map_length m) < 2 ^ 31 \<Longrightarrow> map_length m \<noteq> 0 \<Longrightarrow> \<exists>m'. grow hash m = Some m'"
proof -
  assume lt: "unat (map_length m) < 2 ^ 31" and nz: "map_length m \<noteq> 0"
  then have "unat (map_length m * 2) = unat (map_length m) * 2"
    by (simp add: unat_word_ariths)
  then have "unat (map_length m * 2) \<noteq> 0" using nz by (simp add: unat_eq_0)
  then show ?thesis by (auto simp: grow_def Let_def unat_eq_0)
qed

lemma mhm_push_correct:
  assumes wf: "chainmap_wf hash m"
  shows "chainmap_wf hash (mhm_push hash m key v) \<and> mhm_entries (mhm_push hash m key v) = add_mset (key, v) (mhm_entries m)"
proof -
  let ?i = "unat (idx_of hash m key)"
  let ?es = "\<lparr>me_key = key, me_value = v\<rparr> # mhm_map m ! ?i"
  have lt: "?i < length (mhm_map m)" using idx_of_lt[OF wf] .
  have push: "mhm_push hash m key v = m\<lparr>mhm_map := (mhm_map m)[?i := ?es], mhm_size := mhm_size m + 1\<rparr>"
    by (simp add: mhm_push_def Let_def)
  have "chainmap_wf hash (mhm_push hash m key v)" unfolding push using chainmap_wf_bucket[OF wf lt]
    by (intro chainmap_wf_bucket_update[OF wf lt]) auto
  moreover have "mhm_entries (mhm_push hash m key v) = add_mset (key, v) (mhm_entries m)"
    using mhm_entries_bucket_update[OF lt, of ?es] unfolding push by (simp add: entry_pair_def)
  ultimately show ?thesis by simp
qed

lemma chain_replace_key: "e \<in> set (chain_replace key v es) \<Longrightarrow> \<exists>e' \<in> set es. me_key e = me_key e'"
  by (induction es) (auto split: if_splits)

lemma chain_replace_length [simp]: "length (chain_replace key v es) = length es"
  by (induction es) auto

lemma chain_replace_mset:
  "chain_get key es = Some w \<Longrightarrow>
   add_mset (key, w) (image_mset entry_pair (mset (chain_replace key v es))) =
   add_mset (key, v) (image_mset entry_pair (mset es))"
  by (induction es) (auto simp: entry_pair_def split: if_splits)

text \<open>Storing a pair: what happens on each branch of the options.\<close>

lemma chainmap_put_replace:
  assumes wf: "chainmap_wf hash m" and old: "chainmap_get hash m key = Some w"
  shows "\<exists>m'. chainmap_put hash m key v OPT_REPLACE = Some (GNUNET_NO, m') \<and> chainmap_wf hash m' \<and>
    mhm_entries m' = add_mset (key, v) (mhm_entries m - {#(key, w)#})"
proof -
  let ?i = "unat (idx_of hash m key)"
  let ?es = "chain_replace key v (mhm_map m ! ?i)"
  let ?m = "m\<lparr>mhm_map := (mhm_map m)[?i := ?es]\<rparr>"
  have lt: "?i < length (mhm_map m)" using idx_of_lt[OF wf] .
  have get: "chain_get key (mhm_map m ! ?i) = Some w"
    using old by (simp add: chainmap_get_def)
  then have "chain_contains key (mhm_map m ! ?i) = GNUNET_YES"
    by (auto simp: chain_contains_iff dest: chain_get_Some)
  then have put: "chainmap_put hash m key v OPT_REPLACE = Some (GNUNET_NO, ?m)"
    by (simp add: chainmap_put_def Let_def)
  have "chainmap_wf hash (m\<lparr>mhm_map := (mhm_map m)[?i := ?es], mhm_size := mhm_size m\<rparr>)"
    using chainmap_wf_bucket[OF wf lt]
    by (intro chainmap_wf_bucket_update[OF wf lt]) (auto dest!: chain_replace_key)
  then have wf': "chainmap_wf hash ?m" by (simp add: chainmap_wf_def idx_of_def)
  let ?P = "image_mset entry_pair (mset (mhm_map m ! ?i))"
  let ?Q = "image_mset entry_pair (mset ?es)"
  have "add_mset (key, w) (mhm_entries ?m) + ?P = add_mset (key, w) (mhm_entries ?m + ?P)" by simp
  also have "\<dots> = mhm_entries m + add_mset (key, w) ?Q"
    unfolding mhm_entries_bucket_update[OF lt] by simp
  also have "\<dots> = add_mset (key, v) (mhm_entries m) + ?P"
    unfolding chain_replace_mset[OF get] by simp
  finally have "add_mset (key, w) (mhm_entries ?m) = add_mset (key, v) (mhm_entries m)"
    by (rule add_right_imp_eq)
  then have "mhm_entries ?m = add_mset (key, v) (mhm_entries m) - {#(key, w)#}"
    by (metis add_mset_remove_trivial)
  moreover have "(key, w) \<in># mhm_entries m"
    using chain_get_Some[OF get] by (simp add: mem_entries_chain[OF wf])
  ultimately have "mhm_entries ?m = add_mset (key, v) (mhm_entries m - {#(key, w)#})"
    by (simp add: diff_union_swap2)
  with put wf' show ?thesis by blast
qed

lemma chainmap_put_unique:
  assumes "chainmap_wf hash m" and "(key, w) \<in># mhm_entries m"
  shows "chainmap_put hash m key v OPT_UNIQUE_ONLY = Some (GNUNET_SYSERR, m)"
  using assms by (auto simp: chainmap_put_def Let_def mem_entries_chain chain_contains_iff)

lemma chainmap_put_new:
  assumes wf: "chainmap_wf hash m" and len: "unat (map_length m) < 2 ^ 31"
    and new: "opt = OPT_MULTIPLE \<or> opt = OPT_UNIQUE_FAST \<or> (\<forall>w. (key, w) \<notin># mhm_entries m)"
  shows "\<exists>m'. chainmap_put hash m key v opt = Some (GNUNET_OK, m') \<and> chainmap_wf hash m' \<and>
    mhm_entries m' = add_mset (key, v) (mhm_entries m)"
proof -
  have skip: "\<not> (opt \<noteq> OPT_MULTIPLE \<and> opt \<noteq> OPT_UNIQUE_FAST \<and>
      chain_contains key (chain_of hash m key) = GNUNET_YES)"
    using new by (auto simp: chain_contains_iff mem_entries_chain[OF wf])
  have nz: "map_length m \<noteq> 0" using wf by (simp add: chainmap_wf_def)
  show ?thesis
  proof (cases "mhm_size m div 3 \<ge> map_length m div 4")
    case True
    obtain m1 where g: "grow hash m = Some m1" using grow_Some[OF len nz] by blast
    then have "chainmap_put hash m key v opt = Some (GNUNET_OK, mhm_push hash m1 key v)"
      using skip True unfolding chainmap_put_def Let_def by auto
    moreover have "chainmap_wf hash m1" "mhm_entries m1 = mhm_entries m" using grow_correct[OF wf g] by auto
    ultimately show ?thesis using mhm_push_correct[of hash m1 key v] by auto
  next
    case False
    then have "chainmap_put hash m key v opt = Some (GNUNET_OK, mhm_push hash m key v)"
      using skip unfolding chainmap_put_def Let_def by auto
    then show ?thesis using mhm_push_correct[OF wf, of key v] by auto
  qed
qed

text \<open>Whenever a new pair could be stored it is, whatever the size of the table.\<close>

lemma chainmap_put_stores:
  assumes wf: "chainmap_wf hash m" and new: "\<forall>w. (key, w) \<notin># mhm_entries m"
    and put: "chainmap_put hash m key v opt = Some (r, m')"
  shows "chainmap_wf hash m' \<and> mhm_entries m' = add_mset (key, v) (mhm_entries m)"
proof -
  have "\<not> (opt \<noteq> OPT_MULTIPLE \<and> opt \<noteq> OPT_UNIQUE_FAST \<and> chain_contains key (chain_of hash m key) = GNUNET_YES)"
    using new by (auto simp: chain_contains_iff mem_entries_chain[OF wf])
  then obtain m1 where m': "m' = mhm_push hash m1 key v" and "m1 = m \<or> grow hash m = Some m1"
    using put unfolding chainmap_put_def Let_def by (auto split: if_splits)
  then have "chainmap_wf hash m1" "mhm_entries m1 = mhm_entries m" using wf grow_correct[OF wf, of m1] by auto
  then show ?thesis using mhm_push_correct[of hash m1 key v] m' by simp
qed

text \<open>Storing a pair, for all four options. The map stays in good shape and, unless the key
  is taken: gains exactly the pair (growing first when it is three quarters full). With
  \<^verbatim>\<open>REPLACE\<close> a taken key has the value that lookup finds exchanged and the answer is
  \<^verbatim>\<open>GNUNET_NO\<close>; with \<^verbatim>\<open>UNIQUE_ONLY\<close> the map is unchanged and the answer is \<^verbatim>\<open>GNUNET_SYSERR\<close>.\<close>

lemma chainmap_put_correct:
  assumes wf: "chainmap_wf hash m" and len: "unat (map_length m) < 2 ^ 31"
  shows "\<exists>rc m'. chainmap_put hash m key v opt = Some (rc, m') \<and> chainmap_wf hash m' \<and>
    (if opt = OPT_MULTIPLE \<or> opt = OPT_UNIQUE_FAST \<or> chainmap_get hash m key = None
     then rc = GNUNET_OK \<and> mhm_entries m' = add_mset (key, v) (mhm_entries m)
     else if opt = OPT_UNIQUE_ONLY then rc = GNUNET_SYSERR \<and> m' = m
     else rc = GNUNET_NO \<and> mhm_entries m' =
       add_mset (key, v) (mhm_entries m - {#(key, the (chainmap_get hash m key))#}))"
proof (cases "chainmap_get hash m key")
  case None
  then have "\<forall>w. (key, w) \<notin># mhm_entries m"
    by (auto simp: chainmap_get_def chain_get_None mem_entries_chain[OF wf])
  then show ?thesis using chainmap_put_new[OF wf len, of opt key v] None by auto
next
  case (Some w)
  then have mem: "(key, w) \<in># mhm_entries m"
    by (auto simp: chainmap_get_def mem_entries_chain[OF wf] dest: chain_get_Some)
  show ?thesis
  proof (cases opt)
    case OPT_REPLACE
    then show ?thesis using chainmap_put_replace[OF wf Some, of v] Some by auto
  next
    case OPT_UNIQUE_ONLY
    then show ?thesis using chainmap_put_unique[OF wf mem, of v] Some wf by auto
  qed (use chainmap_put_new[OF wf len, of opt key v] in auto)
qed

section \<open>Iteration\<close>

lemma iterate_chain_all:
  "(\<And>c k v. fst (it c k v) = GNUNET_OK) \<Longrightarrow>
   iterate_chain (Some it) es n c =
   (False, n + int (length es), foldl (\<lambda>c e. snd (it c (me_key e) (me_value e))) c es)"
  by (induction es arbitrary: n c) (auto simp: case_prod_beta)

lemma iterate_buckets_all:
  "(\<And>c k v. fst (it c k v) = GNUNET_OK) \<Longrightarrow>
   iterate_buckets (Some it) bs n c =
   (False, n + int (length (concat bs)),
    foldl (\<lambda>c e. snd (it c (me_key e) (me_value e))) c (concat bs))"
  by (induction bs arbitrary: n c) (simp_all add: iterate_chain_all)

text \<open>A callback that always answers \<^verbatim>\<open>GNUNET_OK\<close> is called exactly once for every pair in
  the map (its closure is folded over a listing of the pairs), and the result is their number.\<close>

lemma chainmap_iterate_all:
  assumes "chainmap_wf hash m" and "\<And>c k v. fst (it c k v) = GNUNET_OK"
  shows "\<exists>ps. mset ps = mhm_entries m \<and>
    chainmap_iterate m (Some it) c =
      (int (size (mhm_entries m)), foldl (\<lambda>c (k, v). snd (it c k v)) c ps)"
proof -
  let ?ps = "map entry_pair (concat (mhm_map m))"
  have "foldl (\<lambda>c (k, v). snd (it c k v)) c ?ps =
      foldl (\<lambda>c e. snd (it c (me_key e) (me_value e))) c (concat (mhm_map m))"
    unfolding foldl_map entry_pair_def by simp
  moreover have "mset ?ps = mhm_entries m" by (simp add: mhm_entries_def)
  ultimately show ?thesis
    unfolding chainmap_iterate_def iterate_buckets_all[OF assms(2)]
    by (intro exI[of _ ?ps]) (simp add: size_mhm_entries)
qed

text \<open>The entries an iterator has still to deliver.\<close>

definition iterator_rest :: "('k, 'v) ChainMap \<Rightarrow> uint32 \<Rightarrow> ('k, 'v) MapEntry list \<Rightarrow> ('k, 'v) MapEntry list" where
  "iterator_rest m idx me =
     (if idx < map_length m then me @ concat (drop (Suc (unat idx)) (mhm_map m)) else [])"

lemma iterator_skip_spec:
  assumes "length (mhm_map m) = unat (map_length m)"
  shows "case iterator_skip m idx me of (idx', me') \<Rightarrow>
    (if iterator_rest m idx me = [] then idx' \<ge> map_length m
     else idx' < map_length m \<and> me' \<noteq> [] \<and> iterator_rest m idx' me' = iterator_rest m idx me)"
  using assms
proof (induction m idx me rule: iterator_skip.induct)
  case (1 m idx me)
  show ?case
  proof (cases "idx \<ge> map_length m \<or> me \<noteq> []")
    case True
    then show ?thesis by (auto simp: iterator_skip.simps[of m idx] iterator_rest_def not_le)
  next
    case False
    let ?i = "idx + 1"
    let ?me = "if ?i < map_length m then mhm_map m ! unat ?i else me"
    have lt: "unat idx < unat (map_length m)" using False by (simp add: word_le_nat_alt not_le)
    then have "unat idx + 1 < 2 ^ 32"
      using unsigned_less[where 'a = nat, of "map_length m"] by simp
    then have suc: "unat ?i = Suc (unat idx)" using unat_add_no_wrap[of idx 1] by simp
    have rest: "iterator_rest m ?i ?me = iterator_rest m idx me"
    proof (cases "?i < map_length m")
      case True
      then have "Suc (unat idx) < length (mhm_map m)" using "1.prems" suc by (simp add: word_less_nat_alt)
      then have "drop (Suc (unat idx)) (mhm_map m) =
          mhm_map m ! Suc (unat idx) # drop (Suc (Suc (unat idx))) (mhm_map m)"
        by (rule Cons_nth_drop_Suc[symmetric])
      with True False suc show ?thesis by (simp add: iterator_rest_def not_le)
    next
      case ge: False
      then have "length (mhm_map m) \<le> Suc (unat idx)" using "1.prems" suc by (simp add: word_less_nat_alt)
      with ge False show ?thesis by (simp add: iterator_rest_def)
    qed
    have skip: "iterator_skip m idx me = iterator_skip m ?i ?me"
      using False by (subst iterator_skip.simps) (simp add: Let_def)
    have "case iterator_skip m ?i ?me of (idx', me') \<Rightarrow>
      (if iterator_rest m ?i ?me = [] then idx' \<ge> map_length m
       else idx' < map_length m \<and> me' \<noteq> [] \<and> iterator_rest m idx' me' = iterator_rest m ?i ?me)"
      using False "1.prems" by (intro "1.IH") auto
    then show ?thesis unfolding skip rest .
  qed
qed

text \<open>An iterator over an unmodified map delivers the entries one by one in order, each once:
  a step pops the head of what is left and says \<^verbatim>\<open>GNUNET_NO\<close> exactly when nothing is left. A fresh
  iterator has all the entries left.\<close>

lemma chainmap_iterator_next_pops:
  assumes wf: "chainmap_wf hash m" and mod: "it_modification_counter iter = modification_counter m"
  shows "(\<exists>iter'. chainmap_iterator_next m iter =
        Some (case iterator_rest m (it_idx iter) (it_me iter) of [] \<Rightarrow> None | e # es \<Rightarrow> Some e, iter') \<and>
      it_modification_counter iter' = modification_counter m \<and>
      iterator_rest m (it_idx iter') (it_me iter') = tl (iterator_rest m (it_idx iter) (it_me iter))) \<and>
    (let new = chainmap_iterator_create m
     in iterator_rest m (it_idx new) (it_me new) = concat (mhm_map m))"
proof
  obtain idx me where sk: "iterator_skip m (it_idx iter) (it_me iter) = (idx, me)" by fastforce
  let ?rest = "iterator_rest m (it_idx iter) (it_me iter)"
  have spec: "if ?rest = [] then idx \<ge> map_length m
      else idx < map_length m \<and> me \<noteq> [] \<and> iterator_rest m idx me = ?rest"
    using iterator_skip_spec[of m "it_idx iter" "it_me iter"] wf sk by (simp add: chainmap_wf_def)
  show "\<exists>iter'. chainmap_iterator_next m iter =
      Some (case ?rest of [] \<Rightarrow> None | e # es \<Rightarrow> Some e, iter') \<and>
      it_modification_counter iter' = modification_counter m \<and>
      iterator_rest m (it_idx iter') (it_me iter') = tl ?rest"
  proof (cases "?rest = []")
    case True
    then show ?thesis using spec sk mod
      by (simp add: chainmap_iterator_next_def iterator_rest_def leD)
  next
    case False
    then have lt: "idx < map_length m" "me \<noteq> []" and rest: "?rest = iterator_rest m idx me"
      using spec by auto
    then have "?rest = hd me # (tl me @ concat (drop (Suc (unat idx)) (mhm_map m)))"
      by (simp add: iterator_rest_def)
    then show ?thesis using lt sk mod
      by (simp add: chainmap_iterator_next_def iterator_rest_def leD)
  qed
  have "mhm_map m \<noteq> []" and "0 < map_length m"
    using wf by (auto simp: chainmap_wf_def word_gt_0 unat_eq_0)
  then show "let new = chainmap_iterator_create m
      in iterator_rest m (it_idx new) (it_me new) = concat (mhm_map m)"
    by (cases "mhm_map m")
      (simp_all add: chainmap_iterator_create_def iterator_rest_def)
qed

lemma random_chain_spec:
  "unat off < length es \<Longrightarrow> random_chain es off = Inl (es ! unat off)"
  "length es \<le> unat off \<Longrightarrow> random_chain es off = Inr (off - of_nat (length es))"
proof (induction es arbitrary: off)
  case (Cons e es)
  {
    case 1
    show ?case
    proof (cases "off = 0")
      case False
      then have "unat (off - 1) = unat off - 1" "unat off \<noteq> 0"
        by (simp_all add: unat_minus_one unat_eq_0)
      then show ?thesis using 1 False Cons.IH(1)[of "off - 1"] by (cases "unat off") auto
    qed simp
  next
    case 2
    then have "off \<noteq> 0" by auto
    then show ?case using 2 Cons.IH(2)[of "off - 1"] by (simp add: unat_minus_one algebra_simps)
  }
qed simp_all

lemma random_buckets_spec:
  "unat off < length (concat bs) \<Longrightarrow> random_buckets bs off = Some (concat bs ! unat off)"
proof (induction bs arbitrary: off)
  case (Cons b bs)
  show ?case
  proof (cases "unat off < length b")
    case True
    then show ?thesis by (simp add: random_chain_spec(1) nth_append)
  next
    case False
    then have "length b \<le> unat off" by simp
    moreover from this have "unat (of_nat (length b) :: uint32) = length b"
      by (rule le_unat_uoi)
    ultimately have "unat (off - of_nat (length b)) = unat off - length b"
      by (simp add: unat_sub word_le_nat_alt)
    then show ?thesis using Cons False by (simp add: random_chain_spec(2) nth_append)
  qed
qed simp

text \<open>With a random offset below the size, the random choice lands on an entry: the callback
  is called once, on the entry at that position, and the error branch at the end is never taken.\<close>

lemma chainmap_get_random_hits:
  assumes wf: "chainmap_wf hash m" and sz: "size (mhm_entries m) < 2 ^ 32" and off: "off < mhm_size m"
  shows "\<exists>e. entry_pair e \<in># mhm_entries m \<and>
    chainmap_get_random m (Some it) c off =
      (if fst (it c (me_key e) (me_value e)) \<noteq> GNUNET_OK then - 1 else 1,
       snd (it c (me_key e) (me_value e)))"
proof -
  let ?es = "concat (mhm_map m)"
  have "unat (mhm_size m) = size (mhm_entries m)"
    using sz by (simp add: mhm_size_entries[OF wf] unat_of_nat)
  then have lt: "unat off < length ?es" using off by (simp add: word_less_nat_alt size_mhm_entries)
  then have r: "random_buckets (mhm_map m) off = Some (?es ! unat off)" by (rule random_buckets_spec)
  have mem: "entry_pair (?es ! unat off) \<in># mhm_entries m"
    unfolding mhm_entries_def using nth_mem[OF lt] by simp
  have "mhm_size m \<noteq> 0" using off by auto
  then show ?thesis using r mem
    by (intro exI[of _ "?es ! unat off"])
      (simp add: chainmap_get_random_def case_prod_beta)
qed

lemma chainmap_create_wf:
  "chainmap_create len small = Some m \<Longrightarrow> chainmap_wf hash m \<and> mhm_entries m = {#} \<and> map_length m = len"
  by (auto simp: chainmap_create_def chainmap_wf_def mhm_entries_def concat_replicate_trivial split: if_splits)

section \<open>The multimap interfaces\<close>

text \<open>The table meets both map interfaces, for any hash function; the theories of the four maps rest on this.\<close>

abbreviation chainmap_room :: "('k, 'v) ChainMap \<Rightarrow> bool" where
  "chainmap_room m \<equiv> unat (map_length m) < 2 ^ 31"

definition chainmap_put_multiple :: "('k \<Rightarrow> uint32) \<Rightarrow> ('k, 'v) ChainMap \<Rightarrow> 'k \<Rightarrow> 'v \<Rightarrow> ('k, 'v) ChainMap option" where
  "chainmap_put_multiple hash m key v = map_option snd (chainmap_put hash m key v OPT_MULTIPLE)"

lemma chainmap_multimap:
  "multimap (chainmap_put_multiple hash) (chainmap_remove hash) mhm_entries (chainmap_wf hash) chainmap_room"
proof (unfold_locales, goal_cases)
  case (1 m k v)
  then show ?case using chainmap_put_new[of hash m OPT_MULTIPLE k v] by (auto simp: chainmap_put_multiple_def)
next
  case (2 m k v)
  then show ?case by (rule chainmap_remove_correct)
qed

lemma chainmap_unique_map:
  "unique_map (chainmap_put hash) (chainmap_get hash) (chainmap_contains hash) (chainmap_remove hash)
     (chainmap_remove_all hash) chainmap_size mhm_entries (chainmap_wf hash) chainmap_room"
proof (unfold_locales, goal_cases)
  case (1 m k v opt)
  then show ?case using chainmap_put_new[OF 1(1,2), of opt k v] by blast
next
  case (2 m k)
  then show ?case using chainmap_lookup[OF 2] by blast
next
  case (3 m k)
  then show ?case using chainmap_lookup[OF 3, of k] chain_contains_cases[of k "chain_of hash m k"]
    by (auto simp: chainmap_contains_def)
next
  case (4 m k v)
  then show ?case using chainmap_remove_correct[OF 4] by blast
next
  case (5 m k)
  then show ?case using chainmap_remove_all_correct[OF 5, of k]
    by (cases "chainmap_remove_all hash m k") (auto simp: chainmap_remove_all_def Let_def split: prod.splits)
next
  case (6 m)
  then show ?case by (simp add: chainmap_size_def mhm_size_entries)
qed

end
