(* ===== verification/MultiHashMap.thy ===== *)
theory MultiHashMap
  imports HashCode ChainMap
begin

text \<open>
  The chained hash map from hash codes to values (\<^verbatim>\<open>src/src/util/container_multihashmap.c\<close>): the
  table of theory ChainMap with hash codes as keys; the bucket is chosen by the first word of the key.
  The properties are stated for this map; its three siblings get the same laws by interpretation.
\<close>

type_synonym 'v HashEntryOf = "(GNUNET_HashCode, 'v) MapEntry"
type_synonym 'v MultiHashMap = "(GNUNET_HashCode, 'v) ChainMap"
type_synonym 'v MultiHashMapIterator = "(GNUNET_HashCode, 'v) ChainMapIterator"

definition hash_key :: "GNUNET_HashCode \<Rightarrow> uint32" where
  "hash_key key = bits key ! 0"

section \<open>Operations\<close>

definition GNUNET_CONTAINER_multihashmap_create :: "uint32 \<Rightarrow> bool \<Rightarrow> 'v MultiHashMap option" where
  "GNUNET_CONTAINER_multihashmap_create len do_not_copy_keys = chainmap_create len do_not_copy_keys"

definition GNUNET_CONTAINER_multihashmap_destroy :: "'v MultiHashMap \<Rightarrow> 'v HashEntryOf list" where
  "GNUNET_CONTAINER_multihashmap_destroy m = chainmap_destroy m"

definition GNUNET_CONTAINER_multihashmap_size :: "'v MultiHashMap \<Rightarrow> uint32" where
  "GNUNET_CONTAINER_multihashmap_size m = chainmap_size m"

definition GNUNET_CONTAINER_multihashmap_get :: "'v MultiHashMap \<Rightarrow> GNUNET_HashCode \<Rightarrow> 'v option" where
  "GNUNET_CONTAINER_multihashmap_get m key = chainmap_get hash_key m key"

definition GNUNET_CONTAINER_multihashmap_iterate :: "'v MultiHashMap \<Rightarrow> ('c \<Rightarrow> GNUNET_HashCode \<Rightarrow> 'v \<Rightarrow> int \<times> 'c) option \<Rightarrow> 'c \<Rightarrow> int \<times> 'c" where
  "GNUNET_CONTAINER_multihashmap_iterate m it c = chainmap_iterate m it c"

definition GNUNET_CONTAINER_multihashmap_remove :: "'v MultiHashMap \<Rightarrow> GNUNET_HashCode \<Rightarrow> 'v \<Rightarrow> int \<times> 'v MultiHashMap" where
  "GNUNET_CONTAINER_multihashmap_remove m key value = chainmap_remove hash_key m key value"

definition GNUNET_CONTAINER_multihashmap_remove_all :: "'v MultiHashMap \<Rightarrow> GNUNET_HashCode \<Rightarrow> int \<times> 'v MultiHashMap" where
  "GNUNET_CONTAINER_multihashmap_remove_all m key = chainmap_remove_all hash_key m key"

definition GNUNET_CONTAINER_multihashmap_clear :: "'v MultiHashMap \<Rightarrow> uint32 \<times> 'v MultiHashMap" where
  "GNUNET_CONTAINER_multihashmap_clear m = chainmap_clear hash_key m"

definition GNUNET_CONTAINER_multihashmap_contains :: "'v MultiHashMap \<Rightarrow> GNUNET_HashCode \<Rightarrow> int" where
  "GNUNET_CONTAINER_multihashmap_contains m key = chainmap_contains hash_key m key"

definition GNUNET_CONTAINER_multihashmap_contains_value :: "'v MultiHashMap \<Rightarrow> GNUNET_HashCode \<Rightarrow> 'v \<Rightarrow> int" where
  "GNUNET_CONTAINER_multihashmap_contains_value m key value = chainmap_contains_value hash_key m key value"

definition GNUNET_CONTAINER_multihashmap_put :: "'v MultiHashMap \<Rightarrow> GNUNET_HashCode \<Rightarrow> 'v \<Rightarrow> MultiHashMapOption \<Rightarrow> (int \<times> 'v MultiHashMap) option" where
  "GNUNET_CONTAINER_multihashmap_put m key value opt = chainmap_put hash_key m key value opt"

definition GNUNET_CONTAINER_multihashmap_get_multiple :: "'v MultiHashMap \<Rightarrow> GNUNET_HashCode \<Rightarrow> ('c \<Rightarrow> GNUNET_HashCode \<Rightarrow> 'v \<Rightarrow> int \<times> 'c) option \<Rightarrow> 'c \<Rightarrow> int \<times> 'c" where
  "GNUNET_CONTAINER_multihashmap_get_multiple m key it c = chainmap_get_multiple hash_key m key it c"

definition GNUNET_CONTAINER_multihashmap_get_random :: "'v MultiHashMap \<Rightarrow> ('c \<Rightarrow> GNUNET_HashCode \<Rightarrow> 'v \<Rightarrow> int \<times> 'c) option \<Rightarrow> 'c \<Rightarrow> uint32 \<Rightarrow> uint32 \<times> 'c" where
  "GNUNET_CONTAINER_multihashmap_get_random m it c off = chainmap_get_random m it c off"

definition GNUNET_CONTAINER_multihashmap_iterator_create :: "'v MultiHashMap \<Rightarrow> 'v MultiHashMapIterator" where
  "GNUNET_CONTAINER_multihashmap_iterator_create m = chainmap_iterator_create m"

definition GNUNET_CONTAINER_multihashmap_iterator_next :: "'v MultiHashMap \<Rightarrow> 'v MultiHashMapIterator \<Rightarrow> ('v HashEntryOf option \<times> 'v MultiHashMapIterator) option" where
  "GNUNET_CONTAINER_multihashmap_iterator_next m iter = chainmap_iterator_next m iter"

lemmas multihashmap_defs = GNUNET_CONTAINER_multihashmap_create_def
    GNUNET_CONTAINER_multihashmap_destroy_def GNUNET_CONTAINER_multihashmap_size_def
    GNUNET_CONTAINER_multihashmap_get_def GNUNET_CONTAINER_multihashmap_iterate_def
    GNUNET_CONTAINER_multihashmap_remove_def GNUNET_CONTAINER_multihashmap_remove_all_def
    GNUNET_CONTAINER_multihashmap_clear_def GNUNET_CONTAINER_multihashmap_contains_def
    GNUNET_CONTAINER_multihashmap_contains_value_def GNUNET_CONTAINER_multihashmap_put_def
    GNUNET_CONTAINER_multihashmap_get_multiple_def GNUNET_CONTAINER_multihashmap_get_random_def
    GNUNET_CONTAINER_multihashmap_iterator_create_def GNUNET_CONTAINER_multihashmap_iterator_next_def

declare multihashmap_defs [container_defs]

abbreviation mhm_wf :: "'v MultiHashMap \<Rightarrow> bool" where
  "mhm_wf \<equiv> chainmap_wf hash_key"

section \<open>Interfaces\<close>

interpretation mhm: multimap "chainmap_put_multiple hash_key" GNUNET_CONTAINER_multihashmap_remove mhm_entries mhm_wf chainmap_room
  using chainmap_multimap[of hash_key] by (simp add: multihashmap_defs[abs_def])

interpretation mhmu: unique_map GNUNET_CONTAINER_multihashmap_put GNUNET_CONTAINER_multihashmap_get GNUNET_CONTAINER_multihashmap_contains GNUNET_CONTAINER_multihashmap_remove GNUNET_CONTAINER_multihashmap_remove_all GNUNET_CONTAINER_multihashmap_size mhm_entries
  mhm_wf chainmap_room
  using chainmap_unique_map[of hash_key] by (simp add: multihashmap_defs[abs_def])

section \<open>Properties\<close>

text \<open>A small concrete map, used by the instances below.\<close>

definition sample_map :: "nat MultiHashMap" where
  "sample_map = \<lparr>mhm_map = [[\<lparr>me_key = hash_of_word 2, me_value = 7\<rparr>], []], mhm_size = 1,
     map_length = 2, use_small_entries = False, modification_counter = 0\<rparr>"

lemma sample_map_wf [simp]: "mhm_wf sample_map"
  by (auto simp: chainmap_wf_def sample_map_def idx_of_def hash_key_def hash_of_word_def less_Suc_eq)

lemma sample_map_entries [simp]: "mhm_entries sample_map = {#(hash_of_word 2, 7)#}"
  by (simp add: mhm_entries_def sample_map_def entry_pair_def)

text \<open>Looking up a key returns a value stored under it, and \<^verbatim>\<open>NULL\<close> exactly when no pair with
  that key is in the map; the two membership tests decide membership of the key and of the pair.\<close>

lemma multihashmap_lookup:
  assumes "mhm_wf m"
  shows "(case GNUNET_CONTAINER_multihashmap_get m key of
      None \<Rightarrow> \<forall>v. (key, v) \<notin># mhm_entries m
    | Some v \<Rightarrow> (key, v) \<in># mhm_entries m) \<and>
    (GNUNET_CONTAINER_multihashmap_contains m key = GNUNET_YES \<longleftrightarrow> (\<exists>v. (key, v) \<in># mhm_entries m)) \<and>
    (GNUNET_CONTAINER_multihashmap_contains_value m key w = GNUNET_YES \<longleftrightarrow>
       (key, w) \<in># mhm_entries m)"
  using chainmap_lookup[OF assms] by (simp only: multihashmap_defs)

text \<open>Removing a pair keeps the invariant, removes one occurrence of exactly that pair and
  answers \<^verbatim>\<open>GNUNET_YES\<close> if it was there, and changes nothing and answers \<^verbatim>\<open>GNUNET_NO\<close> otherwise.\<close>

lemma multihashmap_remove_correct:
  assumes "mhm_wf m"
  shows "mhm_wf (snd (GNUNET_CONTAINER_multihashmap_remove m key v)) \<and>
    mhm_entries (snd (GNUNET_CONTAINER_multihashmap_remove m key v)) = mhm_entries m - {#(key, v)#} \<and>
    (fst (GNUNET_CONTAINER_multihashmap_remove m key v) = GNUNET_YES \<longleftrightarrow> (key, v) \<in># mhm_entries m)"
  using chainmap_remove_correct[OF assms] by (simp only: multihashmap_defs)

text \<open>Removing a key keeps the invariant, removes every pair with that key and nothing else, and
  returns how many there were.\<close>

lemma multihashmap_remove_all_correct:
  assumes wf: "mhm_wf m" and r: "GNUNET_CONTAINER_multihashmap_remove_all m key = (n, m')"
  shows "mhm_wf m' \<and> mhm_entries m' = filter_mset (\<lambda>p. fst p \<noteq> key) (mhm_entries m) \<and>
    n = int (size (filter_mset (\<lambda>p. fst p = key) (mhm_entries m)))"
  using chainmap_remove_all_correct[OF wf r[unfolded multihashmap_defs]] .

text \<open>Clearing, which removes entries while it iterates over them, leaves an empty map in good
  shape and returns the number of entries there were.\<close>

lemma multihashmap_clear_correct:
  assumes wf: "mhm_wf m"
  shows "mhm_wf (snd (GNUNET_CONTAINER_multihashmap_clear m)) \<and>
    mhm_entries (snd (GNUNET_CONTAINER_multihashmap_clear m)) = {#} \<and>
    mhm_size (snd (GNUNET_CONTAINER_multihashmap_clear m)) = 0 \<and>
    fst (GNUNET_CONTAINER_multihashmap_clear m) = of_nat (size (mhm_entries m))"
  using chainmap_clear_correct[OF assms] by (simp only: multihashmap_defs)



text \<open>A callback that always answers \<^verbatim>\<open>GNUNET_OK\<close> is called exactly once for every pair in
  the map (its closure is folded over a listing of the pairs), and the result is their number.\<close>

lemma multihashmap_iterate_all:
  assumes "mhm_wf m" and "\<And>c k v. fst (it c k v) = GNUNET_OK"
  shows "\<exists>ps. mset ps = mhm_entries m \<and>
    GNUNET_CONTAINER_multihashmap_iterate m (Some it) c =
      (int (size (mhm_entries m)), foldl (\<lambda>c (k, v). snd (it c k v)) c ps)"
  using chainmap_iterate_all[OF assms] by (simp only: multihashmap_defs)

text \<open>An iterator over an unmodified map delivers the entries one by one in order, each once:
  a step pops the head of what is left and says \<^verbatim>\<open>GNUNET_NO\<close> exactly when nothing is left. A fresh
  iterator has all the entries left.\<close>

lemma multihashmap_iterator_next_pops:
  assumes wf: "mhm_wf m" and mod: "it_modification_counter iter = modification_counter m"
  shows "(\<exists>iter'. GNUNET_CONTAINER_multihashmap_iterator_next m iter =
        Some (case iterator_rest m (it_idx iter) (it_me iter) of [] \<Rightarrow> None | e # es \<Rightarrow> Some e, iter') \<and>
      it_modification_counter iter' = modification_counter m \<and>
      iterator_rest m (it_idx iter') (it_me iter') = tl (iterator_rest m (it_idx iter) (it_me iter))) \<and>
    (let new = GNUNET_CONTAINER_multihashmap_iterator_create m
     in iterator_rest m (it_idx new) (it_me new) = concat (mhm_map m))"
  using chainmap_iterator_next_pops[OF assms] by (simp only: multihashmap_defs)

text \<open>With a random offset below the size, the random choice lands on an entry: the callback
  is called once, on the entry at that position, and the error branch at the end is never taken.\<close>

lemma multihashmap_get_random_hits:
  assumes wf: "mhm_wf m" and sz: "size (mhm_entries m) < 2 ^ 32" and off: "off < mhm_size m"
  shows "\<exists>e. entry_pair e \<in># mhm_entries m \<and>
    GNUNET_CONTAINER_multihashmap_get_random m (Some it) c off =
      (if fst (it c (me_key e) (me_value e)) \<noteq> GNUNET_OK then - 1 else 1,
       snd (it c (me_key e) (me_value e)))"
  using chainmap_get_random_hits[OF assms] by (simp only: multihashmap_defs)

end
