(* ===== verification/MultiPeerMap.thy ===== *)
theory MultiPeerMap
  imports ChainMap
begin

text \<open>
  The chained hash map from peer identities to values (\<^verbatim>\<open>src/src/util/container_multipeermap.c\<close>): the
  table of theory ChainMap with peer identities as keys. A peer identity is its 32-byte public key;
  the bucket is chosen by its first four bytes, read as a little-endian number.
\<close>

record PeerIdentity =
  q_y :: "uint8 list"

text \<open>The identity in memory that was zeroed.\<close>

definition zero_peer :: PeerIdentity where
  "zero_peer = \<lparr>q_y = replicate 32 0\<rparr>"

type_synonym 'v PeerEntryOf = "(PeerIdentity, 'v) MapEntry"
type_synonym 'v MultiPeerMap = "(PeerIdentity, 'v) ChainMap"
type_synonym 'v MultiPeerMapIterator = "(PeerIdentity, 'v) ChainMapIterator"

definition peer_hash :: "PeerIdentity \<Rightarrow> uint32" where
  "peer_hash key = ucast (q_y key ! 0) OR push_bit 8 (ucast (q_y key ! 1)) OR
     push_bit 16 (ucast (q_y key ! 2)) OR push_bit 24 (ucast (q_y key ! 3))"

section \<open>Operations\<close>

definition GNUNET_CONTAINER_multipeermap_create :: "uint32 \<Rightarrow> bool \<Rightarrow> 'v MultiPeerMap option" where
  "GNUNET_CONTAINER_multipeermap_create len do_not_copy_keys = chainmap_create len do_not_copy_keys"

definition GNUNET_CONTAINER_multipeermap_destroy :: "'v MultiPeerMap \<Rightarrow> 'v PeerEntryOf list" where
  "GNUNET_CONTAINER_multipeermap_destroy m = chainmap_destroy m"

definition GNUNET_CONTAINER_multipeermap_size :: "'v MultiPeerMap \<Rightarrow> uint32" where
  "GNUNET_CONTAINER_multipeermap_size m = chainmap_size m"

definition GNUNET_CONTAINER_multipeermap_get :: "'v MultiPeerMap \<Rightarrow> PeerIdentity \<Rightarrow> 'v option" where
  "GNUNET_CONTAINER_multipeermap_get m key = chainmap_get peer_hash m key"

definition GNUNET_CONTAINER_multipeermap_iterate :: "'v MultiPeerMap \<Rightarrow> ('c \<Rightarrow> PeerIdentity \<Rightarrow> 'v \<Rightarrow> int \<times> 'c) option \<Rightarrow> 'c \<Rightarrow> int \<times> 'c" where
  "GNUNET_CONTAINER_multipeermap_iterate m it c = chainmap_iterate m it c"

definition GNUNET_CONTAINER_multipeermap_remove :: "'v MultiPeerMap \<Rightarrow> PeerIdentity \<Rightarrow> 'v \<Rightarrow> int \<times> 'v MultiPeerMap" where
  "GNUNET_CONTAINER_multipeermap_remove m key value = chainmap_remove peer_hash m key value"

definition GNUNET_CONTAINER_multipeermap_remove_all :: "'v MultiPeerMap \<Rightarrow> PeerIdentity \<Rightarrow> int \<times> 'v MultiPeerMap" where
  "GNUNET_CONTAINER_multipeermap_remove_all m key = chainmap_remove_all peer_hash m key"

definition GNUNET_CONTAINER_multipeermap_contains :: "'v MultiPeerMap \<Rightarrow> PeerIdentity \<Rightarrow> int" where
  "GNUNET_CONTAINER_multipeermap_contains m key = chainmap_contains peer_hash m key"

definition GNUNET_CONTAINER_multipeermap_contains_value :: "'v MultiPeerMap \<Rightarrow> PeerIdentity \<Rightarrow> 'v \<Rightarrow> int" where
  "GNUNET_CONTAINER_multipeermap_contains_value m key value = chainmap_contains_value peer_hash m key value"

definition GNUNET_CONTAINER_multipeermap_put :: "'v MultiPeerMap \<Rightarrow> PeerIdentity \<Rightarrow> 'v \<Rightarrow> MultiHashMapOption \<Rightarrow> (int \<times> 'v MultiPeerMap) option" where
  "GNUNET_CONTAINER_multipeermap_put m key value opt = chainmap_put peer_hash m key value opt"

definition GNUNET_CONTAINER_multipeermap_get_multiple :: "'v MultiPeerMap \<Rightarrow> PeerIdentity \<Rightarrow> ('c \<Rightarrow> PeerIdentity \<Rightarrow> 'v \<Rightarrow> int \<times> 'c) option \<Rightarrow> 'c \<Rightarrow> int \<times> 'c" where
  "GNUNET_CONTAINER_multipeermap_get_multiple m key it c = chainmap_get_multiple peer_hash m key it c"

definition GNUNET_CONTAINER_multipeermap_get_random :: "'v MultiPeerMap \<Rightarrow> ('c \<Rightarrow> PeerIdentity \<Rightarrow> 'v \<Rightarrow> int \<times> 'c) option \<Rightarrow> 'c \<Rightarrow> uint32 \<Rightarrow> uint32 \<times> 'c" where
  "GNUNET_CONTAINER_multipeermap_get_random m it c off = chainmap_get_random m it c off"

definition GNUNET_CONTAINER_multipeermap_iterator_create :: "'v MultiPeerMap \<Rightarrow> 'v MultiPeerMapIterator" where
  "GNUNET_CONTAINER_multipeermap_iterator_create m = chainmap_iterator_create m"

definition GNUNET_CONTAINER_multipeermap_iterator_next :: "'v MultiPeerMap \<Rightarrow> 'v MultiPeerMapIterator \<Rightarrow> ('v PeerEntryOf option \<times> 'v MultiPeerMapIterator) option" where
  "GNUNET_CONTAINER_multipeermap_iterator_next m iter = chainmap_iterator_next m iter"

lemmas multipeermap_defs = GNUNET_CONTAINER_multipeermap_create_def
    GNUNET_CONTAINER_multipeermap_destroy_def GNUNET_CONTAINER_multipeermap_size_def
    GNUNET_CONTAINER_multipeermap_get_def GNUNET_CONTAINER_multipeermap_iterate_def
    GNUNET_CONTAINER_multipeermap_remove_def GNUNET_CONTAINER_multipeermap_remove_all_def
    GNUNET_CONTAINER_multipeermap_contains_def GNUNET_CONTAINER_multipeermap_contains_value_def
    GNUNET_CONTAINER_multipeermap_put_def GNUNET_CONTAINER_multipeermap_get_multiple_def
    GNUNET_CONTAINER_multipeermap_get_random_def GNUNET_CONTAINER_multipeermap_iterator_create_def
    GNUNET_CONTAINER_multipeermap_iterator_next_def

declare multipeermap_defs [container_defs]

abbreviation mpm_wf :: "'v MultiPeerMap \<Rightarrow> bool" where
  "mpm_wf \<equiv> chainmap_wf peer_hash"

section \<open>Interfaces\<close>

interpretation mpm: multimap "chainmap_put_multiple peer_hash" GNUNET_CONTAINER_multipeermap_remove mhm_entries mpm_wf chainmap_room
  using chainmap_multimap[of peer_hash] by (simp add: multipeermap_defs[abs_def])

interpretation mpmu: unique_map GNUNET_CONTAINER_multipeermap_put GNUNET_CONTAINER_multipeermap_get GNUNET_CONTAINER_multipeermap_contains GNUNET_CONTAINER_multipeermap_remove GNUNET_CONTAINER_multipeermap_remove_all GNUNET_CONTAINER_multipeermap_size mhm_entries
  mpm_wf chainmap_room
  using chainmap_unique_map[of peer_hash] by (simp add: multipeermap_defs[abs_def])

end
