(* ===== verification/MultiShortmap.thy ===== *)
theory MultiShortmap
  imports ChainMap
begin

text \<open>
  The chained hash map from 256-bit hash codes to values
  (\<^verbatim>\<open>src/src/util/container_multishortmap.c\<close>): the table of theory ChainMap with short hash codes as
  keys; the bucket is chosen by the first word.
\<close>

record GNUNET_ShortHashCode =
  short_bits :: "uint32 list"

type_synonym 'v ShortEntryOf = "(GNUNET_ShortHashCode, 'v) MapEntry"
type_synonym 'v MultiShortmap = "(GNUNET_ShortHashCode, 'v) ChainMap"
type_synonym 'v MultiShortmapIterator = "(GNUNET_ShortHashCode, 'v) ChainMapIterator"

definition short_hash :: "GNUNET_ShortHashCode \<Rightarrow> uint32" where
  "short_hash key = short_bits key ! 0"

section \<open>Operations\<close>

definition GNUNET_CONTAINER_multishortmap_create :: "uint32 \<Rightarrow> bool \<Rightarrow> 'v MultiShortmap option" where
  "GNUNET_CONTAINER_multishortmap_create len do_not_copy_keys = chainmap_create len do_not_copy_keys"

definition GNUNET_CONTAINER_multishortmap_destroy :: "'v MultiShortmap \<Rightarrow> 'v ShortEntryOf list" where
  "GNUNET_CONTAINER_multishortmap_destroy m = chainmap_destroy m"

definition GNUNET_CONTAINER_multishortmap_size :: "'v MultiShortmap \<Rightarrow> uint32" where
  "GNUNET_CONTAINER_multishortmap_size m = chainmap_size m"

definition GNUNET_CONTAINER_multishortmap_get :: "'v MultiShortmap \<Rightarrow> GNUNET_ShortHashCode \<Rightarrow> 'v option" where
  "GNUNET_CONTAINER_multishortmap_get m key = chainmap_get short_hash m key"

definition GNUNET_CONTAINER_multishortmap_iterate :: "'v MultiShortmap \<Rightarrow> ('c \<Rightarrow> GNUNET_ShortHashCode \<Rightarrow> 'v \<Rightarrow> int \<times> 'c) option \<Rightarrow> 'c \<Rightarrow> int \<times> 'c" where
  "GNUNET_CONTAINER_multishortmap_iterate m it c = chainmap_iterate m it c"

definition GNUNET_CONTAINER_multishortmap_remove :: "'v MultiShortmap \<Rightarrow> GNUNET_ShortHashCode \<Rightarrow> 'v \<Rightarrow> int \<times> 'v MultiShortmap" where
  "GNUNET_CONTAINER_multishortmap_remove m key value = chainmap_remove short_hash m key value"

definition GNUNET_CONTAINER_multishortmap_remove_all :: "'v MultiShortmap \<Rightarrow> GNUNET_ShortHashCode \<Rightarrow> int \<times> 'v MultiShortmap" where
  "GNUNET_CONTAINER_multishortmap_remove_all m key = chainmap_remove_all short_hash m key"

definition GNUNET_CONTAINER_multishortmap_contains :: "'v MultiShortmap \<Rightarrow> GNUNET_ShortHashCode \<Rightarrow> int" where
  "GNUNET_CONTAINER_multishortmap_contains m key = chainmap_contains short_hash m key"

definition GNUNET_CONTAINER_multishortmap_contains_value :: "'v MultiShortmap \<Rightarrow> GNUNET_ShortHashCode \<Rightarrow> 'v \<Rightarrow> int" where
  "GNUNET_CONTAINER_multishortmap_contains_value m key value = chainmap_contains_value short_hash m key value"

definition GNUNET_CONTAINER_multishortmap_put :: "'v MultiShortmap \<Rightarrow> GNUNET_ShortHashCode \<Rightarrow> 'v \<Rightarrow> MultiHashMapOption \<Rightarrow> (int \<times> 'v MultiShortmap) option" where
  "GNUNET_CONTAINER_multishortmap_put m key value opt = chainmap_put short_hash m key value opt"

definition GNUNET_CONTAINER_multishortmap_get_multiple :: "'v MultiShortmap \<Rightarrow> GNUNET_ShortHashCode \<Rightarrow> ('c \<Rightarrow> GNUNET_ShortHashCode \<Rightarrow> 'v \<Rightarrow> int \<times> 'c) option \<Rightarrow> 'c \<Rightarrow> int \<times> 'c" where
  "GNUNET_CONTAINER_multishortmap_get_multiple m key it c = chainmap_get_multiple short_hash m key it c"

definition GNUNET_CONTAINER_multishortmap_get_random :: "'v MultiShortmap \<Rightarrow> ('c \<Rightarrow> GNUNET_ShortHashCode \<Rightarrow> 'v \<Rightarrow> int \<times> 'c) option \<Rightarrow> 'c \<Rightarrow> uint32 \<Rightarrow> uint32 \<times> 'c" where
  "GNUNET_CONTAINER_multishortmap_get_random m it c off = chainmap_get_random m it c off"

definition GNUNET_CONTAINER_multishortmap_iterator_create :: "'v MultiShortmap \<Rightarrow> 'v MultiShortmapIterator" where
  "GNUNET_CONTAINER_multishortmap_iterator_create m = chainmap_iterator_create m"

definition GNUNET_CONTAINER_multishortmap_iterator_next :: "'v MultiShortmap \<Rightarrow> 'v MultiShortmapIterator \<Rightarrow> ('v ShortEntryOf option \<times> 'v MultiShortmapIterator) option" where
  "GNUNET_CONTAINER_multishortmap_iterator_next m iter = chainmap_iterator_next m iter"

lemmas multishortmap_defs = GNUNET_CONTAINER_multishortmap_create_def
    GNUNET_CONTAINER_multishortmap_destroy_def GNUNET_CONTAINER_multishortmap_size_def
    GNUNET_CONTAINER_multishortmap_get_def GNUNET_CONTAINER_multishortmap_iterate_def
    GNUNET_CONTAINER_multishortmap_remove_def GNUNET_CONTAINER_multishortmap_remove_all_def
    GNUNET_CONTAINER_multishortmap_contains_def GNUNET_CONTAINER_multishortmap_contains_value_def
    GNUNET_CONTAINER_multishortmap_put_def GNUNET_CONTAINER_multishortmap_get_multiple_def
    GNUNET_CONTAINER_multishortmap_get_random_def GNUNET_CONTAINER_multishortmap_iterator_create_def
    GNUNET_CONTAINER_multishortmap_iterator_next_def

declare multishortmap_defs [container_defs]

abbreviation msm_wf :: "'v MultiShortmap \<Rightarrow> bool" where
  "msm_wf \<equiv> chainmap_wf short_hash"

section \<open>Interfaces\<close>

interpretation msm: multimap "chainmap_put_multiple short_hash" GNUNET_CONTAINER_multishortmap_remove mhm_entries msm_wf chainmap_room
  using chainmap_multimap[of short_hash] by (simp add: multishortmap_defs[abs_def])

interpretation msmu: unique_map GNUNET_CONTAINER_multishortmap_put GNUNET_CONTAINER_multishortmap_get GNUNET_CONTAINER_multishortmap_contains GNUNET_CONTAINER_multishortmap_remove GNUNET_CONTAINER_multishortmap_remove_all GNUNET_CONTAINER_multishortmap_size mhm_entries
  msm_wf chainmap_room
  using chainmap_unique_map[of short_hash] by (simp add: multishortmap_defs[abs_def])

end
