(* ===== verification/MultiHashMap32.thy ===== *)
theory MultiHashMap32
  imports ChainMap
begin

text \<open>
  The chained hash map from 32-bit numbers to values (\<^verbatim>\<open>src/src/util/container_multihashmap32.c\<close>):
  the table of theory ChainMap with the key itself as its hash. This map has one entry layout only
  and no random choice.
\<close>

type_synonym 'v Entry32Of = "(uint32, 'v) MapEntry"
type_synonym 'v MultiHashMap32 = "(uint32, 'v) ChainMap"
type_synonym 'v MultiHashMap32Iterator = "(uint32, 'v) ChainMapIterator"

section \<open>Operations\<close>

definition GNUNET_CONTAINER_multihashmap32_create :: "uint32 \<Rightarrow> 'v MultiHashMap32 option" where
  "GNUNET_CONTAINER_multihashmap32_create len = chainmap_create len False"

definition GNUNET_CONTAINER_multihashmap32_destroy :: "'v MultiHashMap32 \<Rightarrow> 'v Entry32Of list" where
  "GNUNET_CONTAINER_multihashmap32_destroy m = chainmap_destroy m"

definition GNUNET_CONTAINER_multihashmap32_size :: "'v MultiHashMap32 \<Rightarrow> uint32" where
  "GNUNET_CONTAINER_multihashmap32_size m = chainmap_size m"

definition GNUNET_CONTAINER_multihashmap32_get :: "'v MultiHashMap32 \<Rightarrow> uint32 \<Rightarrow> 'v option" where
  "GNUNET_CONTAINER_multihashmap32_get m key = chainmap_get id m key"

definition GNUNET_CONTAINER_multihashmap32_iterate :: "'v MultiHashMap32 \<Rightarrow> ('c \<Rightarrow> uint32 \<Rightarrow> 'v \<Rightarrow> int \<times> 'c) option \<Rightarrow> 'c \<Rightarrow> int \<times> 'c" where
  "GNUNET_CONTAINER_multihashmap32_iterate m it c = chainmap_iterate m it c"

definition GNUNET_CONTAINER_multihashmap32_remove :: "'v MultiHashMap32 \<Rightarrow> uint32 \<Rightarrow> 'v \<Rightarrow> int \<times> 'v MultiHashMap32" where
  "GNUNET_CONTAINER_multihashmap32_remove m key value = chainmap_remove id m key value"

definition GNUNET_CONTAINER_multihashmap32_remove_all :: "'v MultiHashMap32 \<Rightarrow> uint32 \<Rightarrow> int \<times> 'v MultiHashMap32" where
  "GNUNET_CONTAINER_multihashmap32_remove_all m key = chainmap_remove_all id m key"

definition GNUNET_CONTAINER_multihashmap32_contains :: "'v MultiHashMap32 \<Rightarrow> uint32 \<Rightarrow> int" where
  "GNUNET_CONTAINER_multihashmap32_contains m key = chainmap_contains id m key"

definition GNUNET_CONTAINER_multihashmap32_contains_value :: "'v MultiHashMap32 \<Rightarrow> uint32 \<Rightarrow> 'v \<Rightarrow> int" where
  "GNUNET_CONTAINER_multihashmap32_contains_value m key value = chainmap_contains_value id m key value"

definition GNUNET_CONTAINER_multihashmap32_put :: "'v MultiHashMap32 \<Rightarrow> uint32 \<Rightarrow> 'v \<Rightarrow> MultiHashMapOption \<Rightarrow> (int \<times> 'v MultiHashMap32) option" where
  "GNUNET_CONTAINER_multihashmap32_put m key value opt = chainmap_put id m key value opt"

definition GNUNET_CONTAINER_multihashmap32_get_multiple :: "'v MultiHashMap32 \<Rightarrow> uint32 \<Rightarrow> ('c \<Rightarrow> uint32 \<Rightarrow> 'v \<Rightarrow> int \<times> 'c) option \<Rightarrow> 'c \<Rightarrow> int \<times> 'c" where
  "GNUNET_CONTAINER_multihashmap32_get_multiple m key it c = chainmap_get_multiple id m key it c"

definition GNUNET_CONTAINER_multihashmap32_iterator_create :: "'v MultiHashMap32 \<Rightarrow> 'v MultiHashMap32Iterator" where
  "GNUNET_CONTAINER_multihashmap32_iterator_create m = chainmap_iterator_create m"

definition GNUNET_CONTAINER_multihashmap32_iterator_next :: "'v MultiHashMap32 \<Rightarrow> 'v MultiHashMap32Iterator \<Rightarrow> ('v Entry32Of option \<times> 'v MultiHashMap32Iterator) option" where
  "GNUNET_CONTAINER_multihashmap32_iterator_next m iter = chainmap_iterator_next m iter"

lemmas multihashmap32_defs = GNUNET_CONTAINER_multihashmap32_create_def
    GNUNET_CONTAINER_multihashmap32_destroy_def GNUNET_CONTAINER_multihashmap32_size_def
    GNUNET_CONTAINER_multihashmap32_get_def GNUNET_CONTAINER_multihashmap32_iterate_def
    GNUNET_CONTAINER_multihashmap32_remove_def GNUNET_CONTAINER_multihashmap32_remove_all_def
    GNUNET_CONTAINER_multihashmap32_contains_def GNUNET_CONTAINER_multihashmap32_contains_value_def
    GNUNET_CONTAINER_multihashmap32_put_def GNUNET_CONTAINER_multihashmap32_get_multiple_def
    GNUNET_CONTAINER_multihashmap32_iterator_create_def
    GNUNET_CONTAINER_multihashmap32_iterator_next_def

declare multihashmap32_defs [container_defs]

abbreviation mhm32_wf :: "'v MultiHashMap32 \<Rightarrow> bool" where
  "mhm32_wf \<equiv> chainmap_wf id"

section \<open>Interfaces\<close>

interpretation m32: multimap "chainmap_put_multiple id" GNUNET_CONTAINER_multihashmap32_remove mhm_entries mhm32_wf chainmap_room
  using chainmap_multimap[of id] by (simp add: multihashmap32_defs[abs_def])

interpretation m32u: unique_map GNUNET_CONTAINER_multihashmap32_put GNUNET_CONTAINER_multihashmap32_get GNUNET_CONTAINER_multihashmap32_contains GNUNET_CONTAINER_multihashmap32_remove GNUNET_CONTAINER_multihashmap32_remove_all GNUNET_CONTAINER_multihashmap32_size mhm_entries
  mhm32_wf chainmap_room
  using chainmap_unique_map[of id] by (simp add: multihashmap32_defs[abs_def])

end
