(* ===== verification/Heap.thy ===== *)
theory Heap
  imports Interfaces "HOL-Library.Tree_Multiset"
begin

text \<open>
  The binary heap with handles (\<^verbatim>\<open>src/src/util/container_heap.c\<close>). The nodes linked by
  \<^verbatim>\<open>left_child\<close> and \<^verbatim>\<open>right_child\<close> are a binary tree; \<^verbatim>\<open>parent\<close> is the inverse of these links, so
  it is the position in the tree. The address of a node, which callers keep as a handle for
  \<^verbatim>\<open>GNUNET_CONTAINER_heap_remove_node\<close> and \<^verbatim>\<open>GNUNET_CONTAINER_heap_update_cost\<close>, is the field
  \<open>hn_addr\<close>; an allocation hands in a fresh address. Sizes are 32-bit words.
\<close>

section \<open>State\<close>

record 'a HeapNode =
  hn_addr :: nat
  hn_element :: 'a
  hn_cost :: uint64
  tree_size :: uint32

type_synonym 'a htree = "'a HeapNode tree"

datatype HeapOrder = HEAP_ORDER_MAX | HEAP_ORDER_MIN

record 'a Heap =
  hp_root :: "'a htree"
  walk_pos :: "nat option"
  hp_size :: uint32
  hp_order :: HeapOrder

section \<open>Operations\<close>

text \<open>The internal self-check; the assertion is on the size field alone.\<close>

fun check :: "'a htree \<Rightarrow> bool" where
  "check Leaf = True"
| "check (Node l n r) =
     (tree_size n = (if l = Leaf then 0 else 1 + tree_size (value l)) +
                    (if r = Leaf then 0 else 1 + tree_size (value r)) \<and> check l \<and> check r)"

definition GNUNET_CONTAINER_heap_create :: "HeapOrder \<Rightarrow> 'a Heap" where
  "GNUNET_CONTAINER_heap_create ord = \<lparr>hp_root = Leaf, walk_pos = None, hp_size = 0, hp_order = ord\<rparr>"

text \<open>Destroying a heap; the flag says that the check that it is empty holds.\<close>

definition GNUNET_CONTAINER_heap_destroy :: "'a Heap \<Rightarrow> bool" where
  "GNUNET_CONTAINER_heap_destroy h = (hp_size h = 0)"

definition GNUNET_CONTAINER_heap_peek :: "'a Heap \<Rightarrow> 'a option" where
  "GNUNET_CONTAINER_heap_peek h =
     (case hp_root h of Leaf \<Rightarrow> None | Node l n r \<Rightarrow> Some (hn_element n))"

definition GNUNET_CONTAINER_heap_peek2 :: "'a Heap \<Rightarrow> ('a \<times> uint64) option" where
  "GNUNET_CONTAINER_heap_peek2 h =
     (case hp_root h of Leaf \<Rightarrow> None | Node l n r \<Rightarrow> Some (hn_element n, hn_cost n))"

definition GNUNET_CONTAINER_heap_get_size :: "'a Heap \<Rightarrow> uint32" where
  "GNUNET_CONTAINER_heap_get_size h = hp_size h"

definition GNUNET_CONTAINER_heap_node_get_cost :: "'a HeapNode \<Rightarrow> uint64" where
  "GNUNET_CONTAINER_heap_node_get_cost n = hn_cost n"

text \<open>Iteration: children first, left before right; the flag says whether to continue.\<close>

fun node_iterator ::
  "('c \<Rightarrow> 'a HeapNode \<Rightarrow> int \<times> 'c) \<Rightarrow> 'a htree \<Rightarrow> 'c \<Rightarrow> int \<times> 'c" where
  "node_iterator it Leaf c = (GNUNET_YES, c)"
| "node_iterator it (Node l n r) c =
     (case node_iterator it l c of (rl, c1) \<Rightarrow>
        if rl \<noteq> GNUNET_YES then (GNUNET_NO, c1)
        else case node_iterator it r c1 of (rr, c2) \<Rightarrow>
          if rr \<noteq> GNUNET_YES then (GNUNET_NO, c2) else it c2 n)"

definition GNUNET_CONTAINER_heap_iterate ::
  "'a Heap \<Rightarrow> ('c \<Rightarrow> 'a HeapNode \<Rightarrow> int \<times> 'c) \<Rightarrow> 'c \<Rightarrow> 'c" where
  "GNUNET_CONTAINER_heap_iterate h it c = snd (node_iterator it (hp_root h) c)"

fun subtree_at :: "nat \<Rightarrow> 'a htree \<Rightarrow> 'a htree" where
  "subtree_at a Leaf = Leaf"
| "subtree_at a (Node l n r) =
     (if hn_addr n = a then Node l n r
      else case subtree_at a l of Leaf \<Rightarrow> subtree_at a r | t \<Rightarrow> t)"

fun root_addr :: "'a htree \<Rightarrow> nat option" where
  "root_addr Leaf = None"
| "root_addr (Node l n r) = Some (hn_addr n)"

text \<open>The random walk; \<open>coin\<close> is the random bit, zero for the right child.\<close>

definition GNUNET_CONTAINER_heap_walk_get_next :: "'a Heap \<Rightarrow> uint32 \<Rightarrow> 'a option \<times> 'a Heap" where
  "GNUNET_CONTAINER_heap_walk_get_next h coin =
     (case hp_root h of
        Leaf \<Rightarrow> (None, h)
      | Node _ _ _ \<Rightarrow>
          (let pos = (case walk_pos h of None \<Rightarrow> hp_root h | Some a \<Rightarrow> subtree_at a (hp_root h))
           in case pos of
                Leaf \<Rightarrow> (None, h)
              | Node l n r \<Rightarrow>
                  (Some (hn_element n), h\<lparr>walk_pos := root_addr (if coin = 0 then r else l)\<rparr>)))"

text \<open>The loop condition of \<^verbatim>\<open>insert_node\<close>: the node belongs below \<^verbatim>\<open>pos\<close>.\<close>

definition goes_below :: "HeapOrder \<Rightarrow> uint64 \<Rightarrow> uint64 \<Rightarrow> bool" where
  "goes_below ord pos_cost node_cost =
     (if ord = HEAP_ORDER_MAX then pos_cost \<ge> node_cost else pos_cost \<le> node_cost)"

lemma goes_below_linear: "\<not> goes_below ord a b \<Longrightarrow> goes_below ord b a"
  by (auto simp: goes_below_def)

lemma goes_below_trans: "goes_below ord a b \<Longrightarrow> goes_below ord b c \<Longrightarrow> goes_below ord a c"
  by (auto simp: goes_below_def split: if_splits)

text \<open>
  Inserting the tree \<^verbatim>\<open>node\<close> into the tree at \<^verbatim>\<open>pos\<close>. Both are non-empty in the code; an empty
  argument returns the other one. When \<^verbatim>\<open>node\<close> does not belong below \<^verbatim>\<open>pos\<close> it takes its place, and
  \<^verbatim>\<open>pos\<close> is inserted below \<^verbatim>\<open>node\<close>.
\<close>

function insert_node :: "HeapOrder \<Rightarrow> 'a htree \<Rightarrow> 'a htree \<Rightarrow> 'a htree" where
  "insert_node ord Leaf node = node"
| "insert_node ord (Node l p r) Leaf = Node l p r"
| "insert_node ord (Node l p r) (Node nl n nr) =
     (if goes_below ord (hn_cost p) (hn_cost n)
      then let p' = p\<lparr>tree_size := tree_size p + (1 + tree_size n)\<rparr>
        in if l = Leaf then Node (Node nl n nr) p' r
           else if r = Leaf then Node l p' (Node nl n nr)
           else if tree_size (value l) < tree_size (value r)
           then Node (insert_node ord l (Node nl n nr)) p' r
           else Node l p' (insert_node ord r (Node nl n nr))
      else insert_node ord (Node nl n nr) (Node l p r))"
  by pat_completeness auto
termination
proof (relation "measure (\<lambda>(ord, t, u). 2 * (size t + size u) +
    (case (t, u) of (Node _ p _, Node _ n _) \<Rightarrow> if goes_below ord (hn_cost p) (hn_cost n) then 0 else 1
     | _ \<Rightarrow> 0))", goal_cases)
  case 1
  then show ?case by simp
next
  case (2 ord l p r nl n nr)
  then show ?case by (auto split: tree.split)
next
  case (3 ord l p r nl n nr)
  then show ?case by (auto split: tree.split)
next
  case (4 ord l p r nl n nr)
  then show ?case using goes_below_linear[of ord "hn_cost p" "hn_cost n"] by simp
qed

text \<open>
  A new node at a fresh address. \<^verbatim>\<open>None\<close> is the failed assertion on the sizes.
\<close>

definition GNUNET_CONTAINER_heap_insert :: "'a Heap \<Rightarrow> nat \<Rightarrow> 'a \<Rightarrow> uint64 \<Rightarrow> 'a Heap option" where
  "GNUNET_CONTAINER_heap_insert h addr element cost =
     (let node = Node Leaf \<lparr>hn_addr = addr, hn_element = element, hn_cost = cost, tree_size = 0\<rparr> Leaf;
          t = (if hp_root h = Leaf then node else insert_node (hp_order h) (hp_root h) node);
          sz = hp_size h + 1
      in if sz = tree_size (value t) + 1 then Some (h\<lparr>hp_root := t, hp_size := sz\<rparr>) else None)"

text \<open>What replaces a removed root: its children, the right one inserted into the left one.\<close>

definition join_children :: "HeapOrder \<Rightarrow> 'a htree \<Rightarrow> 'a htree \<Rightarrow> 'a htree" where
  "join_children ord l r =
     (if l = Leaf then r else if r = Leaf then l else insert_node ord l r)"

definition GNUNET_CONTAINER_heap_remove_root :: "'a Heap \<Rightarrow> 'a option \<times> 'a Heap" where
  "GNUNET_CONTAINER_heap_remove_root h =
     (case hp_root h of
        Leaf \<Rightarrow> (None, h)
      | Node l n r \<Rightarrow>
          (let t = join_children (hp_order h) l r
           in (Some (hn_element n),
               h\<lparr>hp_size := hp_size h - 1, hp_root := t,
                 walk_pos := (if walk_pos h = Some (hn_addr n) then root_addr t else walk_pos h)\<rparr>)))"

definition dec_size :: "uint32 \<Rightarrow> 'a htree \<Rightarrow> 'a htree" where
  "dec_size k t = (case t of Leaf \<Rightarrow> Leaf
     | Node l n r \<Rightarrow> Node l (n\<lparr>tree_size := tree_size n - k\<rparr>) r)"

text \<open>Re-inserting a child of the removed node at the node's parent.\<close>

definition reinsert :: "HeapOrder \<Rightarrow> 'a htree \<Rightarrow> 'a htree \<Rightarrow> 'a htree" where
  "reinsert ord parent child =
     (if child = Leaf then parent
      else insert_node ord (dec_size (1 + tree_size (value child)) parent) child)"

text \<open>
  Unlinking the node at address \<open>a\<close>, which is not the root: every ancestor counts one node less; at
  the parent the link is cleared and the children of the node are inserted below the parent, left
  one first.
\<close>

fun remove_below :: "HeapOrder \<Rightarrow> nat \<Rightarrow> 'a htree \<Rightarrow> 'a htree" where
  "remove_below ord a Leaf = Leaf"
| "remove_below ord a (Node l p r) =
     (let p' = p\<lparr>tree_size := tree_size p - 1\<rparr>
      in if root_addr l = Some a
         then reinsert ord (reinsert ord (Node Leaf p' r) (left l)) (right l)
         else if root_addr r = Some a
         then reinsert ord (reinsert ord (Node l p' Leaf) (left r)) (right r)
         else if a \<in> hn_addr ` set_tree l then Node (remove_below ord a l) p' r
         else Node l p' (remove_below ord a r))"

text \<open>
  The whole of \<^verbatim>\<open>remove_node\<close>: the node without its children, and the heap without the node. The
  node's own size is reduced by its children's and must then be zero: \<^verbatim>\<open>None\<close> is the failed
  assertion (or an address that is not in the heap).
\<close>

definition remove_node :: "'a Heap \<Rightarrow> nat \<Rightarrow> ('a HeapNode \<times> 'a Heap) option" where
  "remove_node h a =
     (case subtree_at a (hp_root h) of
        Leaf \<Rightarrow> None
      | Node l n r \<Rightarrow>
          (let s1 = (if l \<noteq> Leaf then tree_size n - (1 + tree_size (value l)) else tree_size n);
               s2 = (if r \<noteq> Leaf then s1 - (1 + tree_size (value r)) else s1);
               t = (if root_addr (hp_root h) = Some a then join_children (hp_order h) l r
                    else remove_below (hp_order h) a (hp_root h))
           in if s2 = 0 then Some (n\<lparr>tree_size := s2\<rparr>, h\<lparr>hp_root := t\<rparr>) else None))"

definition GNUNET_CONTAINER_heap_remove_node :: "'a Heap \<Rightarrow> nat \<Rightarrow> uint32 \<Rightarrow> ('a \<times> 'a Heap) option" where
  "GNUNET_CONTAINER_heap_remove_node h a coin =
     (let h1 = (if walk_pos h = Some a then snd (GNUNET_CONTAINER_heap_walk_get_next h coin) else h)
      in case remove_node h1 a of
           None \<Rightarrow> None
         | Some (n, h2) \<Rightarrow>
             Some (hn_element n,
               h2\<lparr>hp_size := hp_size h2 - 1,
                  walk_pos := (if walk_pos h2 = Some a then None else walk_pos h2)\<rparr>))"

definition GNUNET_CONTAINER_heap_update_cost :: "'a Heap \<Rightarrow> nat \<Rightarrow> uint64 \<Rightarrow> 'a Heap option" where
  "GNUNET_CONTAINER_heap_update_cost h a new_cost =
     (case remove_node h a of
        None \<Rightarrow> None
      | Some (n, h1) \<Rightarrow>
          (let node = Node Leaf (n\<lparr>hn_cost := new_cost\<rparr>) Leaf
           in Some (h1\<lparr>hp_root := (if hp_root h1 = Leaf then node
                                  else insert_node (hp_order h1) (hp_root h1) node)\<rparr>)))"

section \<open>Invariant\<close>

text \<open>What a node holds apart from its size, and the multiset of it in a tree.\<close>

definition node_data :: "'a HeapNode \<Rightarrow> nat \<times> 'a \<times> uint64" where
  "node_data n = (hn_addr n, hn_element n, hn_cost n)"

definition hdata :: "'a htree \<Rightarrow> (nat \<times> 'a \<times> uint64) multiset" where
  "hdata t = image_mset node_data (mset_tree t)"

definition hcosts :: "'a htree \<Rightarrow> uint64 set" where
  "hcosts t = hn_cost ` set_tree t"

definition haddrs :: "'a htree \<Rightarrow> nat set" where
  "haddrs t = hn_addr ` set_tree t"

text \<open>\<open>sizes_off k t\<close>: all size fields are right, except that the root counts \<open>k\<close> nodes too many.\<close>

fun sizes_off :: "uint32 \<Rightarrow> 'a htree \<Rightarrow> bool" where
  "sizes_off k Leaf = True"
| "sizes_off k (Node l n r) =
     (tree_size n = of_nat (size l + size r) + k \<and> sizes_off 0 l \<and> sizes_off 0 r)"

abbreviation sizes_ok :: "'a htree \<Rightarrow> bool" where "sizes_ok \<equiv> sizes_off 0"

fun heap_ordered :: "HeapOrder \<Rightarrow> 'a htree \<Rightarrow> bool" where
  "heap_ordered ord Leaf = True"
| "heap_ordered ord (Node l n r) =
     ((\<forall>c \<in> hcosts l \<union> hcosts r. goes_below ord (hn_cost n) c) \<and> heap_ordered ord l \<and> heap_ordered ord r)"

definition addr_count :: "'a htree \<Rightarrow> nat \<Rightarrow> nat" where
  "addr_count t a = count (image_mset fst (hdata t)) a"

text \<open>The heap invariant: heap order, exact sizes, no two nodes at one address, and a walk position
  that is a node of the heap.\<close>

definition heap_wf :: "'a Heap \<Rightarrow> bool" where
  "heap_wf h \<longleftrightarrow> heap_ordered (hp_order h) (hp_root h) \<and> sizes_ok (hp_root h) \<and>
     hp_size h = of_nat (size (hp_root h)) \<and>
     (\<forall>a. addr_count (hp_root h) a \<le> 1) \<and>
     (case walk_pos h of None \<Rightarrow> True | Some a \<Rightarrow> a \<in> haddrs (hp_root h))"

abbreviation heap_data :: "'a Heap \<Rightarrow> (nat \<times> 'a \<times> uint64) multiset" where
  "heap_data h \<equiv> hdata (hp_root h)"

lemma hdata_simps [simp]:
  "hdata Leaf = {#}" "hdata (Node l n r) = add_mset (node_data n) (hdata l + hdata r)"
  by (simp_all add: hdata_def)

lemma hdata_empty [simp]: "hdata t = {#} \<longleftrightarrow> t = Leaf"
  by (cases t) auto

lemma size_hdata: "size (hdata t) = size t"
  by (induction t) auto

lemma hcosts_hdata: "hcosts t = (\<lambda>(a, e, c). c) ` set_mset (hdata t)"
  by (auto simp: hcosts_def hdata_def node_data_def image_image)

lemma haddrs_hdata: "haddrs t = fst ` set_mset (hdata t)"
  by (auto simp: haddrs_def hdata_def node_data_def image_image)

lemma hcosts_simps [simp]:
  "hcosts Leaf = {}" "hcosts (Node l n r) = insert (hn_cost n) (hcosts l \<union> hcosts r)"
  by (auto simp: hcosts_def)

lemma haddrs_simps [simp]:
  "haddrs Leaf = {}" "haddrs (Node l n r) = insert (hn_addr n) (haddrs l \<union> haddrs r)"
  by (auto simp: haddrs_def)

lemma addr_count_simps [simp]:
  "addr_count Leaf a = 0"
  "addr_count (Node l n r) a = (if hn_addr n = a then 1 else 0) + addr_count l a + addr_count r a"
  by (simp_all add: addr_count_def node_data_def)

lemma haddrs_addr_count: "a \<in> haddrs t \<longleftrightarrow> 0 < addr_count t a"
  by (simp add: haddrs_hdata addr_count_def)

lemma tree_size_root: "sizes_ok t \<Longrightarrow> t \<noteq> Leaf \<Longrightarrow> 1 + tree_size (value t) = of_nat (size t)"
  by (cases t) auto

text \<open>The self-check accepts exactly the trees whose size fields are right.\<close>

lemma check_iff: "check t \<longleftrightarrow> sizes_ok t"
proof (induction t)
  case (Node l n r)
  have "sizes_ok t \<Longrightarrow> (if t = Leaf then 0 else 1 + tree_size (value t)) = of_nat (size t)"
    for t :: "'a htree"
    using tree_size_root[of t] by auto
  note sz = this
  show ?case
  proof (cases "sizes_ok l \<and> sizes_ok r")
    case True
    then show ?thesis unfolding check.simps sizes_off.simps Node.IH using sz[of l] sz[of r] by simp
  qed (use Node.IH in auto)
qed simp

text \<open>A callback that never stops sees every node once, children first.\<close>

lemma node_iterator_all:
  "(\<And>c n. fst (it c n) = GNUNET_YES) \<Longrightarrow>
   node_iterator it t c = (GNUNET_YES, foldl (\<lambda>c n. snd (it c n)) c (postorder t))"
proof (induction t arbitrary: c)
  case (Node l n r)
  let ?c = "foldl (\<lambda>c n. snd (it c n)) c (postorder l @ postorder r)"
  have "it ?c n = (GNUNET_YES, snd (it ?c n))" using Node.prems[of ?c n] by (simp add: prod_eq_iff)
  then show ?case using Node.IH[OF Node.prems] by simp
qed simp

section \<open>Insertion\<close>

lemma insert_node_Leaf [simp]: "insert_node ord t Leaf = t"
  by (cases t) auto

lemma insert_node_not_Leaf [simp]: "insert_node ord t u = Leaf \<longleftrightarrow> t = Leaf \<and> u = Leaf"
  by (induction ord t u rule: insert_node.induct) (auto simp: Let_def)

lemma hdata_insert_node [simp]: "hdata (insert_node ord t u) = hdata t + hdata u"
  by (induction ord t u rule: insert_node.induct) (auto simp: Let_def node_data_def)

lemma size_insert_node [simp]: "size (insert_node ord t u) = size t + size u"
  by (metis hdata_insert_node size_hdata size_union)

lemma hcosts_insert_node [simp]: "hcosts (insert_node ord t u) = hcosts t \<union> hcosts u"
  by (simp add: hcosts_hdata image_Un)

lemma haddrs_insert_node [simp]: "haddrs (insert_node ord t u) = haddrs t \<union> haddrs u"
  by (simp add: haddrs_hdata image_Un)

lemma sizes_ok_insert_node: "sizes_ok t \<Longrightarrow> sizes_ok u \<Longrightarrow> sizes_ok (insert_node ord t u)"
  by (induction ord t u rule: insert_node.induct) (auto simp: Let_def algebra_simps)

lemma sizes_off_insert_node:
  assumes "goes_below ord (hn_cost p) (hn_cost n)" "sizes_off k (Node l p r)" "sizes_ok (Node nl n nr)"
  shows "sizes_off k (insert_node ord (Node l p r) (Node nl n nr))"
  using assms sizes_ok_insert_node[of l "Node nl n nr" ord] sizes_ok_insert_node[of r "Node nl n nr" ord]
  by (auto simp: Let_def algebra_simps)

lemma root_insert_node:
  "goes_below ord (hn_cost p) (hn_cost n) \<Longrightarrow>
   \<exists>l' s r'. insert_node ord (Node l p r) (Node nl n nr) = Node l' (p\<lparr>tree_size := s\<rparr>) r'"
  by (auto simp: Let_def)

lemma heap_ordered_insert_node:
  "heap_ordered ord t \<Longrightarrow> heap_ordered ord u \<Longrightarrow> heap_ordered ord (insert_node ord t u)"
proof (induction ord t u rule: insert_node.induct)
  case (3 ord l p r nl n nr)
  show ?case
  proof (cases "goes_below ord (hn_cost p) (hn_cost n)")
    case True
    then have "\<forall>c \<in> hcosts (Node nl n nr). goes_below ord (hn_cost p) c"
      using "3.prems"(2) by (auto intro: goes_below_trans)
    with True 3 show ?thesis by (auto simp: Let_def)
  next
    case False
    with 3 show ?thesis by simp
  qed
qed auto

section \<open>Removal\<close>

lemma node_data_size [simp]: "node_data (p\<lparr>tree_size := s\<rparr>) = node_data p"
  by (simp add: node_data_def)

lemma reinsert_spec:
  assumes off: "sizes_off (of_nat (size c) + k) (Node l p r)" and c: "sizes_ok c" "heap_ordered ord c"
    and P: "heap_ordered ord (Node l p r)" and below: "\<forall>x \<in> hcosts c. goes_below ord (hn_cost p) x"
  shows "(\<exists>l' s r'. reinsert ord (Node l p r) c = Node l' (p\<lparr>tree_size := s\<rparr>) r') \<and>
    sizes_off k (reinsert ord (Node l p r) c) \<and> heap_ordered ord (reinsert ord (Node l p r) c) \<and>
    hdata (reinsert ord (Node l p r) c) = hdata (Node l p r) + hdata c"
proof (cases c)
  case Leaf
  have "\<exists>s. p = p\<lparr>tree_size := s\<rparr>" by (rule exI[of _ "tree_size p"]) simp
  with Leaf off P show ?thesis by (auto simp: reinsert_def)
next
  case (Node cl n cr)
  let ?p = "p\<lparr>tree_size := tree_size p - (1 + tree_size n)\<rparr>"
  have re: "reinsert ord (Node l p r) c = insert_node ord (Node l ?p r) (Node cl n cr)"
    by (simp add: reinsert_def dec_size_def Node)
  have below': "goes_below ord (hn_cost ?p) (hn_cost n)" using below Node by simp
  have "1 + tree_size n = of_nat (size c)" using tree_size_root[OF c(1)] Node by simp
  then have offk: "sizes_off k (Node l ?p r)" using off by simp
  have "\<exists>l' s r'. insert_node ord (Node l ?p r) (Node cl n cr) = Node l' (p\<lparr>tree_size := s\<rparr>) r'"
    using root_insert_node[OF below', of l r cl cr] by simp
  moreover have "sizes_off k (insert_node ord (Node l ?p r) (Node cl n cr))"
    using sizes_off_insert_node[OF below' offk] c(1) Node by blast
  moreover have "heap_ordered ord (insert_node ord (Node l ?p r) (Node cl n cr))"
    using P c(2) Node by (intro heap_ordered_insert_node) auto
  moreover have "hdata (insert_node ord (Node l ?p r) (Node cl n cr)) = hdata (Node l p r) + hdata c"
    unfolding hdata_insert_node Node by simp
  ultimately show ?thesis unfolding re by blast
qed

text \<open>Both children re-inserted at the parent.\<close>

lemma reinsert_children:
  assumes off: "sizes_off (of_nat (size cl + size cr)) (Node l p r)"
    and cl: "sizes_ok cl" "heap_ordered ord cl" and cr: "sizes_ok cr" "heap_ordered ord cr"
    and P: "heap_ordered ord (Node l p r)"
    and below: "\<forall>x \<in> hcosts cl \<union> hcosts cr. goes_below ord (hn_cost p) x"
  shows "sizes_ok (reinsert ord (reinsert ord (Node l p r) cl) cr) \<and>
    heap_ordered ord (reinsert ord (reinsert ord (Node l p r) cl) cr) \<and>
    hdata (reinsert ord (reinsert ord (Node l p r) cl) cr) = hdata (Node l p r) + hdata cl + hdata cr"
proof -
  have off': "sizes_off (of_nat (size cl) + of_nat (size cr)) (Node l p r)" using off by simp
  obtain l' s r' where 1: "reinsert ord (Node l p r) cl = Node l' (p\<lparr>tree_size := s\<rparr>) r'"
    and 2: "sizes_off (of_nat (size cr)) (reinsert ord (Node l p r) cl)"
    and 3: "heap_ordered ord (reinsert ord (Node l p r) cl)"
    and 4: "hdata (reinsert ord (Node l p r) cl) = hdata (Node l p r) + hdata cl"
    using reinsert_spec[OF off' cl P] below by auto
  have "sizes_ok (reinsert ord (Node l' (p\<lparr>tree_size := s\<rparr>) r') cr) \<and>
      heap_ordered ord (reinsert ord (Node l' (p\<lparr>tree_size := s\<rparr>) r') cr) \<and>
      hdata (reinsert ord (Node l' (p\<lparr>tree_size := s\<rparr>) r') cr) =
        hdata (Node l' (p\<lparr>tree_size := s\<rparr>) r') + hdata cr"
    using reinsert_spec[of cr 0 l' "p\<lparr>tree_size := s\<rparr>" r' ord] 2 3 cr below unfolding 1 by auto
  then show ?thesis using 4 unfolding 1 by (simp del: hdata_simps)
qed

lemma subtree_at_Leaf: "subtree_at a t = Leaf \<longleftrightarrow> a \<notin> haddrs t"
  by (induction t) (auto split: tree.splits)

lemma subtree_at_left: "a \<in> haddrs l \<Longrightarrow> hn_addr p \<noteq> a \<Longrightarrow> subtree_at a (Node l p r) = subtree_at a l"
  by (auto simp: subtree_at_Leaf split: tree.split)

lemma subtree_at_right: "a \<notin> haddrs l \<Longrightarrow> hn_addr p \<noteq> a \<Longrightarrow> subtree_at a (Node l p r) = subtree_at a r"
  by (simp add: subtree_at_Leaf[symmetric])

lemma subtree_at_addr: "subtree_at a t = Node l n r \<Longrightarrow> hn_addr n = a"
  by (induction t) (auto split: if_splits tree.splits)

lemma subtree_at_ok: "sizes_ok t \<Longrightarrow> sizes_ok (subtree_at a t)"
  by (induction t) (auto split: tree.splits)

lemma root_addr_subtree: "root_addr t = Some a \<Longrightarrow> subtree_at a t = t"
  by (cases t) auto

lemma root_addr_haddrs: "root_addr t = Some a \<Longrightarrow> a \<in> haddrs t"
  by (cases t) auto

text \<open>Removing below the root: exactly the node at the address disappears.\<close>

definition removed :: "HeapOrder \<Rightarrow> 'a HeapNode \<Rightarrow> 'a htree \<Rightarrow> 'a htree \<Rightarrow> bool" where
  "removed ord n t t' \<longleftrightarrow> sizes_ok t' \<and> heap_ordered ord t' \<and> hdata t = add_mset (node_data n) (hdata t')"

lemma removed_size: "removed ord n t t' \<Longrightarrow> size t = Suc (size t')"
  by (metis removed_def size_hdata size_add_mset)

lemma removed_hcosts: "removed ord n t t' \<Longrightarrow> hcosts t' \<subseteq> hcosts t"
  by (simp add: removed_def hcosts_hdata subset_insertI)

lemma remove_child_left:
  assumes t: "sizes_ok (Node (Node cl n cr) p r)" "heap_ordered ord (Node (Node cl n cr) p r)"
  shows "removed ord n (Node (Node cl n cr) p r)
    (reinsert ord (reinsert ord (Node Leaf (p\<lparr>tree_size := tree_size p - 1\<rparr>) r) cl) cr)"
proof -
  define p' where "p' = p\<lparr>tree_size := tree_size p - 1\<rparr>"
  have "sizes_off (of_nat (size cl + size cr)) (Node Leaf p' r)" "heap_ordered ord (Node Leaf p' r)"
    "\<forall>x \<in> hcosts cl \<union> hcosts cr. goes_below ord (hn_cost p') x" "node_data p' = node_data p"
    using t by (auto simp: p'_def)
  then show ?thesis using reinsert_children[of cl cr Leaf p' r ord] t
    unfolding p'_def[symmetric] by (simp add: removed_def ac_simps)
qed

lemma remove_child_right:
  assumes t: "sizes_ok (Node l p (Node cl n cr))" "heap_ordered ord (Node l p (Node cl n cr))"
  shows "removed ord n (Node l p (Node cl n cr))
    (reinsert ord (reinsert ord (Node l (p\<lparr>tree_size := tree_size p - 1\<rparr>) Leaf) cl) cr)"
proof -
  define p' where "p' = p\<lparr>tree_size := tree_size p - 1\<rparr>"
  have "sizes_off (of_nat (size cl + size cr)) (Node l p' Leaf)" "heap_ordered ord (Node l p' Leaf)"
    "\<forall>x \<in> hcosts cl \<union> hcosts cr. goes_below ord (hn_cost p') x" "node_data p' = node_data p"
    using t by (auto simp: p'_def)
  then show ?thesis using reinsert_children[of cl cr l p' Leaf ord] t
    unfolding p'_def[symmetric] by (simp add: removed_def ac_simps)
qed

lemma removed_left:
  assumes "removed ord n l l'" "sizes_ok (Node l p r)" "heap_ordered ord (Node l p r)"
  shows "removed ord n (Node l p r) (Node l' (p\<lparr>tree_size := tree_size p - 1\<rparr>) r)"
  using assms removed_size[OF assms(1)] removed_hcosts[OF assms(1)]
  by (auto simp: removed_def)

lemma removed_right:
  assumes "removed ord n r r'" "sizes_ok (Node l p r)" "heap_ordered ord (Node l p r)"
  shows "removed ord n (Node l p r) (Node l (p\<lparr>tree_size := tree_size p - 1\<rparr>) r')"
  using assms removed_size[OF assms(1)] removed_hcosts[OF assms(1)]
  by (auto simp: removed_def)

lemma remove_below_spec:
  assumes "sizes_ok t" "heap_ordered ord t" "\<forall>b. addr_count t b \<le> 1"
    and "root_addr t \<noteq> Some a" and "subtree_at a t = Node cl n cr"
  shows "removed ord n t (remove_below ord a t)"
  using assms
proof (induction t)
  case Leaf
  then show ?case by simp
next
  case (Node l p r)
  have a: "hn_addr p \<noteq> a" using Node.prems(4) by simp
  have cnt: "\<forall>b. addr_count l b \<le> 1" "\<forall>b. addr_count r b \<le> 1"
    using Node.prems(3) by (auto simp: le_Suc_eq)
  show ?case
  proof (cases "a \<in> haddrs l")
    case True
    then have sub: "subtree_at a l = Node cl n cr"
      using Node.prems(5) subtree_at_left[OF True a] by simp
    then have nr: "root_addr l = Some a \<Longrightarrow> l = Node cl n cr" by (simp add: root_addr_subtree)
    show ?thesis
    proof (cases "root_addr l = Some a")
      case True
      then show ?thesis using nr Node.prems remove_child_left[of cl n cr p r ord] by (simp add: Let_def)
    next
      case False
      have rl: "removed ord n l (remove_below ord a l)"
        using Node.IH(1)[OF _ _ cnt(1) False sub] Node.prems by simp
      have "0 < addr_count l a" using True by (simp add: haddrs_addr_count)
      then have "addr_count r a = 0" using Node.prems(3)[rule_format, of a] by simp
      then have "root_addr r \<noteq> Some a" using root_addr_haddrs[of r a] by (auto simp: haddrs_addr_count)
      then show ?thesis using removed_left[OF rl Node.prems(1,2)] False True
        by (simp add: Let_def haddrs_def)
    qed
  next
    case notl: False
    then have sub: "subtree_at a r = Node cl n cr"
      using Node.prems(5) subtree_at_right[OF notl a] by simp
    have nl: "root_addr l \<noteq> Some a" using notl root_addr_haddrs by blast
    show ?thesis
    proof (cases "root_addr r = Some a")
      case True
      then have "r = Node cl n cr" using sub by (simp add: root_addr_subtree)
      then show ?thesis using nl True Node.prems remove_child_right[of l p cl n cr ord] by (simp add: Let_def)
    next
      case False
      have rr: "removed ord n r (remove_below ord a r)"
        using Node.IH(2)[OF _ _ cnt(2) False sub] Node.prems by simp
      then show ?thesis using removed_right[OF rr Node.prems(1,2)] nl notl False
        by (simp add: Let_def haddrs_def)
    qed
  qed
qed

lemma join_children_spec:
  assumes "sizes_ok (Node l n r)" "heap_ordered ord (Node l n r)"
  shows "removed ord n (Node l n r) (join_children ord l r)"
  using assms by (auto simp: removed_def join_children_def sizes_ok_insert_node heap_ordered_insert_node)

section \<open>Correctness of the operations\<close>

lemma heap_wfD:
  assumes "heap_wf h"
  shows "heap_ordered (hp_order h) (hp_root h)" "sizes_ok (hp_root h)"
    "hp_size h = of_nat (size (hp_root h))" "\<forall>a. addr_count (hp_root h) a \<le> 1"
    "walk_pos h = Some a \<Longrightarrow> a \<in> haddrs (hp_root h)"
  using assms by (auto simp: heap_wf_def)

lemma heap_data_haddrs: "fst ` set_mset (heap_data h) = haddrs (hp_root h)"
  by (simp add: haddrs_hdata)

text \<open>Inserting at a fresh address never trips the size assertion.\<close>

lemma heap_insert_spec:
  assumes wf: "heap_wf h" and fresh: "addr \<notin> haddrs (hp_root h)"
  shows "\<exists>h'. GNUNET_CONTAINER_heap_insert h addr e c = Some h' \<and> heap_wf h' \<and>
    heap_data h' = add_mset (addr, e, c) (heap_data h) \<and> hp_order h' = hp_order h"
proof -
  define n where "n = \<lparr>hn_addr = addr, hn_element = e, hn_cost = c, tree_size = 0\<rparr>"
  define t where "t = insert_node (hp_order h) (hp_root h) (Node Leaf n Leaf)"
  note w = heap_wfD[OF wf]
  have nd: "node_data n = (addr, e, c)" "hn_addr n = addr" "tree_size n = 0" by (simp_all add: n_def node_data_def)
  have d: "hdata t = add_mset (addr, e, c) (heap_data h)" by (simp add: t_def nd)
  have sz: "size t = Suc (size (hp_root h))" by (simp add: t_def)
  have ok: "sizes_ok t" "heap_ordered (hp_order h) t"
    unfolding t_def using w(1,2) by (auto intro!: sizes_ok_insert_node heap_ordered_insert_node simp: nd)
  have "t \<noteq> Leaf" using sz by auto
  then have assert: "hp_size h + 1 = tree_size (value t) + 1"
    using tree_size_root[OF ok(1)] w(3) sz by (simp add: add.commute)
  have "(if hp_root h = Leaf then Node Leaf n Leaf
      else insert_node (hp_order h) (hp_root h) (Node Leaf n Leaf)) = t" by (simp add: t_def)
  then have ins: "GNUNET_CONTAINER_heap_insert h addr e c =
      Some (h\<lparr>hp_root := t, hp_size := hp_size h + 1\<rparr>)"
    unfolding GNUNET_CONTAINER_heap_insert_def n_def[symmetric] Let_def using assert by simp
  have "addr_count (hp_root h) addr = 0" using fresh haddrs_addr_count[of addr "hp_root h"] by blast
  then have "addr_count t a \<le> 1" for a
    using w(4)[rule_format, of a] unfolding addr_count_def d by (cases "addr = a") simp_all
  moreover have "haddrs (hp_root h) \<subseteq> haddrs t" by (auto simp: t_def)
  ultimately have "heap_wf (h\<lparr>hp_root := t, hp_size := hp_size h + 1\<rparr>)"
    using ok w(3,5) sz by (auto simp: heap_wf_def split: option.splits)
  with ins d show ?thesis by simp
qed

lemma removed_addr_count:
  "removed ord n t t' \<Longrightarrow> addr_count t b = (if hn_addr n = b then 1 else 0) + addr_count t' b"
  by (simp add: removed_def addr_count_def node_data_def)

lemma removed_haddrs:
  assumes "removed ord n t t'" "\<forall>b. addr_count t b \<le> 1"
  shows "haddrs t' = haddrs t - {hn_addr n}"
proof -
  have "b \<in> haddrs t' \<longleftrightarrow> b \<in> haddrs t \<and> b \<noteq> hn_addr n" for b
    using removed_addr_count[OF assms(1), of b] assms(2)[rule_format, of b]
    by (auto simp: haddrs_addr_count split: if_splits)
  then show ?thesis by auto
qed

text \<open>The heap with one node taken out.\<close>

lemma removed_wf:
  assumes wf: "heap_wf h" and r: "removed (hp_order h) n (hp_root h) (hp_root h')"
    and h': "hp_order h' = hp_order h" "hp_size h' = hp_size h - 1"
      "\<And>a. walk_pos h' = Some a \<Longrightarrow> a \<in> haddrs (hp_root h')"
  shows "heap_wf h'"
proof -
  have "addr_count (hp_root h') b \<le> 1" for b
    using heap_wfD(4)[OF wf, rule_format, of b] removed_addr_count[OF r, of b] by simp
  moreover have "hp_size h - 1 = of_nat (size (hp_root h'))"
    using heap_wfD(3)[OF wf] removed_size[OF r] by simp
  ultimately show ?thesis using r h' by (auto simp: heap_wf_def removed_def split: option.split)
qed

lemma heap_root_first:
  assumes "heap_ordered ord (Node l n r)" "(a, e, c) \<in># hdata (Node l n r)"
  shows "goes_below ord (hn_cost n) c"
proof -
  have "c \<in> hcosts (Node l n r)" using assms(2) unfolding hcosts_hdata
    by (rule rev_image_eqI) simp
  then show ?thesis using assms(1) by (auto simp: goes_below_def)
qed

text \<open>The root has a cost that comes first in the heap's order, and exactly it is taken out.\<close>

lemma heap_remove_root_spec:
  assumes wf: "heap_wf h"
  shows "case GNUNET_CONTAINER_heap_remove_root h of
      (None, h') \<Rightarrow> heap_data h = {#} \<and> h' = h
    | (Some e, h') \<Rightarrow> heap_wf h' \<and> hp_order h' = hp_order h \<and>
        (\<exists>a c. heap_data h = add_mset (a, e, c) (heap_data h') \<and>
          GNUNET_CONTAINER_heap_peek2 h = Some (e, c) \<and>
          (\<forall>a' e' c'. (a', e', c') \<in># heap_data h \<longrightarrow> goes_below (hp_order h) c c'))"
proof (cases "hp_root h")
  case Leaf
  then show ?thesis by (simp add: GNUNET_CONTAINER_heap_remove_root_def)
next
  case (Node l n r)
  let ?t = "join_children (hp_order h) l r"
  let ?w = "if walk_pos h = Some (hn_addr n) then root_addr ?t else walk_pos h"
  have rem: "removed (hp_order h) n (hp_root h) ?t"
    unfolding Node using heap_wfD(1,2)[OF wf] Node by (intro join_children_spec) auto
  have "?w = Some a \<Longrightarrow> a \<in> haddrs ?t" for a
    using removed_haddrs[OF rem heap_wfD(4)[OF wf]] heap_wfD(5)[OF wf, of a] root_addr_haddrs[of ?t a]
    by (auto split: if_splits)
  then have "heap_wf (h\<lparr>hp_size := hp_size h - 1, hp_root := ?t, walk_pos := ?w\<rparr>)"
    using rem by (intro removed_wf[OF wf, where n = n]) simp_all
  moreover have "heap_data h = add_mset (hn_addr n, hn_element n, hn_cost n) (hdata ?t)"
    using rem by (simp add: removed_def node_data_def)
  moreover have "\<forall>a' e' c'. (a', e', c') \<in># heap_data h \<longrightarrow> goes_below (hp_order h) (hn_cost n) c'"
    using heap_root_first heap_wfD(1)[OF wf] Node by metis
  ultimately show ?thesis
    using Node by (simp add: GNUNET_CONTAINER_heap_remove_root_def GNUNET_CONTAINER_heap_peek2_def Let_def
        del: if_split)
qed

lemma node_sizes_cleared:
  assumes "sizes_ok (Node l n r)"
  shows "(if r \<noteq> Leaf then (if l \<noteq> Leaf then tree_size n - (1 + tree_size (value l)) else tree_size n)
      - (1 + tree_size (value r))
    else (if l \<noteq> Leaf then tree_size n - (1 + tree_size (value l)) else tree_size n)) = 0"
  using assms tree_size_root[of l] tree_size_root[of r] by auto

text \<open>The assertion of \<^verbatim>\<open>remove_node\<close> holds for every node of the heap.\<close>

lemma remove_node_spec:
  assumes wf: "heap_wf h" and a: "a \<in> haddrs (hp_root h)"
  shows "\<exists>n t. remove_node h a = Some (n\<lparr>tree_size := 0\<rparr>, h\<lparr>hp_root := t\<rparr>) \<and> hn_addr n = a \<and>
    removed (hp_order h) n (hp_root h) t"
proof -
  obtain l n r where sub: "subtree_at a (hp_root h) = Node l n r"
    using a subtree_at_Leaf[of a "hp_root h"] by (cases "subtree_at a (hp_root h)") auto
  note w = heap_wfD[OF wf]
  have ok: "sizes_ok (Node l n r)" using subtree_at_ok[OF w(2), of a] sub by simp
  let ?t = "if root_addr (hp_root h) = Some a then join_children (hp_order h) l r
            else remove_below (hp_order h) a (hp_root h)"
  have "removed (hp_order h) n (hp_root h) ?t"
  proof (cases "root_addr (hp_root h) = Some a")
    case True
    then have "hp_root h = Node l n r" using root_addr_subtree sub by metis
    with True w(1,2) show ?thesis using join_children_spec by simp
  next
    case False
    with remove_below_spec[OF w(2,1,4) False sub] show ?thesis by simp
  qed
  moreover have "remove_node h a = Some (n\<lparr>tree_size := 0\<rparr>, h\<lparr>hp_root := ?t\<rparr>)"
    unfolding remove_node_def sub using node_sizes_cleared[OF ok] by (simp add: Let_def del: if_split)
  ultimately show ?thesis using subtree_at_addr[OF sub] by blast
qed

lemma walk_get_next_frame:
  "\<exists>w. snd (GNUNET_CONTAINER_heap_walk_get_next h coin) = h\<lparr>walk_pos := w\<rparr>"
proof -
  have "\<exists>w. h = h\<lparr>walk_pos := w\<rparr>" by (rule exI[of _ "walk_pos h"]) simp
  then show ?thesis by (auto simp: GNUNET_CONTAINER_heap_walk_get_next_def Let_def split: tree.split)
qed

lemma subtree_at_haddrs: "haddrs (subtree_at a t) \<subseteq> haddrs t"
  by (induction t) (auto split: tree.splits)

lemma walk_get_next_wf:
  assumes wf: "heap_wf h"
  shows "heap_wf (snd (GNUNET_CONTAINER_heap_walk_get_next h coin))"
proof (cases "hp_root h")
  case Leaf
  then show ?thesis using wf by (simp add: GNUNET_CONTAINER_heap_walk_get_next_def)
next
  case (Node l0 n0 r0)
  define pos where "pos = (case walk_pos h of None \<Rightarrow> hp_root h | Some a \<Rightarrow> subtree_at a (hp_root h))"
  have sub: "haddrs pos \<subseteq> haddrs (hp_root h)"
    using subtree_at_haddrs by (auto simp: pos_def split: option.splits)
  show ?thesis
  proof (cases pos)
    case Leaf
    then show ?thesis using wf Node
      by (simp add: GNUNET_CONTAINER_heap_walk_get_next_def pos_def[symmetric])
  next
    case (Node l n r)
    have "root_addr (if coin = 0 then r else l) = Some b \<Longrightarrow> b \<in> haddrs (hp_root h)" for b
      using root_addr_haddrs[of "if coin = 0 then r else l" b] sub Node by (auto split: if_splits)
    then show ?thesis using wf \<open>hp_root h = Node l0 n0 r0\<close> Node
      by (auto simp: GNUNET_CONTAINER_heap_walk_get_next_def pos_def[symmetric] heap_wf_def
          simp del: haddrs_simps split: option.split)
  qed
qed

text \<open>The heap as a priority queue: insertion and removal of the root meet the interface.\<close>

definition heap_inv :: "HeapOrder \<Rightarrow> 'a Heap \<Rightarrow> bool" where
  "heap_inv ord h \<longleftrightarrow> heap_wf h \<and> hp_order h = ord"

lemma heap_pop_first:
  assumes "heap_wf h" "heap_data h \<noteq> {#}"
  shows "\<exists>a e c h'. GNUNET_CONTAINER_heap_remove_root h = (Some e, h') \<and> heap_wf h' \<and>
    hp_order h' = hp_order h \<and> heap_data h = add_mset (a, e, c) (heap_data h') \<and>
    (\<forall>a' e' c'. (a', e', c') \<in># heap_data h \<longrightarrow> goes_below (hp_order h) c c')"
  using heap_remove_root_spec[OF assms(1)] assms(2)
  by (cases "GNUNET_CONTAINER_heap_remove_root h") (auto split: option.splits simp del: hdata_empty)

interpretation hq: handle_queue GNUNET_CONTAINER_heap_insert GNUNET_CONTAINER_heap_remove_root
  "\<lambda>h. heap_data h" "heap_inv ord" "goes_below ord" for ord
proof (unfold_locales, goal_cases)
  case (1 q a e c)
  then show ?case using heap_insert_spec[of q a e c] by (auto simp: heap_inv_def haddrs_hdata)
next
  case (2 q)
  then show ?case by (simp add: GNUNET_CONTAINER_heap_remove_root_def)
next
  case (3 q)
  then show ?case using heap_pop_first[of q] by (auto simp: heap_inv_def simp del: hdata_empty)
qed

lemma heap_update_cost_spec:
  assumes wf: "heap_wf h" and a: "a \<in> haddrs (hp_root h)"
  shows "\<exists>e c M h'. GNUNET_CONTAINER_heap_update_cost h a new_cost = Some h' \<and> heap_wf h' \<and>
    heap_data h = add_mset (a, e, c) M \<and> heap_data h' = add_mset (a, e, new_cost) M \<and>
    hp_order h' = hp_order h \<and> hp_size h' = hp_size h"
proof -
  obtain n t where r: "remove_node h a = Some (n\<lparr>tree_size := 0\<rparr>, h\<lparr>hp_root := t\<rparr>)"
      "hn_addr n = a" "removed (hp_order h) n (hp_root h) t"
    using remove_node_spec[OF wf a] by blast
  let ?n = "n\<lparr>tree_size := 0, hn_cost := new_cost\<rparr>"
  define t' where "t' = insert_node (hp_order h) t (Node Leaf ?n Leaf)"
  have up: "GNUNET_CONTAINER_heap_update_cost h a new_cost = Some (h\<lparr>hp_root := t'\<rparr>)"
    by (auto simp: GNUNET_CONTAINER_heap_update_cost_def r(1) t'_def Let_def)
  have d: "heap_data h = add_mset (a, hn_element n, hn_cost n) (hdata t)"
      "hdata t' = add_mset (a, hn_element n, new_cost) (hdata t)"
    using r(2,3) by (simp_all add: removed_def node_data_def t'_def)
  have "addr_count t' b = addr_count (hp_root h) b" for b by (simp add: addr_count_def d)
  moreover have "haddrs t' = haddrs (hp_root h)" by (simp add: haddrs_hdata d)
  moreover have "sizes_ok t'" "heap_ordered (hp_order h) t'" using r(3)
    by (auto simp: t'_def removed_def intro!: sizes_ok_insert_node heap_ordered_insert_node)
  moreover have "size t' = size (hp_root h)" using removed_size[OF r(3)] by (simp add: t'_def)
  ultimately have "heap_wf (h\<lparr>hp_root := t'\<rparr>)" using wf by (simp add: heap_wf_def split: option.splits)
  with up d show ?thesis by fastforce
qed

section \<open>Properties\<close>

text \<open>A sample heap: the nodes at addresses 1, 2 and 3 with costs 5, 3 and 9.\<close>

definition sample_heap :: "string Heap" where
  "sample_heap = the (GNUNET_CONTAINER_heap_insert (the (GNUNET_CONTAINER_heap_insert
     (the (GNUNET_CONTAINER_heap_insert (GNUNET_CONTAINER_heap_create HEAP_ORDER_MIN) 1 ''a'' 5))
       2 ''b'' 3)) 3 ''c'' 9)"

lemma heap_create_wf: "heap_wf (GNUNET_CONTAINER_heap_create ord)"
  by (simp add: heap_wf_def GNUNET_CONTAINER_heap_create_def)

lemma sample_heap_eq:
  "sample_heap = \<lparr>hp_root = Node (Node Leaf \<lparr>hn_addr = 1, hn_element = ''a'', hn_cost = 5, tree_size = 0\<rparr> Leaf)
      \<lparr>hn_addr = 2, hn_element = ''b'', hn_cost = 3, tree_size = 2\<rparr>
      (Node Leaf \<lparr>hn_addr = 3, hn_element = ''c'', hn_cost = 9, tree_size = 0\<rparr> Leaf),
    walk_pos = None, hp_size = 3, hp_order = HEAP_ORDER_MIN\<rparr>"
  by (simp add: sample_heap_def GNUNET_CONTAINER_heap_insert_def GNUNET_CONTAINER_heap_create_def
      Let_def goes_below_def)

lemma sample_heap_wf: "heap_wf sample_heap"
  by (simp add: sample_heap_eq heap_wf_def goes_below_def)

text \<open>C6: inserting at a fresh address never trips the size assertion, keeps the invariant, adds
  exactly the new node, and the new root is the old one unless the new cost comes strictly first.\<close>

theorem heap_insert_correct:
  assumes wf: "heap_wf h" and fresh: "addr \<notin> haddrs (hp_root h)"
  shows "\<exists>h'. GNUNET_CONTAINER_heap_insert h addr e c = Some h' \<and> heap_wf h' \<and>
    heap_data h' = add_mset (addr, e, c) (heap_data h) \<and>
    GNUNET_CONTAINER_heap_peek2 h' =
      (case GNUNET_CONTAINER_heap_peek2 h of
         None \<Rightarrow> Some (e, c)
       | Some (e0, c0) \<Rightarrow> if goes_below (hp_order h) c0 c then Some (e0, c0) else Some (e, c))"
proof -
  obtain h' where h': "GNUNET_CONTAINER_heap_insert h addr e c = Some h'" "heap_wf h'"
      "heap_data h' = add_mset (addr, e, c) (heap_data h)"
    using heap_insert_spec[OF assms, of e c] by blast
  let ?n = "\<lparr>hn_addr = addr, hn_element = e, hn_cost = c, tree_size = 0\<rparr>"
  have root: "hp_root h' = insert_node (hp_order h) (hp_root h) (Node Leaf ?n Leaf)"
    using h'(1) by (auto simp: GNUNET_CONTAINER_heap_insert_def Let_def split: if_splits)
  have "GNUNET_CONTAINER_heap_peek2 h' =
      (case GNUNET_CONTAINER_heap_peek2 h of
         None \<Rightarrow> Some (e, c)
       | Some (e0, c0) \<Rightarrow> if goes_below (hp_order h) c0 c then Some (e0, c0) else Some (e, c))"
    using goes_below_linear[of "hp_order h" _ c]
    by (cases "hp_root h") (auto simp: root GNUNET_CONTAINER_heap_peek2_def Let_def split: tree.split)
  with h' show ?thesis by blast
qed

theorem heap_insert_correct_witness:
  "\<exists>h'. GNUNET_CONTAINER_heap_insert sample_heap 4 ''d'' 2 = Some h' \<and> heap_wf h' \<and>
    GNUNET_CONTAINER_heap_peek2 h' = Some (''d'', 2)"
  using heap_insert_correct[OF sample_heap_wf, of 4 "''d''" 2]
  by (auto simp: sample_heap_eq GNUNET_CONTAINER_heap_peek2_def goes_below_def)

text \<open>C11: removing the root as often as the heap has nodes returns the elements in the order of
  their costs, each node once, and leaves the heap empty.\<close>

theorem heap_drain_sorted:
  assumes "heap_wf h"
  shows "\<exists>ts h'. pops GNUNET_CONTAINER_heap_remove_root (size (heap_data h)) h =
      (map (\<lambda>(a, e, c). e) ts, h') \<and> mset ts = heap_data h \<and> heap_data h' = {#} \<and>
      sorted_wrt (goes_below (hp_order h)) (map (\<lambda>(a, e, c). c) ts)"
  using hq.pops_sorted[of "hp_order h" h] assms by (simp add: heap_inv_def)

theorem heap_drain_sorted_witness:
  "\<exists>ts. fst (pops GNUNET_CONTAINER_heap_remove_root (size (heap_data sample_heap)) sample_heap) =
      map (\<lambda>(a, e, c). e) ts \<and> mset ts = heap_data sample_heap \<and>
    fst (pops GNUNET_CONTAINER_heap_remove_root 3 sample_heap) = [''b'', ''a'', ''c'']"
proof -
  have "fst (pops GNUNET_CONTAINER_heap_remove_root 3 sample_heap) = [''b'', ''a'', ''c'']"
    by (simp add: sample_heap_eq GNUNET_CONTAINER_heap_remove_root_def join_children_def Let_def
        goes_below_def numeral_3_eq_3)
  with heap_drain_sorted[OF sample_heap_wf] show ?thesis by fastforce
qed

text \<open>C28: removing the node behind a handle never trips the assertion of \<^verbatim>\<open>remove_node\<close>; it returns
  the element of that node, takes exactly it out and keeps the invariant, the walk included.\<close>

theorem heap_remove_node_correct:
  assumes wf: "heap_wf h" and a: "a \<in> haddrs (hp_root h)"
  shows "\<exists>e c h'. GNUNET_CONTAINER_heap_remove_node h a coin = Some (e, h') \<and> heap_wf h' \<and>
    heap_data h = add_mset (a, e, c) (heap_data h') \<and> a \<notin> haddrs (hp_root h')"
proof -
  define h1 where
    "h1 = (if walk_pos h = Some a then snd (GNUNET_CONTAINER_heap_walk_get_next h coin) else h)"
  have wf1: "heap_wf h1" using walk_get_next_wf[OF wf] wf by (simp add: h1_def)
  have eq: "hp_root h1 = hp_root h" using walk_get_next_frame[of h coin] by (auto simp: h1_def)
  obtain n t where r: "remove_node h1 a = Some (n\<lparr>tree_size := 0\<rparr>, h1\<lparr>hp_root := t\<rparr>)"
      "hn_addr n = a" "removed (hp_order h1) n (hp_root h1) t"
    using remove_node_spec[OF wf1, of a] a eq by auto
  define h' where "h' = h1\<lparr>hp_root := t, hp_size := hp_size h1 - 1,
    walk_pos := (if walk_pos h1 = Some a then None else walk_pos h1)\<rparr>"
  have rem: "haddrs t = haddrs (hp_root h1) - {a}"
    using removed_haddrs[OF r(3) heap_wfD(4)[OF wf1]] r(2) by simp
  have "heap_wf h'"
  proof (rule removed_wf[OF wf1])
    show "removed (hp_order h1) n (hp_root h1) (hp_root h')" using r(3) by (simp add: h'_def)
    show "walk_pos h' = Some b \<Longrightarrow> b \<in> haddrs (hp_root h')" for b
      using heap_wfD(5)[OF wf1, of b] rem by (auto simp: h'_def split: if_splits)
  qed (simp_all add: h'_def)
  moreover have "GNUNET_CONTAINER_heap_remove_node h a coin = Some (hn_element n, h')"
    unfolding GNUNET_CONTAINER_heap_remove_node_def h1_def[symmetric] Let_def r(1) h'_def by simp
  moreover have "heap_data h = add_mset (a, hn_element n, hn_cost n) (heap_data h')"
    using r(2,3) eq by (simp add: h'_def removed_def node_data_def)
  moreover have "a \<notin> haddrs (hp_root h')" using rem by (simp add: h'_def)
  ultimately show ?thesis by blast
qed

theorem heap_remove_node_correct_witness:
  "\<exists>e h'. GNUNET_CONTAINER_heap_remove_node sample_heap 1 0 = Some (e, h') \<and> heap_wf h' \<and>
    1 \<notin> haddrs (hp_root h')"
  using heap_remove_node_correct[OF sample_heap_wf, of 1 0] by (auto simp: sample_heap_eq)

text \<open>Updating a cost never trips an assertion, keeps the invariant and the size, and changes the
  cost of exactly the node behind the handle; the root afterwards has the first of the new costs.\<close>

lemma heap_update_cost_correct:
  assumes wf: "heap_wf h" and a: "a \<in> haddrs (hp_root h)"
  shows "\<exists>e c M h'. GNUNET_CONTAINER_heap_update_cost h a new_cost = Some h' \<and> heap_wf h' \<and>
    GNUNET_CONTAINER_heap_get_size h' = GNUNET_CONTAINER_heap_get_size h \<and>
    heap_data h = add_mset (a, e, c) M \<and> heap_data h' = add_mset (a, e, new_cost) M \<and>
    (\<exists>e0 c0. GNUNET_CONTAINER_heap_peek2 h' = Some (e0, c0) \<and>
      (\<forall>a' e' c'. (a', e', c') \<in># add_mset (a, e, new_cost) M \<longrightarrow> goes_below (hp_order h) c0 c'))"
proof -
  obtain e c M h' where h': "GNUNET_CONTAINER_heap_update_cost h a new_cost = Some h'" "heap_wf h'"
      "heap_data h = add_mset (a, e, c) M" "heap_data h' = add_mset (a, e, new_cost) M"
      "hp_order h' = hp_order h" "hp_size h' = hp_size h"
    using heap_update_cost_spec[OF assms] by blast
  then obtain e0 h2 where r: "GNUNET_CONTAINER_heap_remove_root h' = (Some e0, h2)"
    using heap_pop_first[OF h'(2)] by auto
  have "\<exists>e0 c0. GNUNET_CONTAINER_heap_peek2 h' = Some (e0, c0) \<and>
      (\<forall>a' e' c'. (a', e', c') \<in># heap_data h' \<longrightarrow> goes_below (hp_order h') c0 c')"
    using heap_remove_root_spec[OF h'(2)] r by auto
  with h' show ?thesis unfolding GNUNET_CONTAINER_heap_get_size_def by metis
qed

end
