(* ===== verification/BloomFilter.thy ===== *)
theory BloomFilter
  imports HashCode Endian
begin

text \<open>
  The Bloom filter (\<^verbatim>\<open>src/src/util/container_bloomfilter.c\<close>): a bit array, and for filters with a file
  an array of 4-bit usage counters on disk, two per byte. The file is the list of its bytes; a read
  past the end gives no byte and a write past the end extends the file with zeroes. SHA-512, which
  \<^verbatim>\<open>GNUNET_CRYPTO_hash\<close> takes from libgcrypt, is the parameter \<open>H\<close>. Calls on a \<^verbatim>\<open>NULL\<close> filter have the
  argument \<^verbatim>\<open>None\<close>. The outcomes of the disk calls that may fail are fields of \<open>disk_env\<close>.
\<close>

section \<open>State\<close>

record BloomFilter =
  bitArray :: "uint8 list"
  bf_filename :: "string option"
  bf_fh :: "uint8 list option"
  addressesPerElement :: uint32
  bitArraySize :: uint64

text \<open>What the environment answers while a filter is loaded: the file of that name if there is one,
  and which of the calls succeed.\<close>

record disk_env =
  de_file :: "uint8 list option"
  de_open :: bool
  de_create :: bool
  de_size :: bool
  de_write :: bool
  de_read :: bool
  de_malloc :: bool

abbreviation BUFFSIZE :: nat where "BUFFSIZE \<equiv> 65536"

section \<open>Operations\<close>

definition GNUNET_CONTAINER_bloomfilter_get_element_addresses :: "BloomFilter option \<Rightarrow> uint64" where
  "GNUNET_CONTAINER_bloomfilter_get_element_addresses bf =
     (case bf of None \<Rightarrow> 0 | Some b \<Rightarrow> ucast (addressesPerElement b))"

definition GNUNET_CONTAINER_bloomfilter_get_size :: "BloomFilter option \<Rightarrow> uint64" where
  "GNUNET_CONTAINER_bloomfilter_get_size bf = (case bf of None \<Rightarrow> 0 | Some b \<Rightarrow> bitArraySize b)"

definition setBit :: "uint8 list \<Rightarrow> uint32 \<Rightarrow> uint8 list" where
  "setBit arr bitIdx =
     (let slot = unat (bitIdx div 8); targetBit = push_bit (unat (bitIdx mod 8)) 1
      in arr[slot := arr ! slot OR targetBit])"

definition clearBit :: "uint8 list \<Rightarrow> uint32 \<Rightarrow> uint8 list" where
  "clearBit arr bitIdx =
     (let slot = unat (bitIdx div 8); targetBit = push_bit (unat (bitIdx mod 8)) 1
      in arr[slot := arr ! slot AND NOT targetBit])"

definition testBit :: "uint8 list \<Rightarrow> uint32 \<Rightarrow> int" where
  "testBit arr bitIdx =
     (let slot = unat (bitIdx div 8); targetBit = push_bit (unat (bitIdx mod 8)) 1
      in if arr ! slot AND targetBit \<noteq> 0 then GNUNET_YES else GNUNET_NO)"

text \<open>One byte of the counter file: a failed read counts as zero, a write may extend the file.\<close>

definition file_byte :: "uint8 list \<Rightarrow> nat \<Rightarrow> uint8" where
  "file_byte f s = (if s < length f then f ! s else 0)"

definition file_put :: "uint8 list \<Rightarrow> nat \<Rightarrow> uint8 \<Rightarrow> uint8 list" where
  "file_put f s v = (if s < length f then f[s := v] else f @ replicate (s - length f) 0 @ [v])"

definition incrementBit :: "BloomFilter \<Rightarrow> uint32 \<Rightarrow> BloomFilter" where
  "incrementBit bf bitIdx =
     (let bf1 = bf\<lparr>bitArray := setBit (bitArray bf) bitIdx\<rparr>
      in case bf_fh bf of
           None \<Rightarrow> bf1
         | Some f \<Rightarrow>
             (let fileSlot = unat (bitIdx div 2); targetLoc = bitIdx mod 2;
                  value = file_byte f fileSlot;
                  low = value AND 15; high = drop_bit 4 (value AND NOT 15);
                  low' = (if targetLoc = 0 \<and> low < 15 then low + 1 else low);
                  high' = (if targetLoc \<noteq> 0 \<and> high < 15 then high + 1 else high)
              in bf1\<lparr>bf_fh := Some (file_put f fileSlot (push_bit 4 high' OR low'))\<rparr>))"

text \<open>Without a counter file nothing can be decremented. A counter at its maximum stays there.\<close>

definition decrementBit :: "BloomFilter \<Rightarrow> uint32 \<Rightarrow> BloomFilter" where
  "decrementBit bf bitIdx =
     (case bf_fh bf of
        None \<Rightarrow> bf
      | Some f \<Rightarrow>
          (let fileslot = unat (bitIdx div 2); targetLoc = bitIdx mod 2;
               value = file_byte f fileslot;
               low = value AND 15; high = drop_bit 4 (value AND 240);
               low' = (if targetLoc = 0 \<and> 0 < low \<and> low < 15 then low - 1 else low);
               high' = (if targetLoc \<noteq> 0 \<and> 0 < high \<and> high < 15 then high - 1 else high);
               clear = (if targetLoc = 0 then low' = 0 else high' = 0)
           in bf\<lparr>bitArray := (if clear then clearBit (bitArray bf) bitIdx else bitArray bf),
                 bf_fh := Some (file_put f fileslot (push_bit 4 high' OR low'))\<rparr>))"

text \<open>Zeroes from the start of the file; bytes beyond \<open>sz0\<close> stay.\<close>

definition make_empty_file :: "bool \<Rightarrow> uint8 list option \<Rightarrow> nat \<Rightarrow> int \<times> uint8 list option" where
  "make_empty_file write_ok fh sz0 =
     (case fh of
        None \<Rightarrow> (GNUNET_SYSERR, None)
      | Some f \<Rightarrow> if sz0 = 0 then (GNUNET_OK, Some f)
                  else if \<not> write_ok then (GNUNET_SYSERR, Some f)
                  else (GNUNET_OK, Some (replicate sz0 0 @ drop sz0 f)))"

text \<open>The bit for one 32-bit piece of the hash; the multiplication is 64 bits wide.\<close>

definition bit_index :: "uint64 \<Rightarrow> GNUNET_HashCode \<Rightarrow> nat \<Rightarrow> uint32" where
  "bit_index sz tmp slot = ucast ((ucast (htonl (bits tmp ! slot)) :: uint64) mod (sz * 8))"

text \<open>
  The two nested loops of \<^verbatim>\<open>iterateBits\<close>: \<open>n\<close> is \<^verbatim>\<open>bitCount\<close>, \<open>tmp\<close> the current half of the double
  buffer, which is hashed again when its 16 words are used up and bits are still wanted.
\<close>

fun iterate_slots ::
  "(GNUNET_HashCode \<Rightarrow> GNUNET_HashCode) \<Rightarrow> uint64 \<Rightarrow> ('s \<Rightarrow> uint32 \<Rightarrow> int \<times> 's) \<Rightarrow> nat \<Rightarrow> nat \<Rightarrow>
   GNUNET_HashCode \<Rightarrow> 's \<Rightarrow> 's" where
  "iterate_slots H sz callback 0 slot tmp s = s"
| "iterate_slots H sz callback (Suc n) slot tmp s =
     (let tmp' = (if slot < hash_words then tmp else H tmp); slot' = (if slot < hash_words then slot else 0)
      in case callback s (bit_index sz tmp' slot') of
           (r, s') \<Rightarrow> if r \<noteq> GNUNET_YES then s' else iterate_slots H sz callback n (Suc slot') tmp' s')"

text \<open>\<^verbatim>\<open>None\<close> is a failed assertion on the sz0. The bit count is a signed integer.\<close>

definition iterateBits ::
  "(GNUNET_HashCode \<Rightarrow> GNUNET_HashCode) \<Rightarrow> BloomFilter \<Rightarrow> ('s \<Rightarrow> uint32 \<Rightarrow> int \<times> 's) \<Rightarrow> 's \<Rightarrow>
   GNUNET_HashCode \<Rightarrow> 's option" where
  "iterateBits H bf callback arg key =
     (if bitArraySize bf > 0 \<and> bitArraySize bf * 8 > bitArraySize bf
      then Some (iterate_slots H (bitArraySize bf) callback
                   (nat (sint (addressesPerElement bf))) 0 key arg)
      else None)"

definition incrementBitCallback :: "BloomFilter \<Rightarrow> uint32 \<Rightarrow> int \<times> BloomFilter" where
  "incrementBitCallback b bitIdx = (GNUNET_YES, incrementBit b bitIdx)"

definition decrementBitCallback :: "BloomFilter \<Rightarrow> uint32 \<Rightarrow> int \<times> BloomFilter" where
  "decrementBitCallback b bitIdx = (GNUNET_YES, decrementBit b bitIdx)"

definition testBitCallback :: "BloomFilter \<Rightarrow> int \<Rightarrow> uint32 \<Rightarrow> int \<times> int" where
  "testBitCallback bf arg bitIdx =
     (if testBit (bitArray bf) bitIdx = GNUNET_NO then (GNUNET_NO, GNUNET_NO) else (GNUNET_YES, arg))"

text \<open>The size is rounded up to a power of two, unless doubling overflows.\<close>

function load_size :: "uint64 \<Rightarrow> uint64 \<Rightarrow> uint64" where
  "load_size sz0 ui = (if ui < sz0 \<and> ui * 2 > ui then load_size sz0 (ui * 2) else ui)"
  by auto
termination
  by (relation "measure (\<lambda>(sz0, ui). 2 ^ 64 - unat ui)")
    (auto simp: word_less_nat_alt intro!: diff_less_mono2 unsigned_less[where 'a = nat and 'b = 64, simplified])

text \<open>The bits of one buffer of counters, starting at bit \<open>pos\<close>.\<close>

fun load_buffer :: "nat \<Rightarrow> uint8 list \<Rightarrow> uint8 list \<Rightarrow> uint8 list" where
  "load_buffer pos [] arr = arr"
| "load_buffer pos (b # bs) arr =
     (let arr1 = (if b AND 15 \<noteq> 0 then setBit arr (of_nat pos) else arr);
          arr2 = (if b AND 240 \<noteq> 0 then setBit arr1 (of_nat (pos + 1)) else arr1)
      in load_buffer (pos + 2) bs arr2)"

function load_loop :: "nat \<Rightarrow> nat \<Rightarrow> uint8 list \<Rightarrow> uint8 list \<Rightarrow> uint8 list" where
  "load_loop sz0 pos f arr =
     (if pos < sz0 * 8
      then let rbuff = take BUFFSIZE f; arr' = load_buffer pos rbuff arr
           in if length rbuff < BUFFSIZE then arr'
              else load_loop sz0 (pos + BUFFSIZE * 2) (drop BUFFSIZE f) arr'
      else arr)"
  by auto
termination by (relation "measure (\<lambda>(sz0, pos, f, arr). sz0 * 8 - pos)") auto

declare load_size.simps [simp del] load_loop.simps [simp del]

text \<open>Loading a filter from its file, or creating the file. \<^verbatim>\<open>None\<close> is a returned \<^verbatim>\<open>NULL\<close>.\<close>

definition GNUNET_CONTAINER_bloomfilter_load ::
  "disk_env \<Rightarrow> string \<Rightarrow> uint64 \<Rightarrow> uint32 \<Rightarrow> BloomFilter option" where
  "GNUNET_CONTAINER_bloomfilter_load env filename sz0 k =
     (if k = 0 \<or> sz0 = 0 then None
      else
        let size1 = (if sz0 < of_nat BUFFSIZE then of_nat BUFFSIZE else sz0);
            sz = load_size size1 1;
            done = (\<lambda>fh arr. \<lparr>bitArray = arr, bf_filename = Some filename, bf_fh = fh,
                              addressesPerElement = k, bitArraySize = sz\<rparr>);
            zero = replicate (unat sz) 0;
            opened = (if de_open env then de_file env else None)
        in case opened of
             Some f \<Rightarrow>
               if \<not> de_size env then None
               else if length f = 0 then
                 (case make_empty_file (de_write env) (Some f) (unat (sz * 4)) of
                    (rc, fh) \<Rightarrow> if rc \<noteq> GNUNET_OK then None
                      else if \<not> de_malloc env then None
                      else if \<not> de_read env then None
                      else Some (done fh zero))
               else if length f \<noteq> unat (sz * 4) then None
               else if \<not> de_malloc env then None
               else if \<not> de_read env then None
               else Some (done (Some f) (load_loop (unat sz) 0 f zero))
           | None \<Rightarrow>
               if \<not> de_create env then None
               else (case make_empty_file (de_write env)
                       (Some (case de_file env of None \<Rightarrow> [] | Some f \<Rightarrow> f)) (unat (sz * 4)) of
                       (rc, fh) \<Rightarrow> if rc \<noteq> GNUNET_OK then None
                         else if \<not> de_malloc env then None else Some (done fh zero)))"

definition GNUNET_CONTAINER_bloomfilter_init ::
  "uint8 list option \<Rightarrow> uint64 \<Rightarrow> uint32 \<Rightarrow> BloomFilter option" where
  "GNUNET_CONTAINER_bloomfilter_init data sz0 k =
     (if k = 0 \<or> sz0 = 0 then None
      else Some \<lparr>bitArray = (case data of None \<Rightarrow> replicate (unat sz0) 0 | Some d \<Rightarrow> take (unat sz0) d),
                 bf_filename = None, bf_fh = None, addressesPerElement = k, bitArraySize = sz0\<rparr>)"

definition GNUNET_CONTAINER_bloomfilter_copy :: "BloomFilter \<Rightarrow> BloomFilter option" where
  "GNUNET_CONTAINER_bloomfilter_copy bf =
     GNUNET_CONTAINER_bloomfilter_init (Some (bitArray bf)) (bitArraySize bf) (addressesPerElement bf)"

definition GNUNET_CONTAINER_bloomfilter_get_raw_data ::
  "BloomFilter option \<Rightarrow> uint8 list \<Rightarrow> uint64 \<Rightarrow> int \<times> uint8 list" where
  "GNUNET_CONTAINER_bloomfilter_get_raw_data bf data sz0 =
     (case bf of None \<Rightarrow> (GNUNET_SYSERR, data)
      | Some b \<Rightarrow> if bitArraySize b \<noteq> sz0 then (GNUNET_SYSERR, data)
                  else (GNUNET_OK, take (unat sz0) (bitArray b) @ drop (unat sz0) data))"

definition GNUNET_CONTAINER_bloomfilter_clear :: "BloomFilter option \<Rightarrow> BloomFilter option" where
  "GNUNET_CONTAINER_bloomfilter_clear bf =
     map_option (\<lambda>b.
       let b1 = b\<lparr>bitArray := replicate (unat (bitArraySize b)) 0\<rparr>
       in if bf_filename b \<noteq> None
          then b1\<lparr>bf_fh := snd (make_empty_file True (bf_fh b) (unat (bitArraySize b * 4)))\<rparr>
          else b1) bf"

definition GNUNET_CONTAINER_bloomfilter_test ::
  "(GNUNET_HashCode \<Rightarrow> GNUNET_HashCode) \<Rightarrow> BloomFilter option \<Rightarrow> GNUNET_HashCode \<Rightarrow> int option" where
  "GNUNET_CONTAINER_bloomfilter_test H bf e =
     (case bf of None \<Rightarrow> Some GNUNET_YES
      | Some b \<Rightarrow> iterateBits H b (testBitCallback b) GNUNET_YES e)"

definition GNUNET_CONTAINER_bloomfilter_add ::
  "(GNUNET_HashCode \<Rightarrow> GNUNET_HashCode) \<Rightarrow> BloomFilter option \<Rightarrow> GNUNET_HashCode \<Rightarrow>
   BloomFilter option option" where
  "GNUNET_CONTAINER_bloomfilter_add H bf e =
     (case bf of None \<Rightarrow> Some None
      | Some b \<Rightarrow> map_option Some (iterateBits H b incrementBitCallback b e))"

text \<open>The first \<open>8 * n\<close> bytes eight at a time, which is the bitwise OR of each byte, then the rest.
  The number \<open>n\<close> of 64-bit groups is an \<^verbatim>\<open>unsigned int\<close>.\<close>

definition or_bytes :: "nat \<Rightarrow> nat \<Rightarrow> uint8 list \<Rightarrow> uint8 list \<Rightarrow> uint8 list" where
  "or_bytes from to dst src =
     map (\<lambda>i. if from \<le> i \<and> i < to then dst ! i OR src ! i else dst ! i) [0..<length dst]"

definition or_arrays :: "uint64 \<Rightarrow> uint8 list \<Rightarrow> uint8 list \<Rightarrow> uint8 list" where
  "or_arrays sz0 dst src =
     (let n = unat (ucast (sz0 div 8) :: uint32)
      in or_bytes (8 * n) (unat sz0) (or_bytes 0 (8 * n) dst src) src)"

definition GNUNET_CONTAINER_bloomfilter_or ::
  "BloomFilter option \<Rightarrow> uint8 list \<Rightarrow> uint64 \<Rightarrow> int \<times> BloomFilter option" where
  "GNUNET_CONTAINER_bloomfilter_or bf data sz0 =
     (case bf of None \<Rightarrow> (GNUNET_YES, None)
      | Some b \<Rightarrow> if bitArraySize b \<noteq> sz0 then (GNUNET_SYSERR, Some b)
                  else (GNUNET_OK, Some (b\<lparr>bitArray := or_arrays sz0 (bitArray b) data\<rparr>)))"

definition GNUNET_CONTAINER_bloomfilter_or2 ::
  "BloomFilter option \<Rightarrow> BloomFilter \<Rightarrow> int \<times> BloomFilter option" where
  "GNUNET_CONTAINER_bloomfilter_or2 bf to_or =
     (case bf of None \<Rightarrow> (GNUNET_OK, None)
      | Some b \<Rightarrow>
          if bitArraySize b \<noteq> bitArraySize to_or then (GNUNET_SYSERR, Some b)
          else (GNUNET_OK,
                Some (b\<lparr>bitArray := or_arrays (bitArraySize b) (bitArray b) (bitArray to_or)\<rparr>)))"

definition GNUNET_CONTAINER_bloomfilter_remove ::
  "(GNUNET_HashCode \<Rightarrow> GNUNET_HashCode) \<Rightarrow> BloomFilter option \<Rightarrow> GNUNET_HashCode \<Rightarrow>
   BloomFilter option option" where
  "GNUNET_CONTAINER_bloomfilter_remove H bf e =
     (case bf of None \<Rightarrow> Some None
      | Some b \<Rightarrow> if bf_filename b = None then Some (Some b)
                  else map_option Some (iterateBits H b decrementBitCallback b e))"

text \<open>The doubling loop of the resize operation, on a 32-bit counter: it need not end.\<close>

partial_function (option) resize_size :: "uint64 \<Rightarrow> uint32 \<Rightarrow> uint32 option" where
  "resize_size sz0 i = (if (ucast i :: uint64) < sz0 then resize_size sz0 (i * 2) else Some i)"

fun add_all ::
  "(GNUNET_HashCode \<Rightarrow> GNUNET_HashCode) \<Rightarrow> BloomFilter \<Rightarrow> GNUNET_HashCode list \<Rightarrow> BloomFilter option" where
  "add_all H bf [] = Some bf"
| "add_all H bf (hc # hcs) =
     (case GNUNET_CONTAINER_bloomfilter_add H (Some bf) hc of
        Some (Some bf') \<Rightarrow> add_all H bf' hcs | _ \<Rightarrow> None)"

text \<open>\<open>hcs\<close> is what the iterator delivers. The argument \<open>k\<close> is not used.\<close>

definition GNUNET_CONTAINER_bloomfilter_resize ::
  "(GNUNET_HashCode \<Rightarrow> GNUNET_HashCode) \<Rightarrow> BloomFilter \<Rightarrow> GNUNET_HashCode list \<Rightarrow> uint64 \<Rightarrow> uint32 \<Rightarrow>
   BloomFilter option" where
  "GNUNET_CONTAINER_bloomfilter_resize H bf hcs sz0 k =
     (case resize_size sz0 1 of
        None \<Rightarrow> None
      | Some i \<Rightarrow>
          (let sz = ucast i :: uint64;
               bf1 = bf\<lparr>bitArraySize := sz, bitArray := replicate (unat sz) 0\<rparr>;
               bf2 = (if bf_filename bf \<noteq> None
                      then bf1\<lparr>bf_fh := snd (make_empty_file True (bf_fh bf) (unat (sz * 4)))\<rparr> else bf1)
           in add_all H bf2 hcs))"

section \<open>Bits and counters\<close>

text \<open>The bits of the array and the counters of the file, by index.\<close>

definition bit_at :: "uint8 list \<Rightarrow> nat \<Rightarrow> bool" where
  "bit_at arr i \<longleftrightarrow> bit (arr ! (i div 8)) (i mod 8)"

definition counter :: "uint8 list \<Rightarrow> nat \<Rightarrow> nat" where
  "counter f i = (if even i then unat (file_byte f (i div 2)) mod 16 else unat (file_byte f (i div 2)) div 16)"

lemma div_mod_eq_iff: "(i :: nat) = j \<longleftrightarrow> i div n = j div n \<and> i mod n = j mod n"
  by (metis div_mult_mod_eq)

lemma unat_div_mod_8: "unat ((x :: uint32) div 8) = unat x div 8" "unat (x mod 8) = unat x mod 8"
  "unat (x div 2) = unat x div 2" "unat (x mod 2) = unat x mod 2"
  by (simp_all add: unat_div unat_mod)

lemma bit_exp_8 [simp]: "bit (2 ^ m :: uint8) n \<longleftrightarrow> n = m \<and> m < 8"
  by (auto simp: bit_exp_iff)

lemma bit_at_setBit:
  assumes "unat idx < 8 * length arr"
  shows "bit_at (setBit arr idx) i \<longleftrightarrow> i = unat idx \<or> bit_at arr i"
proof (cases "i div 8 = unat idx div 8")
  case True
  have "unat idx div 8 < length arr" using assms by linarith
  then show ?thesis using True div_mod_eq_iff[of i "unat idx" 8]
    by (auto simp: bit_at_def setBit_def Let_def unat_div_mod_8 bit_or_iff bit_push_bit_iff)
next
  case False
  then show ?thesis by (auto simp: bit_at_def setBit_def Let_def unat_div_mod_8)
qed

lemma bit_at_clearBit:
  assumes "unat idx < 8 * length arr"
  shows "bit_at (clearBit arr idx) i \<longleftrightarrow> i \<noteq> unat idx \<and> bit_at arr i"
proof (cases "i div 8 = unat idx div 8")
  case True
  have "unat idx div 8 < length arr" using assms by linarith
  moreover have "i mod 8 < 8" by simp
  ultimately show ?thesis using True div_mod_eq_iff[of i "unat idx" 8]
    by (auto simp: bit_at_def clearBit_def Let_def unat_div_mod_8 bit_and_iff bit_not_iff bit_push_bit_iff)
next
  case False
  then show ?thesis by (auto simp: bit_at_def clearBit_def Let_def unat_div_mod_8)
qed

lemma testBit_iff: "testBit arr idx = (if bit_at arr (unat idx) then GNUNET_YES else GNUNET_NO)"
proof -
  have "(arr ! (unat idx div 8) AND push_bit (unat idx mod 8) 1 \<noteq> 0) = bit_at arr (unat idx)"
    unfolding bit_at_def by (rule bit_iff_and_push_bit_not_eq_0[symmetric])
  then show ?thesis by (simp add: testBit_def Let_def unat_div_mod_8)
qed

lemma length_setBit [simp]: "length (setBit arr idx) = length arr"
  by (simp add: setBit_def Let_def)

lemma length_clearBit [simp]: "length (clearBit arr idx) = length arr"
  by (simp add: clearBit_def Let_def)

lemma low_nibble: "unat ((v :: uint8) AND 15) = unat v mod 16"
proof -
  have "v AND 15 = take_bit 4 v" by (simp add: take_bit_eq_mask mask_eq_exp_minus_1)
  then show ?thesis by (simp add: unsigned_take_bit_eq take_bit_nat_def)
qed

lemma high_nibble:
  "unat (drop_bit 4 ((v :: uint8) AND NOT 15)) = unat v div 16"
  "unat (drop_bit 4 ((v :: uint8) AND 240)) = unat v div 16"
proof -
  have "(15 :: uint8) = mask 4" by (simp add: mask_eq_exp_minus_1)
  then have 1: "drop_bit 4 (v AND NOT 15) = drop_bit 4 v"
    by (intro bit_word_eqI) (simp only: bit_drop_bit_eq bit_and_iff bit_not_iff bit_mask_iff o_def,
      auto dest: bit_imp_le_length)
  have "(240 :: uint8) = NOT 15" by simp
  then have 2: "drop_bit 4 (v AND 240) = drop_bit 4 v" using 1 by simp
  have "unat (drop_bit 4 v) = unat v div 16" by (simp add: unat_drop_bit_eq drop_bit_nat_def)
  with 1 2 show "unat (drop_bit 4 (v AND NOT 15)) = unat v div 16"
    "unat (drop_bit 4 (v AND 240)) = unat v div 16" by simp_all
qed

lemma join_nibbles:
  assumes "unat (h :: uint8) < 16" "unat l < 16"
  shows "unat (push_bit 4 h OR l) = 16 * unat h + unat l"
proof -
  have l: "l = take_bit 4 l"
    using assms(2) by (simp add: word_unat_eq_iff unsigned_take_bit_eq take_bit_nat_def)
  have "push_bit 4 h + l = push_bit 4 h OR l"
    by (rule disjunctive_add, subst l) (auto simp: bit_push_bit_iff bit_take_bit_iff)
  moreover have "unat (push_bit 4 h) = 16 * unat h"
    using assms(1) by (simp add: push_bit_eq_mult unat_word_ariths mult.commute)
  ultimately show ?thesis using assms unat_add_no_wrap[of "push_bit 4 h" l] by simp
qed

lemma file_byte_put: "file_byte (file_put f s v) t = (if t = s then v else file_byte f t)"
  by (auto simp: file_byte_def file_put_def nth_append nth_append_left)

text \<open>Replacing one nibble of the byte that holds counter \<open>unat idx\<close>.\<close>

lemma counter_put:
  assumes "unat h < 16" "unat l < 16"
  shows "counter (file_put f (unat idx div 2) (push_bit 4 h OR l)) i =
    (if i div 2 = unat idx div 2 then (if even i then unat l else unat h) else counter f i)"
  using assms by (simp add: counter_def file_byte_put join_nibbles)

lemma counter_le: "counter f i \<le> 15"
proof -
  have "unat (file_byte f (i div 2)) < 256" using unsigned_less[where 'a = nat, of "file_byte f (i div 2)"] by simp
  then show ?thesis by (auto simp: counter_def)
qed

lemma nibble_pair_iff: "(i :: nat) div 2 = j div 2 \<Longrightarrow> (i = j) = (even i = even j)"
  by (metis div_mod_eq_iff even_iff_mod_2_eq_zero mod2_eq_if)

lemma targetLoc_iff: "(idx mod 2 = (0 :: uint32)) = even (unat idx)"
  by (metis even_iff_mod_2_eq_zero unat_div_mod_8(4) unat_eq_0)

lemma incrementBit_fields [simp]:
  "bitArray (incrementBit bf idx) = setBit (bitArray bf) idx"
  "bitArraySize (incrementBit bf idx) = bitArraySize bf"
  "addressesPerElement (incrementBit bf idx) = addressesPerElement bf"
  "bf_filename (incrementBit bf idx) = bf_filename bf"
  "bf_fh (incrementBit bf idx) = None \<longleftrightarrow> bf_fh bf = None"
  by (auto simp: incrementBit_def Let_def split: option.split)

lemma decrementBit_fields [simp]:
  "bitArraySize (decrementBit bf idx) = bitArraySize bf"
  "addressesPerElement (decrementBit bf idx) = addressesPerElement bf"
  "bf_filename (decrementBit bf idx) = bf_filename bf"
  "bf_fh (decrementBit bf idx) = None \<longleftrightarrow> bf_fh bf = None"
  "length (bitArray (decrementBit bf idx)) = length (bitArray bf)"
  by (auto simp: decrementBit_def Let_def split: option.split)

lemma increment_counter:
  assumes "bf_fh bf = Some f"
  shows "\<exists>f'. bf_fh (incrementBit bf idx) = Some f' \<and>
    counter f' i = (if i = unat idx then min 15 (counter f i + 1) else counter f i)"
proof -
  define v where "v = file_byte f (unat idx div 2)"
  define l where "l = v AND 15"
  define h where "h = drop_bit 4 (v AND NOT 15)"
  define l' where "l' = (if idx mod 2 = 0 \<and> l < 15 then l + 1 else l)"
  define h' where "h' = (if idx mod 2 \<noteq> 0 \<and> h < 15 then h + 1 else h)"
  have "unat v < 256" using unsigned_less[where 'a = nat, of v] by simp
  then have lh: "unat l = unat v mod 16" "unat h = unat v div 16" "unat l \<le> 15" "unat h \<le> 15"
    unfolding l_def h_def low_nibble high_nibble by auto
  have l': "unat l' = (if even (unat idx) then min 15 (unat l + 1) else unat l)"
    using lh(3) unat_add_no_wrap[of l 1] by (auto simp: l'_def targetLoc_iff word_less_nat_alt)
  have h': "unat h' = (if even (unat idx) then unat h else min 15 (unat h + 1))"
    using lh(4) unat_add_no_wrap[of h 1] by (auto simp: h'_def targetLoc_iff word_less_nat_alt)
  have fh: "bf_fh (incrementBit bf idx) = Some (file_put f (unat idx div 2) (push_bit 4 h' OR l'))"
    unfolding incrementBit_def assms Let_def unat_div_mod_8
    by (simp add: v_def l_def h_def l'_def h'_def)
  have b: "unat h' < 16" "unat l' < 16" using l' h' lh by auto
  have "counter (file_put f (unat idx div 2) (push_bit 4 h' OR l')) i =
      (if i = unat idx then min 15 (counter f i + 1) else counter f i)"
  proof (cases "i div 2 = unat idx div 2")
    case True
    then have "counter f i = (if even i then unat l else unat h)"
      by (simp add: counter_def lh(1,2) v_def)
    then show ?thesis using True counter_put[OF b, of f idx i] nibble_pair_iff[OF True] l' h' by auto
  next
    case False
    then show ?thesis using counter_put[OF b, of f idx i] by auto
  qed
  with fh show ?thesis by blast
qed

lemma decrement_counter:
  assumes "bf_fh bf = Some f" and idx: "unat idx < 8 * length (bitArray bf)"
  shows "\<exists>f'. bf_fh (decrementBit bf idx) = Some f' \<and>
    counter f' i = (if i = unat idx \<and> counter f i < 15 then counter f i - 1 else counter f i) \<and>
    bit_at (bitArray (decrementBit bf idx)) i =
      (bit_at (bitArray bf) i \<and> \<not> (i = unat idx \<and> counter f' i = 0))"
proof -
  define v where "v = file_byte f (unat idx div 2)"
  define l where "l = v AND 15"
  define h where "h = drop_bit 4 (v AND 240)"
  define l' where "l' = (if idx mod 2 = 0 \<and> 0 < l \<and> l < 15 then l - 1 else l)"
  define h' where "h' = (if idx mod 2 \<noteq> 0 \<and> 0 < h \<and> h < 15 then h - 1 else h)"
  define c where "c = (if idx mod 2 = 0 then l' = 0 else h' = 0)"
  have "unat v < 256" using unsigned_less[where 'a = nat, of v] by simp
  then have lh: "unat l = unat v mod 16" "unat h = unat v div 16" "unat l \<le> 15" "unat h \<le> 15"
    unfolding l_def h_def low_nibble high_nibble by auto
  have l': "unat l' = (if even (unat idx) \<and> unat l < 15 then unat l - 1 else unat l)"
    using unat_minus_one[of l] unat_gt_0[of l] by (auto simp: l'_def targetLoc_iff word_less_nat_alt)
  have h': "unat h' = (if odd (unat idx) \<and> unat h < 15 then unat h - 1 else unat h)"
    using unat_minus_one[of h] unat_gt_0[of h] by (auto simp: h'_def targetLoc_iff word_less_nat_alt)
  define f' where "f' = file_put f (unat idx div 2) (push_bit 4 h' OR l')"
  have dec: "decrementBit bf idx =
      bf\<lparr>bitArray := (if c then clearBit (bitArray bf) idx else bitArray bf), bf_fh := Some f'\<rparr>"
    unfolding decrementBit_def assms(1) Let_def unat_div_mod_8 f'_def
    by (simp add: v_def l_def h_def l'_def h'_def c_def)
  have b: "unat h' < 16" "unat l' < 16" using l' h' lh by auto
  have cnt: "counter f' i = (if i = unat idx \<and> counter f i < 15 then counter f i - 1 else counter f i)"
  proof (cases "i div 2 = unat idx div 2")
    case True
    then have "counter f i = (if even i then unat l else unat h)"
      by (simp add: counter_def lh(1,2) v_def)
    then show ?thesis using True counter_put[OF b, of f idx i] nibble_pair_iff[OF True] l' h' by (auto simp: f'_def)
  next
    case False
    then show ?thesis using counter_put[OF b, of f idx i] by (auto simp: f'_def)
  qed
  have "c = (counter f' (unat idx) = 0)"
    using counter_put[OF b, of f idx "unat idx"] by (simp add: c_def f'_def targetLoc_iff unat_eq_0)
  then show ?thesis using dec cnt bit_at_clearBit[OF idx, of i] by (intro exI[of _ f']) auto
qed

section \<open>Invariant\<close>

text \<open>The bits \<^verbatim>\<open>iterateBits\<close> visits, in its order, when the callback never stops it.\<close>

fun bit_seq ::
  "(GNUNET_HashCode \<Rightarrow> GNUNET_HashCode) \<Rightarrow> uint64 \<Rightarrow> nat \<Rightarrow> nat \<Rightarrow> GNUNET_HashCode \<Rightarrow> uint32 list" where
  "bit_seq H sz 0 slot tmp = []"
| "bit_seq H sz (Suc n) slot tmp =
     (let tmp' = (if slot < hash_words then tmp else H tmp); slot' = (if slot < hash_words then slot else 0)
      in bit_index sz tmp' slot' # bit_seq H sz n (Suc slot') tmp')"

definition key_bits :: "(GNUNET_HashCode \<Rightarrow> GNUNET_HashCode) \<Rightarrow> BloomFilter \<Rightarrow> GNUNET_HashCode \<Rightarrow> uint32 list" where
  "key_bits H bf e = bit_seq H (bitArraySize bf) (nat (sint (addressesPerElement bf))) 0 e"

definition bf_wf :: "BloomFilter \<Rightarrow> bool" where
  "bf_wf bf \<longleftrightarrow> length (bitArray bf) = unat (bitArraySize bf) \<and> 0 < bitArraySize bf \<and>
     bitArraySize bf < bitArraySize bf * 8 \<and> (bf_filename bf = None \<longleftrightarrow> bf_fh bf = None)"

text \<open>The filter stores the multiset \<open>N\<close> of bit indices: every counter below its maximum is exact, and
  a bit is set just when its counter is positive. A filter without a file has at least its bits set.\<close>

definition bf_stores :: "BloomFilter \<Rightarrow> nat multiset \<Rightarrow> bool" where
  "bf_stores bf N \<longleftrightarrow> bf_wf bf \<and>
     (case bf_fh bf of
        None \<Rightarrow> \<forall>i < 8 * length (bitArray bf). 0 < count N i \<longrightarrow> bit_at (bitArray bf) i
      | Some f \<Rightarrow> \<forall>i < 8 * length (bitArray bf). (counter f i < 15 \<longrightarrow> counter f i = count N i) \<and>
                    (bit_at (bitArray bf) i \<longleftrightarrow> 0 < counter f i))"

definition key_mset :: "(GNUNET_HashCode \<Rightarrow> GNUNET_HashCode) \<Rightarrow> BloomFilter \<Rightarrow> GNUNET_HashCode \<Rightarrow> nat multiset" where
  "key_mset H bf e = mset (map unat (key_bits H bf e))"

definition represents ::
  "(GNUNET_HashCode \<Rightarrow> GNUNET_HashCode) \<Rightarrow> BloomFilter \<Rightarrow> GNUNET_HashCode multiset \<Rightarrow> bool" where
  "represents H bf M \<longleftrightarrow> bf_stores bf (sum_mset (image_mset (key_mset H bf) M))"

lemma bit_index_lt:
  assumes "0 < sz * 8"
  shows "unat (bit_index sz tmp slot) < 8 * unat sz"
proof -
  let ?x = "ucast (htonl (bits tmp ! slot)) :: uint64"
  have "unat (ucast (?x mod (sz * 8)) :: uint32) \<le> unat (?x mod (sz * 8))"
    by (simp add: unsigned_ucast_eq take_bit_nat_less_eq_self)
  also have "\<dots> < unat (sz * 8)" using assms by (intro unat_mod_lt) auto
  also have "\<dots> \<le> 8 * unat sz" by (simp add: unat_word_ariths mult.commute)
  finally show ?thesis by (simp add: bit_index_def)
qed

lemma key_bits_lt:
  assumes "bf_wf bf" "i \<in> set (key_bits H bf e)"
  shows "unat i < 8 * length (bitArray bf)"
proof -
  have sz: "0 < bitArraySize bf * 8" using assms(1) by (auto simp: bf_wf_def)
  have "i \<in> set (bit_seq H (bitArraySize bf) n slot t) \<Longrightarrow> unat i < 8 * unat (bitArraySize bf)" for n slot t
    by (induction n arbitrary: slot t) (auto simp: Let_def bit_index_lt[OF sz] split: if_splits)
  then show ?thesis using assms by (auto simp: key_bits_def bf_wf_def)
qed

lemma iterate_slots_fold:
  "(\<And>s i. fst (cb s i) = GNUNET_YES) \<Longrightarrow>
   iterate_slots H sz cb n slot tmp s = foldl (\<lambda>s i. snd (cb s i)) s (bit_seq H sz n slot tmp)"
proof (induction n arbitrary: slot tmp s)
  case (Suc n)
  have "cb s i = (GNUNET_YES, snd (cb s i))" for s i using Suc.prems by (metis prod.collapse)
  with Suc show ?case by (simp add: Let_def split_beta)
qed simp

lemma iterate_slots_test:
  "iterate_slots H sz (testBitCallback bf) n slot tmp GNUNET_YES =
   (if \<forall>i \<in> set (bit_seq H sz n slot tmp). bit_at (bitArray bf) (unat i) then GNUNET_YES else GNUNET_NO)"
  by (induction n arbitrary: slot tmp) (simp_all add: Let_def testBitCallback_def testBit_iff)

lemma bloomfilter_add_eq:
  assumes "bf_wf bf"
  shows "GNUNET_CONTAINER_bloomfilter_add H (Some bf) e = Some (Some (foldl incrementBit bf (key_bits H bf e)))"
  using assms by (simp add: GNUNET_CONTAINER_bloomfilter_add_def iterateBits_def bf_wf_def key_bits_def
      iterate_slots_fold incrementBitCallback_def)

lemma bloomfilter_remove_eq:
  assumes "bf_wf bf"
  shows "GNUNET_CONTAINER_bloomfilter_remove H (Some bf) e =
    Some (Some (if bf_fh bf = None then bf else foldl decrementBit bf (key_bits H bf e)))"
  using assms by (simp add: GNUNET_CONTAINER_bloomfilter_remove_def iterateBits_def bf_wf_def key_bits_def
      iterate_slots_fold decrementBitCallback_def)

lemma bloomfilter_test_eq:
  assumes "bf_wf bf"
  shows "GNUNET_CONTAINER_bloomfilter_test H (Some bf) e =
    Some (if \<forall>i \<in> set (key_bits H bf e). bit_at (bitArray bf) (unat i) then GNUNET_YES else GNUNET_NO)"
  using assms by (simp add: GNUNET_CONTAINER_bloomfilter_test_def iterateBits_def bf_wf_def key_bits_def
      iterate_slots_test)

lemma bf_wf_increment: "bf_wf bf \<Longrightarrow> bf_wf (incrementBit bf idx)"
  by (simp add: bf_wf_def)

lemma bf_wf_decrement: "bf_wf bf \<Longrightarrow> bf_wf (decrementBit bf idx)"
  by (simp add: bf_wf_def)

lemma incrementBit_stores:
  assumes st: "bf_stores bf N" and idx: "unat idx < 8 * length (bitArray bf)"
  shows "bf_stores (incrementBit bf idx) (add_mset (unat idx) N)"
proof (cases "bf_fh bf")
  case None
  then have none: "bf_fh (incrementBit bf idx) = None" by simp
  show ?thesis using st bf_wf_increment[of bf idx]
    unfolding bf_stores_def None none by (auto simp: bit_at_setBit[OF idx])
next
  case (Some f)
  obtain f' where f': "bf_fh (incrementBit bf idx) = Some f'"
    using incrementBit_fields(5)[of bf idx] Some by (cases "bf_fh (incrementBit bf idx)") auto
  have cnt: "counter f' i = (if i = unat idx then min 15 (counter f i + 1) else counter f i)" for i
    using increment_counter[OF Some, of idx i] f' by auto
  have "(counter f' i < 15 \<longrightarrow> counter f' i = count (add_mset (unat idx) N) i) \<and>
      (bit_at (setBit (bitArray bf) idx) i \<longleftrightarrow> 0 < counter f' i)" if "i < 8 * length (bitArray bf)" for i
    using st that unfolding bf_stores_def Some cnt bit_at_setBit[OF idx] by auto
  then show ?thesis using st f' bf_wf_increment[of bf idx] by (simp add: bf_stores_def)
qed

lemma decrementBit_stores:
  assumes st: "bf_stores bf N" and fh: "bf_fh bf \<noteq> None" and idx: "unat idx < 8 * length (bitArray bf)"
    and mem: "unat idx \<in># N"
  shows "bf_stores (decrementBit bf idx) (N - {#unat idx#})"
proof -
  obtain f where f: "bf_fh bf = Some f" using fh by auto
  obtain f' where f': "bf_fh (decrementBit bf idx) = Some f'"
    using decrement_counter[OF f idx] by blast
  have cnt: "counter f' i = (if i = unat idx \<and> counter f i < 15 then counter f i - 1 else counter f i)"
    and bit: "bit_at (bitArray (decrementBit bf idx)) i =
      (bit_at (bitArray bf) i \<and> \<not> (i = unat idx \<and> counter f' i = 0))" for i
    using decrement_counter[OF f idx, of i] f' by auto
  have pos: "0 < count N (unat idx)" using mem by simp
  have "(counter f' i < 15 \<longrightarrow> counter f' i = count (N - {#unat idx#}) i) \<and>
      (bit_at (bitArray (decrementBit bf idx)) i \<longleftrightarrow> 0 < counter f' i)"
    if i: "i < 8 * length (bitArray bf)" for i
    using st i pos unfolding bf_stores_def f bit cnt by auto
  then show ?thesis using st f' bf_wf_decrement[of bf idx] by (simp add: bf_stores_def)
qed

lemma increments_store:
  assumes "bf_stores bf N" "\<forall>i \<in> set is. unat i < 8 * length (bitArray bf)"
  shows "bf_stores (foldl incrementBit bf is) (N + mset (map unat is))"
  using assms
proof (induction "is" arbitrary: bf N)
  case (Cons i "is")
  then show ?case using incrementBit_stores[of bf N i] Cons.IH[of "incrementBit bf i" "add_mset (unat i) N"]
    by simp
qed simp

lemma decrements_store:
  assumes "bf_stores bf N" "bf_fh bf \<noteq> None" "\<forall>i \<in> set is. unat i < 8 * length (bitArray bf)"
    "mset (map unat is) \<subseteq># N"
  shows "bf_stores (foldl decrementBit bf is) (N - mset (map unat is))"
  using assms
proof (induction "is" arbitrary: bf N)
  case (Cons i "is")
  have mem: "unat i \<in># N" and rest: "mset (map unat is) \<subseteq># N - {#unat i#}"
    using Cons.prems(4) by (auto simp: insert_subset_eq_iff)
  have st: "bf_stores (decrementBit bf i) (N - {#unat i#})"
    using decrementBit_stores[OF Cons.prems(1,2) _ mem] Cons.prems(3) by simp
  have "bf_fh (decrementBit bf i) \<noteq> None" using Cons.prems(2) by simp
  from Cons.IH[OF st this _ rest] Cons.prems(3) show ?case by simp
qed simp

lemma foldl_bf_fields [simp]:
  "bitArraySize (foldl incrementBit bf is) = bitArraySize bf"
  "addressesPerElement (foldl incrementBit bf is) = addressesPerElement bf"
  "bf_filename (foldl incrementBit bf is) = bf_filename bf"
  "bitArraySize (foldl decrementBit bf is) = bitArraySize bf"
  "addressesPerElement (foldl decrementBit bf is) = addressesPerElement bf"
  "bf_filename (foldl decrementBit bf is) = bf_filename bf"
  by (induction "is" arbitrary: bf) simp_all

lemma key_mset_cong:
  "bitArraySize bf' = bitArraySize bf \<Longrightarrow> addressesPerElement bf' = addressesPerElement bf \<Longrightarrow>
   key_mset H bf' = key_mset H bf"
  by (simp add: key_mset_def key_bits_def fun_eq_iff)

text \<open>Same size, same number of bits per element, same kind of backing store.\<close>

definition same_shape :: "BloomFilter \<Rightarrow> BloomFilter \<Rightarrow> bool" where
  "same_shape bf bf' \<longleftrightarrow> bitArraySize bf' = bitArraySize bf \<and>
     addressesPerElement bf' = addressesPerElement bf \<and> bf_filename bf' = bf_filename bf"

lemma add_represents:
  assumes "represents H bf M"
  shows "\<exists>bf'. GNUNET_CONTAINER_bloomfilter_add H (Some bf) e = Some (Some bf') \<and>
    represents H bf' (add_mset e M) \<and> same_shape bf bf'"
proof -
  have st: "bf_stores bf (sum_mset (image_mset (key_mset H bf) M))" using assms by (simp add: represents_def)
  then have wf: "bf_wf bf" by (simp add: bf_stores_def)
  let ?bf' = "foldl incrementBit bf (key_bits H bf e)"
  have "bf_stores ?bf' (sum_mset (image_mset (key_mset H bf) M) + key_mset H bf e)"
    unfolding key_mset_def[of H bf e] using increments_store[OF st] key_bits_lt[OF wf] by blast
  then have "represents H ?bf' (add_mset e M)"
    by (simp add: represents_def key_mset_cong[of ?bf' bf] add.commute)
  then show ?thesis using bloomfilter_add_eq[OF wf] by (auto simp: same_shape_def)
qed

lemma bf_stores_mono: "bf_stores bf N \<Longrightarrow> bf_fh bf = None \<Longrightarrow> N' \<subseteq># N \<Longrightarrow> bf_stores bf N'"
  by (auto simp: bf_stores_def dest: mset_subset_eqD)

lemma remove_represents:
  assumes r: "represents H bf M" and e: "e \<in># M"
  shows "\<exists>bf'. GNUNET_CONTAINER_bloomfilter_remove H (Some bf) e = Some (Some bf') \<and>
    represents H bf' (M - {#e#}) \<and> same_shape bf bf'"
proof -
  let ?N = "\<lambda>M. sum_mset (image_mset (key_mset H bf) M)"
  have st: "bf_stores bf (?N M)" using r by (simp add: represents_def)
  then have wf: "bf_wf bf" by (simp add: bf_stores_def)
  obtain M' where M: "M = add_mset e M'" using e by (metis insert_DiffM)
  have N: "?N M = key_mset H bf e + ?N M'" by (simp add: M)
  show ?thesis
  proof (cases "bf_fh bf = None")
    case True
    have "bf_stores bf (?N M')" using bf_stores_mono[OF st True, of "?N M'"] by (simp add: N)
    then show ?thesis using bloomfilter_remove_eq[OF wf] True by (simp add: M represents_def same_shape_def)
  next
    case False
    let ?bf' = "foldl decrementBit bf (key_bits H bf e)"
    have "bf_stores ?bf' (?N M - key_mset H bf e)"
      unfolding key_mset_def[of H bf e] using key_bits_lt[OF wf]
      by (intro decrements_store[OF st False]) (auto simp: N key_mset_def)
    then have "bf_stores ?bf' (?N M')" by (simp add: N)
    then have "represents H ?bf' (M - {#e#})"
      by (simp add: represents_def key_mset_cong[of ?bf' bf] M)
    then show ?thesis using bloomfilter_remove_eq[OF wf] False by (auto simp: same_shape_def)
  qed
qed

lemma bf_stores_bit:
  assumes st: "bf_stores bf N" and i: "i < 8 * length (bitArray bf)" and pos: "0 < count N i"
  shows "bit_at (bitArray bf) i"
proof (cases "bf_fh bf")
  case None
  then show ?thesis using st pos i by (simp add: bf_stores_def)
next
  case (Some f)
  then have "0 < counter f i" using st pos i by (cases "counter f i < 15") (auto simp: bf_stores_def)
  then show ?thesis using st Some i by (simp add: bf_stores_def)
qed

lemma represents_test:
  assumes r: "represents H bf M" and e: "e \<in># M"
  shows "GNUNET_CONTAINER_bloomfilter_test H (Some bf) e = Some GNUNET_YES"
proof -
  have st: "bf_stores bf (sum_mset (image_mset (key_mset H bf) M))" using r by (simp add: represents_def)
  then have wf: "bf_wf bf" by (simp add: bf_stores_def)
  have "bit_at (bitArray bf) (unat i)" if i: "i \<in> set (key_bits H bf e)" for i
  proof -
    have "unat i \<in># key_mset H bf e" using i by (simp add: key_mset_def)
    then have "unat i \<in># sum_mset (image_mset (key_mset H bf) M)" using e by (auto simp: in_Union_mset_iff)
    then have pos: "0 < count (sum_mset (image_mset (key_mset H bf) M)) (unat i)" by simp
    then show ?thesis by (rule bf_stores_bit[OF st key_bits_lt[OF wf i]])
  qed
  then show ?thesis using bloomfilter_test_eq[OF wf, of H e] by simp
qed

section \<open>Empty filters, loading and resizing\<close>

lemma counter_zeroes: "i div 2 < n \<Longrightarrow> counter (replicate n 0 @ f) i = 0"
  by (simp add: counter_def file_byte_def nth_append)

lemma bit_at_zeroes: "i < 8 * n \<Longrightarrow> \<not> bit_at (replicate n 0) i"
  by (simp add: bit_at_def)

lemma represents_empty:
  assumes "bf_wf bf" "bitArray bf = replicate (unat (bitArraySize bf)) 0"
    and "\<And>f. bf_fh bf = Some f \<Longrightarrow> \<exists>g. f = replicate (4 * unat (bitArraySize bf)) 0 @ g"
  shows "represents H bf {#}"
proof -
  have "counter f i = 0" if "bf_fh bf = Some f" "i < 8 * unat (bitArraySize bf)" for f i
    using assms(3)[OF that(1)] that(2) by (auto intro!: counter_zeroes)
  then show ?thesis using assms(1,2)
    by (auto simp: represents_def bf_stores_def bit_at_zeroes split: option.split)
qed

lemma counter_Cons_Suc_Suc: "counter (b # bs) (Suc (Suc i)) = counter bs i"
  by (simp add: counter_def file_byte_def)

lemma counter_take: "i < 2 * n \<Longrightarrow> counter (take n f) i = counter f i"
  by (auto simp: counter_def file_byte_def)

lemma counter_drop: "counter (drop n f) i = counter f (i + 2 * n)"
  by (auto simp: counter_def file_byte_def add.commute)

lemma counter_beyond: "2 * length f \<le> i \<Longrightarrow> counter f i = 0"
  by (auto simp: counter_def file_byte_def)

lemma low_nibble_zero: "((b :: uint8) AND 15 \<noteq> 0) = (0 < unat b mod 16)"
  by (metis low_nibble unat_eq_0 neq0_conv)

lemma high_nibble_zero: "((b :: uint8) AND 240 \<noteq> 0) = (0 < unat b div 16)"
proof (cases "unat b div 16 = 0")
  case True
  then have "unat b < 16" by (simp add: div_eq_0_iff)
  then have "b = take_bit 4 b" by (simp add: word_unat_eq_iff unsigned_take_bit_eq take_bit_nat_def)
  moreover have "take_bit 4 b AND 240 = 0"
    by (rule bit_word_eqI) (simp add: bit_and_iff bit_take_bit_iff, auto simp: less_Suc_eq numeral_eq_Suc)
  ultimately show ?thesis using True by simp
next
  case False
  have "b AND 240 \<noteq> 0"
  proof
    assume "b AND 240 = 0"
    then have "unat (drop_bit 4 (b AND 240)) = 0" by (simp only: drop_bit_of_0 unsigned_0)
    with False show False by (simp only: high_nibble)
  qed
  then show ?thesis using False by simp
qed

lemma length_load_buffer [simp]: "length (load_buffer pos bs arr) = length arr"
  by (induction pos bs arr rule: load_buffer.induct) (simp_all add: Let_def)

lemma bit_at_load_buffer:
  "pos + 2 * length bs \<le> 8 * length arr \<Longrightarrow> 8 * length arr \<le> 2 ^ 32 \<Longrightarrow>
   bit_at (load_buffer pos bs arr) i \<longleftrightarrow> bit_at arr i \<or> (pos \<le> i \<and> 0 < counter bs (i - pos))"
proof (induction pos bs arr rule: load_buffer.induct)
  case (1 pos arr)
  then show ?case by (simp add: counter_beyond)
next
  case (2 pos b bs arr)
  define arr1 where "arr1 = (if b AND 15 \<noteq> 0 then setBit arr (of_nat pos) else arr)"
  define arr2 where "arr2 = (if b AND 240 \<noteq> 0 then setBit arr1 (of_nat (pos + 1)) else arr1)"
  have u: "unat (of_nat pos :: uint32) = pos" "unat (of_nat (pos + 1) :: uint32) = pos + 1"
    using "2.prems" by (simp_all add: unat_of_nat del: of_nat_add of_nat_Suc)
  have len: "length arr1 = length arr" "length arr2 = length arr" by (simp_all add: arr1_def arr2_def)
  have lt: "unat (of_nat pos :: uint32) < 8 * length arr" "unat (of_nat (pos + 1) :: uint32) < 8 * length arr1"
    unfolding u len using "2.prems" by auto
  have b2: "bit_at arr2 i \<longleftrightarrow> bit_at arr i \<or> (i = pos \<and> 0 < unat b mod 16) \<or>
      (i = pos + 1 \<and> 0 < unat b div 16)"
    using bit_at_setBit[OF lt(1), of i] bit_at_setBit[OF lt(2), of i]
    unfolding arr2_def u unfolding arr1_def low_nibble_zero high_nibble_zero by auto
  have IH: "bit_at (load_buffer (pos + 2) bs arr2) i \<longleftrightarrow>
      bit_at arr2 i \<or> (pos + 2 \<le> i \<and> 0 < counter bs (i - (pos + 2)))"
    using "2.IH"[OF arr1_def arr2_def] "2.prems" len by simp
  have c: "counter (b # bs) 0 = unat b mod 16" "counter (b # bs) 1 = unat b div 16"
    by (simp_all add: counter_def file_byte_def)
  have "pos \<le> i \<and> 0 < counter (b # bs) (i - pos) \<longleftrightarrow> (i = pos \<and> 0 < unat b mod 16) \<or>
      (i = pos + 1 \<and> 0 < unat b div 16) \<or> (pos + 2 \<le> i \<and> 0 < counter bs (i - (pos + 2)))"
  proof (cases "pos + 2 \<le> i")
    case True
    then have "i - pos = Suc (Suc (i - (pos + 2)))" by simp
    then show ?thesis using True by (simp only: counter_Cons_Suc_Suc) auto
  next
    case False
    then consider "i < pos" | "i = pos" | "i = pos + 1" by linarith
    then show ?thesis using c by cases auto
  qed
  then show ?case using IH b2 by (simp add: arr1_def[symmetric] arr2_def[symmetric])
qed

lemma length_load_loop [simp]: "length (load_loop sz pos f arr) = length arr"
proof (induction sz pos f arr rule: load_loop.induct)
  case (1 sz pos f arr)
  then show ?case by (subst load_loop.simps) (simp add: Let_def)
qed

lemma bit_at_load_loop:
  "pos + 2 * length f = 8 * sz \<Longrightarrow> length arr = sz \<Longrightarrow> 8 * sz \<le> 2 ^ 32 \<Longrightarrow>
   bit_at (load_loop sz pos f arr) i \<longleftrightarrow> bit_at arr i \<or> (pos \<le> i \<and> 0 < counter f (i - pos))"
proof (induction sz pos f arr rule: load_loop.induct)
  case (1 sz pos f arr)
  let ?rb = "take BUFFSIZE f" and ?arr = "load_buffer pos (take BUFFSIZE f) arr"
  have buf: "bit_at ?arr i \<longleftrightarrow> bit_at arr i \<or> (pos \<le> i \<and> 0 < counter ?rb (i - pos))"
    using "1.prems" by (intro bit_at_load_buffer) auto
  consider "\<not> pos < sz * 8" | "pos < sz * 8" "length ?rb < BUFFSIZE" | "pos < sz * 8" "\<not> length ?rb < BUFFSIZE"
    by blast
  then show ?case
  proof cases
    case 1
    then show ?thesis using "1.prems"(1) by (subst load_loop.simps) (auto simp: counter_beyond)
  next
    case 2
    then have "take BUFFSIZE f = f" by simp
    then show ?thesis using 2 buf by (subst load_loop.simps) (simp add: Let_def)
  next
    case 3
    then have len: "BUFFSIZE \<le> length f" by simp
    have IH: "bit_at (load_loop sz (pos + BUFFSIZE * 2) (drop BUFFSIZE f) ?arr) i \<longleftrightarrow>
        bit_at ?arr i \<or> (pos + BUFFSIZE * 2 \<le> i \<and> 0 < counter (drop BUFFSIZE f) (i - (pos + BUFFSIZE * 2)))"
      using 3 len "1.prems" by (intro "1.IH") auto
    have "(pos \<le> i \<and> 0 < counter ?rb (i - pos)) \<or>
        (pos + BUFFSIZE * 2 \<le> i \<and> 0 < counter (drop BUFFSIZE f) (i - (pos + BUFFSIZE * 2))) \<longleftrightarrow>
        pos \<le> i \<and> 0 < counter f (i - pos)"
    proof (cases "pos + BUFFSIZE * 2 \<le> i")
      case True
      then have "counter ?rb (i - pos) = 0" by (intro counter_beyond) simp
      moreover have "i - (pos + BUFFSIZE * 2) + 2 * BUFFSIZE = i - pos" using True by simp
      ultimately show ?thesis using True by (simp only: counter_drop) auto
    next
      case False
      then show ?thesis using counter_take[of "i - pos" BUFFSIZE f] by auto
    qed
    moreover have "load_loop sz pos f arr =
        load_loop sz (pos + BUFFSIZE * 2) (drop BUFFSIZE f) (load_buffer pos ?rb arr)"
      using 3 by (subst load_loop.simps) (simp only: Let_def if_True if_False)
    ultimately show ?thesis using buf IH by argo
  qed
qed


lemma load_size_spec:
  assumes "unat sz0 \<le> 2 ^ 63" "unat ui = 2 ^ j" "j \<le> 63" "j = 0 \<or> 2 ^ j < 2 * unat sz0"
  shows "\<exists>k \<le> 63. unat (load_size sz0 ui) = 2 ^ k \<and> unat sz0 \<le> 2 ^ k \<and> (k = 0 \<or> 2 ^ k < 2 * unat sz0)"
  using assms
proof (induction sz0 ui arbitrary: j rule: load_size.induct)
  case (1 sz0 ui)
  show ?case
  proof (cases "ui < sz0")
    case True
    then have lt: "unat ui < unat sz0" by (simp add: word_less_nat_alt)
    have "(2 :: nat) ^ j < 2 ^ 63" using lt "1.prems" by linarith
    then have j: "j < 63" by (rule power_less_imp_less_exp[rotated]) simp
    then have "(2 :: nat) ^ Suc j \<le> 2 ^ 63" by (intro power_increasing) auto
    then have u: "unat (ui * 2) = 2 ^ Suc j" using "1.prems"(2) by (simp add: unat_word_ariths)
    then have c: "ui < sz0 \<and> ui < ui * 2" using True "1.prems"(2) by (simp add: word_less_nat_alt)
    have "\<exists>k \<le> 63. unat (load_size sz0 (ui * 2)) = 2 ^ k \<and> unat sz0 \<le> 2 ^ k \<and>
        (k = 0 \<or> 2 ^ k < 2 * unat sz0)"
      using lt "1.prems"(2) j by (intro "1.IH"[OF c "1.prems"(1) u]) auto
    then show ?thesis using c by (subst load_size.simps) simp
  next
    case False
    then have "load_size sz0 ui = ui" by (subst load_size.simps) simp
    then show ?thesis using False "1.prems" by (auto simp: word_less_nat_alt not_less)
  qed
qed

text \<open>The size \<^verbatim>\<open>GNUNET_CONTAINER_bloomfilter_load\<close> gives a filter.\<close>

definition rounded_size :: "uint64 \<Rightarrow> uint64" where
  "rounded_size sz0 = load_size (if sz0 < of_nat BUFFSIZE then of_nat BUFFSIZE else sz0) 1"

lemma rounded_size_spec:
  assumes "unat sz0 \<le> 2 ^ 60"
  shows "\<exists>k \<le> 61. unat (rounded_size sz0) = 2 ^ k \<and> unat sz0 \<le> 2 ^ k \<and> 2 ^ 16 \<le> (2 :: nat) ^ k \<and>
    2 ^ k < 2 * max (2 ^ 16) (unat sz0)"
proof -
  let ?s = "if sz0 < of_nat BUFFSIZE then of_nat BUFFSIZE else sz0"
  have s: "unat ?s \<le> 2 ^ 60" "unat sz0 \<le> unat ?s" "2 ^ 16 \<le> unat ?s"
    using assms by (auto simp: word_less_nat_alt)
  then have "unat ?s \<le> 2 ^ 63" by simp
  from load_size_spec[OF this, of 1 0]
  obtain k where k: "unat (rounded_size sz0) = 2 ^ k" "unat ?s \<le> 2 ^ k" "k = 0 \<or> 2 ^ k < 2 * unat ?s"
    by (auto simp: rounded_size_def)
  have "2 * unat ?s \<le> 2 ^ 61" using s(1) by (simp del: if_split)
  moreover have "(2 :: nat) ^ 61 < 2 ^ 62" "(2 :: nat) ^ 0 < 2 ^ 62" by simp_all
  ultimately have "(2 :: nat) ^ k < 2 ^ 62" using k(3) by (meson less_le_trans less_trans)
  then have "k < 62" by (rule power_less_imp_less_exp[rotated]) simp
  moreover have "unat ?s \<le> max (2 ^ 16) (unat sz0)" by (simp add: word_less_nat_alt)
  then have "2 ^ k < 2 * max (2 ^ 16) (unat sz0)" using k(3) by (auto simp del: if_split)
  ultimately show ?thesis using k s by (intro exI[of _ k]) (auto simp del: if_split)
qed

lemma wf_sizes:
  fixes sz :: uint64
  assumes "unat sz = 2 ^ k" "k \<le> 60"
  shows "0 < sz" "sz < sz * 8" "unat (sz * 4) = 4 * unat sz"
proof -
  have "(2 :: nat) ^ k \<le> 2 ^ 60" using assms(2) by (intro power_increasing) auto
  then have u: "unat (sz * 8) = 8 * 2 ^ k" "unat (sz * 4) = 4 * 2 ^ k"
    using assms(1) by (simp_all add: unat_word_ariths)
  then show "0 < sz" "sz < sz * 8" "unat (sz * 4) = 4 * unat sz"
    using assms(1) by (simp_all add: word_less_nat_alt)
qed

text \<open>The doubling loop of the resize operation on a power of two: it ends up to \<open>2 ^ 31\<close>.\<close>

lemma resize_size_Some:
  assumes "unat sz0 \<le> 2 ^ 31" "unat i = 2 ^ j" "j \<le> 31"
  shows "\<exists>k \<le> 31. \<exists>r. resize_size sz0 i = Some r \<and> unat r = 2 ^ k \<and> unat sz0 \<le> 2 ^ k"
  using assms
proof (induction "31 - j" arbitrary: i j)
  case 0
  then have "\<not> (ucast i :: uint64) < sz0"
    by (simp add: word_less_nat_alt)
  with 0 show ?case by (intro exI[of _ 31]) (simp add: resize_size.simps)
next
  case (Suc d)
  have up: "unat (ucast i :: uint64) = unat i"
    by (rule unat_ucast_32_64)
  show ?case
  proof (cases "(ucast i :: uint64) < sz0")
    case True
    have "(2 :: nat) ^ Suc j \<le> 2 ^ 31" using Suc.hyps(2) by (intro power_increasing) auto
    then have "unat (i * 2) = 2 ^ Suc j" using Suc.prems(2) by (simp add: unat_word_ariths)
    then have "\<exists>k \<le> 31. \<exists>r. resize_size sz0 (i * 2) = Some r \<and> unat r = 2 ^ k \<and> unat sz0 \<le> 2 ^ k"
      using Suc.hyps(2) Suc.prems(1) by (intro Suc.hyps(1)[of "Suc j"]) auto
    then show ?thesis using True by (simp add: resize_size.simps[of sz0 i])
  next
    case False
    then have "resize_size sz0 i = Some i" by (subst resize_size.simps) simp
    then show ?thesis using False Suc.prems by (auto simp: word_less_nat_alt up)
  qed
qed

text \<open>Beyond that the 32-bit counter wraps to zero and the loop never ends.\<close>

lemma resize_size_result:
  assumes "resize_size sz0 i = Some r"
  shows "(\<exists>j. i = 2 ^ j) \<longrightarrow> sz0 \<le> ucast r \<and> (\<exists>j. r = 2 ^ j)"
proof (rule resize_size.raw_induct[OF _ assms, of "\<lambda>sz0 i r. (\<exists>j. i = 2 ^ j) \<longrightarrow> sz0 \<le> ucast r \<and> (\<exists>j. r = 2 ^ j)"])
  fix f :: "uint64 \<Rightarrow> uint32 \<Rightarrow> uint32 option" and sz0 i r
  assume IH: "\<And>sz0 i r. f sz0 i = Some r \<Longrightarrow> (\<exists>j. i = 2 ^ j) \<longrightarrow> sz0 \<le> ucast r \<and> (\<exists>j. r = 2 ^ j)"
    and step: "(if (ucast i :: uint64) < sz0 then f sz0 (i * 2) else Some i) = Some r"
  show "(\<exists>j. i = 2 ^ j) \<longrightarrow> sz0 \<le> ucast r \<and> (\<exists>j. r = 2 ^ j)"
  proof
    assume "\<exists>j. i = 2 ^ j"
    then obtain j where "i = 2 ^ j" by blast
    then have "\<exists>j. i * 2 = 2 ^ j" by (intro exI[of _ "Suc j"]) simp
    with step IH[of sz0 "i * 2" r] \<open>\<exists>j. i = 2 ^ j\<close> show "sz0 \<le> ucast r \<and> (\<exists>j. r = 2 ^ j)"
      by (auto split: if_splits)
  qed
qed

lemma resize_size_None:
  assumes "2 ^ 31 < unat sz0"
  shows "resize_size sz0 1 = None"
proof (rule ccontr)
  assume "resize_size sz0 1 \<noteq> None"
  then obtain r where r: "resize_size sz0 1 = Some r" by blast
  have "\<exists>j. (1 :: uint32) = 2 ^ j" by (rule exI[of _ 0]) simp
  then obtain j where le: "sz0 \<le> ucast r" and j: "r = 2 ^ j" using resize_size_result[OF r] by blast
  have m: "unat r = 2 ^ j mod 2 ^ 32" using unat_of_nat[of "2 ^ j", where 'a = 32] j by simp
  have "unat r \<le> 2 ^ 31"
  proof (cases "j < 32")
    case True
    then have "(2 :: nat) ^ j \<le> 2 ^ 31" by (intro power_increasing) auto
    then show ?thesis using m by (metis mod_less_eq_dividend le_trans)
  next
    case False
    then have "(2 :: nat) ^ 32 dvd 2 ^ j" by (intro le_imp_power_dvd) simp
    then show ?thesis using m by (metis dvd_imp_mod_0 zero_le)
  qed
  moreover have "unat (ucast r :: uint64) = unat r"
    by (rule unat_ucast_32_64)
  ultimately show False using assms le by (simp add: word_le_nat_alt)
qed


lemma bit_at_or_bytes:
  assumes "i < 8 * length dst"
  shows "bit_at (or_bytes from to dst src) i \<longleftrightarrow>
    bit_at dst i \<or> (from \<le> i div 8 \<and> i div 8 < to \<and> bit_at src i)"
proof -
  have "i div 8 < length dst" using assms by linarith
  then show ?thesis by (auto simp: bit_at_def or_bytes_def bit_or_iff)
qed

lemma bit_at_or_arrays:
  assumes "i < 8 * length dst" "length dst = unat sz" "unat sz < 2 ^ 32"
  shows "bit_at (or_arrays sz dst src) i \<longleftrightarrow> bit_at dst i \<or> bit_at src i"
proof -
  have "unat (sz div 8) < 2 ^ 32" using assms(3) by (simp add: unat_div)
  then have "unat (ucast (sz div 8) :: uint32) = unat sz div 8"
    by (simp add: unsigned_ucast_eq take_bit_nat_eq_self unat_div)
  moreover have "length (or_bytes a b dst src) = length dst" for a b by (simp add: or_bytes_def)
  moreover have "i div 8 < unat sz" using assms(1,2) by linarith
  ultimately show ?thesis using assms(1) by (auto simp: or_arrays_def Let_def bit_at_or_bytes)
qed

lemma add_all_represents:
  assumes "represents H bf M"
  shows "\<exists>bf'. add_all H bf hcs = Some bf' \<and> represents H bf' (M + mset hcs) \<and> same_shape bf bf'"
  using assms
proof (induction hcs arbitrary: bf M)
  case Nil
  then show ?case by (simp add: same_shape_def)
next
  case (Cons e hcs)
  obtain bf1 where 1: "GNUNET_CONTAINER_bloomfilter_add H (Some bf) e = Some (Some bf1)"
      "represents H bf1 (add_mset e M)" "same_shape bf bf1"
    using add_represents[OF Cons.prems] by blast
  obtain bf2 where "add_all H bf1 hcs = Some bf2" "represents H bf2 (add_mset e M + mset hcs)"
      "same_shape bf1 bf2"
    using Cons.IH[OF 1(2)] by blast
  with 1 show ?case by (auto simp: same_shape_def)
qed

section \<open>Properties\<close>

text \<open>Sequences of insertions and removals.\<close>

datatype bf_op = BfAdd GNUNET_HashCode | BfRemove GNUNET_HashCode

fun bf_run ::
  "(GNUNET_HashCode \<Rightarrow> GNUNET_HashCode) \<Rightarrow> BloomFilter option \<Rightarrow> bf_op list \<Rightarrow> BloomFilter option option" where
  "bf_run H bf [] = Some bf"
| "bf_run H bf (BfAdd e # ops) =
     (case GNUNET_CONTAINER_bloomfilter_add H bf e of None \<Rightarrow> None | Some bf' \<Rightarrow> bf_run H bf' ops)"
| "bf_run H bf (BfRemove e # ops) =
     (case GNUNET_CONTAINER_bloomfilter_remove H bf e of None \<Rightarrow> None | Some bf' \<Rightarrow> bf_run H bf' ops)"

text \<open>What the filter should hold afterwards; \<^verbatim>\<open>None\<close> when something absent is removed.\<close>

fun bf_members :: "GNUNET_HashCode multiset \<Rightarrow> bf_op list \<Rightarrow> GNUNET_HashCode multiset option" where
  "bf_members M [] = Some M"
| "bf_members M (BfAdd e # ops) = bf_members (add_mset e M) ops"
| "bf_members M (BfRemove e # ops) = (if e \<in># M then bf_members (M - {#e#}) ops else None)"

lemma bf_run_represents:
  assumes "represents H bf M" "bf_members M ops = Some M'"
  shows "\<exists>bf'. bf_run H (Some bf) ops = Some (Some bf') \<and> represents H bf' M'"
  using assms
proof (induction ops arbitrary: bf M)
  case (Cons op ops)
  then show ?case
  proof (cases op)
    case (BfAdd e)
    then show ?thesis using add_represents[OF Cons.prems(1), of e] Cons by auto
  next
    case (BfRemove e)
    then show ?thesis using remove_represents[OF Cons.prems(1), of e] Cons by (auto split: if_splits)
  qed
qed simp

text \<open>A filter of 8 bytes in memory, two bits per element.\<close>

definition sample_filter :: BloomFilter where
  "sample_filter = \<lparr>bitArray = replicate 8 0, bf_filename = None, bf_fh = None,
     addressesPerElement = 2, bitArraySize = 8\<rparr>"

lemma sample_filter_empty: "represents H sample_filter {#}"
  by (rule represents_empty) (simp_all add: sample_filter_def bf_wf_def word_less_nat_alt)

text \<open>C7: no false negatives: starting from a filter that represents some multiset, any sequence of
  insertions and of removals of elements that are present runs without a failed assertion, and
  every element that is then present tests positive, whatever the hash function is and however often
  counters saturated.\<close>

theorem bloomfilter_no_false_negatives:
  assumes "represents H bf M" and "bf_members M ops = Some M'"
  shows "\<exists>bf'. bf_run H (Some bf) ops = Some (Some bf') \<and>
    (\<forall>e. e \<in># M' \<longrightarrow> GNUNET_CONTAINER_bloomfilter_test H (Some bf') e = Some GNUNET_YES)"
  using bf_run_represents[OF assms] represents_test by blast

theorem bloomfilter_no_false_negatives_witness:
  "\<exists>bf'. bf_run id (Some sample_filter)
      [BfAdd (hash_of_word 1), BfAdd (hash_of_word 2), BfRemove (hash_of_word 1)] = Some (Some bf') \<and>
    GNUNET_CONTAINER_bloomfilter_test id (Some bf') (hash_of_word 2) = Some GNUNET_YES"
  using bloomfilter_no_false_negatives[OF sample_filter_empty,
      of "[BfAdd (hash_of_word 1), BfAdd (hash_of_word 2), BfRemove (hash_of_word 1)]"
        "{#hash_of_word 2#}" id]
  by (auto simp: hash_of_word_def)


text \<open>All calls of the environment succeed, and the file has the given contents.\<close>

definition good_env :: "uint8 list option \<Rightarrow> disk_env" where
  "good_env file = \<lparr>de_file = file, de_open = True, de_create = True, de_size = True, de_write = True,
     de_read = True, de_malloc = True\<rparr>"

lemma load_fresh:
  assumes "k \<noteq> 0" "0 < unat sz0" "unat sz0 \<le> 2 ^ 59"
  shows "\<exists>bf. GNUNET_CONTAINER_bloomfilter_load (good_env None) name sz0 k = Some bf \<and>
    represents H bf {#} \<and> bitArraySize bf = rounded_size sz0 \<and> addressesPerElement bf = k \<and>
    (\<exists>f. bf_fh bf = Some f \<and> length f = 4 * unat (rounded_size sz0))"
proof -
  let ?sz = "rounded_size sz0"
  obtain j where j: "unat ?sz = 2 ^ j" "2 ^ j < 2 * max (2 ^ 16) (unat sz0)"
    using rounded_size_spec[of sz0] assms(3) by (auto simp: le_trans)
  have "2 * max (2 ^ 16) (unat sz0) \<le> 2 ^ 60" using assms(3) by simp
  then have "(2 :: nat) ^ j < 2 ^ 60" using j(2) by linarith
  then have "j < 60" by (rule power_less_imp_less_exp[rotated]) simp
  then have sz: "0 < ?sz" "?sz < ?sz * 8" "unat (?sz * 4) = 4 * unat ?sz"
    using wf_sizes[OF j(1)] by auto
  let ?bf = "\<lparr>bitArray = replicate (unat ?sz) 0, bf_filename = Some name,
    bf_fh = Some (replicate (4 * unat ?sz) 0), addressesPerElement = k, bitArraySize = ?sz\<rparr>"
  have "0 < unat ?sz" using j(1) by simp
  then have "GNUNET_CONTAINER_bloomfilter_load (good_env None) name sz0 k = Some ?bf"
    using assms(1,2) sz
    unfolding GNUNET_CONTAINER_bloomfilter_load_def rounded_size_def[symmetric] Let_def
    by (auto simp: good_env_def make_empty_file_def unat_eq_0)
  moreover have "represents H ?bf {#}"
    by (rule represents_empty) (use sz in \<open>auto simp: bf_wf_def\<close>)
  ultimately show ?thesis by auto
qed

lemma rounded_size_power:
  assumes "unat sz = 2 ^ m" "16 \<le> m" "m \<le> 60"
  shows "rounded_size sz = sz"
proof -
  have "(2 :: nat) ^ m \<le> 2 ^ 60" "(2 :: nat) ^ 16 \<le> 2 ^ m" using assms by (intro power_increasing; simp)+
  then obtain k where k: "unat (rounded_size sz) = 2 ^ k" "(2 :: nat) ^ m \<le> 2 ^ k"
      "2 ^ k < 2 * max (2 ^ 16) (2 ^ m :: nat)"
    using rounded_size_spec[of sz] assms(1) by auto
  have "max (2 ^ 16) (2 ^ m :: nat) = 2 ^ m" using \<open>(2 :: nat) ^ 16 \<le> 2 ^ m\<close> by simp
  then have "(2 :: nat) ^ k < 2 ^ Suc m" using k(3) by simp
  then have "k < Suc m" by (rule power_less_imp_less_exp[rotated]) simp
  moreover have "m \<le> k" using k(2) by (rule power_le_imp_le_exp[rotated]) simp
  ultimately show ?thesis using k(1) assms(1) by (simp add: word_unat_eq_iff)
qed

text \<open>Persistence: loading the counter file of a filter of \<open>2 ^ m\<close> bytes again, with the same size
  and number of bits, gives a filter that represents the same elements, so they all still test
  positive. A file of any other length is refused.\<close>

lemma bloomfilter_load_restores:
  assumes r: "represents H bf M" and f: "bf_fh bf = Some f" "length f = 4 * unat (bitArraySize bf)"
    and m: "unat (bitArraySize bf) = 2 ^ m" "16 \<le> m" "m \<le> 29" and k: "addressesPerElement bf \<noteq> 0"
  shows "(\<exists>bf'. GNUNET_CONTAINER_bloomfilter_load (good_env (Some f)) name (bitArraySize bf)
        (addressesPerElement bf) = Some bf' \<and> represents H bf' M) \<and>
    (\<forall>g. g \<noteq> [] \<and> length g \<noteq> length f \<longrightarrow>
      GNUNET_CONTAINER_bloomfilter_load (good_env (Some g)) name (bitArraySize bf)
        (addressesPerElement bf) = None)"
proof -
  let ?sz = "bitArraySize bf"
  have rs: "rounded_size ?sz = ?sz" using rounded_size_power[OF m(1,2)] m(3) by simp
  have sz: "0 < ?sz" "?sz < ?sz * 8" "unat (?sz * 4) = 4 * unat ?sz" using wf_sizes[OF m(1)] m(3) by auto
  have ne: "f \<noteq> []" "?sz \<noteq> 0" "unat ?sz \<noteq> 0" using f(2) m(1) by auto
  let ?bf = "\<lparr>bitArray = load_loop (unat ?sz) 0 f (replicate (unat ?sz) 0), bf_filename = Some name,
    bf_fh = Some f, addressesPerElement = addressesPerElement bf, bitArraySize = ?sz\<rparr>"
  have load: "GNUNET_CONTAINER_bloomfilter_load (good_env (Some f)) name ?sz (addressesPerElement bf) = Some ?bf"
    using k ne sz f(2)
    unfolding GNUNET_CONTAINER_bloomfilter_load_def rounded_size_def[symmetric] Let_def rs
    by (simp add: good_env_def)
  have "(2 :: nat) ^ m \<le> 2 ^ 29" using m(3) by (intro power_increasing) auto
  then have bits: "bit_at (bitArray ?bf) i \<longleftrightarrow> 0 < counter f i" if "i < 8 * unat ?sz" for i
    using bit_at_load_loop[of 0 f "unat ?sz" "replicate (unat ?sz) 0" i] f(2) m(1) bit_at_zeroes[OF that]
    by simp
  have "bf_stores bf (sum_mset (image_mset (key_mset H bf) M))" using r by (simp add: represents_def)
  then have "bf_stores ?bf (sum_mset (image_mset (key_mset H bf) M))"
    using f(1) sz bits by (simp add: bf_stores_def bf_wf_def)
  then have "represents H ?bf M" by (simp add: represents_def key_mset_cong[of ?bf bf])
  moreover have "GNUNET_CONTAINER_bloomfilter_load (good_env (Some g)) name ?sz (addressesPerElement bf) = None"
    if "g \<noteq> []" "length g \<noteq> length f" for g
    using k ne sz f(2) that
    unfolding GNUNET_CONTAINER_bloomfilter_load_def rounded_size_def[symmetric] Let_def rs
    by (simp add: good_env_def)
  ultimately show ?thesis using load by blast
qed



text \<open>OR-ing a second filter of the same shape into a filter in memory gives a filter that
  represents the elements of both.\<close>

lemma bloomfilter_or2_union:
  assumes r: "represents H bf M" "represents H to_or M'" and mem: "bf_fh bf = None"
    and shape: "bitArraySize to_or = bitArraySize bf" "addressesPerElement to_or = addressesPerElement bf"
    and small: "unat (bitArraySize bf) < 2 ^ 32"
  shows "\<exists>bf'. GNUNET_CONTAINER_bloomfilter_or2 (Some bf) to_or = (GNUNET_OK, Some bf') \<and>
    represents H bf' (M + M')"
proof -
  let ?N = "sum_mset (image_mset (key_mset H bf) M)" and ?N' = "sum_mset (image_mset (key_mset H bf) M')"
  have st: "bf_stores bf ?N" "bf_stores to_or ?N'"
    using r key_mset_cong[OF shape, of H] by (simp_all add: represents_def)
  have len: "length (bitArray bf) = unat (bitArraySize bf)" "length (bitArray to_or) = unat (bitArraySize bf)"
    using st shape by (simp_all add: bf_stores_def bf_wf_def)
  let ?bf = "bf\<lparr>bitArray := or_arrays (bitArraySize bf) (bitArray bf) (bitArray to_or)\<rparr>"
  have alen: "length (bitArray ?bf) = length (bitArray bf)" by (simp add: or_arrays_def or_bytes_def Let_def)
  have "bit_at (bitArray ?bf) i" if "i < 8 * length (bitArray bf)" "0 < count (?N + ?N') i" for i
  proof -
    have "bit_at (bitArray bf) i \<or> bit_at (bitArray to_or) i"
      using that bf_stores_bit[OF st(1), of i] bf_stores_bit[OF st(2), of i] len by auto
    then show ?thesis using bit_at_or_arrays[OF that(1) len(1) small] by simp
  qed
  then have "bf_stores ?bf (?N + ?N')" using st(1) mem alen by (simp add: bf_stores_def bf_wf_def)
  then have "represents H ?bf (M + M')" by (simp add: represents_def key_mset_cong[of ?bf bf])
  then show ?thesis using shape by (simp add: GNUNET_CONTAINER_bloomfilter_or2_def)
qed

end
