(* ===== verification/CRC.thy ===== *)
theory CRC
  imports Endian
begin

text \<open>
  Checksums (\<^verbatim>\<open>src/src/util/crypto_crc.c\<close>): the table-driven CRC-32, the ones' complement sum of
  TCP/IP and an 8-bit CRC. The static table and its \<^verbatim>\<open>once\<close> flag are the state of the CRC-32.
  Buffers are byte lists; the 16-bit loads of the TCP/IP sum are little endian.
\<close>

section \<open>CRC-32\<close>

record crc_state =
  crc_once :: bool
  crc_table :: "uint32 list"

definition crc_static :: crc_state where
  "crc_static = \<lparr>crc_once = False, crc_table = replicate 256 0\<rparr>"

definition POLYNOMIAL :: uint32 where "POLYNOMIAL = 0xedb88320"

text \<open>The inner loop over \<open>j = 0, 2 * i, ...\<close> below 256; \<open>n\<close> is the number of rounds left.\<close>

fun crc_fill :: "nat \<Rightarrow> uint32 \<Rightarrow> nat \<Rightarrow> nat \<Rightarrow> uint32 list \<Rightarrow> uint32 list" where
  "crc_fill i h j 0 tab = tab"
| "crc_fill i h j (Suc n) tab = crc_fill i h (j + 2 * i) n (tab[i + j := tab ! j XOR h])"

text \<open>The outer loop over \<open>i = 128, 64, ..., 1\<close>, that is \<open>i = 2 ^ t\<close> for \<open>t = 7, ..., 0\<close>.\<close>

fun crc_fill_all :: "nat \<Rightarrow> uint32 \<Rightarrow> uint32 list \<Rightarrow> uint32 list" where
  "crc_fill_all 0 h tab = tab"
| "crc_fill_all (Suc t) h tab =
     (let h' = drop_bit 1 h XOR (if h AND 1 \<noteq> 0 then POLYNOMIAL else 0)
      in crc_fill_all t h' (crc_fill (2 ^ t) h' 0 (128 div 2 ^ t) tab))"

definition crc_init :: "crc_state \<Rightarrow> crc_state" where
  "crc_init st =
     (if crc_once st then st
      else st\<lparr>crc_once := True, crc_table := crc_fill_all 8 1 ((crc_table st)[0 := 0])\<rparr>)"

definition crc32_byte :: "uint32 list \<Rightarrow> uint32 \<Rightarrow> uint8 \<Rightarrow> uint32" where
  "crc32_byte tab crc b = drop_bit 8 crc XOR (tab ! unat ((crc XOR ucast b) AND 0xff))"

text \<open>\<^verbatim>\<open>None\<close> is the failed assertion on the table.\<close>

definition crc32 :: "crc_state \<Rightarrow> uint32 \<Rightarrow> uint8 list \<Rightarrow> (uint32 \<times> crc_state) option" where
  "crc32 st crc buf =
     (let st1 = crc_init st
      in if crc_table st1 ! 255 \<noteq> 0
         then Some (foldl (crc32_byte (crc_table st1)) (crc XOR 0xffffffff) buf XOR 0xffffffff, st1)
         else None)"

definition GNUNET_CRYPTO_crc32_n :: "crc_state \<Rightarrow> uint8 list \<Rightarrow> (uint32 \<times> crc_state) option" where
  "GNUNET_CRYPTO_crc32_n st buf =
     (case crc32 st 0 [] of None \<Rightarrow> None | Some (crc, st1) \<Rightarrow> crc32 st1 crc buf)"

section \<open>The TCP/IP checksum\<close>

fun GNUNET_CRYPTO_crc16_step :: "uint32 \<Rightarrow> uint8 list \<Rightarrow> uint32" where
  "GNUNET_CRYPTO_crc16_step sm [] = sm"
| "GNUNET_CRYPTO_crc16_step sm [b] = sm + ucast b"
| "GNUNET_CRYPTO_crc16_step sm (b # c # buf) =
     GNUNET_CRYPTO_crc16_step (sm + (ucast b + 256 * ucast c)) buf"

definition GNUNET_CRYPTO_crc16_finish :: "uint32 \<Rightarrow> uint16" where
  "GNUNET_CRYPTO_crc16_finish sm =
     (let s1 = drop_bit 16 sm + (sm AND 0xFFFF); s2 = s1 + drop_bit 16 s1
      in ucast (NOT s2))"

definition GNUNET_CRYPTO_crc16_n :: "uint8 list \<Rightarrow> uint16" where
  "GNUNET_CRYPTO_crc16_n buf = GNUNET_CRYPTO_crc16_finish (GNUNET_CRYPTO_crc16_step 0 buf)"

section \<open>CRC-8\<close>

definition crc8_bit :: "uint32 \<Rightarrow> uint32" where
  "crc8_bit crc = push_bit 1 (if crc AND 0x8000 \<noteq> 0 then crc XOR push_bit 3 0x1070 else crc)"

definition crc8_byte :: "uint32 \<Rightarrow> uint8 \<Rightarrow> uint32" where
  "crc8_byte crc b = (crc8_bit ^^ 8) (crc XOR push_bit 8 (ucast b))"

definition GNUNET_CRYPTO_crc8_n :: "uint8 list \<Rightarrow> uint8" where
  "GNUNET_CRYPTO_crc8_n buf = ucast (drop_bit 8 (foldl crc8_byte 0 buf))"

section \<open>The table is the bitwise step\<close>

text \<open>One bit of the reflected CRC division.\<close>

definition crc_shift :: "uint32 \<Rightarrow> uint32" where
  "crc_shift x = drop_bit 1 x XOR (if bit x 0 then POLYNOMIAL else 0)"

lemma and_1_bit_0: "((x :: uint32) AND 1 \<noteq> 0) = bit x 0"
  by (simp add: and_one_eq bit_0 odd_iff_mod_2_eq_one)

lemma crc_shift_xor: "crc_shift (x XOR y) = crc_shift x XOR crc_shift y"
  by (rule bit_word_eqI) (auto simp: crc_shift_def bit_xor_iff bit_drop_bit_eq)

lemma crc_shifts_xor: "(crc_shift ^^ n) (x XOR y) = (crc_shift ^^ n) x XOR (crc_shift ^^ n) y"
  by (induction n) (simp_all add: crc_shift_xor)

lemma crc_shift_0 [simp]: "crc_shift 0 = 0"
  by (simp add: crc_shift_def)

lemma crc_shifts_low_zero:
  "(\<forall>i < n. \<not> bit x i) \<Longrightarrow> (crc_shift ^^ n) x = drop_bit n x"
proof (induction n arbitrary: x)
  case (Suc n)
  have "crc_shift x = drop_bit 1 x" using Suc.prems by (simp add: crc_shift_def)
  moreover have "\<forall>i < n. \<not> bit (drop_bit 1 x) i" using Suc.prems by (auto simp: bit_drop_bit_eq)
  then have "(crc_shift ^^ n) (drop_bit 1 x) = drop_bit n (drop_bit 1 x)" by (rule Suc.IH)
  ultimately show ?case by (simp add: funpow_Suc_right del: funpow.simps)
qed simp

text \<open>What the table should hold.\<close>

definition crc_entry :: "nat \<Rightarrow> uint32" where
  "crc_entry n = (crc_shift ^^ 8) (of_nat n)"

lemma crc_entry_0 [simp]: "crc_entry 0 = 0"
proof -
  have "(crc_shift ^^ n) 0 = 0" for n by (induction n) simp_all
  then show ?thesis by (simp add: crc_entry_def)
qed

lemma crc_entry_power: "t \<le> 8 \<Longrightarrow> crc_entry (2 ^ t) = (crc_shift ^^ (8 - t)) 1"
proof -
  assume t: "t \<le> 8"
  have "\<forall>i < t. \<not> bit (2 ^ t :: uint32) i" by (simp add: bit_exp_iff)
  then have "(crc_shift ^^ t) (2 ^ t) = 1"
    using t crc_shifts_low_zero[of t "2 ^ t"] by (simp add: drop_bit_exp_eq)
  moreover have "crc_entry (2 ^ t) = (crc_shift ^^ (8 - t)) ((crc_shift ^^ t) (2 ^ t))"
    unfolding crc_entry_def using t funpow_add[of "8 - t" t crc_shift] by simp
  ultimately show ?thesis by simp
qed

lemma crc_entry_add:
  assumes "j mod 2 ^ Suc t = 0" "t < 32"
  shows "crc_entry (2 ^ t + j) = crc_entry j XOR crc_entry (2 ^ t)"
proof -
  obtain q where q: "j = 2 ^ Suc t * q" using assms(1) by auto
  have "\<not> bit (2 ^ t :: uint32) n \<or> \<not> bit (of_nat j :: uint32) n" for n
  proof (cases "n = t")
    case True
    have "\<not> bit j t" using q by (simp add: bit_iff_odd)
    then show ?thesis using True by (simp add: bit_of_nat_iff)
  qed (auto simp: bit_exp_iff)
  note disj = this
  have "(2 ^ t :: uint32) + of_nat j = 2 ^ t OR of_nat j" by (rule disjunctive_add) (rule disj)
  also have "\<dots> = 2 ^ t XOR of_nat j"
    by (rule bit_word_eqI) (use disj in \<open>simp add: bit_or_iff bit_xor_iff, blast\<close>)
  finally have "(of_nat (2 ^ t + j) :: uint32) = 2 ^ t XOR of_nat j" by simp
  then show ?thesis by (simp add: crc_entry_def crc_shifts_xor xor.commute)
qed

lemma length_crc_fill [simp]: "length (crc_fill i h j n tab) = length tab"
  by (induction n arbitrary: j tab) simp_all

lemma crc_fill_before: "0 < i \<Longrightarrow> k < i + j \<Longrightarrow> crc_fill i h j n tab ! k = tab ! k"
  by (induction n arbitrary: j tab) simp_all

lemma odd_even_multiple: "0 < (i :: nat) \<Longrightarrow> 2 * i * x \<noteq> i + 2 * i * y"
proof
  assume "0 < i" "2 * i * x = i + 2 * i * y"
  then have "i * (2 * x) = i * (1 + 2 * y)" by (simp add: algebra_simps)
  then have "2 * x = 1 + 2 * y" using \<open>0 < i\<close> by (metis mult_cancel1 less_irrefl)
  then show False by presburger
qed

lemma crc_fill_keep: "0 < i \<Longrightarrow> crc_fill i h (2 * i * a) n tab ! (2 * i * x) = tab ! (2 * i * x)"
proof (induction n arbitrary: a tab)
  case (Suc n)
  have e: "2 * i * a + 2 * i = 2 * i * Suc a" by simp
  show ?case unfolding crc_fill.simps e
    using Suc odd_even_multiple[OF Suc.prems, of x a] by (simp del: mult_Suc_right)
qed simp

lemma crc_fill_set:
  "0 < i \<Longrightarrow> m < n \<Longrightarrow> 2 * i * (a + n) \<le> length tab \<Longrightarrow>
   crc_fill i h (2 * i * a) n tab ! (i + 2 * i * (a + m)) = tab ! (2 * i * (a + m)) XOR h"
proof (induction n arbitrary: a m tab)
  case (Suc n)
  have e: "2 * i * a + 2 * i = 2 * i * Suc a" by simp
  let ?tab = "tab[i + 2 * i * a := tab ! (2 * i * a) XOR h]"
  show ?case
  proof (cases m)
    case 0
    have "i + 2 * i * a < 2 * i * (a + Suc n)" using Suc.prems(1) by (simp add: algebra_simps)
    then have "i + 2 * i * a < length tab" using Suc.prems(3) by linarith
    then show ?thesis unfolding crc_fill.simps e using 0 Suc.prems(1)
      by (simp add: crc_fill_before)
  next
    case (Suc m')
    have "crc_fill i h (2 * i * Suc a) n ?tab ! (i + 2 * i * (Suc a + m')) = ?tab ! (2 * i * (Suc a + m')) XOR h"
      using Suc Suc.prems by (intro Suc.IH) simp_all
    moreover have am: "a + m = Suc a + m'" using Suc by simp
    ultimately show ?thesis unfolding crc_fill.simps e am
      using odd_even_multiple[OF Suc.prems(1), of "Suc a + m'" a] by (simp only: nth_list_update_neq)
  qed
qed simp

definition crc_filled :: "nat \<Rightarrow> uint32 list \<Rightarrow> bool" where
  "crc_filled t tab \<longleftrightarrow> length tab = 256 \<and> (\<forall>k < 256. k mod 2 ^ t = 0 \<longrightarrow> tab ! k = crc_entry k)"

lemma crc_fill_step:
  assumes "crc_filled (Suc t) tab" "t \<le> 7"
  shows "crc_filled t (crc_fill (2 ^ t) (crc_entry (2 ^ t)) 0 (128 div 2 ^ t) tab)"
proof -
  let ?i = "2 ^ t :: nat" and ?n = "128 div 2 ^ t :: nat"
  have "(128 :: nat) = 2 ^ t * 2 ^ (7 - t)" using assms(2) by (simp flip: power_add)
  then have "2 ^ t dvd (128 :: nat)" by (metis dvd_triv_left)
  then have n: "2 * ?i * ?n = 256" by (simp add: mult.assoc)
  have len: "length tab = 256" and R: "\<And>k. k < 256 \<Longrightarrow> k mod 2 ^ Suc t = 0 \<Longrightarrow> tab ! k = crc_entry k"
    using assms(1) by (auto simp: crc_filled_def)
  have "crc_fill ?i (crc_entry ?i) 0 ?n tab ! k = crc_entry k" if k: "k < 256" "k mod ?i = 0" for k
  proof -
    obtain q where q: "k = ?i * q" using k(2) by auto
    show ?thesis
    proof (cases "even q")
      case True
      then obtain x where x: "k = 2 * ?i * x" using q by (auto elim: evenE)
      have "crc_fill ?i (crc_entry ?i) (2 * ?i * 0) ?n tab ! (2 * ?i * x) = tab ! (2 * ?i * x)"
        by (rule crc_fill_keep) simp
      then show ?thesis using R[OF k(1)] x by simp
    next
      case False
      then obtain m where m: "k = ?i + 2 * ?i * m" using q by (auto elim!: oddE simp: algebra_simps)
      have "2 * ?i * m < 2 * ?i * ?n" using k(1) m n by linarith
      then have mn: "m < ?n" by simp
      have lt: "2 * ?i * m < 256" using k(1) m by linarith
      have "crc_fill ?i (crc_entry ?i) (2 * ?i * 0) ?n tab ! (?i + 2 * ?i * (0 + m)) =
          tab ! (2 * ?i * (0 + m)) XOR crc_entry ?i"
        using mn n len by (intro crc_fill_set) simp_all
      also have "\<dots> = crc_entry (?i + 2 * ?i * m)"
        using R[OF lt] crc_entry_add[of "2 * ?i * m" t] assms(2) by simp
      finally show ?thesis using m by simp
    qed
  qed
  then show ?thesis using len by (simp add: crc_filled_def)
qed

lemma crc_fill_all_filled:
  "t \<le> 8 \<Longrightarrow> crc_filled t tab \<Longrightarrow> crc_filled 0 (crc_fill_all t ((crc_shift ^^ (8 - t)) 1) tab)"
proof (induction t arbitrary: tab)
  case (Suc t)
  have "drop_bit 1 x XOR (if x AND 1 \<noteq> 0 then POLYNOMIAL else 0) = crc_shift x" for x
    unfolding crc_shift_def and_1_bit_0 by simp
  note sh = this
  have e: "crc_shift ((crc_shift ^^ (8 - Suc t)) 1) = (crc_shift ^^ (8 - t)) 1"
    using funpow.simps(2)[of "8 - Suc t" crc_shift] Suc_diff_le[of "Suc t" 8] Suc.prems(1)
    by (metis comp_apply diff_Suc_Suc)
  have "crc_entry (2 ^ t) = (crc_shift ^^ (8 - t)) 1" using crc_entry_power Suc.prems(1) by simp
  then have "crc_filled t (crc_fill (2 ^ t) ((crc_shift ^^ (8 - t)) 1) 0 (128 div 2 ^ t) tab)"
    using crc_fill_step[of t tab] Suc.prems by simp
  then show ?case unfolding crc_fill_all.simps Let_def sh e using Suc by simp
qed simp

lemma crc_init_table:
  assumes "length tab = 256" "n < 256"
  shows "crc_fill_all 8 1 (tab[0 := 0]) ! n = crc_entry n"
proof -
  have "crc_filled 8 (tab[0 := 0])" using assms(1) by (auto simp: crc_filled_def)
  from crc_fill_all_filled[OF _ this] show ?thesis using assms(2) by (simp add: crc_filled_def)
qed


section \<open>Properties\<close>

definition crc_ok :: "crc_state \<Rightarrow> bool" where
  "crc_ok st \<longleftrightarrow> length (crc_table st) = 256 \<and> (crc_once st \<longrightarrow> (\<forall>n < 256. crc_table st ! n = crc_entry n))"

text \<open>The reflected CRC-32, one bit at a time, preset and inverted.\<close>

definition crc32_ref :: "uint32 \<Rightarrow> uint8 list \<Rightarrow> uint32" where
  "crc32_ref crc buf = foldl (\<lambda>c b. (crc_shift ^^ 8) (c XOR ucast b)) (crc XOR 0xffffffff) buf XOR 0xffffffff"

lemma length_crc_fill_all [simp]: "length (crc_fill_all t h tab) = length tab"
  by (induction t arbitrary: h tab) (simp_all add: Let_def)

lemma crc_init_ok:
  assumes "crc_ok st"
  shows "crc_ok (crc_init st)" "n < 256 \<Longrightarrow> crc_table (crc_init st) ! n = crc_entry n"
  using assms crc_init_table[of "crc_table st"] by (auto simp: crc_ok_def crc_init_def)

lemma crc_entry_255: "crc_entry 255 \<noteq> 0"
  by code_simp

lemma crc32_byte_bits:
  assumes "\<And>n. n < 256 \<Longrightarrow> tab ! n = crc_entry n"
  shows "crc32_byte tab crc b = (crc_shift ^^ 8) (crc XOR ucast b)"
proof -
  define x where "x = crc XOR ucast b"
  have lo: "bit (x AND 0xff) n = (n < 8 \<and> bit x n)" for n by (simp add: bit_and_255)
  have hi: "bit (x AND NOT 0xff) n = (8 \<le> n \<and> bit x n)" for n
    using bit_and_255[of x n] bit_imp_le_length[of x n]
    by (simp only: bit_and_iff bit_not_iff possible_bit_word) auto
  have split: "x = (x AND NOT 0xff) XOR (x AND 0xff)"
    by (rule bit_word_eqI) (auto simp only: bit_xor_iff lo hi)
  have "(crc_shift ^^ 8) (x AND NOT 0xff) = drop_bit 8 (x AND NOT 0xff)"
    by (rule crc_shifts_low_zero) (simp only: hi, simp)
  also have "\<dots> = drop_bit 8 crc"
    by (rule bit_word_eqI)
      (simp only: bit_drop_bit_eq hi o_def, auto simp: x_def bit_xor_iff bit_ucast_iff dest: bit_imp_le_length)
  finally have high: "(crc_shift ^^ 8) (x AND NOT 0xff) = drop_bit 8 crc" .
  have "unat (x AND 0xff) < 256" unfolding and_255 by (simp add: unsigned_take_bit_eq take_bit_nat_def)
  moreover have "(of_nat (unat (x AND 0xff)) :: uint32) = x AND 0xff" by simp
  ultimately have "tab ! unat (x AND 0xff) = (crc_shift ^^ 8) (x AND 0xff)"
    by (simp only: assms crc_entry_def)
  then have "crc32_byte tab crc b = (crc_shift ^^ 8) (x AND NOT 0xff) XOR (crc_shift ^^ 8) (x AND 0xff)"
    unfolding crc32_byte_def x_def[symmetric] high by simp
  also have "\<dots> = (crc_shift ^^ 8) x" by (simp only: crc_shifts_xor[symmetric] split[symmetric])
  finally show ?thesis by (simp only: x_def)
qed

lemma crc32_eq_ref:
  assumes "crc_ok st"
  shows "crc32 st crc buf = Some (crc32_ref crc buf, crc_init st)"
proof -
  have "foldl (crc32_byte (crc_table (crc_init st))) c buf =
      foldl (\<lambda>c b. (crc_shift ^^ 8) (c XOR ucast b)) c buf" for c
    using crc32_byte_bits[of "crc_table (crc_init st)"] crc_init_ok(2)[OF assms]
    by (intro foldl_cong) auto
  then show ?thesis using crc_init_ok(2)[OF assms, of 255] crc_entry_255
    by (simp add: crc32_def Let_def crc32_ref_def)
qed

lemma crc_static_ok: "crc_ok crc_static"
  by (simp add: crc_ok_def crc_static_def)

text \<open>C25: from the initial static table, and in every later state, the table-driven CRC-32 never
  trips its assertion and is the bit-by-bit CRC-32 of the buffer; and the value for a prefix can be
  passed on as the chaining value for the rest.\<close>

theorem crc32_n_correct:
  assumes "crc_ok st"
  shows "\<exists>st1. GNUNET_CRYPTO_crc32_n st a = Some (crc32_ref 0 a, st1) \<and> crc_ok st1 \<and>
    (\<exists>st2. crc32 st1 (crc32_ref 0 a) b = Some (crc32_ref 0 (a @ b), st2) \<and> crc_ok st2)"
proof -
  have "GNUNET_CRYPTO_crc32_n st a = Some (crc32_ref 0 a, crc_init (crc_init st))"
    using crc32_eq_ref[OF assms] crc32_eq_ref[OF crc_init_ok(1)[OF assms]]
    by (simp add: GNUNET_CRYPTO_crc32_n_def crc32_ref_def)
  moreover have "crc32_ref (crc32_ref 0 a) b = crc32_ref 0 (a @ b)"
    by (simp add: crc32_ref_def xor.assoc)
  moreover have ok: "crc_ok (crc_init (crc_init st))" by (intro crc_init_ok assms)
  ultimately show ?thesis using crc32_eq_ref[OF ok, of "crc32_ref 0 a" b] crc_init_ok(1)[OF ok] by simp
qed

theorem crc32_n_correct_witness:
  "\<exists>st1. GNUNET_CRYPTO_crc32_n crc_static [97] = Some (0xE8B7BE43, st1)"
proof -
  have "crc32_ref 0 [97] = 0xE8B7BE43" by code_simp
  then show ?thesis using crc32_n_correct[OF crc_static_ok, of "[97]" "[]"] by auto
qed


text \<open>The ones' complement sum of 16-bit little endian words, folded once more when it carries.\<close>

fun wsum :: "uint8 list \<Rightarrow> nat" where
  "wsum (b # c # buf) = unat b + 256 * unat c + wsum buf"
| "wsum [b] = unat b"
| "wsum [] = 0"

definition fold16 :: "nat \<Rightarrow> nat" where
  "fold16 S = (let s = S div 65536 + S mod 65536 in if s < 65536 then s else s - 65535)"

lemma crc16_step_wsum: "GNUNET_CRYPTO_crc16_step sm buf = sm + of_nat (wsum buf)"
  by (induction sm buf rule: GNUNET_CRYPTO_crc16_step.induct) (simp_all add: algebra_simps)

lemma wsum_append: "even (length a) \<Longrightarrow> wsum (a @ b) = wsum a + wsum b"
  by (induction a rule: wsum.induct) auto

lemma wsum_le: "wsum buf \<le> 65535 * ((length buf + 1) div 2)"
proof (induction buf rule: wsum.induct)
  case (1 b c buf)
  have "unat b < 256" "unat c < 256" using unsigned_less[where 'a = nat, of b] unsigned_less[where 'a = nat, of c] by simp_all
  with 1 show ?case by simp
next
  case (2 b)
  have "unat b < 256" using unsigned_less[where 'a = nat, of b] by simp
  then show ?case by simp
qed simp

lemma crc16_finish_fold:
  assumes "S < 2 ^ 32"
  shows "unat (GNUNET_CRYPTO_crc16_finish (of_nat S)) = 65535 - fold16 S"
proof -
  define x where "x = (of_nat S :: uint32)"
  have x: "unat x = S" using assms by (simp add: x_def unat_of_nat)
  have hl: "unat (drop_bit 16 x) = S div 65536" "unat (x AND 0xFFFF) = S mod 65536"
  proof -
    show "unat (drop_bit 16 x) = S div 65536" using x by (simp add: unat_drop_bit_eq drop_bit_nat_def)
    have "x AND 0xFFFF = take_bit 16 x" by (simp add: take_bit_eq_mask mask_eq_exp_minus_1)
    then show "unat (x AND 0xFFFF) = S mod 65536" using x by (simp add: unsigned_take_bit_eq take_bit_nat_def)
  qed
  define s1 where "s1 = drop_bit 16 x + (x AND 0xFFFF)"
  have b: "S div 65536 < 65536" "S mod 65536 < 65536" using assms by (auto simp: less_mult_imp_div_less)
  then have s1: "unat s1 = S div 65536 + S mod 65536" using hl unat_add_no_wrap[of "drop_bit 16 x" "x AND 0xFFFF"]
    by (simp add: s1_def)
  define s2 where "s2 = s1 + drop_bit 16 s1"
  have d: "unat (drop_bit 16 s1) = unat s1 div 65536" by (simp add: unat_drop_bit_eq drop_bit_nat_def)
  have "unat s1 div 65536 \<le> 1" using s1 b by simp
  then have s2: "unat s2 = unat s1 + unat s1 div 65536"
  proof -
    assume "unat s1 div 65536 \<le> 1"
    moreover have "unat s1 < 131072" using s1 b by linarith
    ultimately have "unat s1 + unat (drop_bit 16 s1) < 2 ^ 32" unfolding d by simp
    then show ?thesis using unat_add_no_wrap[of s1 "drop_bit 16 s1"] d by (simp add: s2_def)
  qed
  have f: "unat s2 mod 65536 = fold16 S"
  proof (cases "unat s1 < 65536")
    case True
    then show ?thesis using s1 s2 by (simp add: fold16_def)
  next
    case False
    then have "unat s1 div 65536 = 1" using s1 b by simp
    then have "unat s2 = 65536 + (unat s1 - 65535)" using s2 False by simp
    moreover have "unat s1 - 65535 < 65536" using s1 b by simp
    ultimately have "unat s2 mod 65536 = unat s1 - 65535" by (simp only: mod_add_self1 mod_less)
    then show ?thesis using False s1 by (simp add: fold16_def)
  qed
  have "(ucast (NOT s2) :: uint16) = NOT (ucast s2)"
    by (rule bit_word_eqI) (auto simp: bit_ucast_iff bit_not_iff)
  also have "\<dots> = - 1 - ucast s2" by (simp add: not_eq_complement)
  also have "unat \<dots> = 65535 - unat (ucast s2 :: uint16)"
    by (simp add: unat_sub_le unsigned_minus_1_eq_mask mask_eq_exp_minus_1)
  finally show ?thesis using f
    by (simp add: GNUNET_CRYPTO_crc16_finish_def Let_def x_def[symmetric] s1_def[symmetric] s2_def[symmetric]
        unsigned_ucast_eq take_bit_nat_def)
qed

lemma fold16_bounds: "S < 2 ^ 32 \<Longrightarrow> fold16 S \<le> 65535" "fold16 S \<le> S" "0 < S \<Longrightarrow> 0 < fold16 S"
proof -
  have e: "S = 65536 * (S div 65536) + S mod 65536" by simp
  have m: "S mod 65536 < 65536" by simp
  show "fold16 S \<le> S" using e by (auto simp: fold16_def Let_def)
  show "fold16 S \<le> 65535" if "S < 2 ^ 32"
  proof -
    have "S div 65536 < 65536" using that by (simp add: less_mult_imp_div_less)
    then show ?thesis using m by (auto simp: fold16_def Let_def)
  qed
  show "0 < fold16 S" if "0 < S" using that e by (auto simp: fold16_def Let_def)
qed

lemma fold16_mod: "fold16 S mod 65535 = S mod 65535"
proof -
  define q r where "q = S div 65536" and "r = S mod 65536"
  have S: "S = 65535 * q + (q + r)" by (simp add: q_def r_def)
  have "S mod 65535 = (q + r) mod 65535" by (subst S) (rule mod_mult_self4)
  moreover have "65536 \<le> q + r \<Longrightarrow> (q + r - 65535) mod 65535 = (q + r) mod 65535"
    by (rule le_mod_geq[symmetric]) simp
  ultimately show ?thesis by (auto simp: fold16_def Let_def q_def[symmetric] r_def[symmetric])
qed

text \<open>A buffer of even length, up to 128 kB, followed by its checksum has checksum zero, which
  is what a receiver tests; the checksum is the complement of the folded sum.\<close>

lemma crc16_n_verifies:
  assumes "even (length buf)" "length buf \<le> 131068"
  shows "unat (GNUNET_CRYPTO_crc16_n buf) = 65535 - fold16 (wsum buf) \<and>
    GNUNET_CRYPTO_crc16_n
      (buf @ [ucast (GNUNET_CRYPTO_crc16_n buf), ucast (drop_bit 8 (GNUNET_CRYPTO_crc16_n buf))]) = 0"
proof -
  let ?c = "GNUNET_CRYPTO_crc16_n buf" and ?S = "wsum buf"
  have n: "unat (GNUNET_CRYPTO_crc16_n b) = 65535 - fold16 (wsum b)" if "wsum b < 2 ^ 32" for b
    using crc16_finish_fold[OF that] by (simp add: GNUNET_CRYPTO_crc16_n_def crc16_step_wsum)
  have S: "?S \<le> 65535 * 65534" using wsum_le[of buf] assms by (simp add: even_iff_mod_2_eq_zero)
  then have lt: "?S < 2 ^ 32" by simp
  have c: "unat ?c = 65535 - fold16 ?S" by (rule n[OF lt])
  have "unat (ucast ?c :: uint8) = unat ?c mod 256"
      "unat (ucast (drop_bit 8 ?c) :: uint8) = unat ?c div 256 mod 256"
    by (simp_all add: unsigned_ucast_eq take_bit_nat_def unat_drop_bit_eq drop_bit_nat_def)
  moreover have "unat ?c div 256 < 256"
    using unsigned_less[where 'a = nat, of ?c] by (simp add: less_mult_imp_div_less)
  ultimately have "wsum [ucast ?c, ucast (drop_bit 8 ?c)] = unat ?c" by simp
  then have S': "wsum (buf @ [ucast ?c, ucast (drop_bit 8 ?c)]) = ?S + (65535 - fold16 ?S)" (is "?S' = _")
    using wsum_append[OF assms(1)] c by simp
  then have e: "?S' = (?S - fold16 ?S) + 65535" using fold16_bounds(1)[OF lt] fold16_bounds(2)[of ?S] by simp
  have "(?S - fold16 ?S) mod 65535 = 0"
    using fold16_mod[of ?S] fold16_bounds(2)[of ?S] by (metis mod_eq_dvd_iff_nat dvd_imp_mod_0)
  then have "?S' mod 65535 = 0" by (simp add: e)
  moreover have lt': "?S' < 2 ^ 32" "0 < ?S'" using e S by auto
  ultimately have "fold16 ?S' mod 65535 = 0" "0 < fold16 ?S'" "fold16 ?S' \<le> 65535"
    using fold16_mod[of ?S'] fold16_bounds[of ?S'] by auto
  then have "fold16 ?S' = 65535" by (metis le_antisym mod_less nat_less_le neq0_conv)
  then have "unat (GNUNET_CRYPTO_crc16_n (buf @ [ucast ?c, ucast (drop_bit 8 ?c)])) = 0"
    using n[OF lt'(1)] by simp
  then show ?thesis using c by (simp add: unat_eq_0)
qed


text \<open>One step of the 8-bit division by \<open>x ^ 8 + x ^ 2 + x + 1\<close>.\<close>

definition crc8_shift :: "uint8 \<Rightarrow> uint8" where
  "crc8_shift x = push_bit 1 x XOR (if bit x 7 then 7 else 0)"

text \<open>The two registers agree for each of the 256 contents.\<close>

lemma crc8_bit_all:
  "list_all (\<lambda>n. crc8_bit (push_bit 8 (ucast (word_of_int n :: uint8))) =
     push_bit 8 (ucast (crc8_shift (word_of_int n)))) [0..255]"
  by code_simp

lemma crc8_bit_shift: "crc8_bit (push_bit 8 (ucast x)) = push_bit 8 (ucast (crc8_shift x))"
proof -
  have "uint x \<in> set [0..255]" using unsigned_less[where 'a = int, of x] by simp
  then show ?thesis using crc8_bit_all by (auto simp: list_all_iff dest: bspec[of _ _ "uint x"])
qed

text \<open>The 8-bit checksum, computed in the upper byte of a 16-bit register, is the CRC with the
  polynomial \<open>x ^ 8 + x ^ 2 + x + 1\<close>, and a buffer followed by its checksum has checksum zero.\<close>

lemma crc8_n_correct:
  "GNUNET_CRYPTO_crc8_n buf = foldl (\<lambda>x b. (crc8_shift ^^ 8) (x XOR b)) 0 buf \<and>
   GNUNET_CRYPTO_crc8_n (buf @ [GNUNET_CRYPTO_crc8_n buf]) = 0"
proof -
  have sh: "(crc8_bit ^^ n) (push_bit 8 (ucast x)) = push_bit 8 (ucast ((crc8_shift ^^ n) x))" for n x
    by (induction n) (simp_all add: crc8_bit_shift)
  have byte: "crc8_byte (push_bit 8 (ucast x)) b = push_bit 8 (ucast ((crc8_shift ^^ 8) (x XOR b)))" for x b
    unfolding crc8_byte_def push_bit_xor[symmetric] unsigned_xor_eq[symmetric] by (rule sh)
  have fold: "foldl crc8_byte (push_bit 8 (ucast x)) buf =
      push_bit 8 (ucast (foldl (\<lambda>x b. (crc8_shift ^^ 8) (x XOR b)) x buf))" for x buf
    by (induction buf arbitrary: x) (simp_all add: byte del: funpow.simps)
  have out: "ucast (drop_bit 8 (push_bit 8 (ucast (x :: uint8)) :: uint32)) = x" for x
    by (rule bit_word_eqI) (auto simp: bit_ucast_iff bit_drop_bit_eq bit_push_bit_iff dest: bit_imp_le_length)
  have ref: "GNUNET_CRYPTO_crc8_n buf = foldl (\<lambda>x b. (crc8_shift ^^ 8) (x XOR b)) 0 buf" for buf
    using fold[of 0 buf] out by (simp add: GNUNET_CRYPTO_crc8_n_def)
  have "(crc8_shift ^^ n) 0 = 0" for n by (induction n) (simp_all add: crc8_shift_def)
  then show ?thesis using ref[of buf] ref[of "buf @ [GNUNET_CRYPTO_crc8_n buf]"] by simp
qed

end
