(* ===== verification/Datacache.thy ===== *)
theory Datacache
  imports BloomFilter Time
begin

text \<open>
  The data cache (\<^verbatim>\<open>src/src/datacache/datacache.c\<close>): a bounded store in front of a storage plugin. It
  keeps the space in use below a quota by deleting entries, and a Bloom filter of the keys it holds
  to answer misses quickly. The plugin is an interface (\<^verbatim>\<open>struct GNUNET_DATACACHE_PluginFunctions\<close>):
  a record of functions over the plugin's state \<open>'p\<close>. What the cache needs of a plugin is the locale
  \<open>datacache_plugin\<close>; the heap plugin interprets it. \<^verbatim>\<open>None\<close> is a failed assertion.
\<close>

section \<open>State\<close>

type_synonym PeerIdentity = "uint8 list"

text \<open>The arguments of a PUT. Sizes are the lengths of the lists.\<close>

record PutRequest =
  pr_key :: GNUNET_HashCode
  pr_data :: "uint8 list"
  pr_type :: uint32
  pr_discard_time :: GNUNET_TIME_Absolute
  pr_path_info :: "PeerIdentity list"

text \<open>The handle without the plugin's state. The statistics the cache keeps are the last two fields.\<close>

record DatacacheHandle =
  dc_filter :: "BloomFilter option"
  dc_quota :: uint64
  dc_utilization :: uint64
  stat_bytes_stored :: int
  stat_items_stored :: int

type_synonym 'c DatacacheIterator =
  "'c \<Rightarrow> GNUNET_HashCode \<Rightarrow> uint8 list \<Rightarrow> uint32 \<Rightarrow> GNUNET_TIME_Absolute \<Rightarrow> PeerIdentity list \<Rightarrow> int \<times> 'c"

type_synonym delete_notify = "DatacacheHandle \<Rightarrow> GNUNET_HashCode \<Rightarrow> uint64 \<Rightarrow> DatacacheHandle option"

text \<open>The plugin's functions. \<open>'al\<close> stands for the memory a PUT allocates; a deletion is given the
  notification callback and the handle it acts on; a random lookup is given the random number.\<close>

record ('p, 'al, 'c) PluginFunctions =
  api_put :: "'p \<Rightarrow> 'al \<Rightarrow> PutRequest \<Rightarrow> (int \<times> 'p) option"
  api_get :: "'p \<Rightarrow> GNUNET_HashCode \<Rightarrow> uint32 \<Rightarrow> 'c DatacacheIterator option \<Rightarrow> 'c \<Rightarrow> uint32 \<times> 'c"
  api_del :: "delete_notify \<Rightarrow> DatacacheHandle \<Rightarrow> 'p \<Rightarrow> (int \<times> DatacacheHandle \<times> 'p) option"
  api_get_random :: "'p \<Rightarrow> uint32 \<Rightarrow> 'c DatacacheIterator option \<Rightarrow> 'c \<Rightarrow> uint32 \<times> 'c"
  api_get_closest :: "'p \<Rightarrow> GNUNET_HashCode \<Rightarrow> uint32 \<Rightarrow> 'c DatacacheIterator option \<Rightarrow> 'c \<Rightarrow> uint32 \<times> 'c"

section \<open>Operations\<close>

definition env_delete_notify ::
  "(GNUNET_HashCode \<Rightarrow> GNUNET_HashCode) \<Rightarrow> delete_notify" where
  "env_delete_notify H h key sz =
     (if dc_utilization h \<ge> sz
      then case GNUNET_CONTAINER_bloomfilter_remove H (dc_filter h) key of
             None \<Rightarrow> None
           | Some flt \<Rightarrow>
               Some (h\<lparr>dc_utilization := dc_utilization h - sz, dc_filter := flt,
                       stat_bytes_stored := stat_bytes_stored h - sint sz,
                       stat_items_stored := stat_items_stored h - 1\<rparr>)
      else None)"

text \<open>
  Creating a cache: the configured quota and plugin name (\<^verbatim>\<open>None\<close> when missing), the two switches for
  the Bloom filter, the name \<^verbatim>\<open>GNUNET_DISK_mktemp\<close> gives, and what loading the plugin returns.
\<close>

definition GNUNET_DATACACHE_create ::
  "uint64 option \<Rightarrow> string option \<Rightarrow> bool \<Rightarrow> bool \<Rightarrow> string option \<Rightarrow> disk_env \<Rightarrow> (string \<Rightarrow> 'p option) \<Rightarrow>
   (DatacacheHandle \<times> 'p) option" where
  "GNUNET_DATACACHE_create quota_cfg name_cfg disable_bf disable_bf_rc tmpname env plugin_load =
     (case quota_cfg of None \<Rightarrow> None
      | Some quota \<Rightarrow> (case name_cfg of None \<Rightarrow> None
      | Some name \<Rightarrow>
          (let bf_size = ucast (quota div 32) :: uint32;
               bloom_name = (if disable_bf_rc then None else tmpname);
               loaded = (case bloom_name of None \<Rightarrow> None
                         | Some fn \<Rightarrow> GNUNET_CONTAINER_bloomfilter_load env fn (quota div 1024) 5);
               flt = (if disable_bf then None
                      else case loaded of
                             None \<Rightarrow> GNUNET_CONTAINER_bloomfilter_init None (ucast bf_size) 5
                           | Some bf \<Rightarrow> Some bf)
           in map_option (Pair \<lparr>dc_filter = flt, dc_quota = quota, dc_utilization = 0,
                                stat_bytes_stored = 0, stat_items_stored = 0\<rparr>)
                (plugin_load (''libgnunet_plugin_datacache_'' @ name)))))"

text \<open>The eviction loop of a PUT. Not ending is \<^verbatim>\<open>None\<close> too.\<close>

partial_function (option) evict ::
  "(DatacacheHandle \<Rightarrow> 'p \<Rightarrow> (int \<times> DatacacheHandle \<times> 'p) option) \<Rightarrow> uint64 \<Rightarrow> DatacacheHandle \<Rightarrow> 'p \<Rightarrow>
   (DatacacheHandle \<times> 'p) option" where
  "evict del used h p =
     (if dc_utilization h + used > dc_quota h
      then Option.bind (del h p) (\<lambda>(rc, h', p'). if rc = GNUNET_OK then evict del used h' p' else None)
      else Some (h, p))"

definition GNUNET_DATACACHE_put ::
  "(GNUNET_HashCode \<Rightarrow> GNUNET_HashCode) \<Rightarrow> ('p, 'al, 'c) PluginFunctions \<Rightarrow> DatacacheHandle \<Rightarrow> 'p \<Rightarrow> 'al \<Rightarrow>
   PutRequest \<Rightarrow> (int \<times> DatacacheHandle \<times> 'p) option" where
  "GNUNET_DATACACHE_put H api h p al r =
     (case api_put api p al r of
        None \<Rightarrow> None
      | Some (used, p1) \<Rightarrow>
          if used = - 1 then Some (GNUNET_SYSERR, h, p1)
          else if used = 0 then Some (GNUNET_NO, h, p1)
          else
            let h1 = h\<lparr>stat_bytes_stored := stat_bytes_stored h + int (length (pr_data r)),
                      stat_items_stored := stat_items_stored h + 1\<rparr>
            in case GNUNET_CONTAINER_bloomfilter_add H (dc_filter h1) (pr_key r) of
                 None \<Rightarrow> None
               | Some flt \<Rightarrow>
                   (case evict (api_del api (env_delete_notify H)) (of_int used) (h1\<lparr>dc_filter := flt\<rparr>) p1 of
                      None \<Rightarrow> None
                    | Some (h2, p2) \<Rightarrow>
                        Some (GNUNET_OK, h2\<lparr>dc_utilization := dc_utilization h2 + of_int used\<rparr>, p2)))"

definition GNUNET_DATACACHE_get ::
  "(GNUNET_HashCode \<Rightarrow> GNUNET_HashCode) \<Rightarrow> ('p, 'al, 'c) PluginFunctions \<Rightarrow> DatacacheHandle \<Rightarrow> 'p \<Rightarrow>
   GNUNET_HashCode \<Rightarrow> uint32 \<Rightarrow> 'c DatacacheIterator option \<Rightarrow> 'c \<Rightarrow> (uint32 \<times> 'c) option" where
  "GNUNET_DATACACHE_get H api h p key type iter c =
     (case dc_filter h of
        None \<Rightarrow> Some (api_get api p key type iter c)
      | Some bf \<Rightarrow>
          (case GNUNET_CONTAINER_bloomfilter_test H (Some bf) key of
             None \<Rightarrow> None
           | Some t \<Rightarrow> if t \<noteq> GNUNET_OK then Some (0, c) else Some (api_get api p key type iter c)))"

definition GNUNET_DATACACHE_get_random ::
  "('p, 'al, 'c) PluginFunctions \<Rightarrow> 'p \<Rightarrow> uint32 \<Rightarrow> 'c DatacacheIterator option \<Rightarrow> 'c \<Rightarrow> uint32 \<times> 'c" where
  "GNUNET_DATACACHE_get_random api p off iter c = api_get_random api p off iter c"

definition GNUNET_DATACACHE_get_closest ::
  "('p, 'al, 'c) PluginFunctions \<Rightarrow> 'p \<Rightarrow> GNUNET_HashCode \<Rightarrow> uint32 \<Rightarrow> 'c DatacacheIterator option \<Rightarrow> 'c \<Rightarrow>
   uint32 \<times> 'c" where
  "GNUNET_DATACACHE_get_closest api p key num_results iter c = api_get_closest api p key num_results iter c"

section \<open>Invariant\<close>

text \<open>The space the items of a plugin use, and the cache's invariant: the space in use is exactly
  that of the items, it is within the quota, no item takes more than half the quota, and the Bloom
  filter, if there is one, represents the keys.\<close>

definition total :: "(GNUNET_HashCode \<times> nat) multiset \<Rightarrow> nat" where
  "total M = sum_mset (image_mset snd M)"

lemma total_simps [simp]: "total {#} = 0" "total (add_mset x M) = snd x + total M"
  by (simp_all add: total_def)

definition filter_ok ::
  "(GNUNET_HashCode \<Rightarrow> GNUNET_HashCode) \<Rightarrow> BloomFilter option \<Rightarrow> (GNUNET_HashCode \<times> nat) multiset \<Rightarrow> bool" where
  "filter_ok H flt M \<longleftrightarrow> (case flt of None \<Rightarrow> True | Some bf \<Rightarrow> represents H bf (image_mset fst M))"

definition halves :: "nat \<Rightarrow> (GNUNET_HashCode \<times> nat) multiset \<Rightarrow> bool" where
  "halves q M \<longleftrightarrow> (\<forall>x. x \<in># M \<longrightarrow> 2 * snd x \<le> q)"

definition dc_ok ::
  "(GNUNET_HashCode \<Rightarrow> GNUNET_HashCode) \<Rightarrow> DatacacheHandle \<Rightarrow> (GNUNET_HashCode \<times> nat) multiset \<Rightarrow> bool" where
  "dc_ok H h M \<longleftrightarrow> unat (dc_utilization h) = total M \<and> total M \<le> unat (dc_quota h) \<and>
     unat (dc_quota h) < 2 ^ 63 \<and> halves (unat (dc_quota h)) M \<and> filter_ok H (dc_filter h) M"

lemma filter_ok_add:
  assumes "filter_ok H flt M"
  shows "\<exists>flt'. GNUNET_CONTAINER_bloomfilter_add H flt k = Some flt' \<and> filter_ok H flt' (add_mset (k, s) M)"
proof (cases flt)
  case None
  then show ?thesis by (simp add: filter_ok_def GNUNET_CONTAINER_bloomfilter_add_def)
next
  case (Some bf)
  then show ?thesis using assms add_represents[of H bf "image_mset fst M" k] by (auto simp: filter_ok_def)
qed

lemma filter_ok_remove:
  assumes "filter_ok H flt (add_mset (k, s) M)"
  shows "\<exists>flt'. GNUNET_CONTAINER_bloomfilter_remove H flt k = Some flt' \<and> filter_ok H flt' M"
proof (cases flt)
  case None
  then show ?thesis by (simp add: filter_ok_def GNUNET_CONTAINER_bloomfilter_remove_def)
next
  case (Some bf)
  then show ?thesis using assms remove_represents[of H bf "image_mset fst (add_mset (k, s) M)" k]
    by (auto simp: filter_ok_def)
qed

section \<open>What the cache needs of a plugin\<close>

text \<open>\<open>items\<close> lists the keys a plugin holds with the bytes it charges for them, \<open>ready\<close> says that the
  memory handed to a PUT is fresh and the plugin's tables have room, \<open>cost\<close> is what a PUT is charged.\<close>

locale datacache_plugin =
  fixes put :: "'p \<Rightarrow> 'al \<Rightarrow> PutRequest \<Rightarrow> (int \<times> 'p) option"
    and del :: "delete_notify \<Rightarrow> DatacacheHandle \<Rightarrow> 'p \<Rightarrow> (int \<times> DatacacheHandle \<times> 'p) option"
    and items :: "'p \<Rightarrow> (GNUNET_HashCode \<times> nat) multiset"
    and inv :: "'p \<Rightarrow> bool"
    and ready :: "'p \<Rightarrow> 'al \<Rightarrow> bool"
    and cost :: "PutRequest \<Rightarrow> nat"
  assumes cost_pos: "0 < cost r"
    and put_law: "inv p \<Longrightarrow> ready p al \<Longrightarrow>
      \<exists>p'. inv p' \<and>
        (put p al r = Some (0, p') \<and> items p' = items p \<and> (pr_key r, cost r) \<in># items p \<or>
         put p al r = Some (int (cost r), p') \<and> items p' = add_mset (pr_key r, cost r) (items p))"
    and del_law: "inv p \<Longrightarrow> items p \<noteq> {#} \<Longrightarrow>
      \<exists>k s p'. inv p' \<and> items p = add_mset (k, s) (items p') \<and>
        del n h p = (case n h k (of_nat s) of None \<Rightarrow> None | Some h' \<Rightarrow> Some (GNUNET_OK, h', p'))"
begin

lemma evict_ok:
  assumes "inv p" "unat (dc_utilization h) + c = total (items p)" "total (items p) < 2 ^ 64"
    "halves (unat (dc_quota h)) (items p)" "2 * c \<le> unat (dc_quota h)" "filter_ok H (dc_filter h) (items p)"
  shows "\<exists>h' p'. evict (del (env_delete_notify H)) (of_nat c) h p = Some (h', p') \<and> inv p' \<and>
    unat (dc_utilization h') + c = total (items p') \<and> total (items p') \<le> unat (dc_quota h') \<and>
    dc_quota h' = dc_quota h \<and> items p' \<subseteq># items p \<and> filter_ok H (dc_filter h') (items p')"
  using assms
proof (induction "size (items p)" arbitrary: h p)
  case 0
  then have "dc_utilization h = 0" "c = 0" by (simp_all add: unat_eq_0)
  then have "evict (del (env_delete_notify H)) (of_nat c) h p = Some (h, p)"
    by (subst evict.simps) simp
  then show ?case using 0 by auto
next
  case (Suc n)
  note prems = Suc.prems
  have c: "unat (of_nat c :: uint64) = c" using prems(2,3) by (simp add: unat_of_nat)
  have sum: "unat (dc_utilization h + of_nat c) = total (items p)"
    using unat_add_no_wrap[of "dc_utilization h" "of_nat c"] prems(2,3) c by simp
  show ?case
  proof (cases "dc_utilization h + of_nat c > dc_quota h")
    case False
    then have "evict (del (env_delete_notify H)) (of_nat c) h p = Some (h, p)"
      by (subst evict.simps) simp
    then show ?thesis using prems False sum by (auto simp: word_less_nat_alt)
  next
    case True
    then have over: "unat (dc_quota h) < total (items p)" using sum by (simp add: word_less_nat_alt)
    have "items p \<noteq> {#}" using Suc.hyps(2) by auto
    then obtain k s p' where d: "inv p'" "items p = add_mset (k, s) (items p')"
        "del (env_delete_notify H) h p = (case env_delete_notify H h k (of_nat s) of None \<Rightarrow> None
          | Some h' \<Rightarrow> Some (GNUNET_OK, h', p'))"
      using del_law[OF prems(1)] by blast
    have s2: "2 * s \<le> unat (dc_quota h)" using prems(4) d(2) by (auto simp: halves_def)
    then have le: "s \<le> unat (dc_utilization h)" using over prems(2,5) by linarith
    have us: "unat (of_nat s :: uint64) = s"
      using s2 unsigned_less[where 'a = nat, of "dc_quota h"] by (simp add: unat_of_nat)
    obtain flt where flt: "GNUNET_CONTAINER_bloomfilter_remove H (dc_filter h) k = Some flt"
        "filter_ok H flt (items p')"
      using filter_ok_remove[of H "dc_filter h" k s "items p'"] prems(6) d(2) by auto
    define h1 where "h1 = h\<lparr>dc_utilization := dc_utilization h - of_nat s, dc_filter := flt,
      stat_bytes_stored := stat_bytes_stored h - sint (of_nat s :: uint64),
      stat_items_stored := stat_items_stored h - 1\<rparr>"
    have nle: "of_nat s \<le> dc_utilization h" using le us by (simp add: word_le_nat_alt)
    then have "env_delete_notify H h k (of_nat s) = Some h1"
      by (simp add: env_delete_notify_def flt(1) h1_def)
    then have step: "evict (del (env_delete_notify H)) (of_nat c) h p =
        evict (del (env_delete_notify H)) (of_nat c) h1 p'"
      using True d(3) by (subst evict.simps) simp
    have "unat (dc_utilization h1) = unat (dc_utilization h) - s"
      using nle us by (simp add: h1_def unat_sub_le)
    then have "unat (dc_utilization h1) + c = total (items p')" using prems(2) d(2) le by simp
    moreover have "n = size (items p')" "total (items p') < 2 ^ 64" "halves (unat (dc_quota h1)) (items p')"
      "dc_quota h1 = dc_quota h" "filter_ok H (dc_filter h1) (items p')"
      using Suc.hyps(2) prems(3,4) d(2) flt(2) by (auto simp: h1_def halves_def)
    ultimately obtain h' p'' where "evict (del (env_delete_notify H)) (of_nat c) h1 p' = Some (h', p'') \<and> inv p'' \<and>
        unat (dc_utilization h') + c = total (items p'') \<and> total (items p'') \<le> unat (dc_quota h') \<and>
        dc_quota h' = dc_quota h1 \<and> items p'' \<subseteq># items p' \<and> filter_ok H (dc_filter h') (items p'')"
      using Suc.hyps(1)[of p' h1] d(1) prems(5) by auto
    note r = this
    have "items p' \<subseteq># items p" by (simp add: d(2))
    with r have "items p'' \<subseteq># items p" using subset_mset.order_trans by blast
    then show ?thesis unfolding step using r \<open>dc_quota h1 = dc_quota h\<close>
      by (intro exI[of _ h'] exI[of _ p'']) metis
  qed
qed

text \<open>A PUT of at most half the quota: nothing fails, and the cache's invariant holds again.\<close>

lemma put_ok:
  assumes api: "api_put api = put" "api_del api = del" and ok: "inv p" "dc_ok H h (items p)" "ready p al"
    and fits: "2 * cost r \<le> unat (dc_quota h)"
  shows "\<exists>rc h' p'. GNUNET_DATACACHE_put H api h p al r = Some (rc, h', p') \<and> inv p' \<and>
    dc_ok H h' (items p') \<and> dc_quota h' = dc_quota h \<and>
    (if rc = GNUNET_NO then items p' = items p \<and> (pr_key r, cost r) \<in># items p
     else rc = GNUNET_OK \<and> items p' \<subseteq># add_mset (pr_key r, cost r) (items p))"
proof -
  note h = ok(2)[unfolded dc_ok_def]
  obtain p1 where p1: "inv p1" and cases: "put p al r = Some (0, p1) \<and> items p1 = items p \<and>
        (pr_key r, cost r) \<in># items p \<or>
      put p al r = Some (int (cost r), p1) \<and> items p1 = add_mset (pr_key r, cost r) (items p)"
    using put_law[OF ok(1,3)] by blast
  from cases show ?thesis
  proof
    assume c: "put p al r = Some (0, p1) \<and> items p1 = items p \<and> (pr_key r, cost r) \<in># items p"
    then have "GNUNET_DATACACHE_put H api h p al r = Some (GNUNET_NO, h, p1)"
      by (simp add: GNUNET_DATACACHE_put_def api)
    then show ?thesis using c p1 ok(2) by auto
  next
    assume c: "put p al r = Some (int (cost r), p1) \<and> items p1 = add_mset (pr_key r, cost r) (items p)"
    obtain flt where flt: "GNUNET_CONTAINER_bloomfilter_add H (dc_filter h) (pr_key r) = Some flt"
        "filter_ok H flt (items p1)"
      using filter_ok_add[of H "dc_filter h" "items p" "pr_key r" "cost r"] h c by auto
    define h1 where "h1 = h\<lparr>stat_bytes_stored := stat_bytes_stored h + int (length (pr_data r)),
      stat_items_stored := stat_items_stored h + 1, dc_filter := flt\<rparr>"
    have "\<exists>h' p'. evict (del (env_delete_notify H)) (of_nat (cost r)) h1 p1 = Some (h', p') \<and> inv p' \<and>
      unat (dc_utilization h') + cost r = total (items p') \<and> total (items p') \<le> unat (dc_quota h') \<and>
      dc_quota h' = dc_quota h1 \<and> items p' \<subseteq># items p1 \<and> filter_ok H (dc_filter h') (items p')"
      using h c p1 fits flt(2) by (intro evict_ok) (auto simp: h1_def halves_def)
    then obtain h2 p2 where e: "evict (del (env_delete_notify H)) (of_nat (cost r)) h1 p1 = Some (h2, p2)"
        "inv p2" "unat (dc_utilization h2) + cost r = total (items p2)" "total (items p2) \<le> unat (dc_quota h2)"
        "dc_quota h2 = dc_quota h" "items p2 \<subseteq># items p1" "filter_ok H (dc_filter h2) (items p2)"
      by (auto simp: h1_def)
    let ?h = "h2\<lparr>dc_utilization := dc_utilization h2 + of_nat (cost r)\<rparr>"
    have lt: "total (items p2) < 2 ^ 64" using e(4) unsigned_less[where 'a = nat, of "dc_quota h2"] by simp
    have "unat (of_nat (cost r) :: uint64) = cost r" using e(3) lt by (simp add: unat_of_nat)
    then have "unat (dc_utilization ?h) = total (items p2)"
      using unat_add_no_wrap[of "dc_utilization h2" "of_nat (cost r)"] e(3) lt by simp
    moreover have "halves (unat (dc_quota h)) (items p2)"
      using set_mset_mono[OF e(6)] h c fits by (auto simp: halves_def)
    ultimately have "dc_ok H ?h (items p2)" using e h by (simp add: dc_ok_def)
    moreover have "GNUNET_DATACACHE_put H api h p al r = Some (GNUNET_OK, ?h, p2)"
      using c cost_pos[of r] flt(1) e(1) by (simp add: GNUNET_DATACACHE_put_def api h1_def)
    ultimately show ?thesis using e c by simp
  qed
qed

text \<open>A PUT of more than the quota into an empty cache: the entry is stored first and is then the one
  that is deleted, before its space was accounted for; the assertion of the notification fails.\<close>

lemma put_oversized:
  assumes api: "api_put api = put" "api_del api = del" and ok: "inv p" "dc_ok H h (items p)" "ready p al"
    and empty: "items p = {#}" and big: "unat (dc_quota h) < cost r" "cost r < 2 ^ 64"
  shows "GNUNET_DATACACHE_put H api h p al r = None"
proof -
  obtain p1 where p1: "inv p1" "put p al r = Some (int (cost r), p1)" "items p1 = {#(pr_key r, cost r)#}"
    using put_law[OF ok(1,3), of r] empty by auto
  have u: "dc_utilization h = 0" using ok(2) empty by (simp add: dc_ok_def unat_eq_0)
  have cu: "unat (of_nat (cost r) :: uint64) = cost r" using big(2) by (simp add: unat_of_nat)
  have "evict (del (env_delete_notify H)) (of_nat (cost r)) h1 p1 = None"
    if "dc_utilization h1 = 0" "dc_quota h1 = dc_quota h" for h1
  proof -
    obtain k s p2 where "items p1 = add_mset (k, s) (items p2)"
        and d: "del (env_delete_notify H) h1 p1 =
          (case env_delete_notify H h1 k (of_nat s) of None \<Rightarrow> None | Some h' \<Rightarrow> Some (GNUNET_OK, h', p2))"
      using del_law[OF p1(1), of "env_delete_notify H" h1] p1(3) by auto
    then have "s = cost r" using p1(3) by auto
    then have "\<not> of_nat s \<le> dc_utilization h1" using that(1) cu cost_pos[of r] by (simp add: word_le_nat_alt)
    then have "env_delete_notify H h1 k (of_nat s) = None" by (simp add: env_delete_notify_def)
    moreover have "dc_utilization h1 + of_nat (cost r) > dc_quota h1"
      using that cu big(1) by (simp add: word_less_nat_alt)
    ultimately show ?thesis using d by (subst evict.simps) simp
  qed
  then show ?thesis using p1(2) u cost_pos[of r]
    by (auto simp: GNUNET_DATACACHE_put_def api Let_def split: option.split)
qed

end

text \<open>A key that is present is never filtered out.\<close>

lemma datacache_get_present:
  assumes "filter_ok H (dc_filter h) M" "(key, s) \<in># M"
  shows "GNUNET_DATACACHE_get H api h p key type iter c = Some (api_get api p key type iter c)"
proof (cases "dc_filter h")
  case None
  then show ?thesis by (simp add: GNUNET_DATACACHE_get_def)
next
  case (Some bf)
  have "key \<in># image_mset fst M" using assms(2) by force
  then have "GNUNET_CONTAINER_bloomfilter_test H (Some bf) key = Some GNUNET_YES"
    using represents_test assms(1) Some by (simp add: filter_ok_def)
  then show ?thesis using Some by (simp add: GNUNET_DATACACHE_get_def)
qed

text \<open>A created cache is empty and satisfies the invariant.\<close>

lemma init_represents:
  assumes "GNUNET_CONTAINER_bloomfilter_init None sz k = Some bf" "unat sz < 2 ^ 60"
  shows "represents H bf {#}"
proof -
  have "sz < sz * 8" if "sz \<noteq> 0"
  proof -
    have "unat (sz * 8) = 8 * unat sz" using assms(2) by (simp add: unat_word_ariths)
    then show ?thesis using that by (simp add: word_less_nat_alt unat_gt_0)
  qed
  then show ?thesis using assms(1)
    by (intro represents_empty)
      (auto simp: GNUNET_CONTAINER_bloomfilter_init_def bf_wf_def word_gt_0 split: if_splits)
qed

end
