(* ===== verification/DatacacheHeap.thy ===== *)
theory DatacacheHeap
  imports Datacache MultiHashMap Heap
begin

text \<open>
  The in-memory plugin of the data cache (\<^verbatim>\<open>src/src/datacache/plugin_datacache_heap.c\<close>). Every stored
  \<^verbatim>\<open>struct Value\<close> is referenced twice: from the hash map under its key, and from a heap ordered by
  expiration time, and it holds the handle of its heap node. The values live in an explicit store
  from addresses to values, because a PUT changes a value in place through the map while the heap
  holds the same pointer.
\<close>

section \<open>State\<close>

record Value =
  v_key :: GNUNET_HashCode
  v_discard_time :: GNUNET_TIME_Absolute
  v_hn :: nat
  v_path_info :: "PeerIdentity list"
  v_data :: "uint8 list"
  v_type :: uint32

type_synonym value_store = "nat \<Rightarrow> Value option"

record Plugin =
  p_map :: "nat MultiHashMap"
  p_heap :: "nat Heap"
  p_vals :: value_store

text \<open>\<^verbatim>\<open>sizeof (struct Value)\<close> is 104 bytes where pointers have 8 bytes.\<close>

definition OVERHEAD :: nat where "OVERHEAD = 104 + 64"

abbreviation (input) GNUNET_BLOCK_TYPE_ANY :: uint32 where "GNUNET_BLOCK_TYPE_ANY \<equiv> 0"

section \<open>Operations\<close>

text \<open>The closure of the PUT callback: the store, the heap and the \<^verbatim>\<open>found\<close> flag. \<^verbatim>\<open>None\<close> is a failed
  assertion or a dangling pointer.\<close>

definition put_cb ::
  "PutRequest \<Rightarrow> (value_store \<times> nat Heap \<times> int) option \<Rightarrow> GNUNET_HashCode \<Rightarrow> nat \<Rightarrow>
   int \<times> (value_store \<times> nat Heap \<times> int) option" where
  "put_cb r st key a =
     (case st of None \<Rightarrow> (GNUNET_NO, None)
      | Some (vals, hp, found) \<Rightarrow>
          (case vals a of None \<Rightarrow> (GNUNET_NO, None)
           | Some v \<Rightarrow>
               if length (v_data v) = length (pr_data r) \<and> v_type v = pr_type r \<and> v_data v = pr_data r
               then let v' = v\<lparr>v_discard_time := GNUNET_TIME_absolute_max (v_discard_time v) (pr_discard_time r),
                              v_path_info := pr_path_info r\<rparr>
                    in case GNUNET_CONTAINER_heap_update_cost hp (v_hn v) (abs_value_us (v_discard_time v')) of
                         None \<Rightarrow> (GNUNET_NO, None)
                       | Some hp' \<Rightarrow> (GNUNET_NO, Some (vals(a \<mapsto> v'), hp', GNUNET_YES))
               else (GNUNET_YES, st)))"

text \<open>\<open>al\<close> are the addresses of the new value and of its heap node.\<close>

definition heap_plugin_put :: "Plugin \<Rightarrow> nat \<times> nat \<Rightarrow> PutRequest \<Rightarrow> (int \<times> Plugin) option" where
  "heap_plugin_put plugin al r =
     (case snd (GNUNET_CONTAINER_multihashmap_get_multiple (p_map plugin) (pr_key r) (Some (put_cb r))
                  (Some (p_vals plugin, p_heap plugin, GNUNET_NO))) of
        None \<Rightarrow> None
      | Some (vals, hp, found) \<Rightarrow>
          if found = GNUNET_YES then Some (0, plugin\<lparr>p_vals := vals, p_heap := hp\<rparr>)
          else
            let val = \<lparr>v_key = pr_key r, v_discard_time = pr_discard_time r, v_hn = snd al,
                       v_path_info = pr_path_info r, v_data = pr_data r, v_type = pr_type r\<rparr>
            in case GNUNET_CONTAINER_multihashmap_put (p_map plugin) (pr_key r) (fst al) OPT_MULTIPLE of
                 None \<Rightarrow> None
               | Some (rc, map') \<Rightarrow>
                   (case GNUNET_CONTAINER_heap_insert hp (snd al) (fst al) (abs_value_us (pr_discard_time r)) of
                      None \<Rightarrow> None
                    | Some hp' \<Rightarrow>
                        Some (int (length (pr_data r)) + int OVERHEAD,
                              \<lparr>p_map = map', p_heap = hp', p_vals = vals(fst al \<mapsto> val)\<rparr>)))"

text \<open>The closure of the GET callback: the number of results and the caller's closure.\<close>

definition get_cb ::
  "value_store \<Rightarrow> uint32 \<Rightarrow> 'c DatacacheIterator option \<Rightarrow> uint32 \<times> 'c \<Rightarrow> GNUNET_HashCode \<Rightarrow> nat \<Rightarrow>
   int \<times> uint32 \<times> 'c" where
  "get_cb vals type iter cc key a =
     (case vals a of None \<Rightarrow> (GNUNET_OK, cc)
      | Some v \<Rightarrow>
          if type \<noteq> v_type v \<and> GNUNET_BLOCK_TYPE_ANY \<noteq> type then (GNUNET_OK, cc)
          else case iter of
                 None \<Rightarrow> (GNUNET_YES, (fst cc + 1, snd cc))
               | Some f \<Rightarrow>
                   (case f (snd cc) key (v_data v) (v_type v) (v_discard_time v) (v_path_info v) of
                      (ret, c') \<Rightarrow> (ret, (fst cc + 1, c'))))"

definition heap_plugin_get ::
  "Plugin \<Rightarrow> GNUNET_HashCode \<Rightarrow> uint32 \<Rightarrow> 'c DatacacheIterator option \<Rightarrow> 'c \<Rightarrow> uint32 \<times> 'c" where
  "heap_plugin_get plugin key type iter c =
     snd (GNUNET_CONTAINER_multihashmap_get_multiple (p_map plugin) key
            (Some (get_cb (p_vals plugin) type iter)) (0, c))"

definition heap_plugin_del ::
  "delete_notify \<Rightarrow> DatacacheHandle \<Rightarrow> Plugin \<Rightarrow> (int \<times> DatacacheHandle \<times> Plugin) option" where
  "heap_plugin_del notify h plugin =
     (case GNUNET_CONTAINER_heap_remove_root (p_heap plugin) of
        (None, hp') \<Rightarrow> Some (GNUNET_SYSERR, h, plugin\<lparr>p_heap := hp'\<rparr>)
      | (Some a, hp') \<Rightarrow>
          (case p_vals plugin a of None \<Rightarrow> None
           | Some v \<Rightarrow>
               (case GNUNET_CONTAINER_multihashmap_remove (p_map plugin) (v_key v) a of (rc, map') \<Rightarrow>
                  if rc \<noteq> GNUNET_YES then None
                  else case notify h (v_key v) (of_nat (length (v_data v) + OVERHEAD)) of
                         None \<Rightarrow> None
                       | Some h' \<Rightarrow>
                           Some (GNUNET_OK, h',
                                 \<lparr>p_map = map', p_heap = hp', p_vals = (p_vals plugin)(a := None)\<rparr>))))"

definition heap_plugin_get_random ::
  "Plugin \<Rightarrow> uint32 \<Rightarrow> 'c DatacacheIterator option \<Rightarrow> 'c \<Rightarrow> uint32 \<times> 'c" where
  "heap_plugin_get_random plugin off iter c =
     snd (GNUNET_CONTAINER_multihashmap_get_random (p_map plugin)
            (Some (get_cb (p_vals plugin) GNUNET_BLOCK_TYPE_ANY iter)) (0, c) off)"

text \<open>Not implemented in the code: it reports no results.\<close>

definition heap_plugin_get_closest ::
  "Plugin \<Rightarrow> GNUNET_HashCode \<Rightarrow> uint32 \<Rightarrow> 'c DatacacheIterator option \<Rightarrow> 'c \<Rightarrow> uint32 \<times> 'c" where
  "heap_plugin_get_closest plugin key num_results iter c = (0, c)"

definition heap_api :: "(Plugin, nat \<times> nat, 'c) PluginFunctions" where
  "heap_api = \<lparr>api_put = heap_plugin_put, api_get = heap_plugin_get, api_del = heap_plugin_del,
     api_get_random = heap_plugin_get_random, api_get_closest = heap_plugin_get_closest\<rparr>"

definition libgnunet_plugin_datacache_heap_init :: "Plugin option" where
  "libgnunet_plugin_datacache_heap_init =
     (case GNUNET_CONTAINER_multihashmap_create 1024 True of
        None \<Rightarrow> None
      | Some m \<Rightarrow> Some \<lparr>p_map = m, p_heap = GNUNET_CONTAINER_heap_create HEAP_ORDER_MIN, p_vals = Map.empty\<rparr>)"

lemma remove_root_smaller:
  "GNUNET_CONTAINER_heap_remove_root h = (Some a, h') \<Longrightarrow> size (hp_root h') < size (hp_root h)"
  by (auto simp: GNUNET_CONTAINER_heap_remove_root_def join_children_def Let_def split: tree.splits)

text \<open>Unloading: everything is taken out of the heap and of the map; \<^verbatim>\<open>None\<close> is a failed assertion. The
  result is the number of freed values and the flag of \<^verbatim>\<open>GNUNET_CONTAINER_heap_destroy\<close>.\<close>

function heap_done_loop :: "Plugin \<Rightarrow> nat \<Rightarrow> (Plugin \<times> nat) option" where
  "heap_done_loop plugin n =
     (case GNUNET_CONTAINER_heap_remove_root (p_heap plugin) of
        (None, hp') \<Rightarrow> Some (plugin\<lparr>p_heap := hp'\<rparr>, n)
      | (Some a, hp') \<Rightarrow>
          (case p_vals plugin a of None \<Rightarrow> None
           | Some v \<Rightarrow>
               (case GNUNET_CONTAINER_multihashmap_remove (p_map plugin) (v_key v) a of (rc, map') \<Rightarrow>
                  if rc \<noteq> GNUNET_YES then None
                  else heap_done_loop
                         \<lparr>p_map = map', p_heap = hp', p_vals = (p_vals plugin)(a := None)\<rparr> (Suc n))))"
  by auto
termination
  by (relation "measure (\<lambda>(plugin, n). size (hp_root (p_heap plugin)))") (auto dest!: remove_root_smaller[OF sym])

declare heap_done_loop.simps [simp del]

definition libgnunet_plugin_datacache_heap_done :: "Plugin \<Rightarrow> (nat \<times> bool \<times> nat HashEntryOf list) option" where
  "libgnunet_plugin_datacache_heap_done plugin =
     (case heap_done_loop plugin 0 of
        None \<Rightarrow> None
      | Some (plugin', n) \<Rightarrow>
          Some (n, GNUNET_CONTAINER_heap_destroy (p_heap plugin'),
                GNUNET_CONTAINER_multihashmap_destroy (p_map plugin')))"

section \<open>Invariant\<close>

abbreviation val :: "Plugin \<Rightarrow> nat \<Rightarrow> Value" where "val p a \<equiv> the (p_vals p a)"

abbreviation stored :: "Plugin \<Rightarrow> nat multiset" where "stored p \<equiv> mset_set (dom (p_vals p))"

text \<open>What the map and the heap hold for a value at an address, and what it is charged.\<close>

definition map_ref :: "value_store \<Rightarrow> nat \<Rightarrow> GNUNET_HashCode \<times> nat" where
  "map_ref vals a = (v_key (the (vals a)), a)"

definition heap_ref :: "value_store \<Rightarrow> nat \<Rightarrow> nat \<times> nat \<times> uint64" where
  "heap_ref vals a = (v_hn (the (vals a)), a, abs_value_us (v_discard_time (the (vals a))))"

definition charge :: "value_store \<Rightarrow> nat \<Rightarrow> GNUNET_HashCode \<times> nat" where
  "charge vals a = (v_key (the (vals a)), length (v_data (the (vals a))) + OVERHEAD)"

text \<open>Map and heap refer to exactly the live values, each value once in either.\<close>

definition plugin_ok :: "Plugin \<Rightarrow> bool" where
  "plugin_ok p \<longleftrightarrow> mhm_wf (p_map p) \<and> heap_inv HEAP_ORDER_MIN (p_heap p) \<and> finite (dom (p_vals p)) \<and>
     mhm_entries (p_map p) = image_mset (map_ref (p_vals p)) (stored p) \<and>
     heap_data (p_heap p) = image_mset (heap_ref (p_vals p)) (stored p)"

definition plugin_items :: "Plugin \<Rightarrow> (GNUNET_HashCode \<times> nat) multiset" where
  "plugin_items p = image_mset (charge (p_vals p)) (stored p)"

text \<open>Fresh addresses, and room to grow the map.\<close>

definition plugin_ready :: "Plugin \<Rightarrow> nat \<times> nat \<Rightarrow> bool" where
  "plugin_ready p al \<longleftrightarrow> fst al \<notin> dom (p_vals p) \<and> snd al \<notin> haddrs (hp_root (p_heap p)) \<and>
     unat (map_length (p_map p)) < 2 ^ 31"

definition put_cost :: "PutRequest \<Rightarrow> nat" where
  "put_cost r = length (pr_data r) + OVERHEAD"

section \<open>Taking one address out of the store\<close>

lemma image_mset_set_remove:
  "finite A \<Longrightarrow> a \<in> A \<Longrightarrow>
   image_mset f (mset_set A) = add_mset (f a) (image_mset f (mset_set (A - {a})))"
  by (simp add: mset_set.remove)

lemma refs_cong:
  assumes "\<And>x. x \<in> A \<Longrightarrow> vals' x = vals x"
  shows "image_mset (map_ref vals') (mset_set A) = image_mset (map_ref vals) (mset_set A)"
    "image_mset (heap_ref vals') (mset_set A) = image_mset (heap_ref vals) (mset_set A)"
    "image_mset (charge vals') (mset_set A) = image_mset (charge vals) (mset_set A)"
  using assms by (cases "finite A"; auto intro!: image_mset_cong simp: map_ref_def heap_ref_def charge_def)+

lemma plugin_okD:
  assumes "plugin_ok p"
  shows "mhm_wf (p_map p)" "heap_wf (p_heap p)" "hp_order (p_heap p) = HEAP_ORDER_MIN"
    "finite (dom (p_vals p))"
    "mhm_entries (p_map p) = image_mset (map_ref (p_vals p)) (stored p)"
    "heap_data (p_heap p) = image_mset (heap_ref (p_vals p)) (stored p)"
  using assms by (auto simp: plugin_ok_def heap_inv_def)

lemma map_entry_stored:
  "plugin_ok p \<Longrightarrow> (k, a) \<in># mhm_entries (p_map p) \<Longrightarrow> \<exists>v. p_vals p a = Some v \<and> v_key v = k"
  by (auto simp: plugin_okD map_ref_def)

lemma heap_entry_stored:
  "plugin_ok p \<Longrightarrow> (n, a, c) \<in># heap_data (p_heap p) \<Longrightarrow>
   \<exists>v. p_vals p a = Some v \<and> v_hn v = n \<and> abs_value_us (v_discard_time v) = c"
  by (auto simp: plugin_okD heap_ref_def)

text \<open>No two nodes have one address, so a handle determines the element.\<close>

lemma heap_handle_unique:
  assumes "heap_wf h" "(n, e, c) \<in># heap_data h" "(n, e', c') \<in># heap_data h"
  shows "e = e' \<and> c = c'"
proof (rule ccontr)
  assume ne: "\<not> ?thesis"
  obtain M where M: "heap_data h = add_mset (n, e, c) M" using assms(2) by (metis insert_DiffM)
  then have "(n, e', c') \<in># M" using assms(3) ne by auto
  then have "n \<in># image_mset fst M" by force
  then have "0 < count (image_mset fst M) n" by simp
  then have "1 < addr_count (hp_root h) n" by (simp add: addr_count_def M)
  then show False using heap_wfD(4)[OF assms(1), rule_format, of n] by simp
qed

section \<open>PUT\<close>

definition same_block :: "PutRequest \<Rightarrow> Value \<Rightarrow> bool" where
  "same_block r v \<longleftrightarrow> v_type v = pr_type r \<and> v_data v = pr_data r"

text \<open>The callback leaves the store alone up to the first value with the same block and stops there.\<close>

lemma put_cb_chain:
  assumes "\<And>e. e \<in> set es \<Longrightarrow> me_key e = key \<Longrightarrow> vals (me_value e) \<noteq> None"
  shows "(\<forall>e \<in> set es. me_key e = key \<longrightarrow> \<not> same_block r (the (vals (me_value e)))) \<and>
      snd (snd (get_multiple_chain (Some (put_cb r)) key es n (Some (vals, hp, GNUNET_NO)))) =
        Some (vals, hp, GNUNET_NO) \<or>
    (\<exists>e \<in> set es. me_key e = key \<and> same_block r (the (vals (me_value e))) \<and>
      snd (snd (get_multiple_chain (Some (put_cb r)) key es n (Some (vals, hp, GNUNET_NO)))) =
        snd (put_cb r (Some (vals, hp, GNUNET_NO)) key (me_value e)))"
  using assms
proof (induction es arbitrary: n)
  case (Cons e es)
  note IH = Cons.IH[of "n + 1"] Cons.IH[of n]
  show ?case
  proof (cases "me_key e = key")
    case False
    then show ?thesis using Cons.IH[of n] Cons.prems by auto
  next
    case True
    then obtain v where v: "vals (me_value e) = Some v" using Cons.prems[of e] by auto
    show ?thesis
    proof (cases "same_block r v")
      case False
      then have "put_cb r (Some (vals, hp, GNUNET_NO)) key (me_value e) = (GNUNET_YES, Some (vals, hp, GNUNET_NO))"
        by (auto simp: put_cb_def v same_block_def)
      then show ?thesis using Cons.IH[of "n + 1"] Cons.prems False v True by auto
    next
      case same: True
      have "fst (put_cb r (Some (vals, hp, GNUNET_NO)) key (me_value e)) = GNUNET_NO"
        using same by (auto simp: put_cb_def v same_block_def Let_def split: option.split)
      then have "snd (snd (get_multiple_chain (Some (put_cb r)) key (e # es) n (Some (vals, hp, GNUNET_NO)))) =
          snd (put_cb r (Some (vals, hp, GNUNET_NO)) key (me_value e))"
        using True by (cases "put_cb r (Some (vals, hp, GNUNET_NO)) key (me_value e)") simp
      then show ?thesis using True same v by auto
    qed
  qed
qed simp

text \<open>An equal block is there: its value is refreshed in place, in the store and in the heap.\<close>

lemma refresh_ok:
  assumes ok: "plugin_ok p" and v: "p_vals p a = Some v" and same: "same_block r v" and key: "v_key v = pr_key r"
  shows "\<exists>vals hp. snd (put_cb r (Some (p_vals p, p_heap p, GNUNET_NO)) (pr_key r) a) = Some (vals, hp, GNUNET_YES) \<and>
    plugin_ok (p\<lparr>p_vals := vals, p_heap := hp\<rparr>) \<and>
    plugin_items (p\<lparr>p_vals := vals, p_heap := hp\<rparr>) = plugin_items p \<and>
    (pr_key r, put_cost r) \<in># plugin_items p"
proof -
  note P = plugin_okD[OF ok]
  let ?A = "dom (p_vals p)"
  have a: "a \<in> ?A" using v by auto
  define dt where "dt = GNUNET_TIME_absolute_max (v_discard_time v) (pr_discard_time r)"
  define v' where "v' = v\<lparr>v_discard_time := dt, v_path_info := pr_path_info r\<rparr>"
  define vals where "vals = (p_vals p)(a \<mapsto> v')"
  have ref: "heap_ref (p_vals p) a = (v_hn v, a, abs_value_us (v_discard_time v))" by (simp add: heap_ref_def v)
  have mem: "(v_hn v, a, abs_value_us (v_discard_time v)) \<in># heap_data (p_heap p)"
    using a P(4) ref unfolding P(6) by force
  then have "v_hn v \<in> haddrs (hp_root (p_heap p))" unfolding haddrs_hdata by force
  then obtain e c M hp where u: "GNUNET_CONTAINER_heap_update_cost (p_heap p) (v_hn v) (abs_value_us dt) = Some hp"
      "heap_wf hp" "heap_data (p_heap p) = add_mset (v_hn v, e, c) M"
      "heap_data hp = add_mset (v_hn v, e, abs_value_us dt) M" "hp_order hp = hp_order (p_heap p)"
    using heap_update_cost_spec[OF P(2)] by blast
  then have "e = a" "c = abs_value_us (v_discard_time v)"
    using heap_handle_unique[OF P(2) mem, of e c] by auto
  then have M: "M = image_mset (heap_ref (p_vals p)) (mset_set (?A - {a}))"
    using u(3) P(6) image_mset_set_remove[OF P(4) a, of "heap_ref (p_vals p)"] ref by simp
  have dom: "dom vals = ?A" using a by (auto simp: vals_def)
  have rest: "image_mset (map_ref vals) (mset_set (?A - {a})) = image_mset (map_ref (p_vals p)) (mset_set (?A - {a}))"
      "image_mset (heap_ref vals) (mset_set (?A - {a})) = image_mset (heap_ref (p_vals p)) (mset_set (?A - {a}))"
      "image_mset (charge vals) (mset_set (?A - {a})) = image_mset (charge (p_vals p)) (mset_set (?A - {a}))"
    by (rule refs_cong; simp add: vals_def)+
  have at: "map_ref vals a = map_ref (p_vals p) a" "charge vals a = charge (p_vals p) a"
      "heap_ref vals a = (v_hn v, a, abs_value_us dt)"
    by (simp_all add: map_ref_def charge_def heap_ref_def vals_def v v'_def)
  note split = image_mset_set_remove[OF P(4) a] rest
  have "heap_data hp = image_mset (heap_ref vals) (mset_set ?A)"
    unfolding u(4) M \<open>e = a\<close> split(1)[of "heap_ref vals"] at split(3) ..
  moreover have "image_mset (map_ref vals) (mset_set ?A) = image_mset (map_ref (p_vals p)) (mset_set ?A)"
    unfolding split(1)[of "map_ref vals"] split(1)[of "map_ref (p_vals p)"] at split(2) ..
  moreover have "image_mset (charge vals) (mset_set ?A) = image_mset (charge (p_vals p)) (mset_set ?A)"
    unfolding split(1)[of "charge vals"] split(1)[of "charge (p_vals p)"] at split(4) ..
  ultimately have "plugin_ok (p\<lparr>p_vals := vals, p_heap := hp\<rparr>)"
    "plugin_items (p\<lparr>p_vals := vals, p_heap := hp\<rparr>) = plugin_items p"
    using P u(2,5) by (simp_all add: plugin_ok_def plugin_items_def heap_inv_def dom)
  moreover have "charge (p_vals p) a = (pr_key r, put_cost r)"
    using same key by (simp add: charge_def v put_cost_def same_block_def)
  then have "(pr_key r, put_cost r) \<in># plugin_items p"
    unfolding plugin_items_def split(1)[of "charge (p_vals p)"] by simp
  moreover have "snd (put_cb r (Some (p_vals p, p_heap p, GNUNET_NO)) (pr_key r) a) = Some (vals, hp, GNUNET_YES)"
    using same u(1) by (simp add: put_cb_def v same_block_def Let_def dt_def v'_def vals_def)
  ultimately show ?thesis by blast
qed

text \<open>Map and heap after a new value was added at fresh addresses.\<close>

lemma insert_ok:
  assumes ok: "plugin_ok p" and ready: "plugin_ready p al"
    and map: "mhm_wf m" "mhm_entries m = add_mset (pr_key r, fst al) (mhm_entries (p_map p))"
    and hp: "heap_inv HEAP_ORDER_MIN hp"
      "heap_data hp = add_mset (snd al, fst al, abs_value_us (pr_discard_time r)) (heap_data (p_heap p))"
    and p': "p' = \<lparr>p_map = m, p_heap = hp, p_vals = (p_vals p)(fst al \<mapsto> \<lparr>v_key = pr_key r,
      v_discard_time = pr_discard_time r, v_hn = snd al, v_path_info = pr_path_info r, v_data = pr_data r,
      v_type = pr_type r\<rparr>)\<rparr>"
  shows "plugin_ok p' \<and> plugin_items p' = add_mset (pr_key r, put_cost r) (plugin_items p)"
proof -
  note P = plugin_okD[OF ok]
  have new: "fst al \<notin> dom (p_vals p)" using ready by (simp add: plugin_ready_def)
  have st: "stored p' = add_mset (fst al) (stored p)" using new P(4) by (simp add: p')
  have rest: "image_mset (map_ref (p_vals p')) (stored p) = image_mset (map_ref (p_vals p)) (stored p)"
      "image_mset (heap_ref (p_vals p')) (stored p) = image_mset (heap_ref (p_vals p)) (stored p)"
      "image_mset (charge (p_vals p')) (stored p) = image_mset (charge (p_vals p)) (stored p)"
    by (rule refs_cong; use new in \<open>auto simp: p'\<close>)+
  have at: "map_ref (p_vals p') (fst al) = (pr_key r, fst al)"
      "heap_ref (p_vals p') (fst al) = (snd al, fst al, abs_value_us (pr_discard_time r))"
      "charge (p_vals p') (fst al) = (pr_key r, put_cost r)"
    by (simp_all add: map_ref_def heap_ref_def charge_def put_cost_def p')
  have "mhm_wf (p_map p')" "heap_inv HEAP_ORDER_MIN (p_heap p')" "finite (dom (p_vals p'))"
    using map(1) hp(1) P(4) by (simp_all add: p')
  moreover have "mhm_entries (p_map p') = image_mset (map_ref (p_vals p')) (stored p')"
    using map(2) P(5) st rest(1) at(1) by (simp add: p')
  moreover have "heap_data (p_heap p') = image_mset (heap_ref (p_vals p')) (stored p')"
    using hp(2) P(6) st rest(2) at(2) by (simp add: p')
  ultimately show ?thesis using st rest(3) at(3) by (simp add: plugin_ok_def plugin_items_def)
qed

lemma heap_plugin_put_law:
  assumes ok: "plugin_ok p" and ready: "plugin_ready p al"
  shows "\<exists>p'. plugin_ok p' \<and>
    (heap_plugin_put p al r = Some (0, p') \<and> plugin_items p' = plugin_items p \<and>
       (pr_key r, put_cost r) \<in># plugin_items p \<or>
     heap_plugin_put p al r = Some (int (put_cost r), p') \<and>
       plugin_items p' = add_mset (pr_key r, put_cost r) (plugin_items p))"
proof -
  note P = plugin_okD[OF ok]
  let ?st = "Some (p_vals p, p_heap p, GNUNET_NO)"
  let ?es = "chain_of hash_key (p_map p) (pr_key r)"
  let ?res = "snd (GNUNET_CONTAINER_multihashmap_get_multiple (p_map p) (pr_key r) (Some (put_cb r)) ?st)"
  have res: "?res = snd (snd (get_multiple_chain (Some (put_cb r)) (pr_key r) ?es 0 ?st))"
    by (simp add: GNUNET_CONTAINER_multihashmap_get_multiple_def chainmap_get_multiple_def split_beta)
  have live: "\<exists>v. p_vals p (me_value e) = Some v \<and> v_key v = pr_key r"
    if "e \<in> set ?es" "me_key e = pr_key r" for e
    using map_entry_stored[OF ok, of "pr_key r" "me_value e"] mem_entries_chain[OF P(1)] that by blast
  then have nn: "\<And>e. e \<in> set ?es \<Longrightarrow> me_key e = pr_key r \<Longrightarrow> p_vals p (me_value e) \<noteq> None" by fastforce
  consider "?res = ?st" | e where "e \<in> set ?es" "me_key e = pr_key r" "same_block r (the (p_vals p (me_value e)))"
      "?res = snd (put_cb r ?st (pr_key r) (me_value e))"
    using put_cb_chain[of ?es "pr_key r" "p_vals p" r 0 "p_heap p"] nn unfolding res by blast
  then show ?thesis
  proof cases
    case 1
    have "\<exists>m'. chainmap_put_multiple hash_key (p_map p) (pr_key r) (fst al) = Some m' \<and> mhm_wf m' \<and>
        mhm_entries m' = add_mset (pr_key r, fst al) (mhm_entries (p_map p))"
      using mhm.put_law[OF P(1)] ready by (simp add: plugin_ready_def)
    then obtain rc m where m: "GNUNET_CONTAINER_multihashmap_put (p_map p) (pr_key r) (fst al) OPT_MULTIPLE = Some (rc, m)"
        "mhm_wf m" "mhm_entries m = add_mset (pr_key r, fst al) (mhm_entries (p_map p))"
      by (auto simp: chainmap_put_multiple_def multihashmap_defs)
    have inv: "heap_inv HEAP_ORDER_MIN (p_heap p)" and new: "snd al \<notin> fst ` set_mset (heap_data (p_heap p))"
      using P(2,3) ready by (simp_all add: heap_inv_def plugin_ready_def haddrs_hdata)
    obtain hp where hp: "GNUNET_CONTAINER_heap_insert (p_heap p) (snd al) (fst al)
          (abs_value_us (pr_discard_time r)) = Some hp" "heap_inv HEAP_ORDER_MIN hp"
        "heap_data hp = add_mset (snd al, fst al, abs_value_us (pr_discard_time r)) (heap_data (p_heap p))"
      using hq.insert_law[OF inv new, of "fst al" "abs_value_us (pr_discard_time r)"] by blast
    obtain p' where p': "heap_plugin_put p al r = Some (int (put_cost r), p')" "plugin_ok p'"
        "plugin_items p' = add_mset (pr_key r, put_cost r) (plugin_items p)"
      using insert_ok[OF ok ready m(2,3) hp(2,3) refl] 1 m(1) hp(1)
      by (simp add: heap_plugin_put_def put_cost_def)
    then show ?thesis by blast
  next
    case (2 e)
    then obtain v where v: "p_vals p (me_value e) = Some v" "v_key v = pr_key r" using live by blast
    with 2 obtain vals hp where u: "?res = Some (vals, hp, GNUNET_YES)"
        "plugin_ok (p\<lparr>p_vals := vals, p_heap := hp\<rparr>)"
        "plugin_items (p\<lparr>p_vals := vals, p_heap := hp\<rparr>) = plugin_items p"
        "(pr_key r, put_cost r) \<in># plugin_items p"
      using refresh_ok[OF ok v(1), of r] by auto
    then have "heap_plugin_put p al r = Some (0, p\<lparr>p_vals := vals, p_heap := hp\<rparr>)"
      by (simp add: heap_plugin_put_def)
    with u show ?thesis by blast
  qed
qed

section \<open>DEL\<close>

text \<open>The value that is deleted expires first, and both references to it go.\<close>

lemma pop_stored:
  assumes ok: "plugin_ok p" and ne: "heap_data (p_heap p) \<noteq> {#}"
  shows "\<exists>a hp v map'. GNUNET_CONTAINER_heap_remove_root (p_heap p) = (Some a, hp) \<and> p_vals p a = Some v \<and>
    GNUNET_CONTAINER_multihashmap_remove (p_map p) (v_key v) a = (GNUNET_YES, map') \<and>
    (let p' = \<lparr>p_map = map', p_heap = hp, p_vals = (p_vals p)(a := None)\<rparr>
     in plugin_ok p' \<and> plugin_items p = add_mset (v_key v, length (v_data v) + OVERHEAD) (plugin_items p')) \<and>
    (\<forall>b w. p_vals p b = Some w \<longrightarrow> abs_value_us (v_discard_time v) \<le> abs_value_us (v_discard_time w))"
proof -
  note P = plugin_okD[OF ok]
  obtain n a c hp where r: "GNUNET_CONTAINER_heap_remove_root (p_heap p) = (Some a, hp)" "heap_inv HEAP_ORDER_MIN hp"
      "heap_data (p_heap p) = add_mset (n, a, c) (heap_data hp)"
      and first: "\<And>a' e' c'. (a', e', c') \<in># heap_data (p_heap p) \<Longrightarrow> goes_below HEAP_ORDER_MIN c c'"
    using hq.pop_first[of HEAP_ORDER_MIN "p_heap p"] P(2,3) ne by (auto simp: heap_inv_def simp del: hdata_empty)
  obtain v where v: "p_vals p a = Some v" "v_hn v = n" "abs_value_us (v_discard_time v) = c"
    using heap_entry_stored[OF ok, of n a c] r(3) by auto
  let ?A = "dom (p_vals p)" and ?vals = "(p_vals p)(a := None)"
  have a: "a \<in> ?A" using v(1) by auto
  have at: "map_ref (p_vals p) a = (v_key v, a)" "heap_ref (p_vals p) a = (n, a, c)"
      "charge (p_vals p) a = (v_key v, length (v_data v) + OVERHEAD)"
    using v by (simp_all add: map_ref_def heap_ref_def charge_def)
  have rest: "image_mset (map_ref ?vals) (mset_set (?A - {a})) = image_mset (map_ref (p_vals p)) (mset_set (?A - {a}))"
      "image_mset (heap_ref ?vals) (mset_set (?A - {a})) = image_mset (heap_ref (p_vals p)) (mset_set (?A - {a}))"
      "image_mset (charge ?vals) (mset_set (?A - {a})) = image_mset (charge (p_vals p)) (mset_set (?A - {a}))"
    by (rule refs_cong; simp)+
  note split = image_mset_set_remove[OF P(4) a]
  obtain rc map' where m: "GNUNET_CONTAINER_multihashmap_remove (p_map p) (v_key v) a = (rc, map')" by fastforce
  have "(v_key v, a) \<in># mhm_entries (p_map p)" unfolding P(5) split at by simp
  then have map': "rc = GNUNET_YES" "mhm_wf map'" "mhm_entries map' = mhm_entries (p_map p) - {#(v_key v, a)#}"
    using mhm.remove_law[OF P(1), of "v_key v" a] m by auto
  define p' where "p' = \<lparr>p_map = map', p_heap = hp, p_vals = ?vals\<rparr>"
  have "mhm_entries map' = image_mset (map_ref ?vals) (mset_set (?A - {a}))"
    unfolding map'(3) P(5) split at rest by simp
  moreover have "heap_data hp = image_mset (heap_ref ?vals) (mset_set (?A - {a}))"
    using r(3) unfolding P(6) split at rest by simp
  ultimately have "plugin_ok p'" using map'(2) r(2) P(4) by (simp add: plugin_ok_def p'_def)
  moreover have "plugin_items p = add_mset (v_key v, length (v_data v) + OVERHEAD) (plugin_items p')"
    unfolding plugin_items_def split at rest[symmetric] by (simp add: p'_def rest)
  moreover have "abs_value_us (v_discard_time v) \<le> abs_value_us (v_discard_time w)" if w: "p_vals p b = Some w" for b w
  proof -
    have "heap_ref (p_vals p) b \<in># heap_data (p_heap p)" using w P(4) unfolding P(6) by force
    then show ?thesis using first[of "v_hn w" b] w v(3) by (simp add: heap_ref_def goes_below_def)
  qed
  ultimately show ?thesis using r(1) v(1) m map'(1) by (auto simp: p'_def Let_def)
qed

lemma items_empty_iff: "plugin_ok p \<Longrightarrow> plugin_items p = {#} \<longleftrightarrow> heap_data (p_heap p) = {#}"
  by (simp only: plugin_items_def plugin_okD(6) image_mset_is_empty_iff)

lemma heap_plugin_del_law:
  assumes "plugin_ok p" "plugin_items p \<noteq> {#}"
  shows "\<exists>k s p'. plugin_ok p' \<and> plugin_items p = add_mset (k, s) (plugin_items p') \<and>
    heap_plugin_del n h p = (case n h k (of_nat s) of None \<Rightarrow> None | Some h' \<Rightarrow> Some (GNUNET_OK, h', p'))"
proof -
  have "heap_data (p_heap p) \<noteq> {#}" using assms items_empty_iff by blast
  then obtain a hp v map' where d: "GNUNET_CONTAINER_heap_remove_root (p_heap p) = (Some a, hp)"
      "p_vals p a = Some v" "GNUNET_CONTAINER_multihashmap_remove (p_map p) (v_key v) a = (GNUNET_YES, map')"
      "plugin_ok \<lparr>p_map = map', p_heap = hp, p_vals = (p_vals p)(a := None)\<rparr>"
      "plugin_items p = add_mset (v_key v, length (v_data v) + OVERHEAD)
         (plugin_items \<lparr>p_map = map', p_heap = hp, p_vals = (p_vals p)(a := None)\<rparr>)"
    using pop_stored[OF assms(1)] unfolding Let_def by blast
  then have "heap_plugin_del n h p = (case n h (v_key v) (of_nat (length (v_data v) + OVERHEAD)) of
      None \<Rightarrow> None | Some h' \<Rightarrow> Some (GNUNET_OK, h', \<lparr>p_map = map', p_heap = hp, p_vals = (p_vals p)(a := None)\<rparr>))"
    by (simp add: heap_plugin_del_def)
  with d(4,5) show ?thesis by blast
qed

interpretation hc: datacache_plugin heap_plugin_put heap_plugin_del plugin_items plugin_ok plugin_ready put_cost
proof (unfold_locales, goal_cases)
  case (1 r)
  then show ?case by (simp add: put_cost_def OVERHEAD_def)
next
  case (2 p al r)
  then show ?case by (rule heap_plugin_put_law)
next
  case (3 p n h)
  then show ?case by (rule heap_plugin_del_law)
qed

section \<open>GET and unloading\<close>

text \<open>The live values under a key that match a type.\<close>

definition matching :: "Plugin \<Rightarrow> GNUNET_HashCode \<Rightarrow> uint32 \<Rightarrow> nat set" where
  "matching p key type = {a. \<exists>v. p_vals p a = Some v \<and> v_key v = key \<and> (type = v_type v \<or> type = GNUNET_BLOCK_TYPE_ANY)}"

abbreviation type_match :: "value_store \<Rightarrow> uint32 \<Rightarrow> nat \<Rightarrow> bool" where
  "type_match vals type a \<equiv> (\<exists>v. vals a = Some v \<and> (type = v_type v \<or> type = GNUNET_BLOCK_TYPE_ANY))"

lemma get_cb_count:
  "get_cb vals type None cc key a = (GNUNET_OK, (fst cc + (if type_match vals type a then 1 else 0), snd cc))"
  by (cases cc) (auto simp: get_cb_def split: option.split)

lemma get_chain_count:
  "snd (snd (get_multiple_chain (Some (get_cb vals type None)) key es n cc)) =
   (fst cc + of_nat (length (filter (\<lambda>e. me_key e = key \<and> type_match vals type (me_value e)) es)), snd cc)"
proof (induction es arbitrary: n cc)
  case (Cons e es)
  then show ?case using Cons.IH by (cases "me_key e = key") (simp_all add: get_cb_count)
qed simp

lemma heap_plugin_get_count:
  assumes ok: "plugin_ok p"
  shows "heap_plugin_get p key type None c = (of_nat (card (matching p key type)), c)"
proof -
  note P = plugin_okD[OF ok]
  let ?tm = "type_match (p_vals p) type" and ?es = "chain_of hash_key (p_map p) key"
  have "length (filter (\<lambda>e. me_key e = key \<and> ?tm (me_value e)) ?es) =
      length (filter (\<lambda>e. ?tm (snd (entry_pair e))) (filter (\<lambda>e. me_key e = key) ?es))"
    by (simp add: entry_pair_def conj_commute)
  also have "\<dots> = size (filter_mset (\<lambda>q. ?tm (snd q))
      (image_mset entry_pair (mset (filter (\<lambda>e. me_key e = key) ?es))))"
    unfolding filter_mset_image_mset size_image_mset mset_filter[symmetric] size_mset ..
  also have "\<dots> = size (filter_mset (\<lambda>q. ?tm (snd q)) (filter_mset (\<lambda>q. fst q = key) (mhm_entries (p_map p))))"
    unfolding filter_entries_chain[OF P(1)] ..
  also have "\<dots> = size (filter_mset (\<lambda>a. a \<in> matching p key type) (stored p))"
    unfolding P(5) filter_mset_image_mset size_image_mset filter_filter_mset
    by (intro arg_cong[where f = size] filter_mset_cong) (auto simp: map_ref_def matching_def P(4))
  also have "\<dots> = card (matching p key type)"
  proof -
    have "matching p key type \<subseteq> dom (p_vals p)" by (auto simp: matching_def)
    then have "{a \<in> dom (p_vals p). a \<in> matching p key type} = matching p key type" by auto
    then show ?thesis using P(4) by (simp add: filter_mset_mset_set)
  qed
  finally show ?thesis
    by (simp add: heap_plugin_get_def GNUNET_CONTAINER_multihashmap_get_multiple_def chainmap_get_multiple_def split_beta get_chain_count)
qed

lemma heap_done_loop_ok:
  assumes "plugin_ok p"
  shows "\<exists>p'. heap_done_loop p n = Some (p', n + card (dom (p_vals p))) \<and> plugin_ok p' \<and> plugin_items p' = {#}"
  using assms
proof (induction "card (dom (p_vals p))" arbitrary: p n)
  case 0
  note P = plugin_okD[OF 0(2)]
  have "dom (p_vals p) = {}" using 0 P(4) by simp
  then have e: "heap_data (p_heap p) = {#}" "plugin_items p = {#}" by (simp_all add: P(6) plugin_items_def)
  then have "GNUNET_CONTAINER_heap_remove_root (p_heap p) = (None, p_heap p)"
    by (simp add: GNUNET_CONTAINER_heap_remove_root_def)
  then have "heap_done_loop p n = Some (p, n)" by (subst heap_done_loop.simps) simp
  then show ?case using 0 e by simp
next
  case (Suc k)
  note P = plugin_okD[OF Suc(3)]
  have "dom (p_vals p) \<noteq> {}" using Suc(2) by force
  then have ne: "heap_data (p_heap p) \<noteq> {#}" using P(4) by (simp add: P(6) mset_set_empty_iff del: hdata_empty)
  obtain a hp v map' where d: "GNUNET_CONTAINER_heap_remove_root (p_heap p) = (Some a, hp)"
      "p_vals p a = Some v" "GNUNET_CONTAINER_multihashmap_remove (p_map p) (v_key v) a = (GNUNET_YES, map')"
      "plugin_ok \<lparr>p_map = map', p_heap = hp, p_vals = (p_vals p)(a := None)\<rparr>"
    using pop_stored[OF Suc(3) ne] unfolding Let_def by blast
  let ?p = "\<lparr>p_map = map', p_heap = hp, p_vals = (p_vals p)(a := None)\<rparr>"
  have "heap_done_loop p n = heap_done_loop ?p (Suc n)" using d by (subst heap_done_loop.simps) simp
  moreover have "card (dom (p_vals ?p)) = k" using Suc(2) d(2) P(4) by (simp add: domI)
  ultimately show ?case using Suc(1)[of ?p "Suc n"] d(4) Suc(2) by auto
qed

section \<open>Properties\<close>

lemma heap_init_ok:
  "\<exists>p. libgnunet_plugin_datacache_heap_init = Some p \<and> plugin_ok p \<and> plugin_items p = {#} \<and>
     unat (map_length (p_map p)) < 2 ^ 31 \<and> dom (p_vals p) = {} \<and> hp_root (p_heap p) = Leaf"
  by (simp add: libgnunet_plugin_datacache_heap_init_def GNUNET_CONTAINER_multihashmap_create_def chainmap_create_def plugin_ok_def
      plugin_items_def chainmap_wf_def heap_inv_def heap_create_wf mhm_entries_def concat_replicate_trivial
      GNUNET_CONTAINER_heap_create_def[symmetric])
    (simp add: GNUNET_CONTAINER_heap_create_def)

text \<open>A small block, and a handle without a Bloom filter.\<close>

definition sample_put :: PutRequest where
  "sample_put = \<lparr>pr_key = hash_of_word 1, pr_data = [1, 2, 3], pr_type = 7,
     pr_discard_time = \<lparr>abs_value_us = 50\<rparr>, pr_path_info = []\<rparr>"

definition sample_handle :: "uint64 \<Rightarrow> DatacacheHandle" where
  "sample_handle q = \<lparr>dc_filter = None, dc_quota = q, dc_utilization = 0, stat_bytes_stored = 0, stat_items_stored = 0\<rparr>"

lemma sample_handle_ok: "unat q < 2 ^ 63 \<Longrightarrow> dc_ok H (sample_handle q) {#}"
  by (simp add: dc_ok_def sample_handle_def halves_def filter_ok_def)

lemma sample_cost: "put_cost sample_put = 171"
  by (simp add: put_cost_def sample_put_def OVERHEAD_def)



text \<open>C31: a block that costs more than the whole quota, stored into an empty cache, aborts the
  program: it is put into the plugin first and is then itself the entry the eviction deletes, while the
  space in use does not count it yet, so the assertion of the deletion notification fails.\<close>

theorem datacache_put_oversized_aborts:
  assumes "plugin_ok p" "dc_ok H h (plugin_items p)" "plugin_ready p al" "plugin_items p = {#}"
    and "unat (dc_quota h) < put_cost r" "put_cost r < 2 ^ 64"
  shows "GNUNET_DATACACHE_put H heap_api h p al r = None"
  using hc.put_oversized[of heap_api p H h al r] assms by (simp add: heap_api_def)

theorem datacache_put_oversized_aborts_witness:
  "\<exists>p. libgnunet_plugin_datacache_heap_init = Some p \<and>
     GNUNET_DATACACHE_put id (heap_api :: (Plugin, nat \<times> nat, unit) PluginFunctions) (sample_handle 100) p (1, 2) sample_put = None"
proof -
  obtain p where p: "libgnunet_plugin_datacache_heap_init = Some p" "plugin_ok p" "plugin_items p = {#}"
      "plugin_ready p (1, 2)"
    using heap_init_ok by (auto simp: plugin_ready_def)
  then show ?thesis
    using datacache_put_oversized_aborts[OF p(2) _ p(4,3), of id "sample_handle 100" sample_put]
      sample_handle_ok[of 100 id]
    by (intro exI[of _ p]) (simp add: sample_cost, simp add: sample_handle_def)
qed

text \<open>A deletion of the heap plugin takes out a value that expires first, removes both references
  to it, tells the cache its key and cost, and on an empty plugin it reports an error.\<close>

lemma heap_plugin_del_earliest:
  assumes "plugin_ok p"
  shows "if plugin_items p = {#} then heap_plugin_del n h p = Some (GNUNET_SYSERR, h, p)
    else \<exists>a v p'. p_vals p a = Some v \<and> plugin_ok p' \<and> p_vals p' = (p_vals p)(a := None) \<and>
      (\<forall>b w. p_vals p b = Some w \<longrightarrow> abs_value_us (v_discard_time v) \<le> abs_value_us (v_discard_time w)) \<and>
      heap_plugin_del n h p = (case n h (v_key v) (of_nat (length (v_data v) + OVERHEAD)) of
        None \<Rightarrow> None | Some h' \<Rightarrow> Some (GNUNET_OK, h', p'))"
proof (cases "plugin_items p = {#}")
  case True
  then show ?thesis using items_empty_iff[OF assms]
    by (simp add: heap_plugin_del_def GNUNET_CONTAINER_heap_remove_root_def)
next
  case False
  then have ne: "heap_data (p_heap p) \<noteq> {#}" using items_empty_iff[OF assms] by blast
  obtain a hp v map' where d: "GNUNET_CONTAINER_heap_remove_root (p_heap p) = (Some a, hp)" "p_vals p a = Some v"
      "GNUNET_CONTAINER_multihashmap_remove (p_map p) (v_key v) a = (GNUNET_YES, map')"
      "plugin_ok \<lparr>p_map = map', p_heap = hp, p_vals = (p_vals p)(a := None)\<rparr>"
      "\<forall>b w. p_vals p b = Some w \<longrightarrow> abs_value_us (v_discard_time v) \<le> abs_value_us (v_discard_time w)"
    using pop_stored[OF assms ne] unfolding Let_def by blast
  let ?p = "\<lparr>p_map = map', p_heap = hp, p_vals = (p_vals p)(a := None)\<rparr>"
  have "heap_plugin_del n h p = (case n h (v_key v) (of_nat (length (v_data v) + OVERHEAD)) of
      None \<Rightarrow> None | Some h' \<Rightarrow> Some (GNUNET_OK, h', ?p))"
    using d by (simp add: heap_plugin_del_def)
  moreover have "p_vals ?p = (p_vals p)(a := None)" by simp
  ultimately show ?thesis using False d(2,4,5) unfolding if_not_P[OF False]
    by (intro exI[of _ a] exI[of _ v] exI[of _ ?p] conjI)
qed

text \<open>A lookup that only counts returns the number of live values under the key with the wanted
  type, with or without the Bloom filter: the filter never hides a stored value.\<close>

lemma datacache_get_counts:
  assumes ok: "plugin_ok p" and dc: "dc_ok H h (plugin_items p)"
  shows "GNUNET_DATACACHE_get H heap_api h p key type None c = Some (of_nat (card (matching p key type)), c)"
proof (cases "\<exists>s. (key, s) \<in># plugin_items p")
  case True
  then obtain s where "(key, s) \<in># plugin_items p" by blast
  then have "GNUNET_DATACACHE_get H heap_api h p key type None c = Some (heap_plugin_get p key type None c)"
    using datacache_get_present[of H h "plugin_items p" key s heap_api p type None c] dc
    by (simp add: dc_ok_def heap_api_def)
  then show ?thesis by (simp add: heap_plugin_get_count[OF ok])
next
  case False
  have "matching p key type = {}"
  proof (rule ccontr)
    assume "matching p key type \<noteq> {}"
    then obtain a v where "p_vals p a = Some v" "v_key v = key" by (auto simp: matching_def)
    then have "charge (p_vals p) a \<in># plugin_items p" "fst (charge (p_vals p) a) = key"
      using plugin_okD(4)[OF ok] by (auto simp: plugin_items_def) (simp add: charge_def)
    then show False using False by (metis prod.collapse)
  qed
  then have z: "heap_plugin_get p key type None c = (0, c)" by (simp add: heap_plugin_get_count[OF ok])
  show ?thesis
  proof (cases "dc_filter h")
    case None
    then show ?thesis using z \<open>matching p key type = {}\<close> by (simp add: GNUNET_DATACACHE_get_def heap_api_def)
  next
    case (Some bf)
    then have "bf_wf bf" using dc by (simp add: dc_ok_def filter_ok_def represents_def bf_stores_def)
    then show ?thesis using Some z \<open>matching p key type = {}\<close> bloomfilter_test_eq[of bf H key]
      by (simp add: GNUNET_DATACACHE_get_def heap_api_def)
  qed
qed

text \<open>Unloading the plugin ends, never fails an assertion, frees every live value, and the heap it
  destroys is empty.\<close>

lemma heap_done_frees_all:
  assumes "plugin_ok p"
  shows "libgnunet_plugin_datacache_heap_done p = Some (card (dom (p_vals p)), True, [])"
proof -
  obtain p' where p': "heap_done_loop p 0 = Some (p', card (dom (p_vals p)))" "plugin_ok p'" "plugin_items p' = {#}"
    using heap_done_loop_ok[OF assms, of 0] by auto
  note P = plugin_okD[OF p'(2)]
  have "hp_root (p_heap p') = Leaf" using items_empty_iff[OF p'(2)] p'(3) by simp
  then have "hp_size (p_heap p') = 0" using heap_wfD(3)[OF P(2)] by simp
  moreover have "mhm_entries (p_map p') = {#}"
    using p'(3) unfolding P(5) plugin_items_def by simp
  then have "concat (mhm_map (p_map p')) = []" by (simp add: mhm_entries_def)
  moreover have "destroy_buckets bs = concat bs" for bs :: "nat HashEntryOf list list" by (induction bs) simp_all
  ultimately show ?thesis using p'(1)
    by (simp add: libgnunet_plugin_datacache_heap_done_def GNUNET_CONTAINER_heap_destroy_def
        GNUNET_CONTAINER_multihashmap_destroy_def chainmap_destroy_def del: concat_eq_Nil_conv)
qed

end
