(* ===== verification/MST.thy ===== *)
theory MST
  imports Prelude
begin

text \<open>
  The message stream tokenizer (\<^verbatim>\<open>src/src/util/mst.c\<close>), which cuts a byte stream into messages. A
  message starts with its total size, 16 bits in network byte order. The tokenizer's private buffer is
  a byte list of \<^verbatim>\<open>curr_buf\<close> bytes, so \<^verbatim>\<open>memcpy\<close> outside of it is a possible outcome. Results are
  options: \<^verbatim>\<open>None\<close> is a failed assertion or a write outside the buffer. The address of the input
  matters for alignment and is the parameter \<open>addr\<close>; the alignment unit is \<open>align\<close> (4 or 8).
\<close>

section \<open>State\<close>

record mst =
  m_buf :: "uint8 list"
  m_off :: nat
  m_pos :: nat

abbreviation GNUNET_SERVER_MIN_BUFFER_SIZE :: nat where "GNUNET_SERVER_MIN_BUFFER_SIZE \<equiv> 4"
abbreviation HEADER_SIZE :: nat where "HEADER_SIZE \<equiv> 4"

type_synonym 'c mst_cb = "'c \<Rightarrow> uint8 list \<Rightarrow> int \<times> 'c"

text \<open>The size field of a message, and the buffer operations.\<close>

definition msg_size :: "uint8 list \<Rightarrow> nat" where
  "msg_size bs = 256 * unat (bs ! 0) + unat (bs ! 1)"

definition mem_write :: "uint8 list \<Rightarrow> nat \<Rightarrow> uint8 list \<Rightarrow> uint8 list option" where
  "mem_write ibuf pos xs =
     (if pos + length xs \<le> length ibuf then Some (take pos ibuf @ xs @ drop (pos + length xs) ibuf) else None)"

text \<open>Moving the unprocessed bytes to the start of the buffer.\<close>

definition mst_move :: "mst \<Rightarrow> mst" where
  "mst_move m = (let pos = m_pos m - m_off m
     in m\<lparr>m_buf := take pos (drop (m_off m) (m_buf m)) @ drop pos (m_buf m), m_off := 0, m_pos := pos\<rparr>)"

text \<open>\<^verbatim>\<open>GNUNET_realloc\<close> to a bigger size; the new bytes are not read before they are written.\<close>

definition mst_grow :: "mst \<Rightarrow> nat \<Rightarrow> mst" where
  "mst_grow m n = m\<lparr>m_buf := m_buf m @ replicate (n - length (m_buf m)) 0\<rparr>"

text \<open>Copying input into the buffer until \<open>need\<close> bytes are there, or the input is used up.\<close>

definition mst_fill :: "mst \<Rightarrow> uint8 list \<Rightarrow> nat \<Rightarrow> (mst \<times> uint8 list) option" where
  "mst_fill m buf need =
     (if m_pos m - m_off m < need
      then let delta = min (need - (m_pos m - m_off m)) (length buf)
           in case mem_write (m_buf m) (m_pos m) (take delta buf) of
                None \<Rightarrow> None
              | Some ibuf \<Rightarrow> Some (m\<lparr>m_buf := ibuf, m_pos := m_pos m + delta\<rparr>, drop delta buf)
      else Some (m, buf))"

definition mst_purge :: "bool \<Rightarrow> mst \<Rightarrow> mst" where
  "mst_purge purge m = (if purge then m\<lparr>m_off := 0, m_pos := 0\<rparr> else m)"

section \<open>Operations\<close>

definition GNUNET_MST_create :: mst where
  "GNUNET_MST_create = \<lparr>m_buf = replicate GNUNET_SERVER_MIN_BUFFER_SIZE 0, m_off = 0, m_pos = 0\<rparr>"

text \<open>
  How one round of the first loop (from the label \<^verbatim>\<open>do_align\<close>) ends: a failure, a return, a jump to
  \<^verbatim>\<open>copy\<close> because no further call of the callback is allowed, or the next round.
\<close>

datatype 'c mst_round =
    RAssert
  | RReturn int mst 'c
  | RCopy mst "uint8 list" 'c
  | RNext mst "uint8 list" int 'c

definition mst_deliver :: "bool \<Rightarrow> 'c mst_cb \<Rightarrow> mst \<Rightarrow> uint8 list \<Rightarrow> int \<Rightarrow> nat \<Rightarrow> 'c \<Rightarrow> 'c mst_round" where
  "mst_deliver purge cb m buf one_shot want c =
     (if m_pos m - m_off m < want then RReturn GNUNET_OK (mst_purge purge m) c
      else if one_shot = GNUNET_SYSERR then RCopy m buf c
      else let os = (if one_shot = GNUNET_YES then GNUNET_SYSERR else one_shot);
               msg = take want (drop (m_off m) (m_buf m));
               m' = m\<lparr>m_off := m_off m + want\<rparr>
           in case cb c msg of (r, c') \<Rightarrow>
                if r = GNUNET_SYSERR then RReturn GNUNET_SYSERR m' c'
                else RNext (if m_off m' = m_pos m' then m'\<lparr>m_off := 0, m_pos := 0\<rparr> else m') buf os c')"

definition mst_have_header :: "bool \<Rightarrow> 'c mst_cb \<Rightarrow> mst \<Rightarrow> uint8 list \<Rightarrow> int \<Rightarrow> 'c \<Rightarrow> 'c mst_round" where
  "mst_have_header purge cb m buf one_shot c =
     (let want = msg_size (drop (m_off m) (m_buf m))
      in if want < HEADER_SIZE then RReturn GNUNET_SYSERR m c
         else
           let m1 = (if length (m_buf m) - m_off m < want \<and> m_off m > 0 then mst_move m else m)
           in if length (m_buf m1) < want \<and> m_off m1 \<noteq> 0 then RAssert
              else
                let m2 = (if length (m_buf m1) < want then mst_grow m1 want else m1)
                in case mst_fill m2 buf want of
                     None \<Rightarrow> RAssert
                   | Some (m3, buf3) \<Rightarrow> mst_deliver purge cb m3 buf3 one_shot want c)"

definition mst_body :: "nat \<Rightarrow> bool \<Rightarrow> 'c mst_cb \<Rightarrow> mst \<Rightarrow> uint8 list \<Rightarrow> int \<Rightarrow> 'c \<Rightarrow> 'c mst_round" where
  "mst_body align purge cb m buf one_shot c =
     (if \<not> m_off m \<le> m_pos m then RAssert
      else
        let m1 = (if length (m_buf m) - m_off m < HEADER_SIZE \<or> m_off m mod align \<noteq> 0 then mst_move m else m)
        in case mst_fill m1 buf HEADER_SIZE of
             None \<Rightarrow> RAssert
           | Some (m2, buf2) \<Rightarrow>
               if m_pos m2 - m_off m2 < HEADER_SIZE then RReturn GNUNET_OK (mst_purge purge m2) c
               else mst_have_header purge cb m2 buf2 one_shot c)"

text \<open>The code after the label \<^verbatim>\<open>copy\<close>: what is left of the input is kept, unless it is to be purged.\<close>

definition mst_copy :: "bool \<Rightarrow> int \<Rightarrow> mst \<Rightarrow> uint8 list \<Rightarrow> 'c \<Rightarrow> (int \<times> mst \<times> 'c) option" where
  "mst_copy purge ret m buf c =
     (if buf \<noteq> [] \<and> \<not> purge
      then let m1 = (if length buf + m_pos m > length (m_buf m) then mst_grow m (length buf + m_pos m) else m)
           in case mem_write (m_buf m1) (m_pos m1) buf of
                None \<Rightarrow> None
              | Some ibuf \<Rightarrow> Some (ret, m1\<lparr>m_buf := ibuf, m_pos := m_pos m1 + length buf\<rparr>, c)
      else Some (ret, mst_purge purge m, c))"

text \<open>
  Both loops. While there are bytes in the private buffer, or when the input is not aligned, a round of
  the first loop runs; otherwise messages are taken directly from the input. The recursion ends because
  every further round has consumed a message; \<open>n\<close> bounds the number of rounds by the number of bytes.
\<close>

fun mst_loop ::
  "nat \<Rightarrow> nat \<Rightarrow> bool \<Rightarrow> 'c mst_cb \<Rightarrow> mst \<Rightarrow> uint8 list \<Rightarrow> nat \<Rightarrow> int \<Rightarrow> 'c \<Rightarrow> (int \<times> mst \<times> 'c) option" where
  "mst_loop 0 align purge cb m buf addr one_shot c = None"
| "mst_loop (Suc n) align purge cb m buf addr one_shot c =
     (let after = (\<lambda>r. case r of
            RAssert \<Rightarrow> None
          | RReturn rc m' c' \<Rightarrow> Some (rc, m', c')
          | RCopy m' buf' c' \<Rightarrow> mst_copy purge GNUNET_NO m' buf' c'
          | RNext m' buf' os c' \<Rightarrow>
              mst_loop n align purge cb m' buf' (addr + (length buf - length buf')) os c')
      in if m_pos m > 0 then after (mst_body align purge cb m buf one_shot c)
         else if length buf < HEADER_SIZE then mst_copy purge GNUNET_OK m buf c
         else if addr mod align \<noteq> 0 then after (mst_body align purge cb m buf one_shot c)
         else
           let want = msg_size buf
           in if want < HEADER_SIZE then Some (GNUNET_SYSERR, m\<lparr>m_off := 0\<rparr>, c)
              else if length buf < want then mst_copy purge GNUNET_OK m buf c
              else if one_shot = GNUNET_SYSERR then mst_copy purge GNUNET_NO m buf c
              else let os = (if one_shot = GNUNET_YES then GNUNET_SYSERR else one_shot)
                   in case cb c (take want buf) of (r, c') \<Rightarrow>
                        if r = GNUNET_SYSERR then Some (GNUNET_SYSERR, m, c')
                        else mst_loop n align purge cb m (drop want buf) (addr + want) os c')"

definition GNUNET_MST_from_buffer ::
  "nat \<Rightarrow> 'c mst_cb \<Rightarrow> mst \<Rightarrow> uint8 list \<Rightarrow> nat \<Rightarrow> bool \<Rightarrow> int \<Rightarrow> 'c \<Rightarrow> (int \<times> mst \<times> 'c) option" where
  "GNUNET_MST_from_buffer align cb m buf addr purge one_shot c =
     (if m_off m \<le> m_pos m \<and> m_pos m \<le> length (m_buf m)
      then mst_loop (Suc (m_pos m - m_off m + length buf)) align purge cb m buf addr one_shot c
      else None)"

text \<open>What \<^verbatim>\<open>recv\<close> returns for the space left: bytes, or an error that may be transient.\<close>

datatype recv_result = RecvBytes "uint8 list" | RecvError bool

definition GNUNET_MST_read ::
  "nat \<Rightarrow> 'c mst_cb \<Rightarrow> mst \<Rightarrow> (nat \<Rightarrow> recv_result) \<Rightarrow> bool \<Rightarrow> int \<Rightarrow> 'c \<Rightarrow> (int \<times> mst \<times> 'c) option" where
  "GNUNET_MST_read align cb m recv purge one_shot c =
     (case recv (length (m_buf m) - m_pos m) of
        RecvError transient \<Rightarrow> Some (if transient then GNUNET_OK else GNUNET_SYSERR, m, c)
      | RecvBytes bs \<Rightarrow>
          if bs = [] then Some (GNUNET_SYSERR, m, c)
          else case mem_write (m_buf m) (m_pos m) bs of
                 None \<Rightarrow> None
               | Some ibuf \<Rightarrow>
                   GNUNET_MST_from_buffer align cb (m\<lparr>m_buf := ibuf, m_pos := m_pos m + length bs\<rparr>) [] 0
                     purge one_shot c)"

definition GNUNET_MST_next ::
  "nat \<Rightarrow> 'c mst_cb \<Rightarrow> mst \<Rightarrow> int \<Rightarrow> 'c \<Rightarrow> (int \<times> mst \<times> 'c) option" where
  "GNUNET_MST_next align cb m one_shot c = GNUNET_MST_from_buffer align cb m [] 0 False one_shot c"

section \<open>The abstract tokenizer\<close>

text \<open>The bytes the tokenizer holds, and what it should do with them followed by the input.\<close>

definition pending :: "mst \<Rightarrow> uint8 list" where
  "pending m = take (m_pos m - m_off m) (drop (m_off m) (m_buf m))"

definition mst_wf :: "mst \<Rightarrow> bool" where
  "mst_wf m \<longleftrightarrow> m_off m \<le> m_pos m \<and> m_pos m \<le> length (m_buf m) \<and> HEADER_SIZE \<le> length (m_buf m)"

function tokenize :: "'c mst_cb \<Rightarrow> int \<Rightarrow> uint8 list \<Rightarrow> 'c \<Rightarrow> int \<times> uint8 list \<times> 'c" where
  "tokenize cb one_shot p c =
     (if length p < HEADER_SIZE then (GNUNET_OK, p, c)
      else if msg_size p < HEADER_SIZE then (GNUNET_SYSERR, p, c)
      else if length p < msg_size p then (GNUNET_OK, p, c)
      else if one_shot = GNUNET_SYSERR then (GNUNET_NO, p, c)
      else if fst (cb c (take (msg_size p) p)) = GNUNET_SYSERR
      then (GNUNET_SYSERR, drop (msg_size p) p, snd (cb c (take (msg_size p) p)))
      else tokenize cb (if one_shot = GNUNET_YES then GNUNET_SYSERR else one_shot)
             (drop (msg_size p) p) (snd (cb c (take (msg_size p) p))))"
  by pat_completeness auto
termination
  by (relation "measure (\<lambda>(cb, os, p, c). length p)") auto

declare tokenize.simps [simp del]

lemma length_pending: "mst_wf m \<Longrightarrow> length (pending m) = m_pos m - m_off m"
  by (auto simp: pending_def mst_wf_def min_def)

lemma mst_move_props:
  assumes "mst_wf m"
  shows "mst_wf (mst_move m)" "pending (mst_move m) = pending m" "m_off (mst_move m) = 0"
    "length (m_buf (mst_move m)) = length (m_buf m)"
  using assms by (auto simp: mst_wf_def mst_move_def pending_def Let_def)

lemma mst_grow_props:
  assumes "mst_wf m"
  shows "mst_wf (mst_grow m n)" "pending (mst_grow m n) = pending m" "m_off (mst_grow m n) = m_off m"
    "m_pos (mst_grow m n) = m_pos m" "length (m_buf (mst_grow m n)) = max n (length (m_buf m))"
  using assms by (auto simp: mst_wf_def mst_grow_def pending_def)

lemma mem_write_append:
  assumes "mst_wf m" "m_pos m + length xs \<le> length (m_buf m)"
  shows "\<exists>ibuf. mem_write (m_buf m) (m_pos m) xs = Some ibuf \<and> length ibuf = length (m_buf m) \<and>
    mst_wf (m\<lparr>m_buf := ibuf, m_pos := m_pos m + length xs\<rparr>) \<and>
    pending (m\<lparr>m_buf := ibuf, m_pos := m_pos m + length xs\<rparr>) = pending m @ xs"
  using assms by (auto simp: mem_write_def mst_wf_def pending_def drop_take)

lemma mst_fill_props:
  assumes "mst_wf m" "need \<le> length (m_buf m) - m_off m"
  shows "\<exists>m' buf'. mst_fill m buf need = Some (m', buf') \<and> mst_wf m' \<and> m_off m' = m_off m \<and>
    length (m_buf m') = length (m_buf m) \<and> pending m' @ buf' = pending m @ buf \<and>
    (need \<le> length (pending m') \<or> buf' = [])"
proof (cases "m_pos m - m_off m < need")
  case False
  then show ?thesis using assms length_pending[OF assms(1)] by (auto simp: mst_fill_def)
next
  case True
  define delta where "delta = min (need - (m_pos m - m_off m)) (length buf)"
  have "m_pos m + length (take delta buf) \<le> length (m_buf m)"
    using assms True by (auto simp: delta_def mst_wf_def)
  then obtain ibuf where w: "mem_write (m_buf m) (m_pos m) (take delta buf) = Some ibuf"
      "length ibuf = length (m_buf m)"
      "mst_wf (m\<lparr>m_buf := ibuf, m_pos := m_pos m + length (take delta buf)\<rparr>)"
      "pending (m\<lparr>m_buf := ibuf, m_pos := m_pos m + length (take delta buf)\<rparr>) = pending m @ take delta buf"
    using mem_write_append[OF assms(1)] by blast
  have len: "length (take delta buf) = delta" by (simp add: delta_def)
  have "need \<le> length (pending m @ take delta buf) \<or> drop delta buf = []"
    using length_pending[OF assms(1)] True by (auto simp: delta_def)
  then show ?thesis using w True unfolding len by (simp add: mst_fill_def Let_def delta_def[symmetric])
qed


lemma msg_size_append: "2 \<le> length p \<Longrightarrow> msg_size (p @ q) = msg_size p"
  by (cases p) (auto simp: msg_size_def nth_append)

lemma msg_size_pending:
  assumes "mst_wf m" "HEADER_SIZE \<le> length (pending m)"
  shows "msg_size (drop (m_off m) (m_buf m)) = msg_size (pending m)"
proof -
  have "drop (m_off m) (m_buf m) = pending m @ drop (m_pos m - m_off m) (drop (m_off m) (m_buf m))"
    unfolding pending_def by (rule append_take_drop_id[symmetric])
  then show ?thesis using msg_size_append[of "pending m"] assms(2) by simp
qed

section \<open>One round\<close>

text \<open>What a round of the first loop that starts with the bytes \<open>p\<close> in front of it may do.\<close>

definition round_ok :: "bool \<Rightarrow> 'c mst_cb \<Rightarrow> int \<Rightarrow> uint8 list \<Rightarrow> uint8 list \<Rightarrow> 'c \<Rightarrow> 'c mst_round \<Rightarrow> bool" where
  "round_ok purge cb os p buf c r =
     (case r of
        RAssert \<Rightarrow> False
      | RReturn rc m' c' \<Rightarrow> mst_wf m' \<and>
          (\<exists>rest. tokenize cb os p c = (rc, rest, c') \<and>
             (rc \<noteq> GNUNET_SYSERR \<longrightarrow>
                pending m' = (if purge then [] else rest) \<and> m_pos m' < length (m_buf m')))
      | RCopy m' buf' c' \<Rightarrow>
          mst_wf m' \<and> tokenize cb os p c = (GNUNET_NO, p, c') \<and> pending m' @ buf' = p
      | RNext m' buf' os' c' \<Rightarrow>
          mst_wf m' \<and> tokenize cb os p c = tokenize cb os' (pending m' @ buf') c' \<and>
          length (pending m' @ buf') < length p \<and> (buf = [] \<longrightarrow> buf' = []))"

lemma mst_purge_props:
  assumes "mst_wf m" "m_pos m < length (m_buf m)"
  shows "mst_wf (mst_purge purge m)" "pending (mst_purge purge m) = (if purge then [] else pending m)"
    "m_pos (mst_purge purge m) < length (m_buf (mst_purge purge m))"
  using assms by (auto simp: mst_purge_def mst_wf_def pending_def)

lemma mst_deliver_ok:
  assumes wf: "mst_wf m" and p: "pending m @ buf = p" and want: "want = msg_size p" "HEADER_SIZE \<le> want"
    and len: "HEADER_SIZE \<le> length p" and room: "want \<le> length (m_buf m) - m_off m"
    and filled: "want \<le> length (pending m) \<or> buf = []" and buf: "buf0 = [] \<longrightarrow> buf = []"
  shows "round_ok purge cb os p buf0 c (mst_deliver purge cb m buf os want c)"
proof (cases "m_pos m - m_off m < want")
  case True
  have np: "length (pending m) = m_pos m - m_off m" by (rule length_pending[OF wf])
  then have "buf = []" using filled True by auto
  moreover have "m_pos m < length (m_buf m)" using True room wf by (auto simp: mst_wf_def)
  moreover have "tokenize cb os p c = (GNUNET_OK, p, c)"
    using True want len np p \<open>buf = []\<close> by (subst tokenize.simps) auto
  ultimately show ?thesis using True p mst_purge_props[OF wf, of purge]
    by (auto simp: mst_deliver_def round_ok_def)
next
  case False
  have np: "length (pending m) = m_pos m - m_off m" by (rule length_pending[OF wf])
  have lp: "want \<le> length p" using False np p by auto
  have msg: "take want (drop (m_off m) (m_buf m)) = take want p"
    using False np p by (auto simp: pending_def min_def)
  show ?thesis
  proof (cases "os = GNUNET_SYSERR")
    case True
    then have "tokenize cb os p c = (GNUNET_NO, p, c)"
      using want len lp by (subst tokenize.simps) auto
    then show ?thesis using True False wf p by (simp add: mst_deliver_def round_ok_def)
  next
    case os: False
    define m' where "m' = (if m_off m + want = m_pos m then m\<lparr>m_off := 0, m_pos := 0\<rparr>
      else m\<lparr>m_off := m_off m + want\<rparr>)"
    have wf': "mst_wf m'" "mst_wf (m\<lparr>m_off := m_off m + want\<rparr>)"
      using wf False want by (auto simp: mst_wf_def m'_def)
    have pend: "pending m' = drop want (pending m)"
      using wf False want by (auto simp: pending_def m'_def mst_wf_def drop_take add.commute)
    then have rest: "pending m' @ buf = drop want p" using p np False by auto
    obtain r c' where cb: "cb c (take want p) = (r, c')" by fastforce
    have tok: "tokenize cb os p c = (if r = GNUNET_SYSERR then (GNUNET_SYSERR, drop want p, c')
        else tokenize cb (if os = GNUNET_YES then GNUNET_SYSERR else os) (drop want p) c')"
      using want len lp os cb by (subst tokenize.simps) auto
    have del: "mst_deliver purge cb m buf os want c =
        (if r = GNUNET_SYSERR then RReturn GNUNET_SYSERR (m\<lparr>m_off := m_off m + want\<rparr>) c'
         else RNext m' buf (if os = GNUNET_YES then GNUNET_SYSERR else os) c')"
      using False os cb by (simp add: mst_deliver_def msg m'_def Let_def)
    have "length (pending m') + length buf < length p"
      using arg_cong[OF rest, of length] want len by auto
    then show ?thesis using tok wf' rest buf unfolding del by (simp add: round_ok_def)
  qed
qed

lemma mst_fill_nil: "mst_fill m [] need = Some (m', buf') \<Longrightarrow> buf' = []"
  by (auto simp: mst_fill_def split: if_splits option.splits)

lemma mst_have_header_ok:
  assumes wf: "mst_wf m" and p: "pending m @ buf = p" and len: "HEADER_SIZE \<le> length (pending m)"
    and nil: "buf0 = [] \<longrightarrow> buf = []"
  shows "round_ok purge cb os p buf0 c (mst_have_header purge cb m buf os c)"
proof -
  define want where "want = msg_size p"
  have want: "msg_size (drop (m_off m) (m_buf m)) = want"
    using msg_size_pending[OF wf len] msg_size_append[of "pending m" buf] len p by (simp add: want_def)
  have lp: "HEADER_SIZE \<le> length p" using len p by auto
  show ?thesis
  proof (cases "want < HEADER_SIZE")
    case True
    then have "tokenize cb os p c = (GNUNET_SYSERR, p, c)"
      using lp by (subst tokenize.simps) (auto simp: want_def)
    then show ?thesis using True wf by (simp add: round_ok_def mst_have_header_def want)
  next
    case False
    define m1 where "m1 = (if length (m_buf m) - m_off m < want \<and> m_off m > 0 then mst_move m else m)"
    define m2 where "m2 = (if length (m_buf m1) < want then mst_grow m1 want else m1)"
    have m1: "mst_wf m1" "pending m1 = pending m" "length (m_buf m1) - m_off m1 < want \<longrightarrow> m_off m1 = 0"
      using mst_move_props[OF wf] wf by (auto simp: m1_def)
    have m2: "mst_wf m2" "pending m2 = pending m" "want \<le> length (m_buf m2) - m_off m2"
      using mst_grow_props[OF m1(1), of want] m1 by (auto simp: m2_def)
    obtain m3 buf3 where f3: "mst_fill m2 buf want = Some (m3, buf3)" and m3: "mst_wf m3"
        "m_off m3 = m_off m2" "length (m_buf m3) = length (m_buf m2)" "pending m3 @ buf3 = p"
        "want \<le> length (pending m3) \<or> buf3 = []"
      using mst_fill_props[OF m2(1,3), of buf] m2(2) p by auto
    have "buf0 = [] \<longrightarrow> buf3 = []" using f3 nil mst_fill_nil by blast
    then have "round_ok purge cb os p buf0 c (mst_deliver purge cb m3 buf3 os want c)"
      by (intro mst_deliver_ok[OF m3(1,4) want_def _ lp]) (use False m2(3) m3 in auto)
    moreover have "\<not> (length (m_buf m1) < want \<and> m_off m1 \<noteq> 0)" using m1(3) by linarith
    ultimately show ?thesis
      unfolding mst_have_header_def want Let_def m1_def[symmetric] m2_def[symmetric] using False f3 by auto
  qed
qed

lemma mst_body_ok:
  assumes wf: "mst_wf m" and p: "pending m @ buf = p"
  shows "round_ok purge cb os p buf c (mst_body align purge cb m buf os c)"
proof -
  define m1 where "m1 = (if length (m_buf m) - m_off m < HEADER_SIZE \<or> m_off m mod align \<noteq> 0 then mst_move m else m)"
  have m1: "mst_wf m1" "pending m1 = pending m" "HEADER_SIZE \<le> length (m_buf m1) - m_off m1"
    using mst_move_props[OF wf] wf by (auto simp: m1_def mst_wf_def)
  obtain m2 buf2 where f2: "mst_fill m1 buf HEADER_SIZE = Some (m2, buf2)" and m2: "mst_wf m2"
      "m_off m2 = m_off m1" "length (m_buf m2) = length (m_buf m1)" "pending m2 @ buf2 = p"
      "HEADER_SIZE \<le> length (pending m2) \<or> buf2 = []"
    using mst_fill_props[OF m1(1,3), of buf] p m1(2) by auto
  have np: "length (pending m2) = m_pos m2 - m_off m2" by (rule length_pending[OF m2(1)])
  have body: "mst_body align purge cb m buf os c =
     (if length (pending m2) < HEADER_SIZE then RReturn GNUNET_OK (mst_purge purge m2) c
      else mst_have_header purge cb m2 buf2 os c)"
    unfolding mst_body_def m1_def[symmetric] Let_def np using wf f2 by (simp add: mst_wf_def)
  show ?thesis
  proof (cases "length (pending m2) < HEADER_SIZE")
    case True
    have "m_pos m2 < length (m_buf m2)" using True np m1(3) m2 by (auto simp: mst_wf_def)
    moreover have "tokenize cb os p c = (GNUNET_OK, p, c)"
      using True m2 by (subst tokenize.simps) auto
    ultimately show ?thesis using True m2 mst_purge_props[OF m2(1), of purge] unfolding body
      by (auto simp: round_ok_def)
  next
    case False
    have "buf = [] \<longrightarrow> buf2 = []" using f2 mst_fill_nil by blast
    then show ?thesis using False mst_have_header_ok[OF m2(1,4)] unfolding body by simp
  qed
qed

section \<open>The whole operation\<close>

lemma mst_copy_ok:
  assumes "mst_wf m" "pending m @ buf = p"
  shows "\<exists>m'. mst_copy purge ret m buf c = Some (ret, m', c) \<and> mst_wf m' \<and>
    pending m' = (if purge then [] else p) \<and> (buf = [] \<and> m_pos m = 0 \<longrightarrow> m_pos m' = 0)"
proof (cases "buf \<noteq> [] \<and> \<not> purge")
  case False
  then show ?thesis using assms by (auto simp: mst_copy_def mst_purge_def mst_wf_def pending_def)
next
  case True
  define m1 where "m1 = (if length buf + m_pos m > length (m_buf m) then mst_grow m (length buf + m_pos m) else m)"
  have m1: "mst_wf m1" "pending m1 = pending m" "m_pos m1 + length buf \<le> length (m_buf m1)"
    using mst_grow_props[OF assms(1)] assms(1) by (auto simp: m1_def)
  then show ?thesis using mem_write_append[OF m1(1,3)] True assms(2)
    by (auto simp: mst_copy_def m1_def[symmetric] Let_def)
qed

text \<open>The result of a call that starts with the bytes \<open>p\<close> in front of the tokenizer.\<close>

definition mst_result :: "bool \<Rightarrow> int \<times> uint8 list \<times> 'c \<Rightarrow> uint8 list \<Rightarrow> (int \<times> mst \<times> 'c) option \<Rightarrow> bool" where
  "mst_result purge spec buf res =
     (case spec of (rc, rest, c') \<Rightarrow>
        \<exists>m'. res = Some (rc, m', c') \<and> mst_wf m' \<and>
          (rc \<noteq> GNUNET_SYSERR \<longrightarrow> pending m' = (if purge then [] else rest)) \<and>
          (rc = GNUNET_OK \<and> buf = [] \<longrightarrow> m_pos m' < length (m_buf m')))"

lemma mst_result_copy:
  assumes "mst_wf m" "pending m @ buf = p" "rc = GNUNET_OK \<longrightarrow> m_pos m = 0"
  shows "mst_result purge (rc, p, c) buf (mst_copy purge rc m buf c)"
proof -
  obtain m' where m': "mst_copy purge rc m buf c = Some (rc, m', c)" "mst_wf m'"
    "pending m' = (if purge then [] else p)" "buf = [] \<and> m_pos m = 0 \<longrightarrow> m_pos m' = 0"
    using mst_copy_ok[OF assms(1,2), of purge rc c] by blast
  then show ?thesis using assms(3) by (auto simp: mst_result_def mst_wf_def)
qed

lemma mst_result_mono:
  "mst_result purge r buf' x \<Longrightarrow> buf = [] \<longrightarrow> buf' = [] \<Longrightarrow> mst_result purge r buf x"
  by (auto simp: mst_result_def split: prod.splits)

lemma mst_result_err:
  "mst_wf m \<Longrightarrow> mst_result purge (GNUNET_SYSERR, rest, c) buf (Some (GNUNET_SYSERR, m, c))"
  by (simp add: mst_result_def)

lemma mst_loop_direct:
  assumes "m_pos m = 0" "HEADER_SIZE \<le> length buf \<longrightarrow> addr mod align = 0"
  shows "mst_loop (Suc n) align purge cb m buf addr one_shot c =
    (if length buf < HEADER_SIZE then mst_copy purge GNUNET_OK m buf c
     else if msg_size buf < HEADER_SIZE then Some (GNUNET_SYSERR, m\<lparr>m_off := 0\<rparr>, c)
     else if length buf < msg_size buf then mst_copy purge GNUNET_OK m buf c
     else if one_shot = GNUNET_SYSERR then mst_copy purge GNUNET_NO m buf c
     else case cb c (take (msg_size buf) buf) of (r, c') \<Rightarrow>
            if r = GNUNET_SYSERR then Some (GNUNET_SYSERR, m, c')
            else mst_loop n align purge cb m (drop (msg_size buf) buf) (addr + msg_size buf)
                   (if one_shot = GNUNET_YES then GNUNET_SYSERR else one_shot) c')"
  using assms by (simp add: Let_def)

lemma mst_loop_ok:
  assumes "mst_wf m" "length (pending m @ buf) < n"
  shows "mst_result purge (tokenize cb os (pending m @ buf) c) buf (mst_loop n align purge cb m buf addr os c)"
  using assms
proof (induction n arbitrary: m buf addr os c)
  case 0
  then show ?case by simp
next
  case (Suc n)
  define p where "p = pending m @ buf"
  define after where "after = (\<lambda>r. case r of
            RAssert \<Rightarrow> None
          | RReturn rc m' c' \<Rightarrow> Some (rc, m', c')
          | RCopy m' buf' c' \<Rightarrow> mst_copy purge GNUNET_NO m' buf' c'
          | RNext m' buf' os c' \<Rightarrow>
              mst_loop n align purge cb m' buf' (addr + (length buf - length buf')) os c')"
  have after: "mst_result purge (tokenize cb os p c) buf (after r)"
    if r: "round_ok purge cb os p buf c r" for r
  proof (cases r)
    case (RCopy m' buf' c')
    then show ?thesis using r mst_result_copy[of m' buf' p GNUNET_NO purge c']
      by (auto simp: round_ok_def after_def mst_result_def)
  next
    case (RNext m' buf' os' c')
    then have "mst_result purge (tokenize cb os p c) buf' (after r)"
      using r Suc.IH[of m' buf'] Suc.prems(2) by (auto simp: round_ok_def after_def p_def)
    moreover have "buf = [] \<longrightarrow> buf' = []" using r RNext by (simp add: round_ok_def)
    ultimately show ?thesis using mst_result_mono by blast
  qed (use r in \<open>auto simp: round_ok_def after_def mst_result_def\<close>)
  have body: "mst_result purge (tokenize cb os p c) buf (after (mst_body align purge cb m buf os c))"
    by (rule after, rule mst_body_ok[OF Suc.prems(1)]) (simp add: p_def)
  show ?case
  proof (cases "m_pos m > 0 \<or> HEADER_SIZE \<le> length buf \<and> addr mod align \<noteq> 0")
    case True
    then show ?thesis using body by (auto simp: after_def[symmetric] p_def[symmetric])
  next
    case False
    then have z: "m_pos m = 0" and p: "p = buf" and al: "HEADER_SIZE \<le> length buf \<longrightarrow> addr mod align = 0"
      by (auto simp: p_def pending_def)
    have copy: "mst_result purge (rc, p, c) buf (mst_copy purge rc m buf c)" for rc
      by (rule mst_result_copy[OF Suc.prems(1)]) (simp_all add: z p_def)
    obtain r c' where cb: "cb c (take (msg_size buf) buf) = (r, c')" by fastforce
    define os' where "os' = (if os = GNUNET_YES then GNUNET_SYSERR else os)"
    have tok: "tokenize cb os p c =
       (if length buf < HEADER_SIZE then (GNUNET_OK, p, c)
        else if msg_size buf < HEADER_SIZE then (GNUNET_SYSERR, p, c)
        else if length buf < msg_size buf then (GNUNET_OK, p, c)
        else if os = GNUNET_SYSERR then (GNUNET_NO, p, c)
        else if r = GNUNET_SYSERR then (GNUNET_SYSERR, drop (msg_size buf) buf, c')
        else tokenize cb os' (drop (msg_size buf) buf) c')"
      by (subst tokenize.simps) (simp add: p cb os'_def)
    have rec: "mst_result purge (tokenize cb os' (drop (msg_size buf) buf) c') buf
        (mst_loop n align purge cb m (drop (msg_size buf) buf) (addr + msg_size buf) os' c')"
      if "HEADER_SIZE \<le> length buf" "HEADER_SIZE \<le> msg_size buf"
    proof -
      have "pending m = []" using z by (simp add: pending_def)
      then have "mst_result purge (tokenize cb os' (drop (msg_size buf) buf) c') (drop (msg_size buf) buf)
          (mst_loop n align purge cb m (drop (msg_size buf) buf) (addr + msg_size buf) os' c')"
        using Suc.IH[OF Suc.prems(1), of "drop (msg_size buf) buf" os' c'] Suc.prems(2) that by auto
      then show ?thesis by (rule mst_result_mono) simp
    qed
    have "mst_wf (m\<lparr>m_off := 0\<rparr>)" using Suc.prems(1) by (simp add: mst_wf_def)
    then show ?thesis
      unfolding mst_loop_direct[OF z al] p_def[symmetric] tok cb os'_def[symmetric]
      using copy rec Suc.prems(1) by (simp add: mst_result_err)
  qed
qed

lemma mst_from_buffer_spec:
  assumes "mst_wf m"
  shows "mst_result purge (tokenize cb os (pending m @ buf) c) buf
    (GNUNET_MST_from_buffer align cb m buf addr purge os c)"
  using mst_loop_ok[OF assms, of buf "Suc (m_pos m - m_off m + length buf)"] length_pending[OF assms] assms
  by (simp add: GNUNET_MST_from_buffer_def mst_wf_def del: mst_loop.simps)

lemma mst_create_wf: "mst_wf GNUNET_MST_create" "pending GNUNET_MST_create = []"
  by (simp_all add: GNUNET_MST_create_def mst_wf_def pending_def)

text \<open>The abstract tokenizer does not care where the stream is cut.\<close>

lemma tokenize_append:
  assumes "os = GNUNET_NO" "tokenize cb os p c = (GNUNET_OK, rest, c')"
  shows "tokenize cb os (p @ q) c = tokenize cb os (rest @ q) c'"
  using assms
proof (induction cb os p c rule: tokenize.induct)
  case (1 cb os p c)
  show ?case
  proof (cases "length p < HEADER_SIZE \<or> HEADER_SIZE \<le> msg_size p \<and> length p < msg_size p")
    case True
    then have "tokenize cb os p c = (GNUNET_OK, p, c)" by (subst tokenize.simps) auto
    then show ?thesis using 1(3) by simp
  next
    case False
    define r where "r = cb c (take (msg_size p) p)"
    have big: "HEADER_SIZE \<le> length p" "HEADER_SIZE \<le> msg_size p" "msg_size p \<le> length p" "fst r \<noteq> GNUNET_SYSERR"
      using False 1(2,3) tokenize.simps[of cb os p c] by (auto simp: r_def[symmetric] split: if_splits)
    then have ms: "msg_size (p @ q) = msg_size p" by (intro msg_size_append) simp
    have step: "tokenize cb os p c = tokenize cb os (drop (msg_size p) p) (snd r)"
      using big 1(2) by (subst tokenize.simps) (simp add: r_def)
    have stepq: "tokenize cb os (p @ q) c = tokenize cb os (drop (msg_size p) p @ q) (snd r)"
      using big 1(2) by (subst tokenize.simps) (simp add: r_def ms)
    show ?thesis unfolding stepq
      using 1(1) big 1(2,3) unfolding step by (simp add: r_def)
  qed
qed

text \<open>Messages in wire format: the size field holds the length.\<close>

definition wire_message :: "uint8 list \<Rightarrow> bool" where
  "wire_message msg \<longleftrightarrow> HEADER_SIZE \<le> length msg \<and> msg_size msg = length msg"

abbreviation record_cb :: "uint8 list list mst_cb" where
  "record_cb \<equiv> \<lambda>c msg. (GNUNET_OK, c @ [msg])"

lemma tokenize_messages:
  assumes "list_all wire_message msgs"
  shows "tokenize record_cb GNUNET_NO (concat msgs) c = (GNUNET_OK, [], c @ msgs)"
  using assms
proof (induction msgs arbitrary: c)
  case Nil
  then show ?case by (subst tokenize.simps) simp
next
  case (Cons msg msgs)
  then have "msg_size (msg @ concat msgs) = length msg"
    using msg_size_append[of msg] by (auto simp: wire_message_def)
  then have "tokenize record_cb GNUNET_NO (concat (msg # msgs)) c =
      tokenize record_cb GNUNET_NO (concat msgs) (c @ [msg])"
    using Cons.prems by (subst tokenize.simps) (simp add: wire_message_def)
  then show ?case using Cons by simp
qed

text \<open>A stream that arrives in chunks, each at some address.\<close>

fun mst_feed :: "nat \<Rightarrow> 'c mst_cb \<Rightarrow> (nat \<times> uint8 list) list \<Rightarrow> mst \<Rightarrow> 'c \<Rightarrow> (int \<times> mst \<times> 'c) option" where
  "mst_feed align cb [] m c = Some (GNUNET_OK, m, c)"
| "mst_feed align cb ((addr, chunk) # chunks) m c =
     (case GNUNET_MST_from_buffer align cb m chunk addr False GNUNET_NO c of
        None \<Rightarrow> None
      | Some (rc, m', c') \<Rightarrow> if rc = GNUNET_OK then mst_feed align cb chunks m' c' else Some (rc, m', c'))"

lemma tokenize_prefix_ok:
  assumes "os = GNUNET_NO" "tokenize cb os (p @ q) c = (GNUNET_OK, rest, c')"
  shows "\<exists>rest c1. tokenize cb os p c = (GNUNET_OK, rest, c1)"
  using assms
proof (induction cb os p c rule: tokenize.induct)
  case (1 cb os p c)
  show ?case
  proof (cases "length p < HEADER_SIZE \<or> HEADER_SIZE \<le> msg_size p \<and> length p < msg_size p")
    case True
    then have "tokenize cb os p c = (GNUNET_OK, p, c)" by (subst tokenize.simps) auto
    then show ?thesis by simp
  next
    case False
    define r where "r = cb c (take (msg_size p) p)"
    have "msg_size (p @ q) = msg_size p" using False by (intro msg_size_append) simp
    then have eq: "tokenize cb os (p @ q) c =
        (if msg_size p < HEADER_SIZE then (GNUNET_SYSERR, p @ q, c)
         else if fst r = GNUNET_SYSERR then (GNUNET_SYSERR, drop (msg_size p) p @ q, snd r)
         else tokenize cb os (drop (msg_size p) p @ q) (snd r))"
      using False 1(2) by (subst tokenize.simps) (auto simp: r_def)
    have big: "HEADER_SIZE \<le> length p" "HEADER_SIZE \<le> msg_size p" "msg_size p \<le> length p" "fst r \<noteq> GNUNET_SYSERR"
      and nxt: "tokenize cb os (drop (msg_size p) p @ q) (snd r) = (GNUNET_OK, rest, c')"
      using False 1(3) unfolding eq by (auto split: if_splits)
    have step: "tokenize cb os p c = tokenize cb os (drop (msg_size p) p) (snd r)"
      using big 1(2) by (subst tokenize.simps) (simp add: r_def)
    show ?thesis unfolding step
      using 1(1) big 1(2) nxt by (simp add: r_def)
  qed
qed

lemma tokenize_rest:
  assumes "tokenize cb os p c = (GNUNET_OK, rest, c')"
  shows "tokenize cb os' rest d = (GNUNET_OK, rest, d)"
  using assms
proof (induction cb os p c rule: tokenize.induct)
  case (1 cb os p c)
  show ?case
  proof (cases "length p < HEADER_SIZE \<or> HEADER_SIZE \<le> msg_size p \<and> length p < msg_size p")
    case True
    then have "tokenize cb os p c = (GNUNET_OK, p, c)" "tokenize cb os' p d = (GNUNET_OK, p, d)"
      by (subst tokenize.simps; auto)+
    then show ?thesis using 1(2) by simp
  next
    case False
    then show ?thesis using 1 by (auto simp: tokenize.simps[of cb os p c] split: if_splits)
  qed
qed

lemma mst_feed_ok:
  assumes "mst_wf m" "tokenize cb GNUNET_NO (pending m) c = (GNUNET_OK, pending m, c)"
    and "tokenize cb GNUNET_NO (pending m @ concat (List.map snd chunks)) c = (GNUNET_OK, rest, c')"
  shows "\<exists>m'. mst_feed align cb chunks m c = Some (GNUNET_OK, m', c') \<and> mst_wf m' \<and> pending m' = rest"
  using assms
proof (induction chunks arbitrary: m c)
  case Nil
  then show ?case by simp
next
  case (Cons x chunks)
  obtain addr chunk where x: "x = (addr, chunk)" by fastforce
  define more where "more = concat (List.map snd chunks)"
  have all: "tokenize cb GNUNET_NO ((pending m @ chunk) @ more) c = (GNUNET_OK, rest, c')"
    using Cons.prems(3) by (simp add: x more_def)
  obtain r1 c1 where first: "tokenize cb GNUNET_NO (pending m @ chunk) c = (GNUNET_OK, r1, c1)"
    using tokenize_prefix_ok[OF refl all] by auto
  obtain m1 where m1: "GNUNET_MST_from_buffer align cb m chunk addr False GNUNET_NO c = Some (GNUNET_OK, m1, c1)"
      "mst_wf m1" "pending m1 = r1"
    using mst_from_buffer_spec[OF Cons.prems(1), of False cb GNUNET_NO chunk c align addr] first
    by (auto simp: mst_result_def)
  have "tokenize cb GNUNET_NO (pending m1 @ more) c1 = (GNUNET_OK, rest, c')"
    using tokenize_append[OF refl first, of more] all m1(3) by simp
  then show ?case
    using Cons.IH[OF m1(2)] tokenize_rest[OF first, of GNUNET_NO c1] m1 by (simp add: x more_def)
qed

section \<open>Properties\<close>

text \<open>C4: \<^verbatim>\<open>GNUNET_MST_from_buffer\<close> implements the abstract tokenizer for any alignment, input address and mode: no assertion fails, no byte is written outside the buffer, the callback sees exactly the abstract messages, the return code agrees, and the bytes left over are kept (or purged).\<close>

theorem mst_from_buffer_refines:
  assumes "mst_wf m"
  shows "case tokenize cb one_shot (pending m @ buf) c of (rc, rest, c') \<Rightarrow>
    \<exists>m'. GNUNET_MST_from_buffer align cb m buf addr purge one_shot c = Some (rc, m', c') \<and> mst_wf m' \<and>
      (rc \<noteq> GNUNET_SYSERR \<longrightarrow> pending m' = (if purge then [] else rest))"
  using mst_from_buffer_spec[OF assms, of purge cb one_shot buf c align addr]
  by (auto simp: mst_result_def split: prod.splits)

theorem mst_from_buffer_refines_witness:
  "mst_wf GNUNET_MST_create \<and>
   (case tokenize record_cb GNUNET_YES [0, 4, 0, 9, 0, 5] [] of (rc, rest, c') \<Rightarrow>
      \<exists>m'. GNUNET_MST_from_buffer 8 record_cb GNUNET_MST_create [0, 4, 0, 9, 0, 5] 3 False GNUNET_YES [] = Some (rc, m', c') \<and>
        mst_wf m' \<and> (rc \<noteq> GNUNET_SYSERR \<longrightarrow> pending m' = (if False then [] else rest)))"
  using mst_from_buffer_refines[OF mst_create_wf(1), where cb = record_cb and one_shot = GNUNET_YES
      and buf = "[0, 4, 0, 9, 0, 5]" and c = "[]" and align = 8 and addr = 3 and purge = False]
  by (simp add: mst_create_wf)

text \<open>C24: A stream may be cut anywhere: feeding two chunks one after the other, from any addresses, calls the callback like feeding them at once, with the same return code and the same bytes left over.\<close>

theorem mst_chunking_independent:
  assumes "mst_wf m"
    and "GNUNET_MST_from_buffer align cb m a addr1 False GNUNET_NO c = Some (GNUNET_OK, m1, c1)"
  shows "\<exists>rc m2 m' c'. GNUNET_MST_from_buffer align cb m1 b addr2 False GNUNET_NO c1 = Some (rc, m2, c') \<and>
    GNUNET_MST_from_buffer align cb m (a @ b) addr3 False GNUNET_NO c = Some (rc, m', c') \<and>
    (rc \<noteq> GNUNET_SYSERR \<longrightarrow> pending m2 = pending m')"
proof -
  obtain rest where first: "tokenize cb GNUNET_NO (pending m @ a) c = (GNUNET_OK, rest, c1)"
      and m1: "mst_wf m1" "pending m1 = rest"
    using mst_from_buffer_spec[OF assms(1), of False cb GNUNET_NO a c align addr1] assms(2)
    by (auto simp: mst_result_def split: prod.splits)
  have "tokenize cb GNUNET_NO (pending m @ a @ b) c = tokenize cb GNUNET_NO (pending m1 @ b) c1"
    using tokenize_append[OF refl first, of b] m1(2) by simp
  then show ?thesis
    using mst_from_buffer_spec[OF m1(1), of False cb GNUNET_NO b c1 align addr2]
      mst_from_buffer_spec[OF assms(1), of False cb GNUNET_NO "a @ b" c align addr3]
    by (auto simp: mst_result_def split: prod.splits)
qed

theorem mst_chunking_independent_witness:
  "\<exists>m1 c1 rc m2 m' c'.
     GNUNET_MST_from_buffer 8 record_cb GNUNET_MST_create [0, 6, 0] 1 False GNUNET_NO [] = Some (GNUNET_OK, m1, c1) \<and>
     GNUNET_MST_from_buffer 8 record_cb m1 [9, 7, 7, 0] 0 False GNUNET_NO c1 = Some (rc, m2, c') \<and>
     GNUNET_MST_from_buffer 8 record_cb GNUNET_MST_create ([0, 6, 0] @ [9, 7, 7, 0]) 5 False GNUNET_NO [] = Some (rc, m', c') \<and>
     (rc \<noteq> GNUNET_SYSERR \<longrightarrow> pending m2 = pending m')"
proof -
  have "tokenize record_cb GNUNET_NO [0, 6, 0] [] = (GNUNET_OK, [0, 6, 0], [])" by (subst tokenize.simps) simp
  then obtain m1 where
    m1: "GNUNET_MST_from_buffer 8 record_cb GNUNET_MST_create [0, 6, 0] 1 False GNUNET_NO [] = Some (GNUNET_OK, m1, [])"
    using mst_from_buffer_spec[OF mst_create_wf(1), of False record_cb GNUNET_NO "[0, 6, 0]" "[]" 8 1]
    by (auto simp: mst_result_def mst_create_wf)
  show ?thesis
    using m1 mst_chunking_independent[OF mst_create_wf(1) m1, of "[9, 7, 7, 0]" 0 5] by blast
qed

text \<open>C10: Every message gets through: however the bytes of a sequence of well-formed messages are cut into chunks, once all chunks were fed to a new tokenizer the callback was called with exactly these messages in order, and nothing is left over.\<close>

theorem mst_delivers_all_messages:
  assumes "list_all wire_message msgs" "concat (List.map snd chunks) = concat msgs"
  shows "\<exists>m'. mst_feed align record_cb chunks GNUNET_MST_create [] = Some (GNUNET_OK, m', msgs) \<and> pending m' = []"
proof -
  have "tokenize record_cb GNUNET_NO [] [] = (GNUNET_OK, [], [])" by (subst tokenize.simps) simp
  then show ?thesis
    using mst_feed_ok[OF mst_create_wf(1), of record_cb "[]" chunks "[]" msgs align] assms
      tokenize_messages[OF assms(1), of "[]"]
    by (auto simp: mst_create_wf)
qed

theorem mst_delivers_all_messages_witness:
  "concat (List.map snd [(3, [0]), (8, [5, 0, 1, 7, 0, 4, 0]), (0, [2])]) = concat [[0, 5, 0, 1, 7], [0, 4, 0, 2 :: uint8]] \<and>
   (\<exists>m'. mst_feed 8 record_cb [(3, [0]), (8, [5, 0, 1, 7, 0, 4, 0]), (0, [2])] GNUNET_MST_create [] =
      Some (GNUNET_OK, m', [[0, 5, 0, 1, 7], [0, 4, 0, 2]]) \<and> pending m' = [])"
  using mst_delivers_all_messages[of "[[0, 5, 0, 1, 7], [0, 4, 0, 2]]" "[(3, [0]), (8, [5, 0, 1, 7, 0, 4, 0]), (0, [2])]" 8]
  by (simp add: wire_message_def msg_size_def)

text \<open>A tokenizer that reads from a socket never runs out of room: after a read that asks for more data there is space left in the buffer, so the next \<^verbatim>\<open>recv\<close> is never asked for zero bytes, whose result would be taken for a closed connection.\<close>

lemma mst_read_keeps_room:
  assumes "mst_wf m" "m_pos m < length (m_buf m)"
    and "\<And>n bs. recv n = RecvBytes bs \<Longrightarrow> length bs \<le> n"
  shows "\<exists>rc m' c'. GNUNET_MST_read align cb m recv purge one_shot c = Some (rc, m', c') \<and> mst_wf m' \<and>
    (rc = GNUNET_OK \<longrightarrow> m_pos m' < length (m_buf m'))"
proof (cases "recv (length (m_buf m) - m_pos m)")
  case (RecvError t)
  then show ?thesis using assms by (simp add: GNUNET_MST_read_def)
next
  case (RecvBytes bs)
  show ?thesis
  proof (cases "bs = []")
    case True
    then show ?thesis using RecvBytes assms by (simp add: GNUNET_MST_read_def)
  next
    case False
    have "m_pos m + length bs \<le> length (m_buf m)" using assms(2) assms(3)[OF RecvBytes] by simp
    then obtain ibuf where w: "mem_write (m_buf m) (m_pos m) bs = Some ibuf"
      and wf: "mst_wf (m\<lparr>m_buf := ibuf, m_pos := m_pos m + length bs\<rparr>)"
      using mem_write_append[OF assms(1)] by blast
    then show ?thesis
      using False RecvBytes mst_from_buffer_spec[OF wf, of purge cb one_shot "[]" c align 0]
      by (auto simp: GNUNET_MST_read_def mst_result_def split: prod.splits)
  qed
qed

end
