(* ===== verification/CustomMap.thy ===== *)
theory CustomMap
  imports MultiPeerMap MultiHashMap32
begin

text \<open>
  The indexed peer set of the random peer sampling service
  (\<^verbatim>\<open>src/src/rps/gnunet-service-rps_custommap.c\<close>): a map from indices to peers and a map from peers
  to indices, kept consistent so that the indices in use are exactly those below the size. The values
  in both maps are pointers to allocated cells; the cells are the two stores of the record, and the
  addresses of new cells are arguments of \<^verbatim>\<open>CustomPeerMap_put\<close>. \<^verbatim>\<open>None\<close> is a failed assertion, an access
  through a dangling pointer, or a table that can not grow any more.
\<close>

section \<open>State and operations\<close>

record CustomPeerMap =
  hash_map :: "nat MultiHashMap32"
  peer_map :: "nat MultiPeerMap"
  index_cells :: "nat \<Rightarrow> uint32 option"
  peer_cells :: "nat \<Rightarrow> PeerIdentity option"

definition CustomPeerMap_create :: "uint32 \<Rightarrow> CustomPeerMap option" where
  "CustomPeerMap_create len =
     (case (GNUNET_CONTAINER_multihashmap32_create len, GNUNET_CONTAINER_multipeermap_create len False) of
        (Some hm, Some pm) \<Rightarrow>
          Some \<lparr>hash_map = hm, peer_map = pm, index_cells = (\<lambda>a. None), peer_cells = (\<lambda>a. None)\<rparr>
      | _ \<Rightarrow> None)"

definition CustomPeerMap_size :: "CustomPeerMap \<Rightarrow> uint32 option" where
  "CustomPeerMap_size c =
     (if GNUNET_CONTAINER_multihashmap32_size (hash_map c) = GNUNET_CONTAINER_multipeermap_size (peer_map c)
      then Some (GNUNET_CONTAINER_multipeermap_size (peer_map c)) else None)"

definition CustomPeerMap_put ::
  "nat \<Rightarrow> nat \<Rightarrow> CustomPeerMap \<Rightarrow> PeerIdentity \<Rightarrow> (int \<times> CustomPeerMap) option" where
  "CustomPeerMap_put index p c peer =
     Option.bind (CustomPeerMap_size c) (\<lambda>n.
       if GNUNET_CONTAINER_multipeermap_contains (peer_map c) peer = GNUNET_NO
       then
         Option.bind (GNUNET_CONTAINER_multipeermap_put (peer_map c) peer index OPT_UNIQUE_FAST) (\<lambda>(rc1, pm).
         Option.bind (GNUNET_CONTAINER_multihashmap32_put (hash_map c) n p OPT_UNIQUE_FAST) (\<lambda>(rc2, hm).
           let c' = c\<lparr>hash_map := hm, peer_map := pm, index_cells := (index_cells c)(index \<mapsto> n),
                      peer_cells := (peer_cells c)(p \<mapsto> peer)\<rparr>
           in Option.bind (CustomPeerMap_size c') (\<lambda>_. Some (GNUNET_OK, c'))))
       else Some (GNUNET_NO, c))"

definition CustomPeerMap_contains_peer :: "CustomPeerMap \<Rightarrow> PeerIdentity \<Rightarrow> int" where
  "CustomPeerMap_contains_peer c peer = GNUNET_CONTAINER_multipeermap_contains (peer_map c) peer"

definition CustomPeerMap_get_index_pointer :: "CustomPeerMap \<Rightarrow> PeerIdentity \<Rightarrow> nat option" where
  "CustomPeerMap_get_index_pointer c peer =
     (if CustomPeerMap_contains_peer c peer = GNUNET_YES
      then GNUNET_CONTAINER_multipeermap_get (peer_map c) peer else None)"

text \<open>
  Filling the gap at \<open>idx\<close> with the peer at the last index: the part of
  \<^verbatim>\<open>CustomPeerMap_remove_peer\<close> that runs when the removed peer was not the last one.
\<close>

definition fill_gap :: "uint32 \<Rightarrow> uint32 \<Rightarrow> CustomPeerMap \<Rightarrow> CustomPeerMap option" where
  "fill_gap idx n c =
     Option.bind (GNUNET_CONTAINER_multihashmap32_get (hash_map c) n) (\<lambda>last_p.
     Option.bind (peer_cells c last_p) (\<lambda>last_peer.
     Option.bind (GNUNET_CONTAINER_multipeermap_get (peer_map c) last_peer) (\<lambda>last_index.
     Option.bind (index_cells c last_index) (\<lambda>li.
       if li \<noteq> n then None
       else
         Option.bind (GNUNET_CONTAINER_multihashmap32_put (hash_map c) idx last_p OPT_UNIQUE_FAST) (\<lambda>(rc, hm).
           Some (c\<lparr>hash_map := snd (GNUNET_CONTAINER_multihashmap32_remove_all hm li),
                   index_cells := (index_cells c)(last_index \<mapsto> idx)\<rparr>))))))"

definition CustomPeerMap_remove_peer ::
  "CustomPeerMap \<Rightarrow> PeerIdentity \<Rightarrow> (int \<times> CustomPeerMap) option" where
  "CustomPeerMap_remove_peer c peer =
     (if CustomPeerMap_contains_peer c peer = GNUNET_NO then Some (GNUNET_NO, c)
      else
        Option.bind (CustomPeerMap_get_index_pointer c peer) (\<lambda>index.
        Option.bind (index_cells c index) (\<lambda>idx.
        Option.bind (CustomPeerMap_size c) (\<lambda>n.
          if \<not> idx < n then None
          else
            Option.bind (GNUNET_CONTAINER_multihashmap32_get (hash_map c) idx) (\<lambda>p.
              let c1 = c\<lparr>hash_map := snd (GNUNET_CONTAINER_multihashmap32_remove_all (hash_map c) idx),
                         peer_map := snd (GNUNET_CONTAINER_multipeermap_remove_all (peer_map c) peer)\<rparr>
              in Option.bind (CustomPeerMap_size c1) (\<lambda>n1.
                 Option.bind (if idx \<noteq> n1 then fill_gap idx n1 c1 else Some c1) (\<lambda>c2.
                   let c3 = c2\<lparr>index_cells := (index_cells c2)(index := None),
                               peer_cells := (peer_cells c2)(p := None)\<rparr>
                   in Option.bind (CustomPeerMap_size c3) (\<lambda>_. Some (GNUNET_OK, c3)))))))))"

definition CustomPeerMap_get_peer_by_index :: "CustomPeerMap \<Rightarrow> uint32 \<Rightarrow> nat option" where
  "CustomPeerMap_get_peer_by_index c index =
     (if GNUNET_CONTAINER_multihashmap32_contains (hash_map c) index = GNUNET_YES
      then GNUNET_CONTAINER_multihashmap32_get (hash_map c) index else None)"

definition CustomPeerMap_remove_peer_by_index ::
  "CustomPeerMap \<Rightarrow> uint32 \<Rightarrow> (int \<times> CustomPeerMap) option" where
  "CustomPeerMap_remove_peer_by_index c index =
     Option.bind (CustomPeerMap_size c) (\<lambda>n.
       if n \<le> index then Some (GNUNET_NO, c)
       else if GNUNET_CONTAINER_multihashmap32_contains (hash_map c) index = GNUNET_NO then Some (GNUNET_NO, c)
       else
         Option.bind (CustomPeerMap_get_peer_by_index c index) (\<lambda>p.
         Option.bind (peer_cells c p) (\<lambda>peer.
         Option.bind (CustomPeerMap_get_index_pointer c peer) (\<lambda>index_p.
           if index_cells c index_p \<noteq> Some index then None
           else
             Option.bind (CustomPeerMap_remove_peer c peer) (\<lambda>(rc, c').
             Option.bind (CustomPeerMap_size c') (\<lambda>_. Some (GNUNET_OK, c')))))))"

text \<open>
  Clearing removes the last peer until the set is empty. The loop ends because every round removes
  one; it is \<^verbatim>\<open>None\<close> when an assertion fails on the way.
\<close>

partial_function (option) CustomPeerMap_clear :: "CustomPeerMap \<Rightarrow> CustomPeerMap option" where
  "CustomPeerMap_clear c =
     Option.bind (CustomPeerMap_size c) (\<lambda>n.
       if n = 0 then Some c
       else if GNUNET_CONTAINER_multihashmap32_contains (hash_map c) (n - 1) \<noteq> GNUNET_YES then None
       else
         Option.bind (CustomPeerMap_remove_peer_by_index c (n - 1)) (\<lambda>(rc, c').
           if rc \<noteq> GNUNET_OK then None else CustomPeerMap_clear c'))"

definition CustomPeerMap_destroy :: "CustomPeerMap \<Rightarrow> (nat Entry32Of list \<times> nat PeerEntryOf list) option" where
  "CustomPeerMap_destroy c =
     Option.bind (CustomPeerMap_clear c) (\<lambda>c'.
       Some (GNUNET_CONTAINER_multihashmap32_destroy (hash_map c'),
             GNUNET_CONTAINER_multipeermap_destroy (peer_map c')))"

section \<open>Abstraction\<close>

text \<open>
  The set is the list of its peers, the peer with index \<open>i\<close> at position \<open>i\<close>; \<open>ia\<close> and \<open>pa\<close> are the
  addresses of the index cells and the peer cells.
\<close>

definition index_map :: "nat list \<Rightarrow> uint32 \<Rightarrow> nat option" where
  "index_map pa k = (if unat k < length pa then Some (pa ! unat k) else None)"

definition cpm_rep :: "CustomPeerMap \<Rightarrow> PeerIdentity list \<Rightarrow> nat list \<Rightarrow> nat list \<Rightarrow> bool" where
  "cpm_rep c ps ia pa \<longleftrightarrow>
     mhm32_wf (hash_map c) \<and> mpm_wf (peer_map c) \<and> distinct ps \<and> length ps < 2 ^ 32 \<and>
     length ia = length ps \<and> length pa = length ps \<and> distinct ia \<and> distinct pa \<and>
     mhm_entries (hash_map c) = map_entries (index_map pa) \<and>
     mhm_entries (peer_map c) = map_entries (map_of (zip ps ia)) \<and>
     (\<forall>i < length ps. index_cells c (ia ! i) = Some (of_nat i) \<and> peer_cells c (pa ! i) = Some (ps ! i))"

definition cpm_list :: "CustomPeerMap \<Rightarrow> PeerIdentity list \<Rightarrow> bool" where
  "cpm_list c ps \<longleftrightarrow> (\<exists>ia pa. cpm_rep c ps ia pa)"

text \<open>Removing from the abstract list: the last element takes the place of the removed one.\<close>

definition swap_remove :: "nat \<Rightarrow> 'a list \<Rightarrow> 'a list" where
  "swap_remove i xs = (butlast xs)[i := last xs]"

lemma length_swap_remove [simp]: "length (swap_remove i xs) = length xs - 1"
  by (simp add: swap_remove_def)

lemma nth_swap_remove:
  "j < length xs - 1 \<Longrightarrow> swap_remove i xs ! j = (if j = i then xs ! (length xs - 1) else xs ! j)"
  using last_conv_nth[of xs] by (cases "xs = []") (auto simp: swap_remove_def nth_butlast nth_list_update)

lemma swap_remove_nth_ex:
  assumes "i < length xs" "j < length xs - 1"
  shows "\<exists>k < length xs. k \<noteq> i \<and> swap_remove i xs ! j = xs ! k"
proof (cases "j = i")
  case True
  then show ?thesis using assms by (intro exI[of _ "length xs - 1"]) (auto simp: nth_swap_remove)
next
  case False
  then show ?thesis using assms by (intro exI[of _ j]) (auto simp: nth_swap_remove)
qed

lemma swap_remove_set:
  assumes "distinct xs" "i < length xs"
  shows "set (swap_remove i xs) = set xs - {xs ! i}"
proof
  show "set (swap_remove i xs) \<subseteq> set xs - {xs ! i}"
  proof
    fix x assume "x \<in> set (swap_remove i xs)"
    then obtain j where "j < length xs - 1" "x = swap_remove i xs ! j" by (auto simp: in_set_conv_nth)
    then obtain k where "k < length xs" "k \<noteq> i" "x = xs ! k" using swap_remove_nth_ex[OF assms(2)] by metis
    then show "x \<in> set xs - {xs ! i}" using assms by (auto simp: nth_eq_iff_index_eq)
  qed
  show "set xs - {xs ! i} \<subseteq> set (swap_remove i xs)"
  proof
    fix x assume "x \<in> set xs - {xs ! i}"
    then obtain j where j: "j < length xs" "x = xs ! j" "j \<noteq> i" by (auto simp: in_set_conv_nth)
    show "x \<in> set (swap_remove i xs)"
    proof (cases "j < length xs - 1")
      case True
      then show ?thesis using j nth_mem[of j "swap_remove i xs"] by (simp add: nth_swap_remove)
    next
      case False
      then have "j = length xs - 1" using j by simp
      then show ?thesis using j assms(2) nth_mem[of i "swap_remove i xs"] by (simp add: nth_swap_remove)
    qed
  qed
qed

lemma distinct_swap_remove: "distinct xs \<Longrightarrow> i < length xs \<Longrightarrow> distinct (swap_remove i xs)"
  using swap_remove_set[of xs i] by (intro card_distinct) (simp add: distinct_card)

section \<open>The two maps\<close>

lemma finite_index_map [simp]: "finite (dom (index_map pa))"
  by (rule finite)

lemma unat_small: "n < 2 ^ 32 \<Longrightarrow> unat (of_nat n :: uint32) = n"
  by (simp add: unat_of_nat)

lemma of_nat_eq_small: "i < 2 ^ 32 \<Longrightarrow> j < 2 ^ 32 \<Longrightarrow> (of_nat i :: uint32) = of_nat j \<longleftrightarrow> i = j"
  using unat_small by metis

lemma card_index_map:
  assumes "length pa < 2 ^ 32"
  shows "card (dom (index_map pa)) = length pa"
proof -
  have "dom (index_map pa) = (of_nat :: nat \<Rightarrow> uint32) ` {..< length pa}"
  proof (intro set_eqI iffI)
    fix k assume "k \<in> dom (index_map pa)"
    then have "unat k < length pa" by (auto simp: index_map_def split: if_splits)
    then show "k \<in> of_nat ` {..< length pa}" by (auto intro!: image_eqI[of _ _ "unat k"])
  qed (use assms in \<open>auto simp: index_map_def unat_of_nat\<close>)
  moreover have "inj_on (of_nat :: nat \<Rightarrow> uint32) {..< length pa}"
    using assms by (intro inj_onI) (simp add: of_nat_eq_small)
  ultimately show ?thesis by (simp add: card_image)
qed

lemma index_map_append:
  "length pa < 2 ^ 32 \<Longrightarrow> (index_map pa)(of_nat (length pa) \<mapsto> a) = index_map (pa @ [a])"
  using unat_small[of "length pa"]
  by (intro ext) (auto simp: index_map_def nth_append less_Suc_eq word_unat_eq_iff)

lemma index_map_swap_remove:
  assumes "i < length pa" "length pa < 2 ^ 32"
  shows "(if i = length pa - 1 then (index_map pa)(of_nat i := None)
      else ((index_map pa)(of_nat i := None, of_nat i \<mapsto> pa ! (length pa - 1)))(of_nat (length pa - 1) := None)) =
    index_map (swap_remove i pa)"
proof (rule ext)
  fix k :: uint32
  have k: "k = of_nat j \<longleftrightarrow> unat k = j" if "j < length pa" for j
    using that assms(2) unat_small[of j] by auto
  show "(if i = length pa - 1 then (index_map pa)(of_nat i := None)
      else ((index_map pa)(of_nat i := None, of_nat i \<mapsto> pa ! (length pa - 1)))(of_nat (length pa - 1) := None)) k =
    index_map (swap_remove i pa) k"
    using assms(1) k[of i] k[of "length pa - 1"] by (auto simp: index_map_def nth_swap_remove)
qed

lemma zip_lookup:
  "distinct ps \<Longrightarrow> length ia = length ps \<Longrightarrow> i < length ps \<Longrightarrow> map_of (zip ps ia) (ps ! i) = Some (ia ! i)"
  by (rule map_of_zip_nth) simp_all

lemma map_of_zip_swap_remove:
  assumes "distinct ps" "length ia = length ps" "i < length ps"
  shows "(map_of (zip ps ia))(ps ! i := None) = map_of (zip (swap_remove i ps) (swap_remove i ia))"
proof (rule ext)
  fix p
  let ?ps = "swap_remove i ps" and ?ia = "swap_remove i ia"
  have len: "length ?ia = length ?ps" using assms by simp
  show "((map_of (zip ps ia))(ps ! i := None)) p = map_of (zip ?ps ?ia) p"
  proof (cases "p \<in> set ?ps")
    case True
    then obtain j where j: "j < length ps - 1" "p = ?ps ! j" by (auto simp: in_set_conv_nth)
    then have "map_of (zip ?ps ?ia) p = Some (?ia ! j)"
      using zip_lookup[OF distinct_swap_remove[OF assms(1,3)] len, of j] by simp
    moreover have "p \<noteq> ps ! i" using True swap_remove_set[OF assms(1,3)] by auto
    moreover have "map_of (zip ps ia) p = Some (?ia ! j)"
      using j assms zip_lookup[OF assms(1,2), of j] zip_lookup[OF assms(1,2), of "length ps - 1"]
      by (auto simp: nth_swap_remove)
    ultimately show ?thesis by simp
  next
    case False
    then have "map_of (zip ?ps ?ia) p = None" using len by (simp add: map_of_zip_is_None)
    moreover have "p = ps ! i \<or> map_of (zip ps ia) p = None"
      using False swap_remove_set[OF assms(1,3)] assms(2) by (auto simp: map_of_zip_is_None)
    ultimately show ?thesis by auto
  qed
qed

section \<open>What the operations do\<close>

lemma cpm_repD:
  assumes "cpm_rep c ps ia pa"
  shows "mhm32_wf (hash_map c)" "mpm_wf (peer_map c)" "distinct ps" "length ps < 2 ^ 32"
    "length ia = length ps" "length pa = length ps" "distinct ia" "distinct pa"
    "mhm_entries (hash_map c) = map_entries (index_map pa)"
    "mhm_entries (peer_map c) = map_entries (map_of (zip ps ia))"
    "\<And>i. i < length ps \<Longrightarrow> index_cells c (ia ! i) = Some (of_nat i)"
    "\<And>i. i < length ps \<Longrightarrow> peer_cells c (pa ! i) = Some (ps ! i)"
  using assms by (auto simp: cpm_rep_def)

lemma dom_zip: "length ia = length ps \<Longrightarrow> dom (map_of (zip ps ia)) = set ps"
  by (simp add: dom_map_of_zip)

lemma cpm_size:
  assumes "cpm_rep c ps ia pa"
  shows "CustomPeerMap_size c = Some (of_nat (length ps))"
proof -
  note D = cpm_repD[OF assms]
  have "GNUNET_CONTAINER_multihashmap32_size (hash_map c) = of_nat (length ps)"
    using m32u.count_map[OF D(1,9)] card_index_map[of pa] D(4,6) by simp
  moreover have "GNUNET_CONTAINER_multipeermap_size (peer_map c) = of_nat (length ps)"
    using mpmu.count_map[OF D(2,10)] dom_zip[OF D(5)] distinct_card[OF D(3)] by simp
  ultimately show ?thesis by (simp add: CustomPeerMap_size_def)
qed

lemma cpm_contains:
  assumes "cpm_rep c ps ia pa"
  shows "CustomPeerMap_contains_peer c peer = (if peer \<in> set ps then GNUNET_YES else GNUNET_NO)"
proof -
  note D = cpm_repD[OF assms]
  have "GNUNET_CONTAINER_multipeermap_contains (peer_map c) peer =
      (if map_of (zip ps ia) peer = None then GNUNET_NO else GNUNET_YES)"
    by (rule mpmu.contains_map[OF D(2,10) finite_dom_map_of])
  then show ?thesis using D(5) by (auto simp: CustomPeerMap_contains_peer_def map_of_zip_is_None)
qed

lemma cpm_index_pointer:
  assumes "cpm_rep c ps ia pa" "i < length ps"
  shows "CustomPeerMap_get_index_pointer c (ps ! i) = Some (ia ! i)"
proof -
  note D = cpm_repD[OF assms(1)]
  have "GNUNET_CONTAINER_multipeermap_get (peer_map c) (ps ! i) = map_of (zip ps ia) (ps ! i)"
    by (rule mpmu.get_map[OF D(2,10) finite_dom_map_of])
  then show ?thesis using assms(2) cpm_contains[OF assms(1)] zip_lookup[OF D(3,5) assms(2)]
    by (simp add: CustomPeerMap_get_index_pointer_def)
qed

lemma cpm_hash_get:
  assumes "cpm_rep c ps ia pa"
  shows "GNUNET_CONTAINER_multihashmap32_get (hash_map c) k = index_map pa k"
    "GNUNET_CONTAINER_multihashmap32_contains (hash_map c) k = (if unat k < length ps then GNUNET_YES else GNUNET_NO)"
  using m32u.get_map[OF cpm_repD(1,9)[OF assms]] m32u.contains_map[OF cpm_repD(1,9)[OF assms]] cpm_repD(6)[OF assms]
  by (simp_all add: index_map_def)

lemma cpm_get_peer_by_index:
  assumes "cpm_rep c ps ia pa"
  shows "CustomPeerMap_get_peer_by_index c k = index_map pa k"
  using cpm_hash_get[OF assms, of k] cpm_repD(6)[OF assms]
  by (simp add: CustomPeerMap_get_peer_by_index_def index_map_def)

text \<open>Adding a peer.\<close>

lemma cpm_put:
  assumes rep: "cpm_rep c ps ia pa" and room: "chainmap_room (hash_map c)" "chainmap_room (peer_map c)"
    and new: "peer \<notin> set ps" "index \<notin> set ia" "p \<notin> set pa" and len: "Suc (length ps) < 2 ^ 32"
  shows "\<exists>c'. CustomPeerMap_put index p c peer = Some (GNUNET_OK, c') \<and>
    cpm_rep c' (ps @ [peer]) (ia @ [index]) (pa @ [p])"
proof -
  note D = cpm_repD[OF rep]
  let ?n = "of_nat (length ps) :: uint32"
  have none: "map_of (zip ps ia) peer = None" using new(1) D(5) by (simp add: map_of_zip_is_None)
  then obtain pm where pm: "GNUNET_CONTAINER_multipeermap_put (peer_map c) peer index OPT_UNIQUE_FAST = Some (GNUNET_OK, pm)"
      "mpm_wf pm" "mhm_entries pm = map_entries ((map_of (zip ps ia))(peer \<mapsto> index))"
    using mpmu.put_map[OF D(2) room(2) D(10) finite_dom_map_of, of peer index OPT_UNIQUE_FAST] by auto
  have "index_map pa ?n = None" using D(4,6) by (simp add: index_map_def unat_small)
  then obtain hm where hm: "GNUNET_CONTAINER_multihashmap32_put (hash_map c) ?n p OPT_UNIQUE_FAST = Some (GNUNET_OK, hm)"
      "mhm32_wf hm" "mhm_entries hm = map_entries ((index_map pa)(?n \<mapsto> p))"
    using m32u.put_map[OF D(1) room(1) D(9) finite_index_map, of ?n p OPT_UNIQUE_FAST] by auto
  let ?c = "c\<lparr>hash_map := hm, peer_map := pm, index_cells := (index_cells c)(index \<mapsto> ?n),
    peer_cells := (peer_cells c)(p \<mapsto> peer)\<rparr>"
  have "(map_of (zip ps ia))(peer \<mapsto> index) = map_of (zip (ps @ [peer]) (ia @ [index]))"
    using new(1) D(5)
    by (auto simp: fun_eq_iff map_add_def split: option.splits dest!: map_of_SomeD set_zip_leftD)
  moreover have "(index_map pa)(?n \<mapsto> p) = index_map (pa @ [p])"
    using index_map_append[of pa p] D(4,6) by simp
  ultimately have rep': "cpm_rep ?c (ps @ [peer]) (ia @ [index]) (pa @ [p])"
    using D new len pm hm by (auto simp: cpm_rep_def nth_append less_Suc_eq)
  have "GNUNET_CONTAINER_multipeermap_contains (peer_map c) peer = GNUNET_NO"
    using cpm_contains[OF rep] new(1) by (simp add: CustomPeerMap_contains_peer_def)
  then have "CustomPeerMap_put index p c peer = Some (GNUNET_OK, ?c)"
    using cpm_size[OF rep] cpm_size[OF rep'] pm(1) hm(1) by (simp add: CustomPeerMap_put_def Let_def)
  then show ?thesis using rep' by blast
qed

text \<open>Removing a peer.\<close>

lemma cpm_remove_maps:
  assumes rep: "cpm_rep c ps ia pa" and i: "i < length ps"
  defines "c1 \<equiv> c\<lparr>hash_map := snd (GNUNET_CONTAINER_multihashmap32_remove_all (hash_map c) (of_nat i)),
      peer_map := snd (GNUNET_CONTAINER_multipeermap_remove_all (peer_map c) (ps ! i))\<rparr>"
  shows "mhm32_wf (hash_map c1)" "mhm_entries (hash_map c1) = map_entries ((index_map pa)(of_nat i := None))"
    "chainmap_room (hash_map c1) = chainmap_room (hash_map c)" "mpm_wf (peer_map c1)"
    "mhm_entries (peer_map c1) = map_entries (map_of (zip (swap_remove i ps) (swap_remove i ia)))"
    "CustomPeerMap_size c1 = Some (of_nat (length ps - 1))"
proof -
  note D = cpm_repD[OF rep]
  show h: "mhm32_wf (hash_map c1)" "mhm_entries (hash_map c1) = map_entries ((index_map pa)(of_nat i := None))"
      "chainmap_room (hash_map c1) = chainmap_room (hash_map c)"
    using m32u.remove_key_map[OF D(1,9) finite_index_map, of "of_nat i"] by (simp_all add: c1_def)
  show p: "mpm_wf (peer_map c1)"
      "mhm_entries (peer_map c1) = map_entries (map_of (zip (swap_remove i ps) (swap_remove i ia)))"
    using mpmu.remove_key_map[OF D(2,10) finite_dom_map_of, of "ps ! i"] map_of_zip_swap_remove[OF D(3,5) i]
    by (simp_all add: c1_def)
  have "dom ((index_map pa)(of_nat i := None)) = dom (index_map pa) - {of_nat i}" by simp
  moreover have "of_nat i \<in> dom (index_map pa)" using i D(4,6) by (auto simp: index_map_def unat_small)
  ultimately have "GNUNET_CONTAINER_multihashmap32_size (hash_map c1) = of_nat (length ps - 1)"
    using m32u.count_map[OF h(1,2)] card_index_map[of pa] D(4,6) by (simp add: card_Diff_singleton)
  moreover have "GNUNET_CONTAINER_multipeermap_size (peer_map c1) = of_nat (length ps - 1)"
    using mpmu.count_map[OF p] dom_zip[of "swap_remove i ia" "swap_remove i ps"] D(5)
      distinct_card[OF distinct_swap_remove[OF D(3) i]] by simp
  ultimately show "CustomPeerMap_size c1 = Some (of_nat (length ps - 1))" by (simp add: CustomPeerMap_size_def)
qed

lemma cpm_fill_gap:
  assumes rep: "cpm_rep c ps ia pa" and m: "length ps = Suc n" and i: "i < n" and room: "chainmap_room (hash_map c)"
  defines "c1 \<equiv> c\<lparr>hash_map := snd (GNUNET_CONTAINER_multihashmap32_remove_all (hash_map c) (of_nat i)),
      peer_map := snd (GNUNET_CONTAINER_multipeermap_remove_all (peer_map c) (ps ! i))\<rparr>"
  shows "\<exists>hm. fill_gap (of_nat i) (of_nat n) c1 =
      Some (c1\<lparr>hash_map := hm, index_cells := (index_cells c)(ia ! n \<mapsto> of_nat i)\<rparr>) \<and>
    mhm32_wf hm \<and> mhm_entries hm = map_entries (index_map (swap_remove i pa))"
proof -
  note D = cpm_repD[OF rep]
  let ?w = "of_nat n :: uint32"
  have i': "i < length ps" and n: "n < length ps" "n \<noteq> i" using i m by auto
  note M = cpm_remove_maps[OF rep i', folded c1_def]
  have room1: "chainmap_room (hash_map c1)" using M(3) room by simp
  have fin: "finite (dom ((index_map pa)(of_nat i := None)))" by (rule finite)
  have ne: "(of_nat i :: uint32) \<noteq> ?w" using n i D(4) of_nat_eq_small[of i n] by simp
  have "GNUNET_CONTAINER_multihashmap32_get (hash_map c1) ?w = ((index_map pa)(of_nat i := None)) ?w"
    by (rule m32u.get_map[OF M(1,2) fin])
  then have g1: "GNUNET_CONTAINER_multihashmap32_get (hash_map c1) ?w = Some (pa ! n)"
    using ne n D(4,6) by (auto simp: index_map_def unat_small)
  have sw: "swap_remove i ps ! i = ps ! n" "swap_remove i ia ! i = ia ! n"
    using i m D(5) by (simp_all add: nth_swap_remove)
  have g2: "GNUNET_CONTAINER_multipeermap_get (peer_map c1) (ps ! n) = Some (ia ! n)"
    using mpmu.get_map[OF M(4,5) finite_dom_map_of, of "ps ! n"]
      zip_lookup[OF distinct_swap_remove[OF D(3) i'], of "swap_remove i ia" i] i m D(5) sw by simp
  have cells: "peer_cells c1 (pa ! n) = Some (ps ! n)" "index_cells c1 (ia ! n) = Some ?w"
    using D(11,12)[OF n(1)] by (simp_all add: c1_def)
  obtain h2 where h2: "GNUNET_CONTAINER_multihashmap32_put (hash_map c1) (of_nat i) (pa ! n) OPT_UNIQUE_FAST = Some (GNUNET_OK, h2)"
      "mhm32_wf h2" "mhm_entries h2 = map_entries ((index_map pa)(of_nat i := None, of_nat i \<mapsto> pa ! n))"
    using m32u.put_map[OF M(1) room1 M(2) fin, of "of_nat i" "pa ! n" OPT_UNIQUE_FAST] by auto
  have fin2: "finite (dom ((index_map pa)(of_nat i := None, of_nat i \<mapsto> pa ! n)))" by (rule finite)
  let ?h3 = "snd (GNUNET_CONTAINER_multihashmap32_remove_all h2 ?w)"
  have "((index_map pa)(of_nat i := None, of_nat i \<mapsto> pa ! n))(?w := None) = index_map (swap_remove i pa)"
    using index_map_swap_remove[of i pa] i n m D(4,6) by auto
  then have "mhm32_wf ?h3 \<and> mhm_entries ?h3 = map_entries (index_map (swap_remove i pa))"
    using m32u.remove_key_map[OF h2(2,3) fin2, of ?w] by simp
  moreover have "index_cells c1 = index_cells c" by (simp add: c1_def)
  ultimately show ?thesis using g1 g2 cells h2(1) by (intro exI[of _ ?h3]) (simp add: fill_gap_def)
qed

text \<open>The cells after a removal: those of the removed peer are gone, the last peer's index has changed.\<close>

lemma swap_remove_cells:
  assumes D: "distinct xs" "length xs = Suc n" and i: "i \<le> n"
    and cells: "\<And>j. j \<le> n \<Longrightarrow> f (xs ! j) = Some (g j)"
    and f': "f' = (if i = n then f else f(xs ! n \<mapsto> g'))(xs ! i := None)"
    and j: "j < n"
  shows "f' (swap_remove i xs ! j) = Some (if j = i then g' else g j)"
proof (cases "j = i")
  case True
  then have "swap_remove i xs ! j = xs ! n" "i \<noteq> n" "xs ! n \<noteq> xs ! i"
    using D j by (simp_all add: nth_swap_remove nth_eq_iff_index_eq)
  then show ?thesis using True f' by simp
next
  case False
  then have "swap_remove i xs ! j = xs ! j" "xs ! j \<noteq> xs ! i" "xs ! j \<noteq> xs ! n"
    using D i j by (simp_all add: nth_swap_remove nth_eq_iff_index_eq)
  then show ?thesis using False f' cells[of j] j by auto
qed

lemma cpm_rep_removed:
  assumes rep: "cpm_rep c ps ia pa" and n: "length ps = Suc n" and i: "i \<le> n"
    and hm: "mhm32_wf (hash_map c')" "mhm_entries (hash_map c') = map_entries (index_map (swap_remove i pa))"
    and pm: "mpm_wf (peer_map c')"
      "mhm_entries (peer_map c') = map_entries (map_of (zip (swap_remove i ps) (swap_remove i ia)))"
    and ic: "index_cells c' = (if i = n then index_cells c else (index_cells c)(ia ! n \<mapsto> of_nat i))(ia ! i := None)"
    and pc: "peer_cells c' = (peer_cells c)(pa ! i := None)"
  shows "cpm_rep c' (swap_remove i ps) (swap_remove i ia) (swap_remove i pa)"
proof -
  note D = cpm_repD[OF rep]
  have i': "i < length ps" "i < length ia" "i < length pa" using i n D(5,6) by auto
  have "index_cells c' (swap_remove i ia ! j) = Some (of_nat j)" if "j < n" for j
    using swap_remove_cells[OF D(7) _ i _ ic that, of of_nat] D(5,11) n by simp
  moreover have "peer_cells c' (swap_remove i pa ! j) = Some (swap_remove i ps ! j)" if "j < n" for j
  proof -
    define k where "k = (if j = i then n else j)"
    have k: "k < length pa" "k \<noteq> i" "swap_remove i pa ! j = pa ! k" "swap_remove i ps ! j = ps ! k"
      using that n D(6) i by (auto simp: k_def nth_swap_remove)
    then have "pa ! k \<noteq> pa ! i" using D(8) i'(3) by (simp add: nth_eq_iff_index_eq)
    then show ?thesis using k D(6,12) by (simp add: pc)
  qed
  ultimately show ?thesis
    unfolding cpm_rep_def using D hm pm n distinct_swap_remove[OF D(3) i'(1)] distinct_swap_remove[OF D(7) i'(2)]
      distinct_swap_remove[OF D(8) i'(3)] by simp
qed

lemma cpm_remove:
  assumes rep: "cpm_rep c ps ia pa" and n: "length ps = Suc n" and i: "i \<le> n"
    and room: "chainmap_room (hash_map c) \<or> i = n"
  shows "\<exists>c'. CustomPeerMap_remove_peer c (ps ! i) = Some (GNUNET_OK, c') \<and>
    cpm_rep c' (swap_remove i ps) (swap_remove i ia) (swap_remove i pa) \<and>
    peer_cells c' = (peer_cells c)(pa ! i := None)"
proof -
  note D = cpm_repD[OF rep]
  have i': "i < length ps" using i n by simp
  let ?w = "of_nat i :: uint32"
  define c1 where "c1 = c\<lparr>hash_map := snd (GNUNET_CONTAINER_multihashmap32_remove_all (hash_map c) ?w),
      peer_map := snd (GNUNET_CONTAINER_multipeermap_remove_all (peer_map c) (ps ! i))\<rparr>"
  note M = cpm_remove_maps[OF rep i', folded c1_def]
  have lt: "?w < of_nat (length ps)" using i' D(4) by (simp add: word_less_nat_alt unat_small)
  have eq: "?w = of_nat n \<longleftrightarrow> i = n" using of_nat_eq_small[of i n] D(4) i n by simp
  define ic where "ic = (if i = n then index_cells c else (index_cells c)(ia ! n \<mapsto> ?w))"
  obtain hm where fill: "(if ?w \<noteq> of_nat n then fill_gap ?w (of_nat n) c1 else Some c1) =
        Some (c1\<lparr>hash_map := hm, index_cells := ic\<rparr>)"
      and hm: "mhm32_wf hm" "mhm_entries hm = map_entries (index_map (swap_remove i pa))"
  proof (cases "i = n")
    case True
    have "(index_map pa)(?w := None) = index_map (swap_remove i pa)"
      using index_map_swap_remove[of i pa] True n D(4,6) by simp
    then show ?thesis using that[of "hash_map c1"] True M by (simp add: c1_def ic_def)
  next
    case False
    then have "i < n" "chainmap_room (hash_map c)" using i room by auto
    from cpm_fill_gap[OF rep n this, folded c1_def] show ?thesis using that False eq by (auto simp: ic_def)
  qed
  define c3 where "c3 = c1\<lparr>hash_map := hm,
      index_cells := ic(ia ! i := None),
      peer_cells := (peer_cells c)(pa ! i := None)\<rparr>"
  have rep3: "cpm_rep c3 (swap_remove i ps) (swap_remove i ia) (swap_remove i pa)"
    by (rule cpm_rep_removed[OF rep n i]) (use hm M in \<open>simp_all add: c3_def ic_def\<close>)
  have pc: "peer_cells c1 = peer_cells c" by (simp add: c1_def)
  have "CustomPeerMap_remove_peer c (ps ! i) = Some (GNUNET_OK, c3)"
    using cpm_contains[OF rep, of "ps ! i"] i' cpm_index_pointer[OF rep i'] D(11)[OF i'] cpm_size[OF rep]
      lt cpm_hash_get(1)[OF rep, of ?w] D(4,6) M(6) n fill pc cpm_size[OF rep3]
    by (simp add: CustomPeerMap_remove_peer_def index_map_def unat_small c1_def[symmetric] Let_def c3_def)
  then show ?thesis using rep3 by (auto simp: c3_def)
qed

lemma cpm_remove_by_index:
  assumes rep: "cpm_rep c ps ia pa" and n: "length ps = Suc n"
  shows "\<exists>c'. CustomPeerMap_remove_peer_by_index c (of_nat n) = Some (GNUNET_OK, c') \<and>
    cpm_rep c' (butlast ps) (swap_remove n ia) (swap_remove n pa)"
proof -
  note D = cpm_repD[OF rep]
  have sw: "swap_remove n ps = butlast ps" using n by (simp add: swap_remove_def list_update_beyond)
  obtain c' where c': "CustomPeerMap_remove_peer c (ps ! n) = Some (GNUNET_OK, c')"
      "cpm_rep c' (butlast ps) (swap_remove n ia) (swap_remove n pa)"
    using cpm_remove[OF rep n, of n] sw by auto
  have u: "unat (of_nat n :: uint32) = n" using D(4) n by (simp add: unat_small)
  have lt: "\<not> (of_nat (length ps) :: uint32) \<le> of_nat n"
    using D(4) n u unat_small[of "length ps"] by (simp add: word_le_nat_alt del: of_nat_Suc)
  have "CustomPeerMap_remove_peer_by_index c (of_nat n) = Some (GNUNET_OK, c')"
    using cpm_size[OF rep] lt cpm_hash_get[OF rep, of "of_nat n"] cpm_get_peer_by_index[OF rep, of "of_nat n"] u n
      D(6) D(11,12)[of n] cpm_index_pointer[OF rep, of n] c'(1) cpm_size[OF c'(2)]
    by (simp add: CustomPeerMap_remove_peer_by_index_def index_map_def)
  then show ?thesis using c'(2) by blast
qed

lemma cpm_clear:
  assumes "cpm_rep c ps ia pa"
  shows "\<exists>c'. CustomPeerMap_clear c = Some c' \<and> cpm_rep c' [] [] []"
  using assms
proof (induction "length ps" arbitrary: c ps ia pa)
  case 0
  then have "ps = []" "ia = []" "pa = []" using cpm_repD(5,6)[OF 0(2)] by auto
  then show ?case using 0 cpm_size[OF 0(2)] by (subst CustomPeerMap_clear.simps) simp
next
  case (Suc n)
  have n: "length ps = Suc n" using Suc(2) by simp
  obtain c' where c': "CustomPeerMap_remove_peer_by_index c (of_nat n) = Some (GNUNET_OK, c')"
      "cpm_rep c' (butlast ps) (swap_remove n ia) (swap_remove n pa)"
    using cpm_remove_by_index[OF Suc(3) n] by blast
  have small: "Suc n < 2 ^ 32" using cpm_repD(4)[OF Suc(3)] n by simp
  then have nz: "(of_nat (Suc n) :: uint32) \<noteq> 0" "(of_nat (Suc n) :: uint32) - 1 = of_nat n"
    using of_nat_eq_small[of "Suc n" 0] by simp_all
  have "CustomPeerMap_clear c = CustomPeerMap_clear c'"
    using cpm_size[OF Suc(3)] nz n small cpm_hash_get(2)[OF Suc(3), of "of_nat n"] c'(1)
    by (subst CustomPeerMap_clear.simps) (simp add: unat_small del: of_nat_Suc)
  then show ?case using Suc(1)[OF _ c'(2)] n by simp
qed

section \<open>Properties\<close>

lemma cpm_list_put:
  assumes "cpm_list c ps" "chainmap_room (hash_map c)" "chainmap_room (peer_map c)"
    "index_cells c index = None" "peer_cells c p = None" "Suc (length ps) < 2 ^ 32"
  shows "\<exists>c'. CustomPeerMap_put index p c peer = Some (if peer \<in> set ps then GNUNET_NO else GNUNET_OK, c') \<and>
    cpm_list c' (if peer \<in> set ps then ps else ps @ [peer])"
proof -
  obtain ia pa where rep: "cpm_rep c ps ia pa" using assms(1) by (auto simp: cpm_list_def)
  note D = cpm_repD[OF rep]
  have new: "index \<notin> set ia" "p \<notin> set pa"
    using assms(4,5) D(5,6,11,12) by (metis in_set_conv_nth option.distinct(1))+
  show ?thesis
  proof (cases "peer \<in> set ps")
    case True
    then have "CustomPeerMap_put index p c peer = Some (GNUNET_NO, c)"
      using cpm_size[OF rep] cpm_contains[OF rep, of peer]
      by (simp add: CustomPeerMap_put_def CustomPeerMap_contains_peer_def)
    then show ?thesis using True assms(1) by simp
  next
    case False
    then show ?thesis using cpm_put[OF rep assms(2,3) False new assms(6)] by (auto simp: cpm_list_def)
  qed
qed

lemma cpm_list_remove:
  assumes "cpm_list c ps" "chainmap_room (hash_map c)"
  shows "\<exists>c' ps'. CustomPeerMap_remove_peer c peer = Some (if peer \<in> set ps then GNUNET_OK else GNUNET_NO, c') \<and>
    cpm_list c' ps' \<and>
    (if peer \<in> set ps then \<exists>i < length ps. ps ! i = peer \<and> ps' = swap_remove i ps else ps' = ps)"
proof -
  obtain ia pa where rep: "cpm_rep c ps ia pa" using assms(1) by (auto simp: cpm_list_def)
  show ?thesis
  proof (cases "peer \<in> set ps")
    case True
    then obtain i n where i: "i < length ps" "ps ! i = peer" and n: "length ps = Suc n"
      by (cases "length ps") (auto simp: in_set_conv_nth)
    then obtain c' where "CustomPeerMap_remove_peer c peer = Some (GNUNET_OK, c')" "cpm_list c' (swap_remove i ps)"
      using cpm_remove[OF rep n, of i] assms(2) by (auto simp: cpm_list_def)
    then show ?thesis using True i by auto
  next
    case False
    then show ?thesis using cpm_contains[OF rep, of peer] assms(1) by (auto simp: CustomPeerMap_remove_peer_def)
  qed
qed

lemma cpm_list_index:
  assumes "cpm_list c ps"
  shows "CustomPeerMap_size c = Some (of_nat (length ps)) \<and>
    Option.bind (CustomPeerMap_get_peer_by_index c k) (peer_cells c) =
      (if unat k < length ps then Some (ps ! unat k) else None)"
proof -
  obtain ia pa where rep: "cpm_rep c ps ia pa" using assms by (auto simp: cpm_list_def)
  then show ?thesis using cpm_get_peer_by_index[OF rep, of k] cpm_repD(6,12)[OF rep] cpm_size[OF rep]
    by (simp add: index_map_def)
qed

lemma cpm_create:
  assumes "CustomPeerMap_create len = Some c"
  shows "cpm_rep c [] [] []" "map_length (hash_map c) = len" "map_length (peer_map c) = len"
    "index_cells c = (\<lambda>a. None)" "peer_cells c = (\<lambda>a. None)"
proof -
  obtain hm pm where m: "chainmap_create len False = Some hm" "chainmap_create len False = Some pm"
      "c = \<lparr>hash_map = hm, peer_map = pm, index_cells = (\<lambda>a. None), peer_cells = (\<lambda>a. None)\<rparr>"
    using assms by (auto simp: CustomPeerMap_create_def multihashmap32_defs multipeermap_defs split: option.splits)
  have "dom (index_map []) = {}" by (auto simp: index_map_def)
  then have "map_entries (index_map []) = {#}" "map_entries (map_of (zip [] [])) = {#}"
    by (simp_all add: map_entries_def)
  then show "cpm_rep c [] [] []" "map_length (hash_map c) = len" "map_length (peer_map c) = len"
      "index_cells c = (\<lambda>a. None)" "peer_cells c = (\<lambda>a. None)"
    using chainmap_create_wf[OF m(1), of id] chainmap_create_wf[OF m(2), of peer_hash] m(3)
    by (simp_all add: cpm_rep_def)
qed


text \<open>A set with one peer, used by the instances below.\<close>

definition sample_peer :: "uint8 \<Rightarrow> PeerIdentity" where
  "sample_peer b = \<lparr>q_y = replicate 32 b\<rparr>"

definition sample_set :: CustomPeerMap where
  "sample_set = snd (the (CustomPeerMap_put 0 0 (the (CustomPeerMap_create 4)) (sample_peer 1)))"

lemma sample_set_ok:
  "cpm_list sample_set [sample_peer 1]" "chainmap_room (hash_map sample_set)" "chainmap_room (peer_map sample_set)"
  "index_cells sample_set 1 = None" "peer_cells sample_set 1 = None"
proof -
  obtain c where c: "CustomPeerMap_create 4 = Some c"
    by (auto simp: CustomPeerMap_create_def multihashmap32_defs multipeermap_defs chainmap_create_def)
  note C = cpm_create[OF c]
  have "cpm_list c []" using C(1) by (auto simp: cpm_list_def)
  then show "cpm_list sample_set [sample_peer 1]"
    using cpm_list_put[of c "[]" 0 0 "sample_peer 1"] C c by (auto simp: sample_set_def)
  show "chainmap_room (hash_map sample_set)" "chainmap_room (peer_map sample_set)"
      "index_cells sample_set 1 = None" "peer_cells sample_set 1 = None"
    by (simp_all add: sample_set_def CustomPeerMap_put_def CustomPeerMap_size_def CustomPeerMap_create_def
        multihashmap32_defs multipeermap_defs chainmap_create_def chainmap_size_def chainmap_contains_def
        chainmap_put_def mhm_push_def idx_of_def Let_def nth_replicate)
qed


text \<open>Clearing the set ends, without a failed assertion, with the empty set.\<close>

lemma custom_map_clear_terminates:
  assumes "cpm_list c ps"
  shows "\<exists>c'. CustomPeerMap_clear c = Some c' \<and> cpm_list c' [] \<and> CustomPeerMap_size c' = Some 0"
proof -
  obtain ia pa where "cpm_rep c ps ia pa" using assms by (auto simp: cpm_list_def)
  then obtain c' where "CustomPeerMap_clear c = Some c'" "cpm_rep c' [] [] []" using cpm_clear by blast
  then show ?thesis using cpm_size[of c' "[]"] by (auto simp: cpm_list_def)
qed

end
