(* ===== verification/RpsView.thy ===== *)
theory RpsView
  imports CustomMap
begin

text \<open>
  The view of the random peer sampling service (\<^verbatim>\<open>src/src/rps/gnunet-service-rps_view.c\<close>): an array of
  peers with a maximum length and a map from peers to their positions in the array. The static
  variables of the file are the record; the map's values are pointers to cells that hold the
  positions. A caller passes a peer by pointer, which may point into the array itself: what an
  operation reads through it after it has written to the array is modelled by \<open>PeerPtr\<close>. \<^verbatim>\<open>None\<close> is
  a failed assertion or an access to a cell or array element that does not exist.
\<close>

section \<open>State and operations\<close>

record View =
  v_array :: "PeerIdentity list"
  v_length :: uint32
  v_mpm :: "nat MultiPeerMap"
  v_cells :: "nat \<Rightarrow> uint32 option"

datatype PeerPtr = Outside PeerIdentity | Slot nat

definition deref :: "View \<Rightarrow> PeerPtr \<Rightarrow> PeerIdentity option" where
  "deref v ptr = (case ptr of Outside p \<Rightarrow> Some p
     | Slot i \<Rightarrow> if i < length (v_array v) then Some (v_array v ! i) else None)"

text \<open>\<^verbatim>\<open>GNUNET_array_grow\<close> keeps the common prefix and zeroes what is new.\<close>

definition array_grow :: "nat \<Rightarrow> PeerIdentity list \<Rightarrow> PeerIdentity list" where
  "array_grow len arr = take len arr @ replicate (len - length arr) zero_peer"

definition View_create :: "uint32 \<Rightarrow> View option" where
  "View_create len = map_option
     (\<lambda>m. \<lparr>v_array = replicate (unat len) zero_peer, v_length = len, v_mpm = m, v_cells = (\<lambda>a. None)\<rparr>)
     (GNUNET_CONTAINER_multipeermap_create len False)"

definition View_size :: "View \<Rightarrow> uint32" where
  "View_size v = GNUNET_CONTAINER_multipeermap_size (v_mpm v)"

definition View_contains_peer :: "View \<Rightarrow> PeerIdentity \<Rightarrow> int" where
  "View_contains_peer v peer = GNUNET_CONTAINER_multipeermap_contains (v_mpm v) peer"

text \<open>The two loops of \<^verbatim>\<open>View_change_len\<close>: freeing the positions, and filling a new map.\<close>

fun free_positions :: "PeerIdentity list \<Rightarrow> View \<Rightarrow> View option" where
  "free_positions [] v = Some v"
| "free_positions (p # ps) v =
     (case GNUNET_CONTAINER_multipeermap_get (v_mpm v) p of
        None \<Rightarrow> None
      | Some index \<Rightarrow> free_positions ps (v\<lparr>v_cells := (v_cells v)(index := None)\<rparr>))"

fun put_positions :: "nat list \<Rightarrow> uint32 \<Rightarrow> PeerIdentity list \<Rightarrow> View \<Rightarrow> View option" where
  "put_positions addrs i [] v = Some v"
| "put_positions [] i (p # ps) v = None"
| "put_positions (a # addrs) i (p # ps) v =
     (case GNUNET_CONTAINER_multipeermap_put (v_mpm v) p a OPT_UNIQUE_FAST of
        None \<Rightarrow> None
      | Some (rc, m) \<Rightarrow> put_positions addrs (i + 1) ps (v\<lparr>v_mpm := m, v_cells := (v_cells v)(a \<mapsto> i)\<rparr>))"

definition View_change_len :: "nat list \<Rightarrow> View \<Rightarrow> uint32 \<Rightarrow> View option" where
  "View_change_len addrs v len =
     (if View_size v < len
      then Some (v\<lparr>v_array := array_grow (unat len) (v_array v), v_length := len\<rparr>)
      else if length (v_array v) < unat len then None
      else
        Option.bind (free_positions (take (unat len) (v_array v)) v) (\<lambda>v1.
        Option.bind (GNUNET_CONTAINER_multipeermap_create len False) (\<lambda>m.
          put_positions addrs 0 (take (unat len) (v_array v))
            (v1\<lparr>v_array := array_grow (unat len) (v_array v), v_length := len, v_mpm := m\<rparr>))))"

definition View_get_as_array :: "View \<Rightarrow> PeerIdentity list" where
  "View_get_as_array v = v_array v"

definition View_put :: "nat \<Rightarrow> View \<Rightarrow> PeerIdentity \<Rightarrow> (int \<times> View) option" where
  "View_put index v peer =
     (if v_length v \<le> View_size v \<or> View_contains_peer v peer = GNUNET_YES then Some (GNUNET_NO, v)
      else
        let i = View_size v
        in if length (v_array v) \<le> unat i then None
           else
             case GNUNET_CONTAINER_multipeermap_put (v_mpm v) peer index OPT_UNIQUE_FAST of
               None \<Rightarrow> None
             | Some (rc, m) \<Rightarrow>
                 Some (GNUNET_OK, v\<lparr>v_array := (v_array v)[unat i := peer], v_mpm := m,
                                    v_cells := (v_cells v)(index \<mapsto> i)\<rparr>))"

text \<open>Moving the last peer into the gap at \<open>i\<close>; \<open>index\<close> is the position cell of the removed peer.\<close>

definition View_fill_gap :: "nat \<Rightarrow> uint32 \<Rightarrow> uint32 \<Rightarrow> View \<Rightarrow> View option" where
  "View_fill_gap index i last_index v =
     (if length (v_array v) \<le> unat last_index then None
      else
        let last_peer = v_array v ! unat last_index;
            v1 = v\<lparr>v_array := (v_array v)[unat i := last_peer]\<rparr>
        in if View_contains_peer v1 last_peer \<noteq> GNUNET_YES then None
           else Option.bind (GNUNET_CONTAINER_multipeermap_get (v_mpm v1) last_peer) (\<lambda>swap_index.
             Some (v1\<lparr>v_cells := (v_cells v1)(swap_index \<mapsto> i, index := None)\<rparr>)))"

definition View_remove_peer :: "View \<Rightarrow> PeerPtr \<Rightarrow> (int \<times> View) option" where
  "View_remove_peer v ptr =
     Option.bind (deref v ptr) (\<lambda>peer.
       if View_contains_peer v peer = GNUNET_NO then Some (GNUNET_NO, v)
       else
         Option.bind (GNUNET_CONTAINER_multipeermap_get (v_mpm v) peer) (\<lambda>index.
         Option.bind (v_cells v index) (\<lambda>i.
           let last_index = View_size v - 1
           in Option.bind (if i < last_index then View_fill_gap index i last_index v else Some v) (\<lambda>v1.
              Option.bind (deref v1 ptr) (\<lambda>peer'.
                Some (GNUNET_OK,
                  v1\<lparr>v_mpm := snd (GNUNET_CONTAINER_multipeermap_remove_all (v_mpm v1) peer')\<rparr>))))))"

definition View_get_peer_by_index :: "View \<Rightarrow> uint32 \<Rightarrow> PeerPtr option" where
  "View_get_peer_by_index v index =
     (if index < GNUNET_CONTAINER_multipeermap_size (v_mpm v) then Some (Slot (unat index)) else None)"

partial_function (option) clear_loop :: "nat \<Rightarrow> View \<Rightarrow> View option" where
  "clear_loop i v =
     (if View_size v = 0 then Some v
      else if length (v_array v) \<le> i then None
      else if GNUNET_CONTAINER_multipeermap_contains (v_mpm v) (v_array v ! i) \<noteq> GNUNET_YES then None
      else
        Option.bind (GNUNET_CONTAINER_multipeermap_get (v_mpm v) (v_array v ! i)) (\<lambda>index.
          clear_loop (Suc i)
            (v\<lparr>v_cells := (v_cells v)(index := None),
               v_mpm := snd (GNUNET_CONTAINER_multipeermap_remove_all (v_mpm v) (v_array v ! i))\<rparr>)))"

definition View_clear :: "View \<Rightarrow> View option" where
  "View_clear v = Option.bind (clear_loop 0 v) (\<lambda>v'. if View_size v' = 0 then Some v' else None)"

definition View_destroy :: "View \<Rightarrow> nat PeerEntryOf list option" where
  "View_destroy v = map_option (\<lambda>v'. GNUNET_CONTAINER_multipeermap_destroy (v_mpm v')) (View_clear v)"

section \<open>Abstraction\<close>

text \<open>The view is the list of its peers, in the order of their positions.\<close>

definition view_rep :: "View \<Rightarrow> PeerIdentity list \<Rightarrow> nat list \<Rightarrow> bool" where
  "view_rep v ps ia \<longleftrightarrow>
     mpm_wf (v_mpm v) \<and> distinct ps \<and> length (v_array v) = unat (v_length v) \<and>
     length ps \<le> length (v_array v) \<and> take (length ps) (v_array v) = ps \<and>
     length ia = length ps \<and> distinct ia \<and>
     mhm_entries (v_mpm v) = map_entries (map_of (zip ps ia)) \<and>
     (\<forall>i < length ps. v_cells v (ia ! i) = Some (of_nat i))"

definition view_list :: "View \<Rightarrow> PeerIdentity list \<Rightarrow> bool" where
  "view_list v ps \<longleftrightarrow> (\<exists>ia. view_rep v ps ia)"

lemma view_repD:
  assumes "view_rep v ps ia"
  shows "mpm_wf (v_mpm v)" "distinct ps" "length (v_array v) = unat (v_length v)"
    "length ps \<le> length (v_array v)" "take (length ps) (v_array v) = ps" "length ia = length ps" "distinct ia"
    "mhm_entries (v_mpm v) = map_entries (map_of (zip ps ia))"
    "\<And>i. i < length ps \<Longrightarrow> v_cells v (ia ! i) = Some (of_nat i)" "length ps < 2 ^ 32"
    "\<And>i. i < length ps \<Longrightarrow> v_array v ! i = ps ! i"
proof -
  show "length ps < 2 ^ 32"
    using assms unsigned_less[where 'a = nat, of "v_length v"] by (auto simp: view_rep_def)
  show "v_array v ! i = ps ! i" if "i < length ps" for i
    using assms that by (metis nth_take view_rep_def)
qed (use assms in \<open>auto simp: view_rep_def\<close>)

lemma view_size:
  assumes "view_rep v ps ia"
  shows "View_size v = of_nat (length ps)" "unat (View_size v) = length ps"
proof -
  note D = view_repD[OF assms]
  show "View_size v = of_nat (length ps)"
    using mpmu.count_map[OF D(1,8)] dom_zip[OF D(6)] distinct_card[OF D(2)] by (simp add: View_size_def)
  then show "unat (View_size v) = length ps" using D(10) by (simp add: unat_small)
qed

lemma view_contains:
  assumes "view_rep v ps ia"
  shows "View_contains_peer v peer = (if peer \<in> set ps then GNUNET_YES else GNUNET_NO)"
  using mpmu.contains_map[OF view_repD(1,8)[OF assms] finite_dom_map_of, of peer] view_repD(6)[OF assms]
  by (auto simp: View_contains_peer_def map_of_zip_is_None)

lemma view_get:
  assumes "view_rep v ps ia" "i < length ps"
  shows "GNUNET_CONTAINER_multipeermap_get (v_mpm v) (ps ! i) = Some (ia ! i)"
  using mpmu.get_map[OF view_repD(1,8)[OF assms(1)] finite_dom_map_of, of "ps ! i"]
    zip_lookup[OF view_repD(2,6)[OF assms(1)] assms(2)] by simp

section \<open>What the operations do\<close>

lemma zip_append_map:
  "length ia = length ps \<Longrightarrow> p \<notin> set ps \<Longrightarrow>
   (map_of (zip ps ia))(p \<mapsto> a) = map_of (zip (ps @ [p]) (ia @ [a]))"
  by (auto simp: fun_eq_iff map_add_def split: option.splits dest!: map_of_SomeD set_zip_leftD)

lemma view_put_new:
  assumes rep: "view_rep v ps ia" and room: "chainmap_room (v_mpm v)" and new: "index \<notin> set ia"
    and peer: "peer \<notin> set ps" and len: "length ps < unat (v_length v)"
  shows "\<exists>v'. View_put index v peer = Some (GNUNET_OK, v') \<and> view_rep v' (ps @ [peer]) (ia @ [index]) \<and>
    v_length v' = v_length v"
proof -
  note D = view_repD[OF rep]
  have none: "map_of (zip ps ia) peer = None" using peer D(6) by (simp add: map_of_zip_is_None)
  obtain m where m: "GNUNET_CONTAINER_multipeermap_put (v_mpm v) peer index OPT_UNIQUE_FAST = Some (GNUNET_OK, m)"
      "mpm_wf m" "mhm_entries m = map_entries ((map_of (zip ps ia))(peer \<mapsto> index))"
    using mpmu.put_map[OF D(1) room D(8) finite_dom_map_of none, of index OPT_UNIQUE_FAST] by auto
  let ?v = "v\<lparr>v_array := (v_array v)[length ps := peer], v_mpm := m, v_cells := (v_cells v)(index \<mapsto> of_nat (length ps))\<rparr>"
  have "take (Suc (length ps)) ((v_array v)[length ps := peer]) = ps @ [peer]"
    using D(3,5) len by (simp add: take_Suc_conv_app_nth take_update_cancel)
  then have rep': "view_rep ?v (ps @ [peer]) (ia @ [index])"
    using D m zip_append_map[OF D(6) peer, of index] new peer len
    by (auto simp: view_rep_def nth_append less_Suc_eq)
  have "\<not> v_length v \<le> View_size v" using view_size(2)[OF rep] len by (simp add: word_le_nat_alt)
  then have "View_put index v peer = Some (GNUNET_OK, ?v)"
    using view_contains[OF rep, of peer] peer view_size[OF rep] m(1) len D(3) by (simp add: View_put_def Let_def)
  then show ?thesis using rep' by auto
qed

lemma view_put_refused:
  assumes rep: "view_rep v ps ia" and "peer \<in> set ps \<or> length ps = unat (v_length v)"
  shows "View_put index v peer = Some (GNUNET_NO, v)"
proof -
  have "v_length v \<le> View_size v" if "length ps = unat (v_length v)"
    using view_size(2)[OF rep] that by (simp add: word_le_nat_alt)
  then show ?thesis using assms(2) view_contains[OF rep, of peer] by (auto simp: View_put_def)
qed

text \<open>Removing a peer that is passed from outside the array.\<close>

lemma view_fill_gap:
  assumes rep: "view_rep v ps ia" and n: "length ps = Suc n" and i: "i < n"
  shows "View_fill_gap (ia ! i) (of_nat i) (of_nat n) v =
    Some (v\<lparr>v_array := (v_array v)[i := ps ! n], v_cells := (v_cells v)(ia ! n \<mapsto> of_nat i, ia ! i := None)\<rparr>)"
proof -
  note D = view_repD[OF rep]
  have u: "unat (of_nat n :: uint32) = n" "unat (of_nat i :: uint32) = i"
    using D(10) n i by (simp_all add: unat_small)
  have "View_contains_peer (v\<lparr>v_array := xs\<rparr>) p = View_contains_peer v p" for xs p
    by (simp add: View_contains_peer_def)
  then show ?thesis
    using D(4) D(11)[of n] n u view_contains[OF rep, of "ps ! n"] view_get[OF rep, of n]
    by (simp add: View_fill_gap_def Let_def)
qed

lemma view_remove:
  assumes rep: "view_rep v ps ia" and n: "length ps = Suc n" and i: "i \<le> n"
  shows "\<exists>v'. View_remove_peer v (Outside (ps ! i)) = Some (GNUNET_OK, v') \<and>
    view_rep v' (swap_remove i ps) (swap_remove i ia) \<and> v_length v' = v_length v"
proof -
  note D = view_repD[OF rep]
  have i': "i < length ps" "i < length ia" using i n D(6) by auto
  define v1 where "v1 = (if i < n then v\<lparr>v_array := (v_array v)[i := ps ! n],
      v_cells := (v_cells v)(ia ! n \<mapsto> of_nat i, ia ! i := None)\<rparr> else v)"
  have "(of_nat i :: uint32) < of_nat n \<longleftrightarrow> i < n"
    using D(10) n i unat_small[of i] unat_small[of n] by (simp add: word_less_nat_alt)
  then have fill: "(if (of_nat i :: uint32) < of_nat n then View_fill_gap (ia ! i) (of_nat i) (of_nat n) v else Some v) = Some v1"
    using view_fill_gap[OF rep n] by (simp add: v1_def)
  define v2 where "v2 = v1\<lparr>v_mpm := snd (GNUNET_CONTAINER_multipeermap_remove_all (v_mpm v1) (ps ! i))\<rparr>"
  have run: "View_remove_peer v (Outside (ps ! i)) = Some (GNUNET_OK, v2)"
    using view_contains[OF rep, of "ps ! i"] i' view_get[OF rep i'(1)] D(9)[OF i'(1)] view_size(1)[OF rep] n fill
    by (simp add: View_remove_peer_def deref_def v2_def)
  have m: "mpm_wf (v_mpm v2)" "mhm_entries (v_mpm v2) = map_entries (map_of (zip (swap_remove i ps) (swap_remove i ia)))"
    using mpmu.remove_key_map[OF D(1,8) finite_dom_map_of, of "ps ! i"] map_of_zip_swap_remove[OF D(2,6) i'(1)]
    by (simp_all add: v2_def v1_def)
  have arr: "take n (v_array v2) = swap_remove i ps"
    using D(4,11) n i by (intro nth_equalityI) (auto simp: v2_def v1_def nth_swap_remove nth_list_update)
  have "v_cells v2 (swap_remove i ia ! j) = Some (of_nat j)" if j: "j < n" for j
  proof (cases "j = i")
    case True
    then have "swap_remove i ia ! j = ia ! n" "ia ! n \<noteq> ia ! i"
      using D(6,7) n j by (simp_all add: nth_swap_remove nth_eq_iff_index_eq)
    then show ?thesis using True j by (simp add: v2_def v1_def)
  next
    case False
    then have "swap_remove i ia ! j = ia ! j" "ia ! j \<noteq> ia ! i" "ia ! j \<noteq> ia ! n"
      using D(6,7) n i j by (simp_all add: nth_swap_remove nth_eq_iff_index_eq)
    then show ?thesis using D(9)[of j] n j by (simp add: v2_def v1_def)
  qed
  then have "view_rep v2 (swap_remove i ps) (swap_remove i ia)"
    unfolding view_rep_def using m arr D n distinct_swap_remove[OF D(2) i'(1)] distinct_swap_remove[OF D(7) i'(2)]
    by (simp add: v2_def v1_def)
  then show ?thesis using run by (auto simp: v2_def v1_def)
qed

text \<open>
  Removing a peer through a pointer into the array itself, as \<^verbatim>\<open>View_get_peer_by_index\<close> returns: the gap is
  filled before the pointer is read again, so the map loses the last peer instead of the removed one.
\<close>

lemma view_remove_by_slot:
  assumes rep: "view_rep v ps ia" and n: "length ps = Suc n" and i: "i < n"
  shows "\<exists>v'. View_remove_peer v (Slot i) = Some (GNUNET_OK, v') \<and> View_contains_peer v' (ps ! i) = GNUNET_YES \<and>
    View_contains_peer v' (ps ! n) = GNUNET_NO \<and> v_array v' ! i = ps ! n \<and> View_size v' = of_nat n"
proof -
  note D = view_repD[OF rep]
  have i': "i < length ps" "n < length ps" using i n by auto
  define v1 where "v1 = v\<lparr>v_array := (v_array v)[i := ps ! n],
      v_cells := (v_cells v)(ia ! n \<mapsto> of_nat i, ia ! i := None)\<rparr>"
  have "(of_nat i :: uint32) < of_nat n"
    using D(10) n i unat_small[of i] unat_small[of n] by (simp add: word_less_nat_alt)
  then have fill: "(if (of_nat i :: uint32) < of_nat n then View_fill_gap (ia ! i) (of_nat i) (of_nat n) v else Some v) = Some v1"
    using view_fill_gap[OF rep n i] by (simp add: v1_def)
  define v2 where "v2 = v1\<lparr>v_mpm := snd (GNUNET_CONTAINER_multipeermap_remove_all (v_mpm v1) (ps ! n))\<rparr>"
  have dr: "deref v (Slot i) = Some (ps ! i)" "deref v1 (Slot i) = Some (ps ! n)"
    using D(4,11) i' by (simp_all add: deref_def v1_def)
  have "View_remove_peer v (Slot i) = Some (GNUNET_OK, v2)"
    using dr view_contains[OF rep, of "ps ! i"] i' view_get[OF rep i'(1)] D(9)[OF i'(1)] view_size(1)[OF rep] n fill
    by (simp add: View_remove_peer_def v2_def)
  moreover have m: "mpm_wf (v_mpm v2)" "mhm_entries (v_mpm v2) = map_entries (map_of (zip (swap_remove n ps) (swap_remove n ia)))"
    using mpmu.remove_key_map[OF D(1,8) finite_dom_map_of, of "ps ! n"] map_of_zip_swap_remove[OF D(2,6) i'(2)]
    by (simp_all add: v2_def v1_def)
  moreover have "View_contains_peer v2 p = (if p \<in> set ps - {ps ! n} then GNUNET_YES else GNUNET_NO)" for p
    using mpmu.contains_map[OF m finite_dom_map_of, of p] D(6) swap_remove_set[OF D(2) i'(2)]
    by (auto simp: View_contains_peer_def map_of_zip_is_None)
  moreover have "ps ! i \<noteq> ps ! n" using D(2) i i' by (simp add: nth_eq_iff_index_eq)
  moreover have "View_size v2 = of_nat n"
    using mpmu.count_map[OF m] dom_zip[of "swap_remove n ia" "swap_remove n ps"] D(6) n
      distinct_card[OF distinct_swap_remove[OF D(2) i'(2)]] by (simp add: View_size_def)
  ultimately show ?thesis using i' D(4) by (auto simp: v2_def v1_def)
qed

text \<open>Clearing: the loop walks over the array while the map shrinks.\<close>

lemma clear_loop_ok:
  assumes "mpm_wf (v_mpm v)" "mhm_entries (v_mpm v) = map_entries (map_of (zip qs ja))" "length ja = length qs"
    "distinct qs" "length qs < 2 ^ 32" "v_array v = pre @ qs @ rest"
  shows "\<exists>v'. clear_loop (length pre) v = Some v' \<and> mpm_wf (v_mpm v') \<and> mhm_entries (v_mpm v') = {#} \<and>
    v_array v' = v_array v \<and> v_length v' = v_length v"
  using assms
proof (induction qs arbitrary: v ja pre)
  case Nil
  then have "mhm_entries (v_mpm v) = {#}" by (simp add: map_entries_def)
  then have "View_size v = 0" using mpmu.count_law[OF Nil(1)] by (simp add: View_size_def)
  then show ?case using Nil \<open>mhm_entries (v_mpm v) = {#}\<close> by (subst clear_loop.simps) simp
next
  case (Cons q qs)
  obtain a ja' where ja: "ja = a # ja'" using Cons.prems(3) by (cases ja) auto
  have fin: "finite (dom (map_of (zip (q # qs) ja)))" by (rule finite_dom_map_of)
  have "dom (map_of (zip (q # qs) ja)) = set (q # qs)" using Cons.prems(3) by (rule dom_zip)
  then have "View_size v = of_nat (length (q # qs))"
    using mpmu.count_map[OF Cons.prems(1,2)] distinct_card[OF Cons.prems(4)] by (simp add: View_size_def)
  then have sz: "View_size v \<noteq> 0" using of_nat_eq_small[of "length (q # qs)" 0] Cons.prems(5) by simp
  have get: "GNUNET_CONTAINER_multipeermap_get (v_mpm v) q = Some a"
      "GNUNET_CONTAINER_multipeermap_contains (v_mpm v) q = GNUNET_YES"
    using mpmu.get_map[OF Cons.prems(1,2) fin, of q] mpmu.contains_map[OF Cons.prems(1,2) fin, of q] ja by simp_all
  let ?v = "v\<lparr>v_cells := (v_cells v)(a := None), v_mpm := snd (GNUNET_CONTAINER_multipeermap_remove_all (v_mpm v) q)\<rparr>"
  have "(map_of (zip (q # qs) ja))(q := None) = map_of (zip qs ja')"
    using Cons.prems(3,4) ja by (auto simp: fun_eq_iff map_of_zip_is_None)
  then have "mpm_wf (v_mpm ?v)" "mhm_entries (v_mpm ?v) = map_entries (map_of (zip qs ja'))"
    using mpmu.remove_key_map[OF Cons.prems(1,2) fin, of q] by simp_all
  then have "\<exists>v'. clear_loop (length (pre @ [q])) ?v = Some v' \<and> mpm_wf (v_mpm v') \<and> mhm_entries (v_mpm v') = {#} \<and>
      v_array v' = v_array ?v \<and> v_length v' = v_length ?v"
    using Cons.prems ja by (intro Cons.IH[of ?v ja']) auto
  moreover have "clear_loop (length pre) v = clear_loop (Suc (length pre)) ?v"
    using sz get Cons.prems(6) by (subst clear_loop.simps) (simp add: nth_append)
  ultimately show ?case by simp
qed

lemma view_clear:
  assumes "view_rep v ps ia"
  shows "\<exists>v'. View_clear v = Some v' \<and> view_rep v' [] []"
proof -
  note D = view_repD[OF assms]
  have arr: "v_array v = [] @ ps @ drop (length ps) (v_array v)"
    using append_take_drop_id[of "length ps" "v_array v"] D(5) by simp
  obtain v' where v': "clear_loop 0 v = Some v'" "mpm_wf (v_mpm v')" "mhm_entries (v_mpm v') = {#}"
      "v_array v' = v_array v" "v_length v' = v_length v"
    using clear_loop_ok[OF D(1,8,6,2,10) arr] by auto
  then have "View_size v' = 0" using mpmu.count_law[OF v'(2)] by (simp add: View_size_def)
  then show ?thesis using v' D(3) by (auto simp: View_clear_def view_rep_def map_entries_def)
qed

section \<open>Properties\<close>

lemma view_list_put:
  assumes "view_list v ps" "chainmap_room (v_mpm v)" "v_cells v index = None"
  shows "\<exists>v'. View_put index v peer =
      Some (if peer \<in> set ps \<or> length ps = unat (v_length v) then GNUNET_NO else GNUNET_OK, v') \<and>
    view_list v' (if peer \<in> set ps \<or> length ps = unat (v_length v) then ps else ps @ [peer]) \<and>
    v_length v' = v_length v"
proof -
  obtain ia where rep: "view_rep v ps ia" using assms(1) by (auto simp: view_list_def)
  note D = view_repD[OF rep]
  have new: "index \<notin> set ia" using assms(3) D(6,9) by (metis in_set_conv_nth option.distinct(1))
  show ?thesis
  proof (cases "peer \<in> set ps \<or> length ps = unat (v_length v)")
    case True
    then show ?thesis using view_put_refused[OF rep] assms(1) by auto
  next
    case False
    then show ?thesis using view_put_new[OF rep assms(2) new, of peer] D(3,4) by (auto simp: view_list_def)
  qed
qed

lemma view_list_remove:
  assumes "view_list v ps"
  shows "\<exists>v' ps'. View_remove_peer v (Outside peer) = Some (if peer \<in> set ps then GNUNET_OK else GNUNET_NO, v') \<and>
    view_list v' ps' \<and> v_length v' = v_length v \<and>
    (if peer \<in> set ps then \<exists>i < length ps. ps ! i = peer \<and> ps' = swap_remove i ps else ps' = ps)"
proof -
  obtain ia where rep: "view_rep v ps ia" using assms(1) by (auto simp: view_list_def)
  show ?thesis
  proof (cases "peer \<in> set ps")
    case True
    then obtain i n where i: "i < length ps" "ps ! i = peer" and n: "length ps = Suc n"
      by (cases "length ps") (auto simp: in_set_conv_nth)
    then obtain v' where "View_remove_peer v (Outside peer) = Some (GNUNET_OK, v')" "view_list v' (swap_remove i ps)"
        "v_length v' = v_length v"
      using view_remove[OF rep n, of i] by (auto simp: view_list_def)
    then show ?thesis using True i by auto
  next
    case False
    then show ?thesis using view_contains[OF rep, of peer] assms(1)
      by (auto simp: View_remove_peer_def deref_def)
  qed
qed

text \<open>C22: The view implements a list of distinct peers of bounded length: a peer is appended unless it is there or the view is full; a peer passed by a pointer from outside the array is removed with the last peer taking its place; a peer is found under its position; clearing ends with the empty view. No assertion fails, no array access is out of range.\<close>

theorem view_refines_list:
  assumes "view_list v ps" "chainmap_room (v_mpm v)" "v_cells v index = None"
  shows "(\<exists>v'. View_put index v peer =
        Some (if peer \<in> set ps \<or> length ps = unat (v_length v) then GNUNET_NO else GNUNET_OK, v') \<and>
      view_list v' (if peer \<in> set ps \<or> length ps = unat (v_length v) then ps else ps @ [peer]) \<and>
      v_length v' = v_length v) \<and>
    (\<exists>v' ps'. View_remove_peer v (Outside peer) = Some (if peer \<in> set ps then GNUNET_OK else GNUNET_NO, v') \<and>
      view_list v' ps' \<and> v_length v' = v_length v \<and>
      (if peer \<in> set ps then \<exists>i < length ps. ps ! i = peer \<and> ps' = swap_remove i ps else ps' = ps)) \<and>
    Option.bind (View_get_peer_by_index v k) (deref v) = (if unat k < length ps then Some (ps ! unat k) else None) \<and>
    (\<exists>v'. View_clear v = Some v' \<and> view_list v' [])"
proof -
  obtain ia where rep: "view_rep v ps ia" using assms(1) by (auto simp: view_list_def)
  have "Option.bind (View_get_peer_by_index v k) (deref v) = (if unat k < length ps then Some (ps ! unat k) else None)"
    using view_size(2)[OF rep] view_repD(4,11)[OF rep]
    by (auto simp: View_get_peer_by_index_def View_size_def deref_def word_less_nat_alt)
  moreover have "\<exists>v'. View_clear v = Some v' \<and> view_list v' []"
    using view_clear[OF rep] by (auto simp: view_list_def)
  ultimately show ?thesis using view_list_put[OF assms, of peer] view_list_remove[OF assms(1), of peer] by blast
qed

text \<open>A view of length four without peers.\<close>

definition sample_view :: View where
  "sample_view = the (View_create 4)"

lemma sample_view_ok:
  "view_list sample_view []" "chainmap_room (v_mpm sample_view)" "v_cells sample_view a = None"
proof -
  obtain m :: "nat MultiPeerMap" where m: "GNUNET_CONTAINER_multipeermap_create 4 False = Some m"
    by (auto simp: multipeermap_defs chainmap_create_def)
  have w: "mpm_wf m" "mhm_entries m = {#}" "map_length m = 4"
    using chainmap_create_wf[of 4 False m peer_hash] m by (simp_all add: multipeermap_defs)
  have v: "sample_view = \<lparr>v_array = replicate 4 zero_peer, v_length = 4, v_mpm = m, v_cells = (\<lambda>a. None)\<rparr>"
    using m by (simp add: sample_view_def View_create_def)
  show "view_list sample_view []" "chainmap_room (v_mpm sample_view)" "v_cells sample_view a = None"
    using w by (simp_all add: v view_list_def view_rep_def map_entries_def)
qed

theorem view_refines_list_witness:
  "view_list sample_view [] \<and>
   (\<exists>v'. View_put 0 sample_view (sample_peer 1) = Some (GNUNET_OK, v') \<and> view_list v' [sample_peer 1])"
proof -
  have "v_length sample_view = 4"
    by (simp add: sample_view_def View_create_def multipeermap_defs chainmap_create_def)
  then show ?thesis
    using view_refines_list[OF sample_view_ok(1,2), of 0 "sample_peer 1" 0] sample_view_ok(1,3) by auto
qed

end
