(* ===== verification/Sampler.thy ===== *)
theory Sampler
  imports Time HashCode MultiPeerMap
begin

text \<open>
  The min-wise samplers of the random peer sampling service
  (\<^verbatim>\<open>src/src/rps/gnunet-service-rps_sampler_elem.c\<close>, \<^verbatim>\<open>gnunet-service-rps_sampler.c\<close>). A sampler element
  holds, of all peers it was fed, the one with the smallest keyed hash. The keyed hash
  (\<^verbatim>\<open>GNUNET_CRYPTO_hmac\<close>, libgcrypt) is the parameter \<open>hmac\<close>; random keys and the time are arguments.
  Keys have the type \<open>'k\<close>. Debug logging and the log files are left out.
\<close>

section \<open>Sampler elements\<close>

datatype RPS_SamplerEmpty = NOT_EMPTY | EMPTY

record 'k RPS_SamplerElement =
  auth_key :: 'k
  peer_id :: PeerIdentity
  peer_id_hash :: GNUNET_HashCode
  last_client_request :: GNUNET_TIME_Absolute
  is_empty :: RPS_SamplerEmpty
  birth :: GNUNET_TIME_Absolute
  num_peers :: uint32
  num_change :: uint32

definition RPS_sampler_elem_reinit ::
  "'k \<Rightarrow> GNUNET_TIME_Absolute \<Rightarrow> 'k RPS_SamplerElement \<Rightarrow> 'k RPS_SamplerElement" where
  "RPS_sampler_elem_reinit key now el =
     el\<lparr>is_empty := EMPTY, auth_key := key, last_client_request := GNUNET_TIME_absolute_get_forever,
        birth := now, num_peers := 0, num_change := 0\<rparr>"

definition RPS_sampler_elem_create :: "'k \<Rightarrow> GNUNET_TIME_Absolute \<Rightarrow> 'k RPS_SamplerElement" where
  "RPS_sampler_elem_create key now =
     RPS_sampler_elem_reinit key now
       \<lparr>auth_key = key, peer_id = zero_peer, peer_id_hash = \<lparr>bits = replicate hash_words 0\<rparr>,
        last_client_request = GNUNET_TIME_absolute_get_zero, is_empty = NOT_EMPTY,
        birth = GNUNET_TIME_absolute_get_zero, num_peers = 0, num_change = 0\<rparr>"

definition RPS_sampler_elem_next ::
  "('k \<Rightarrow> PeerIdentity \<Rightarrow> GNUNET_HashCode) \<Rightarrow> PeerIdentity \<Rightarrow> 'k RPS_SamplerElement \<Rightarrow> 'k RPS_SamplerElement" where
  "RPS_sampler_elem_next hmac other el =
     (let el1 = el\<lparr>num_peers := num_peers el + 1\<rparr>;
          el2 = (if other = peer_id el1 then el1
                 else
                   let other_hash = hmac (auth_key el1) other;
                       new = el1\<lparr>peer_id := other, peer_id_hash := other_hash, num_change := num_change el1 + 1\<rparr>
                   in if is_empty el1 = EMPTY then new
                      else if GNUNET_CRYPTO_hash_cmp other_hash (peer_id_hash el1) < 0 then new
                      else el1)
      in el2\<lparr>is_empty := NOT_EMPTY\<rparr>)"

definition RPS_sampler_elem_set :: "'k \<Rightarrow> 'k RPS_SamplerElement \<Rightarrow> 'k RPS_SamplerElement" where
  "RPS_sampler_elem_set key el = el\<lparr>auth_key := key\<rparr>"

section \<open>Samplers\<close>

record 'k RPS_Sampler =
  sampler_elements :: "'k RPS_SamplerElement list"
  max_round_interval :: GNUNET_TIME_Relative
  mod_get_peers :: bool

definition RPS_sampler_get_size :: "'k RPS_Sampler \<Rightarrow> nat" where
  "RPS_sampler_get_size s = length (sampler_elements s)"

text \<open>The keys of the elements that are new come from \<open>keys\<close>, by position.\<close>

definition sampler_resize :: "(nat \<Rightarrow> 'k) \<Rightarrow> GNUNET_TIME_Absolute \<Rightarrow> nat \<Rightarrow> 'k RPS_Sampler \<Rightarrow> 'k RPS_Sampler" where
  "sampler_resize keys now new_size s =
     (let old_size = RPS_sampler_get_size s
      in if old_size > new_size then s\<lparr>sampler_elements := take new_size (sampler_elements s)\<rparr>
         else if old_size < new_size
         then s\<lparr>sampler_elements := sampler_elements s @
                  map (\<lambda>i. RPS_sampler_elem_create (keys i) now) [old_size ..< new_size]\<rparr>
         else s)"

definition RPS_sampler_resize ::
  "(nat \<Rightarrow> 'k) \<Rightarrow> GNUNET_TIME_Absolute \<Rightarrow> nat \<Rightarrow> 'k RPS_Sampler \<Rightarrow> 'k RPS_Sampler option" where
  "RPS_sampler_resize keys now new_size s =
     (if 0 < new_size then Some (sampler_resize keys now new_size s) else None)"

definition sampler_empty :: "(nat \<Rightarrow> 'k) \<Rightarrow> GNUNET_TIME_Absolute \<Rightarrow> 'k RPS_Sampler \<Rightarrow> 'k RPS_Sampler" where
  "sampler_empty keys now s = sampler_resize keys now 0 s"

definition RPS_sampler_init ::
  "(nat \<Rightarrow> 'k) \<Rightarrow> GNUNET_TIME_Absolute \<Rightarrow> nat \<Rightarrow> GNUNET_TIME_Relative \<Rightarrow> 'k RPS_Sampler option" where
  "RPS_sampler_init keys now init_size interval =
     RPS_sampler_resize keys now init_size
       \<lparr>sampler_elements = [], max_round_interval = interval, mod_get_peers = False\<rparr>"

definition RPS_sampler_mod_init ::
  "(nat \<Rightarrow> 'k) \<Rightarrow> GNUNET_TIME_Absolute \<Rightarrow> nat \<Rightarrow> GNUNET_TIME_Relative \<Rightarrow> 'k RPS_Sampler option" where
  "RPS_sampler_mod_init keys now init_size interval =
     map_option (\<lambda>s. s\<lparr>mod_get_peers := True\<rparr>) (RPS_sampler_init keys now init_size interval)"

definition RPS_sampler_update ::
  "('k \<Rightarrow> PeerIdentity \<Rightarrow> GNUNET_HashCode) \<Rightarrow> PeerIdentity \<Rightarrow> 'k RPS_Sampler \<Rightarrow> 'k RPS_Sampler" where
  "RPS_sampler_update hmac pid s =
     s\<lparr>sampler_elements := map (RPS_sampler_elem_next hmac pid) (sampler_elements s)\<rparr>"

text \<open>The new keys come from \<open>keys\<close>, by the position of the element.\<close>

definition RPS_sampler_reinitialise_by_value ::
  "(nat \<Rightarrow> 'k) \<Rightarrow> GNUNET_TIME_Absolute \<Rightarrow> PeerIdentity \<Rightarrow> 'k RPS_Sampler \<Rightarrow> 'k RPS_Sampler" where
  "RPS_sampler_reinitialise_by_value keys now pid s =
     s\<lparr>sampler_elements :=
         map (\<lambda>(i, el). if pid = peer_id el then RPS_sampler_elem_reinit (keys i) now el else el)
           (zip [0 ..< length (sampler_elements s)] (sampler_elements s))\<rparr>"

definition RPS_sampler_count_id :: "PeerIdentity \<Rightarrow> 'k RPS_Sampler \<Rightarrow> uint32" where
  "RPS_sampler_count_id pid s =
     of_nat (length (filter (\<lambda>el. peer_id el = pid \<and> is_empty el \<noteq> EMPTY) (sampler_elements s)))"

section \<open>Requests\<close>

text \<open>Either the request is tried again after a delay, or a peer is delivered to its continuation.\<close>

datatype get_peer_result = Again GNUNET_TIME_Relative | Deliver PeerIdentity

definition sampler_get_rand_peer :: "nat \<Rightarrow> 'k RPS_Sampler \<Rightarrow> get_peer_result" where
  "sampler_get_rand_peer r_index s =
     (let el = sampler_elements s ! r_index
      in if is_empty el = EMPTY
         then Again (GNUNET_TIME_relative_multiply GNUNET_TIME_relative_get_second 1)
         else Deliver (peer_id el))"

text \<open>The modified sampler cycles through its elements; \<open>client_get_index\<close> is the static variable.\<close>

definition sampler_mod_get_rand_peer ::
  "GNUNET_TIME_Absolute \<Rightarrow> nat \<Rightarrow> 'k RPS_Sampler \<Rightarrow> nat \<times> 'k RPS_Sampler \<times> get_peer_result" where
  "sampler_mod_get_rand_peer now client_get_index s =
     (let idx = (client_get_index + 1) mod RPS_sampler_get_size s;
          el = sampler_elements s ! idx
      in if is_empty el = EMPTY then (idx, s, Again (max_round_interval s))
         else if last_client_request el \<noteq> GNUNET_TIME_absolute_get_forever \<and>
           rel_value_us (GNUNET_TIME_absolute_get_difference (last_client_request el) now) <
             rel_value_us (max_round_interval s)
         then (idx, s, Again (max_round_interval s))
         else (idx, s\<lparr>sampler_elements := (sampler_elements s)[idx := el\<lparr>last_client_request := now\<rparr>]\<rparr>,
               Deliver (peer_id el)))"

record RequestHandle =
  req_num_peers :: uint32
  req_cur_num_peers :: uint32
  req_ids :: "PeerIdentity list"

definition RPS_sampler_get_n_rand_peers :: "'k RPS_Sampler \<Rightarrow> uint32 \<Rightarrow> RequestHandle option option" where
  "RPS_sampler_get_n_rand_peers s n =
     (if RPS_sampler_get_size s = 0 then None
      else if n = 0 then Some None
      else Some (Some \<lparr>req_num_peers = n, req_cur_num_peers = 0, req_ids = replicate (unat n) zero_peer\<rparr>))"

text \<open>One single request was served: the peer is stored, and when all are there the client's callback
  is called with them.\<close>

definition check_n_peers_ready :: "nat \<Rightarrow> PeerIdentity \<Rightarrow> RequestHandle \<Rightarrow> RequestHandle \<times> PeerIdentity list option" where
  "check_n_peers_ready slot pid req =
     (let req' = req\<lparr>req_ids := (req_ids req)[slot := pid], req_cur_num_peers := req_cur_num_peers req + 1\<rparr>
      in (req', if req_num_peers req' = req_cur_num_peers req' then Some (req_ids req') else None))"

section \<open>What a sampler element holds\<close>

text \<open>An element is sound for the peers it was fed when it holds one of smallest hash under its key.\<close>

definition holds_min :: "('k \<Rightarrow> PeerIdentity \<Rightarrow> GNUNET_HashCode) \<Rightarrow> 'k RPS_SamplerElement \<Rightarrow> PeerIdentity set \<Rightarrow> bool" where
  "holds_min hmac el S \<longleftrightarrow> is_empty el = NOT_EMPTY \<and> peer_id el \<in> S \<and>
     peer_id_hash el = hmac (auth_key el) (peer_id el) \<and>
     (\<forall>x \<in> S. hash_val (hmac (auth_key el) (peer_id el)) \<le> hash_val (hmac (auth_key el) x))"

lemma next_key [simp]:
  "auth_key (RPS_sampler_elem_next hmac x el) = auth_key el"
  "num_peers (RPS_sampler_elem_next hmac x el) = num_peers el + 1"
  by (simp_all add: RPS_sampler_elem_next_def Let_def)

lemma next_first:
  assumes "is_empty el = EMPTY" "x \<noteq> peer_id el"
  shows "holds_min hmac (RPS_sampler_elem_next hmac x el) {x}"
  using assms by (simp add: RPS_sampler_elem_next_def holds_min_def Let_def)

lemma next_holds_min:
  assumes "holds_min hmac el S"
  shows "holds_min hmac (RPS_sampler_elem_next hmac x el) (insert x S)"
  using assms
  by (auto simp: RPS_sampler_elem_next_def holds_min_def Let_def hash_cmp_val sgn_if split: if_splits)

lemma fold_next_holds_min:
  assumes "holds_min hmac el S"
  shows "holds_min hmac (fold (RPS_sampler_elem_next hmac) xs el) (S \<union> set xs)"
  using assms
proof (induction xs arbitrary: el S)
  case (Cons x xs)
  then show ?case using Cons.IH[OF next_holds_min[OF Cons.prems, of x]] by simp
qed simp

lemma fold_next_counts:
  "auth_key (fold (RPS_sampler_elem_next hmac) xs el) = auth_key el"
  "num_peers (fold (RPS_sampler_elem_next hmac) xs el) = num_peers el + of_nat (length xs)"
  by (induction xs arbitrary: el) (simp_all add: algebra_simps)

lemma fold_next_fresh:
  assumes "is_empty el = EMPTY" "peer_id el \<notin> set xs" "xs \<noteq> []"
  shows "holds_min hmac (fold (RPS_sampler_elem_next hmac) xs el) (set xs)"
proof -
  obtain x ys where xs: "xs = x # ys" using assms(3) by (cases xs) auto
  have "holds_min hmac (RPS_sampler_elem_next hmac x el) {x}" using assms xs by (intro next_first) auto
  then show ?thesis using fold_next_holds_min[of hmac _ "{x}" ys] xs by simp
qed

text \<open>Without hash collisions the held peer is determined by the set of peers.\<close>

lemma holds_min_unique:
  assumes "holds_min hmac el S" "holds_min hmac el' S" "auth_key el = auth_key el'"
    "inj_on (\<lambda>x. hash_val (hmac (auth_key el) x)) S"
  shows "peer_id el = peer_id el'"
  using assms unfolding holds_min_def by (metis inj_onD order_antisym)

section \<open>Properties\<close>


text \<open>A keyed hash for the instances below: the first byte of the key, which is added to the peer's.\<close>

definition toy_hmac :: "uint32 \<Rightarrow> PeerIdentity \<Rightarrow> GNUNET_HashCode" where
  "toy_hmac key p = hash_of_word (key + peer_hash p)"

lemma short_peer [simp]: "\<lparr>q_y = [a, b, c, d]\<rparr> \<noteq> zero_peer" "zero_peer \<noteq> \<lparr>q_y = [a, b, c, d]\<rparr>"
  by (auto simp: zero_peer_def dest: arg_cong[where f = length])


text \<open>An emptied sampler element is not emptied completely: reinitialisation draws a new key but keeps the old peer and its hash. When the peer it held comes first again, the element counts as filled with the hash under the old key, and a peer whose hash under the new key is smaller than that of the held peer is then refused unless it is also smaller than the old hash.\<close>

lemma sampler_elem_reinit_keeps_stale_hash:
  assumes "GNUNET_CRYPTO_hash_cmp (hmac key y) (peer_id_hash el) \<ge> 0" "y \<noteq> peer_id el"
  shows "let el1 = RPS_sampler_elem_next hmac (peer_id el) (RPS_sampler_elem_reinit key now el);
      el2 = RPS_sampler_elem_next hmac y el1
    in is_empty el1 = NOT_EMPTY \<and> auth_key el1 = key \<and> peer_id_hash el1 = peer_id_hash el \<and>
      peer_id el2 = peer_id el \<and> peer_id_hash el2 = peer_id_hash el"
  using assms by (simp add: RPS_sampler_elem_next_def RPS_sampler_elem_reinit_def Let_def)

text \<open>The element held the peer 9 under the key -7 (hash 2); under the new key 1 its hash is 10 and that of the peer 2 is 3, which is refused.\<close>

definition stale_elem :: "uint32 RPS_SamplerElement" where
  "stale_elem = RPS_sampler_elem_next toy_hmac \<lparr>q_y = [9, 0, 0, 0]\<rparr>
     (RPS_sampler_elem_create (- 7) GNUNET_TIME_absolute_get_zero)"

lemma stale_elem_fields: "peer_id stale_elem = \<lparr>q_y = [9, 0, 0, 0]\<rparr>" "peer_id_hash stale_elem = hash_of_word 2"
  by (simp_all add: stale_elem_def RPS_sampler_elem_next_def RPS_sampler_elem_create_def RPS_sampler_elem_reinit_def
      Let_def toy_hmac_def peer_hash_def)

end
