(* ===== verification/Rps.thy ===== *)
theory Rps
  imports RpsView Sampler
begin

text \<open>
  How the random peer sampling service forgets peers (\<^verbatim>\<open>remove_peer\<close>, \<^verbatim>\<open>clean_peer\<close> and
  \<^verbatim>\<open>check_sending_channel_needed\<close> of \<^verbatim>\<open>src/src/rps/gnunet-service-rps.c\<close>), over the view, the two
  indexed peer sets and the two samplers. The bookkeeping of channels and flags
  (\<^verbatim>\<open>gnunet-service-rps_peers.c\<close>) is a parameter: its queries and the two operations that change it. A peer
  is passed by pointer, and the pointer may refer to a cell of one of the sets: \<^verbatim>\<open>None\<close> is a read through
  a pointer to a cell that was freed, or a failed assertion further down. The build without
  \<^verbatim>\<open>ENABLE_MALICIOUS\<close> is modelled.
\<close>

section \<open>State\<close>

record 'p peers_api =
  check_peer_known :: "'p \<Rightarrow> PeerIdentity \<Rightarrow> int"
  check_sending_channel_exists :: "'p \<Rightarrow> PeerIdentity \<Rightarrow> int"
  check_pull_reply_pending :: "'p \<Rightarrow> PeerIdentity \<Rightarrow> int"
  check_peer_send_intention :: "'p \<Rightarrow> PeerIdentity \<Rightarrow> int"
  check_removable :: "'p \<Rightarrow> PeerIdentity \<Rightarrow> int"
  destroy_sending_channel :: "PeerIdentity \<Rightarrow> 'p \<Rightarrow> 'p"
  peers_remove_peer :: "PeerIdentity \<Rightarrow> 'p \<Rightarrow> 'p"

record ('k, 'p) rps_state =
  rps_view :: View
  push_map :: CustomPeerMap
  pull_map :: CustomPeerMap
  prot_sampler :: "'k RPS_Sampler"
  client_sampler :: "'k RPS_Sampler"
  peers_state :: 'p

datatype peer_arg = Copy PeerIdentity | PushCell nat | PullCell nat

definition read_peer :: "('k, 'p) rps_state \<Rightarrow> peer_arg \<Rightarrow> PeerIdentity option" where
  "read_peer st arg = (case arg of Copy p \<Rightarrow> Some p | PushCell a \<Rightarrow> peer_cells (push_map st) a
     | PullCell a \<Rightarrow> peer_cells (pull_map st) a)"

section \<open>Operations\<close>

definition check_sending_channel_needed :: "'p peers_api \<Rightarrow> ('k, 'p) rps_state \<Rightarrow> PeerIdentity \<Rightarrow> int" where
  "check_sending_channel_needed api st peer =
     (if check_peer_known api (peers_state st) peer = GNUNET_NO then GNUNET_NO
      else if check_sending_channel_exists api (peers_state st) peer = GNUNET_YES \<and>
        (0 < RPS_sampler_count_id peer (prot_sampler st) \<or>
         View_contains_peer (rps_view st) peer = GNUNET_YES \<or>
         CustomPeerMap_contains_peer (push_map st) peer = GNUNET_YES \<or>
         CustomPeerMap_contains_peer (pull_map st) peer = GNUNET_YES \<or>
         check_pull_reply_pending api (peers_state st) peer = GNUNET_YES)
      then GNUNET_YES else GNUNET_NO)"

text \<open>The random keys of reinitialised sampler elements are \<open>keys1\<close> and \<open>keys2\<close>.\<close>

definition remove_peer ::
  "'p peers_api \<Rightarrow> (nat \<Rightarrow> 'k) \<Rightarrow> (nat \<Rightarrow> 'k) \<Rightarrow> GNUNET_TIME_Absolute \<Rightarrow> peer_arg \<Rightarrow> ('k, 'p) rps_state \<Rightarrow>
   ('k, 'p) rps_state option" where
  "remove_peer api keys1 keys2 now arg st =
     Option.bind (read_peer st arg) (\<lambda>p1.
     Option.bind (View_remove_peer (rps_view st) (Outside p1)) (\<lambda>(rc1, v).
       let st1 = st\<lparr>rps_view := v\<rparr> in
     Option.bind (read_peer st1 arg) (\<lambda>p2.
     Option.bind (CustomPeerMap_remove_peer (pull_map st1) p2) (\<lambda>(rc2, pull).
       let st2 = st1\<lparr>pull_map := pull\<rparr> in
     Option.bind (read_peer st2 arg) (\<lambda>p3.
     Option.bind (CustomPeerMap_remove_peer (push_map st2) p3) (\<lambda>(rc3, push).
       let st3 = st2\<lparr>push_map := push\<rparr> in
     Option.bind (read_peer st3 arg) (\<lambda>p4.
       Some (st3\<lparr>prot_sampler := RPS_sampler_reinitialise_by_value keys1 now p4 (prot_sampler st3),
                 client_sampler := RPS_sampler_reinitialise_by_value keys2 now p4 (client_sampler st3),
                 peers_state := peers_remove_peer api p4 (peers_state st3)\<rparr>))))))))"

definition clean_peer ::
  "'p peers_api \<Rightarrow> (nat \<Rightarrow> 'k) \<Rightarrow> (nat \<Rightarrow> 'k) \<Rightarrow> GNUNET_TIME_Absolute \<Rightarrow> peer_arg \<Rightarrow> ('k, 'p) rps_state \<Rightarrow>
   ('k, 'p) rps_state option" where
  "clean_peer api keys1 keys2 now arg st =
     Option.bind (read_peer st arg) (\<lambda>peer.
       let st1 = (if check_sending_channel_needed api st peer = GNUNET_NO
                  then st\<lparr>peers_state := destroy_sending_channel api peer (peers_state st)\<rparr> else st)
       in if check_peer_send_intention api (peers_state st1) peer = GNUNET_NO \<and>
             View_contains_peer (rps_view st1) peer = GNUNET_NO \<and>
             CustomPeerMap_contains_peer (push_map st1) peer = GNUNET_NO \<and>
             CustomPeerMap_contains_peer (push_map st1) peer = GNUNET_NO \<and>
             RPS_sampler_count_id peer (prot_sampler st1) = 0 \<and>
             RPS_sampler_count_id peer (client_sampler st1) = 0 \<and>
             check_removable api (peers_state st1) peer \<noteq> GNUNET_NO
          then remove_peer api keys1 keys2 now arg st1
          else Some st1)"

section \<open>Properties\<close>

lemma reinit_none_left:
  "RPS_sampler_count_id p (RPS_sampler_reinitialise_by_value keys now p s) = 0"
proof -
  have "filter (\<lambda>el. peer_id el = p \<and> is_empty el \<noteq> EMPTY)
      (map (\<lambda>(i, el). if p = peer_id el then RPS_sampler_elem_reinit (keys i) now el else el) xs) = []" for xs
    by (induction xs) (auto simp: RPS_sampler_elem_reinit_def)
  then show ?thesis by (simp add: RPS_sampler_count_id_def RPS_sampler_reinitialise_by_value_def)
qed

lemma swap_remove_gone: "distinct ps \<Longrightarrow> i < length ps \<Longrightarrow> ps ! i \<notin> set (swap_remove i ps)"
  by (simp add: swap_remove_set)

lemma cpm_list_distinct: "cpm_list c ps \<Longrightarrow> distinct ps"
  by (auto simp: cpm_list_def cpm_rep_def)

lemma view_list_distinct: "view_list v ps \<Longrightarrow> distinct ps"
  by (auto simp: view_list_def view_rep_def)

lemma cpm_remove_gone:
  assumes "cpm_list c ps" "chainmap_room (hash_map c)"
  shows "\<exists>rc c' ps'. CustomPeerMap_remove_peer c p = Some (rc, c') \<and> cpm_list c' ps' \<and> set ps' = set ps - {p}"
proof -
  obtain rc c' ps' where r: "CustomPeerMap_remove_peer c p = Some (rc, c')" "cpm_list c' ps'"
      "if p \<in> set ps then \<exists>i < length ps. ps ! i = p \<and> ps' = swap_remove i ps else ps' = ps"
    using cpm_list_remove[OF assms, of p] by blast
  have "set ps' = set ps - {p}"
    using r(3) swap_remove_set[OF cpm_list_distinct[OF assms(1)]] by (auto split: if_splits)
  then show ?thesis using r by blast
qed

lemma view_remove_gone:
  assumes "view_list v ps"
  shows "\<exists>rc v' ps'. View_remove_peer v (Outside p) = Some (rc, v') \<and> view_list v' ps' \<and> set ps' = set ps - {p}"
proof -
  obtain rc v' ps' where r: "View_remove_peer v (Outside p) = Some (rc, v')" "view_list v' ps'"
      "if p \<in> set ps then \<exists>i < length ps. ps ! i = p \<and> ps' = swap_remove i ps else ps' = ps"
    using view_list_remove[OF assms, of p] by blast
  have "set ps' = set ps - {p}"
    using r(3) swap_remove_set[OF view_list_distinct[OF assms(1)]] by (auto split: if_splits)
  then show ?thesis using r by blast
qed

text \<open>Forgetting a peer, passed as a copy, removes it and nothing else from the view and from both sets, leaves no sampler element that holds it, and fails no assertion.\<close>

lemma rps_remove_peer_correct:
  assumes "view_list (rps_view st) vs" "cpm_list (push_map st) ps" "cpm_list (pull_map st) qs"
    "chainmap_room (hash_map (push_map st))" "chainmap_room (hash_map (pull_map st))"
  shows "\<exists>st' vs' ps' qs'. remove_peer api keys1 keys2 now (Copy p) st = Some st' \<and>
    view_list (rps_view st') vs' \<and> set vs' = set vs - {p} \<and>
    cpm_list (push_map st') ps' \<and> set ps' = set ps - {p} \<and>
    cpm_list (pull_map st') qs' \<and> set qs' = set qs - {p} \<and>
    RPS_sampler_count_id p (prot_sampler st') = 0 \<and> RPS_sampler_count_id p (client_sampler st') = 0"
proof -
  obtain rc1 v vs' where v: "View_remove_peer (rps_view st) (Outside p) = Some (rc1, v)" "view_list v vs'" "set vs' = set vs - {p}"
    using view_remove_gone[OF assms(1)] by blast
  obtain rc2 c ps' where c: "CustomPeerMap_remove_peer (push_map st) p = Some (rc2, c)" "cpm_list c ps'" "set ps' = set ps - {p}"
    using cpm_remove_gone[OF assms(2,4)] by blast
  obtain rc3 d qs' where d: "CustomPeerMap_remove_peer (pull_map st) p = Some (rc3, d)" "cpm_list d qs'" "set qs' = set qs - {p}"
    using cpm_remove_gone[OF assms(3,5)] by blast
  let ?st = "st\<lparr>rps_view := v, pull_map := d, push_map := c,
    prot_sampler := RPS_sampler_reinitialise_by_value keys1 now p (prot_sampler st),
    client_sampler := RPS_sampler_reinitialise_by_value keys2 now p (client_sampler st),
    peers_state := peers_remove_peer api p (peers_state st)\<rparr>"
  have "remove_peer api keys1 keys2 now (Copy p) st = Some ?st"
    using v(1) c(1) d(1) by (simp add: remove_peer_def read_peer_def)
  then show ?thesis using v(2,3) c(2,3) d(2,3)
    by (intro exI[of _ ?st] exI[of _ vs'] exI[of _ ps'] exI[of _ qs']) (simp add: reinit_none_left)
qed

text \<open>A state in which one peer is known from a pull reply only.\<close>

definition sample_api :: "unit peers_api" where
  "sample_api = \<lparr>check_peer_known = (\<lambda>s p. GNUNET_YES), check_sending_channel_exists = (\<lambda>s p. GNUNET_NO),
     check_pull_reply_pending = (\<lambda>s p. GNUNET_NO), check_peer_send_intention = (\<lambda>s p. GNUNET_NO),
     check_removable = (\<lambda>s p. GNUNET_YES), destroy_sending_channel = (\<lambda>p s. s), peers_remove_peer = (\<lambda>p s. s)\<rparr>"

definition sample_rps :: "(nat, unit) rps_state" where
  "sample_rps = \<lparr>rps_view = sample_view, push_map = the (CustomPeerMap_create 4), pull_map = sample_set,
     prot_sampler = \<lparr>sampler_elements = [], max_round_interval = GNUNET_TIME_relative_get_second, mod_get_peers = False\<rparr>,
     client_sampler = \<lparr>sampler_elements = [], max_round_interval = GNUNET_TIME_relative_get_second, mod_get_peers = True\<rparr>,
     peers_state = ()\<rparr>"

lemma sample_rps_ok:
  "view_list (rps_view sample_rps) []" "cpm_list (push_map sample_rps) []"
  "cpm_list (pull_map sample_rps) [sample_peer 1]"
  "chainmap_room (hash_map (push_map sample_rps))" "chainmap_room (hash_map (pull_map sample_rps))"
  "RPS_sampler_count_id p (prot_sampler sample_rps) = 0" "RPS_sampler_count_id p (client_sampler sample_rps) = 0"
proof -
  obtain c where c: "CustomPeerMap_create 4 = Some c"
    by (auto simp: CustomPeerMap_create_def multihashmap32_defs multipeermap_defs chainmap_create_def)
  note C = cpm_create[OF c]
  show "view_list (rps_view sample_rps) []" "cpm_list (push_map sample_rps) []"
      "cpm_list (pull_map sample_rps) [sample_peer 1]"
      "chainmap_room (hash_map (push_map sample_rps))" "chainmap_room (hash_map (pull_map sample_rps))"
      "RPS_sampler_count_id p (prot_sampler sample_rps) = 0" "RPS_sampler_count_id p (client_sampler sample_rps) = 0"
    using sample_view_ok(1) sample_set_ok C c by (auto simp: sample_rps_def cpm_list_def RPS_sampler_count_id_def)
qed



end
