(* ===== verification/Peer.thy ===== *)
theory Peer
  imports MultiPeerMap
begin

text \<open>
  Interned peer identities (\<^verbatim>\<open>src/src/util/peer.c\<close>): a table of reference-counted entries whose unused
  slots form a free list, and a map from identities to entries. The static variables of the file are the
  record; an entry is known by its slot in the table, which never changes. Identifiers and reference
  counters are 32-bit words. \<^verbatim>\<open>None\<close> is a failed assertion, or a map that can not grow any more.
\<close>

section \<open>State and operations\<close>

record PeerEntry =
  pe_id :: PeerIdentity
  pe_pid :: uint32
  pe_rc :: uint32

record peer_state =
  p_table :: "PeerEntry list"
  p_peers :: "nat MultiPeerMap option"
  free_list_start :: uint32

definition peer_init :: peer_state where
  "peer_init = \<lparr>p_table = [], p_peers = None, free_list_start = 0\<rparr>"

definition GNUNET_PEER_search :: "peer_state \<Rightarrow> PeerIdentity option \<Rightarrow> uint32 option" where
  "GNUNET_PEER_search s pid =
     (case pid of None \<Rightarrow> Some 0
      | Some p \<Rightarrow>
          (case p_peers s of None \<Rightarrow> Some 0
           | Some m \<Rightarrow>
               (case GNUNET_CONTAINER_multipeermap_get m p of None \<Rightarrow> Some 0
                | Some i \<Rightarrow> if pe_rc (p_table s ! i) > 0 then Some (pe_pid (p_table s ! i)) else None)))"

text \<open>Sixteen new slots, each pointing to the next one.\<close>

definition grow_table :: "PeerEntry list \<Rightarrow> PeerEntry list" where
  "grow_table t = t @ map (\<lambda>i. \<lparr>pe_id = zero_peer, pe_pid = of_nat (i + 1), pe_rc = 0\<rparr>) [length t ..< length t + 16]"

text \<open>The slot for a new identity: the head of the free list; slot 0 is never handed out.\<close>

definition take_slot :: "peer_state \<Rightarrow> uint32 \<times> peer_state" where
  "take_slot s =
     (let ret = free_list_start s;
          t = (if unat ret = length (p_table s) then grow_table (p_table s) else p_table s)
      in if ret = 0 then (1, s\<lparr>p_table := t[0 := \<lparr>pe_id = zero_peer, pe_pid = 0, pe_rc = 1\<rparr>]\<rparr>)
         else (ret, s\<lparr>p_table := t\<rparr>))"

definition GNUNET_PEER_intern :: "peer_state \<Rightarrow> PeerIdentity option \<Rightarrow> (uint32 \<times> peer_state) option" where
  "GNUNET_PEER_intern s pid =
     (case pid of None \<Rightarrow> Some (0, s)
      | Some p \<Rightarrow>
          Option.bind (case p_peers s of Some m \<Rightarrow> Some m | None \<Rightarrow> GNUNET_CONTAINER_multipeermap_create 32 True) (\<lambda>m.
            case GNUNET_CONTAINER_multipeermap_get m p of
              Some i \<Rightarrow>
                (let e = p_table s ! i
                 in if pe_rc e > 0
                    then Some (pe_pid e, s\<lparr>p_peers := Some m, p_table := (p_table s)[i := e\<lparr>pe_rc := pe_rc e + 1\<rparr>]\<rparr>)
                    else None)
            | None \<Rightarrow>
                (let (ret, s1) = take_slot s;
                     i = unat ret
                 in if \<not> (i < length (p_table s1) \<and> pe_rc (p_table s1 ! i) = 0) then None
                    else
                      Option.bind (GNUNET_CONTAINER_multipeermap_put m p i OPT_UNIQUE_ONLY) (\<lambda>(rc, m').
                        Some (ret, s1\<lparr>free_list_start := pe_pid (p_table s1 ! i),
                                      p_table := (p_table s1)[i := \<lparr>pe_id = p, pe_pid = ret, pe_rc = 1\<rparr>],
                                      p_peers := Some m'\<rparr>)))))"

text \<open>Setting the reference counter of a slot, and freeing the slot when it became zero.\<close>

definition set_rc :: "uint32 \<Rightarrow> uint32 \<Rightarrow> peer_state \<Rightarrow> peer_state option" where
  "set_rc i rc s =
     (let k = unat i; e = p_table s ! k
      in if rc \<noteq> 0 then Some (s\<lparr>p_table := (p_table s)[k := e\<lparr>pe_rc := rc\<rparr>]\<rparr>)
         else
           case p_peers s of
             None \<Rightarrow> None
           | Some m \<Rightarrow>
               Some (s\<lparr>p_peers := Some (snd (GNUNET_CONTAINER_multipeermap_remove m (pe_id e) k)),
                       p_table := (p_table s)[k := e\<lparr>pe_rc := rc, pe_pid := free_list_start s\<rparr>],
                       free_list_start := i\<rparr>))"

definition GNUNET_PEER_change_rc :: "uint32 \<Rightarrow> int \<Rightarrow> peer_state \<Rightarrow> peer_state option" where
  "GNUNET_PEER_change_rc i delta s =
     (if i = 0 then Some s
      else if \<not> unat i < length (p_table s) then None
      else
        let rc = pe_rc (p_table s ! unat i)
        in if rc = 0 \<or> \<not> (delta \<ge> 0 \<or> of_int (- delta) \<le> rc) then None
           else set_rc i (rc + of_int delta) s)"

text \<open>The loop runs over the identifiers from the last to the first.\<close>

fun decrement_from :: "uint32 list \<Rightarrow> peer_state \<Rightarrow> peer_state option" where
  "decrement_from [] s = Some s"
| "decrement_from (i # ids) s =
     (if i = 0 then decrement_from ids s
      else if \<not> unat i < length (p_table s) then None
      else
        let rc = pe_rc (p_table s ! unat i)
        in if rc = 0 then None else Option.bind (set_rc i (rc - 1) s) (decrement_from ids))"

definition GNUNET_PEER_decrement_rcs :: "uint32 list \<Rightarrow> peer_state \<Rightarrow> peer_state option" where
  "GNUNET_PEER_decrement_rcs ids s = decrement_from (rev ids) s"

definition GNUNET_PEER_resolve2 :: "peer_state \<Rightarrow> uint32 \<Rightarrow> PeerIdentity option" where
  "GNUNET_PEER_resolve2 s i =
     (if unat i < length (p_table s) \<and> pe_rc (p_table s ! unat i) > 0 then Some (pe_id (p_table s ! unat i)) else None)"

definition GNUNET_PEER_resolve :: "peer_state \<Rightarrow> uint32 \<Rightarrow> PeerIdentity option" where
  "GNUNET_PEER_resolve s i = (if i = 0 then Some zero_peer else GNUNET_PEER_resolve2 s i)"

section \<open>Invariant\<close>

text \<open>The free list: a chain of unused slots through \<^verbatim>\<open>pid\<close> that ends with the size of the table.\<close>

fun free_chain :: "PeerEntry list \<Rightarrow> uint32 \<Rightarrow> nat list \<Rightarrow> bool" where
  "free_chain t start [] \<longleftrightarrow> start = of_nat (length t)"
| "free_chain t start (i # is) \<longleftrightarrow>
     start = of_nat i \<and> 0 < i \<and> i < length t \<and> pe_rc (t ! i) = 0 \<and> free_chain t (pe_pid (t ! i)) is"

text \<open>
  \<open>f\<close> maps each interned identity to its slot, \<open>fl\<close> is the free list: together they are all slots but
  slot 0.
\<close>

definition peer_wf :: "peer_state \<Rightarrow> (PeerIdentity \<Rightarrow> nat option) \<Rightarrow> nat list \<Rightarrow> bool" where
  "peer_wf s f fl \<longleftrightarrow>
     (\<exists>m. p_peers s = Some m \<and> mpm_wf m \<and> finite (dom f) \<and> mhm_entries m = map_entries f) \<and>
     0 < length (p_table s) \<and> length (p_table s) < 2 ^ 32 \<and> free_chain (p_table s) (free_list_start s) fl \<and> distinct fl \<and>
     (\<forall>i. 0 < i \<and> i < length (p_table s) \<longrightarrow> (i \<in> set fl \<longleftrightarrow> i \<notin> ran f)) \<and>
     (\<forall>p i. f p = Some i \<longrightarrow> 0 < i \<and> i < length (p_table s) \<and>
        pe_id (p_table s ! i) = p \<and> pe_pid (p_table s ! i) = of_nat i \<and> pe_rc (p_table s ! i) \<noteq> 0)"

lemma peer_wfD:
  assumes "peer_wf s f fl" "f p = Some i"
  shows "0 < i" "i < length (p_table s)" "pe_id (p_table s ! i) = p" "pe_pid (p_table s ! i) = of_nat i"
    "pe_rc (p_table s ! i) \<noteq> 0" "i \<notin> set fl"
  using assms by (auto simp: peer_wf_def ran_def)

lemma peer_wf_inj: "peer_wf s f fl \<Longrightarrow> f p = Some i \<Longrightarrow> f q = Some i \<Longrightarrow> p = q"
  using peer_wfD(3) by metis

lemma peer_wf_other: "peer_wf s f fl \<Longrightarrow> f p = Some i \<Longrightarrow> f q = Some j \<Longrightarrow> q \<noteq> p \<Longrightarrow> j \<noteq> i"
  using peer_wf_inj[of s f fl p i q] by blast

lemma free_chain_update:
  "i \<notin> set fl \<Longrightarrow> free_chain (t[i := e]) start fl = free_chain t start fl"
  by (induction fl arbitrary: start) auto

lemma free_chain_fresh:
  assumes "\<And>j. k \<le> j \<Longrightarrow> j < length t \<Longrightarrow> pe_rc (t ! j) = 0 \<and> pe_pid (t ! j) = of_nat (j + 1)"
    and "0 < k" "k \<le> length t"
  shows "free_chain t (of_nat k) [k ..< length t]"
  using assms
proof (induction "length t - k" arbitrary: k)
  case 0
  then show ?case by simp
next
  case (Suc n)
  then have "k < length t" by simp
  moreover have "free_chain t (of_nat (Suc k)) [Suc k ..< length t]" using Suc by (intro Suc(1)) auto
  ultimately show ?case using Suc(3)[of k] Suc(4) by (simp add: upt_conv_Cons)
qed

lemma length_grow_table [simp]: "length (grow_table t) = length t + 16"
  by (simp add: grow_table_def)

lemma grow_table_new:
  assumes "length t \<le> j" "j < length t + 16"
  shows "grow_table t ! j = \<lparr>pe_id = zero_peer, pe_pid = of_nat (j + 1), pe_rc = 0\<rparr>"
proof -
  obtain d where "j = length t + d" "d < 16" using assms by (auto simp: le_iff_add)
  then show ?thesis by (simp add: grow_table_def nth_append)
qed

lemma grow_table_old: "j < length t \<Longrightarrow> grow_table t ! j = t ! j"
  by (simp add: grow_table_def nth_append)

lemma unat32: "n < 2 ^ 32 \<Longrightarrow> unat (of_nat n :: uint32) = n"
  by (simp add: unat_of_nat)

text \<open>A slot is taken from the free list, or from sixteen new ones.\<close>

lemma take_slot_wf:
  assumes wf: "peer_wf s f fl" and room: "length (p_table s) + 16 < 2 ^ 32"
  obtains i s1 fl' where "take_slot s = (of_nat i, s1)" "p_peers s1 = p_peers s" "0 < i" "i < length (p_table s1)"
    "length (p_table s) \<le> length (p_table s1)" "length (p_table s1) < 2 ^ 32"
    "\<And>j. j < length (p_table s) \<Longrightarrow> p_table s1 ! j = p_table s ! j"
    "pe_rc (p_table s1 ! i) = 0" "free_chain (p_table s1) (pe_pid (p_table s1 ! i)) fl'" "i \<notin> set fl'" "distinct fl'"
    "i \<notin> ran f" "\<And>j. 0 < j \<Longrightarrow> j < length (p_table s1) \<Longrightarrow> (j \<in> set fl' \<longleftrightarrow> j \<noteq> i \<and> j \<notin> ran f)"
proof (cases fl)
  case (Cons i fl')
  have ch: "free_list_start s = of_nat i" "0 < i" "i < length (p_table s)" "pe_rc (p_table s ! i) = 0"
      "free_chain (p_table s) (pe_pid (p_table s ! i)) fl'"
    using wf Cons by (auto simp: peer_wf_def)
  have "unat (of_nat i :: uint32) = i" using ch(3) room by (intro unat32) simp
  then have ne: "unat (free_list_start s) \<noteq> length (p_table s)" "free_list_start s \<noteq> 0"
    using ch by (auto simp: unat_eq_0)
  have mem: "\<And>j. 0 < j \<Longrightarrow> j < length (p_table s) \<Longrightarrow> (j \<in> set fl \<longleftrightarrow> j \<notin> ran f)" and dist: "distinct fl"
    using wf by (auto simp: peer_wf_def)
  have "take_slot s = (of_nat i, s)" using ne ch(1) by (simp add: take_slot_def Let_def)
  then show ?thesis
    using ch room dist mem mem[OF ch(2,3)] Cons by (intro that[of i s fl']) auto
next
  case Nil
  let ?n = "length (p_table s)" and ?t = "grow_table (p_table s)"
  have st: "free_list_start s = of_nat ?n" "0 < ?n" using wf Nil by (auto simp: peer_wf_def)
  have u: "unat (of_nat ?n :: uint32) = ?n" using room by (intro unat32) simp
  then have nz: "(of_nat ?n :: uint32) \<noteq> 0" using st(2) by (metis less_irrefl unat_0)
  have full: "\<And>j. 0 < j \<Longrightarrow> j < ?n \<Longrightarrow> j \<in> ran f" and lt: "\<And>j. j \<in> ran f \<Longrightarrow> j < ?n"
    using wf Nil by (auto simp: peer_wf_def ran_def)
  have "free_chain ?t (of_nat (Suc ?n)) [Suc ?n ..< length ?t]"
    by (rule free_chain_fresh) (auto simp: grow_table_new)
  then have "free_chain ?t (pe_pid (?t ! ?n)) [Suc ?n ..< ?n + 16]" by (simp add: grow_table_new)
  moreover have "take_slot s = (of_nat ?n, s\<lparr>p_table := ?t\<rparr>)" using st u nz by (simp add: take_slot_def Let_def)
  moreover have "?n \<notin> ran f" using lt by blast
  moreover have "j \<in> set [Suc ?n ..< ?n + 16] \<longleftrightarrow> j \<noteq> ?n \<and> j \<notin> ran f" if "0 < j" "j < ?n + 16" for j
  proof (cases "j < ?n")
    case True
    then show ?thesis using full[OF that(1)] by auto
  next
    case False
    then have "j \<notin> ran f" using lt by blast
    then show ?thesis using False that by auto
  qed
  ultimately show ?thesis
    using st(2) room
    by (intro that[of ?n "s\<lparr>p_table := ?t\<rparr>" "[Suc ?n ..< ?n + 16]"]) (simp_all add: grow_table_new grow_table_old)
qed

section \<open>What the operations do\<close>

abbreviation peer_room :: "peer_state \<Rightarrow> bool" where
  "peer_room s \<equiv> length (p_table s) + 16 < 2 ^ 32 \<and> (\<forall>m. p_peers s = Some m \<longrightarrow> chainmap_room m)"

lemma peer_get:
  assumes "peer_wf s f fl" "p_peers s = Some m"
  shows "GNUNET_CONTAINER_multipeermap_get m p = f p"
  using assms mpmu.get_map[of m f p] by (auto simp: peer_wf_def)

lemma peer_search:
  assumes "peer_wf s f fl"
  shows "GNUNET_PEER_search s (Some p) = Some (case f p of None \<Rightarrow> 0 | Some i \<Rightarrow> of_nat i)"
proof -
  obtain m where m: "p_peers s = Some m" using assms by (auto simp: peer_wf_def)
  show ?thesis using peer_get[OF assms m, of p] peer_wfD[OF assms, of p] m
    by (auto simp: GNUNET_PEER_search_def word_gt_0 split: option.split)
qed

lemma peer_resolve:
  assumes "peer_wf s f fl" "f p = Some i"
  shows "GNUNET_PEER_resolve s (of_nat i) = Some p" "unat (of_nat i :: uint32) = i" "(of_nat i :: uint32) \<noteq> 0"
proof -
  note D = peer_wfD[OF assms]
  have "i < 2 ^ 32" using D(2) assms(1) by (auto simp: peer_wf_def)
  then show u: "unat (of_nat i :: uint32) = i" by (rule unat32)
  then show nz: "(of_nat i :: uint32) \<noteq> 0" using D(1) by (metis less_irrefl unat_0)
  show "GNUNET_PEER_resolve s (of_nat i) = Some p"
    using D u nz by (simp add: GNUNET_PEER_resolve_def GNUNET_PEER_resolve2_def word_gt_0)
qed

lemma intern_known:
  assumes wf: "peer_wf s f fl" and f: "f p = Some i" and rc: "pe_rc (p_table s ! i) \<noteq> UINT32_MAX"
  shows "\<exists>s'. GNUNET_PEER_intern s (Some p) = Some (of_nat i, s') \<and> peer_wf s' f fl \<and>
    (\<forall>j. pe_rc (p_table s' ! j) = (if j = i then pe_rc (p_table s ! i) + 1 else pe_rc (p_table s ! j)))"
proof -
  obtain m where m: "p_peers s = Some m" using wf by (auto simp: peer_wf_def)
  note D = peer_wfD[OF wf f]
  let ?s = "s\<lparr>p_table := (p_table s)[i := (p_table s ! i)\<lparr>pe_rc := pe_rc (p_table s ! i) + 1\<rparr>]\<rparr>"
  have nz: "pe_rc (p_table s ! i) + 1 \<noteq> 0" using rc by (metis add.inverse_unique add.commute)
  have "peer_wf ?s f fl"
    using wf D nz free_chain_update[OF D(6), of "p_table s"] peer_wf_inj[OF wf f]
    by (auto simp: peer_wf_def nth_list_update)
  moreover have "GNUNET_PEER_intern s (Some p) = Some (of_nat i, ?s)"
    using m peer_get[OF wf m, of p] f D by (simp add: GNUNET_PEER_intern_def Let_def word_gt_0)
  ultimately show ?thesis using D(2) by (intro exI[of _ ?s]) (auto simp: nth_list_update)
qed

lemma intern_new:
  assumes wf: "peer_wf s f fl" and f: "f p = None" and room: "peer_room s"
  shows "\<exists>i s' fl'. GNUNET_PEER_intern s (Some p) = Some (of_nat i, s') \<and> peer_wf s' (f(p \<mapsto> i)) fl' \<and> i \<notin> ran f \<and>
    pe_rc (p_table s' ! i) = 1 \<and> (\<forall>q j. f q = Some j \<longrightarrow> pe_rc (p_table s' ! j) = pe_rc (p_table s ! j))"
proof -
  obtain m where m: "p_peers s = Some m" "mpm_wf m" "finite (dom f)" "mhm_entries m = map_entries f"
    using wf by (auto simp: peer_wf_def)
  obtain i s1 fl' where S: "take_slot s = (of_nat i, s1)" "p_peers s1 = p_peers s" "0 < i" "i < length (p_table s1)"
      "length (p_table s) \<le> length (p_table s1)" "length (p_table s1) < 2 ^ 32"
      and old: "\<And>j. j < length (p_table s) \<Longrightarrow> p_table s1 ! j = p_table s ! j"
      and fl: "pe_rc (p_table s1 ! i) = 0" "free_chain (p_table s1) (pe_pid (p_table s1 ! i)) fl'" "i \<notin> set fl'" "distinct fl'"
      "i \<notin> ran f" and mem: "\<And>j. 0 < j \<Longrightarrow> j < length (p_table s1) \<Longrightarrow> (j \<in> set fl' \<longleftrightarrow> j \<noteq> i \<and> j \<notin> ran f)"
    using take_slot_wf[OF wf] room by metis
  obtain m' where m': "GNUNET_CONTAINER_multipeermap_put m p i OPT_UNIQUE_ONLY = Some (GNUNET_OK, m')"
      "mpm_wf m'" "mhm_entries m' = map_entries (f(p \<mapsto> i))"
    using mpmu.put_map[OF m(2) _ m(4,3) f, of i OPT_UNIQUE_ONLY] room m(1) by auto
  let ?t = "(p_table s1)[i := \<lparr>pe_id = p, pe_pid = of_nat i, pe_rc = 1\<rparr>]"
  let ?s = "s1\<lparr>free_list_start := pe_pid (p_table s1 ! i), p_table := ?t, p_peers := Some m'\<rparr>"
  have u: "unat (of_nat i :: uint32) = i" using S(4,6) by (intro unat32) simp
  have run: "GNUNET_PEER_intern s (Some p) = Some (of_nat i, ?s)"
    using m(1) peer_get[OF wf m(1), of p] f S fl(1) u m'(1) by (simp add: GNUNET_PEER_intern_def Let_def)
  have keep: "?t ! j = p_table s ! j" "0 < j" "j < length ?t" if "f q = Some j" for q j
    using that peer_wfD[OF wf that] old[of j] fl(5) S(5) by (cases "j = i"; auto simp: ran_def)+
  have ran: "ran (f(p \<mapsto> i)) = insert i (ran f)" using f by simp
  have "free_chain ?t (pe_pid (p_table s1 ! i)) fl'" using fl(2,3) by (simp add: free_chain_update)
  moreover have "0 < j \<and> j < length ?t \<and> pe_id (?t ! j) = q \<and> pe_pid (?t ! j) = of_nat j \<and> pe_rc (?t ! j) \<noteq> 0"
    if "(f(p \<mapsto> i)) q = Some j" for q j
    using that keep[of q j] peer_wfD[OF wf, of q j] S(3,4) by (auto split: if_splits)
  moreover have "j \<in> set fl' \<longleftrightarrow> j \<notin> ran (f(p \<mapsto> i))" if "0 < j" "j < length ?t" for j
    using mem[of j] that ran by auto
  ultimately have "peer_wf ?s (f(p \<mapsto> i)) fl'"
    unfolding peer_wf_def using m'(2,3) m(3) S(4,6) fl(4) by auto
  then show ?thesis using run fl(5) keep S(4) by (intro exI[of _ i] exI[of _ ?s] exI[of _ fl']) auto
qed

lemma set_rc_keep:
  assumes wf: "peer_wf s f fl" and f: "f p = Some i" and rc: "rc \<noteq> 0"
  shows "\<exists>s'. set_rc (of_nat i) rc s = Some s' \<and> peer_wf s' f fl \<and>
    (\<forall>j. pe_rc (p_table s' ! j) = (if j = i then rc else pe_rc (p_table s ! j)))"
proof -
  note D = peer_wfD[OF wf f]
  let ?s = "s\<lparr>p_table := (p_table s)[i := (p_table s ! i)\<lparr>pe_rc := rc\<rparr>]\<rparr>"
  have "peer_wf ?s f fl"
    using wf D rc free_chain_update[OF D(6), of "p_table s"] peer_wf_inj[OF wf f]
    by (auto simp: peer_wf_def nth_list_update)
  then show ?thesis using peer_resolve(2)[OF wf f] rc D(2)
    by (intro exI[of _ ?s]) (auto simp: set_rc_def Let_def nth_list_update)
qed

lemma set_rc_free:
  assumes wf: "peer_wf s f fl" and f: "f p = Some i"
  shows "\<exists>s'. set_rc (of_nat i) 0 s = Some s' \<and> peer_wf s' (f(p := None)) (i # fl) \<and>
    (\<forall>j. j \<noteq> i \<longrightarrow> pe_rc (p_table s' ! j) = pe_rc (p_table s ! j))"
proof -
  obtain m where m: "p_peers s = Some m" "mpm_wf m" "finite (dom f)" "mhm_entries m = map_entries f"
    using wf by (auto simp: peer_wf_def)
  note D = peer_wfD[OF wf f]
  have base: "0 < length (p_table s)" "length (p_table s) < 2 ^ 32" "distinct fl"
      "free_chain (p_table s) (free_list_start s) fl"
      and mem: "\<And>j. 0 < j \<Longrightarrow> j < length (p_table s) \<Longrightarrow> (j \<in> set fl \<longleftrightarrow> j \<notin> ran f)"
    using wf by (simp_all add: peer_wf_def)
  let ?t = "(p_table s)[i := (p_table s ! i)\<lparr>pe_rc := 0, pe_pid := free_list_start s\<rparr>]"
  let ?m = "snd (GNUNET_CONTAINER_multipeermap_remove m p i)"
  let ?s = "s\<lparr>p_peers := Some ?m, p_table := ?t, free_list_start := of_nat i\<rparr>"
  have run: "set_rc (of_nat i) 0 s = Some ?s"
    using peer_resolve(2)[OF wf f] m(1) D(3) by (simp add: set_rc_def Let_def)
  have mm: "mpm_wf ?m" "mhm_entries ?m = map_entries (f(p := None))"
    using mpmu.remove_pair_map[OF m(2,4,3) f] by simp_all
  note other = peer_wf_other[OF wf f]
  have ran: "ran (f(p := None)) = ran f - {i}"
  proof (intro set_eqI iffI)
    fix j assume "j \<in> ran (f(p := None))"
    then obtain q where "f q = Some j" "q \<noteq> p" by (auto simp: ran_def split: if_splits)
    then show "j \<in> ran f - {i}" using other[of q j] by (auto simp: ran_def)
  next
    fix j assume "j \<in> ran f - {i}"
    then obtain q where q: "f q = Some j" "j \<noteq> i" by (auto simp: ran_def)
    then have "(f(p := None)) q = Some j" using f by auto
    then show "j \<in> ran (f(p := None))" by (rule ranI)
  qed
  have "free_chain ?t (of_nat i) (i # fl)"
    using base(4) D(1,2) free_chain_update[OF D(6), of "p_table s"] by simp
  moreover have "j \<in> set (i # fl) \<longleftrightarrow> j \<notin> ran (f(p := None))" if "0 < j" "j < length ?t" for j
    using that mem[of j] ran by auto
  moreover have "0 < j \<and> j < length ?t \<and> pe_id (?t ! j) = q \<and> pe_pid (?t ! j) = of_nat j \<and> pe_rc (?t ! j) \<noteq> 0"
    if "(f(p := None)) q = Some j" for q j
  proof -
    have q: "f q = Some j" "q \<noteq> p" using that by (auto split: if_splits)
    then show ?thesis using peer_wfD[OF wf q(1)] other[OF q] by simp
  qed
  ultimately have "peer_wf ?s (f(p := None)) (i # fl)"
    unfolding peer_wf_def using mm m(3) base(1-3) D(6) by auto
  then show ?thesis using run by (intro exI[of _ ?s]) simp
qed

text \<open>The first identity that is interned creates the map, the first slots and the free list.\<close>

lemma intern_first:
  "\<exists>s' fl. GNUNET_PEER_intern peer_init (Some p) = Some (1, s') \<and> peer_wf s' [p \<mapsto> 1] fl \<and> pe_rc (p_table s' ! 1) = 1"
proof -
  obtain m :: "nat MultiPeerMap" where m: "GNUNET_CONTAINER_multipeermap_create 32 True = Some m"
    by (auto simp: multipeermap_defs chainmap_create_def)
  have w: "mpm_wf m" "mhm_entries m = map_entries Map.empty" "chainmap_room m"
    using chainmap_create_wf[of 32 True m peer_hash] m by (simp_all add: multipeermap_defs map_entries_def)
  have get: "GNUNET_CONTAINER_multipeermap_get m p = None" using mpmu.get_map[OF w(1,2), of p] by simp
  obtain m' where m': "GNUNET_CONTAINER_multipeermap_put m p 1 OPT_UNIQUE_ONLY = Some (GNUNET_OK, m')"
      "mpm_wf m'" "mhm_entries m' = map_entries [p \<mapsto> 1]"
    using mpmu.put_map[OF w(1,3,2), of p 1 OPT_UNIQUE_ONLY] by auto
  let ?first = "(grow_table [])[0 := \<lparr>pe_id = zero_peer, pe_pid = 0, pe_rc = 1\<rparr>]"
  let ?t = "?first[1 := \<lparr>pe_id = p, pe_pid = 1, pe_rc = 1\<rparr>]"
  let ?s = "\<lparr>p_table = ?t, p_peers = Some m', free_list_start = 2\<rparr>"
  have new: "grow_table [] ! j = \<lparr>pe_id = zero_peer, pe_pid = of_nat (j + 1), pe_rc = 0\<rparr>" if "j < 16" for j
    using grow_table_new[of "[]" j] that by simp
  have "take_slot peer_init = (1, peer_init\<lparr>p_table := ?first\<rparr>)" "p_peers peer_init = None"
    by (simp_all add: take_slot_def peer_init_def Let_def)
  then have "GNUNET_PEER_intern peer_init (Some p) =
      Some (1, peer_init\<lparr>p_table := ?t, p_peers := Some m', free_list_start := 2\<rparr>)"
    using m get m'(1) new[of 1] by (simp add: GNUNET_PEER_intern_def Let_def)
  then have run: "GNUNET_PEER_intern peer_init (Some p) = Some (1, ?s)" by (simp add: peer_init_def)
  have len: "length ?t = 16" by simp
  define fl where "fl = [2 ..< length ?t]"
  have fl: "set fl = {2 ..< length ?t}" "distinct fl" by (simp_all only: fl_def set_upt distinct_upt)
  have "free_chain ?t (of_nat 2) fl"
    unfolding fl_def using new by (intro free_chain_fresh) (auto simp: nth_list_update)
  moreover have "j \<in> set fl \<longleftrightarrow> j \<notin> ran [p \<mapsto> 1]" if "0 < j" "j < length ?t" for j
    unfolding fl(1) using that by auto
  ultimately have "peer_wf ?s [p \<mapsto> 1] fl"
    unfolding peer_wf_def using m'(2,3) fl(2) len by simp
  then show ?thesis using run len by (intro exI[of _ ?s] exI[of _ fl]) simp
qed

section \<open>Properties\<close>

text \<open>Interned identities and their reference counts: the state before the first use, or a good table.\<close>

definition interned :: "peer_state \<Rightarrow> (PeerIdentity \<Rightarrow> (uint32 \<times> uint32) option) \<Rightarrow> bool" where
  "interned s g \<longleftrightarrow> (s = peer_init \<and> g = Map.empty) \<or>
     (\<exists>f fl. peer_wf s f fl \<and> g = (\<lambda>p. map_option (\<lambda>i. (of_nat i, pe_rc (p_table s ! i))) (f p)))"

lemma interned_wf:
  "peer_wf s f fl \<Longrightarrow> g = (\<lambda>p. map_option (\<lambda>i. (of_nat i, pe_rc (p_table s ! i))) (f p)) \<Longrightarrow> interned s g"
  by (auto simp: interned_def)

lemma interned_found:
  assumes "peer_wf s f fl" "f p = Some i"
  shows "GNUNET_PEER_resolve s (of_nat i) = Some p" "GNUNET_PEER_search s (Some p) = Some (of_nat i)"
    "(of_nat i :: uint32) \<noteq> 0"
  using peer_resolve[OF assms] peer_search[OF assms(1), of p] assms(2) by simp_all

lemma slots_differ:
  assumes "peer_wf s f fl" "f q = Some j" "i \<noteq> j" "i < length (p_table s)"
  shows "(of_nat j :: uint32) \<noteq> of_nat i"
proof -
  have len: "length (p_table s) < 2 ^ 32" using assms(1) by (simp add: peer_wf_def)
  have "i < 2 ^ 32" "j < 2 ^ 32" using len assms(4) peer_wfD(2)[OF assms(1,2)] by linarith+
  then show ?thesis using assms(3) unat32 by metis
qed

lemma intern_known_interned:
  assumes wf: "peer_wf s f fl" and f: "f p = Some i" and rc: "pe_rc (p_table s ! i) \<noteq> UINT32_MAX"
    and g: "g = (\<lambda>p. map_option (\<lambda>i. (of_nat i, pe_rc (p_table s ! i))) (f p))"
  shows "\<exists>s'. GNUNET_PEER_intern s (Some p) = Some (of_nat i, s') \<and>
    interned s' (g(p \<mapsto> (of_nat i, pe_rc (p_table s ! i) + 1))) \<and>
    GNUNET_PEER_resolve s' (of_nat i) = Some p \<and> GNUNET_PEER_search s' (Some p) = Some (of_nat i)"
proof -
  obtain s' where s': "GNUNET_PEER_intern s (Some p) = Some (of_nat i, s')" "peer_wf s' f fl"
      "\<And>j. pe_rc (p_table s' ! j) = (if j = i then pe_rc (p_table s ! i) + 1 else pe_rc (p_table s ! j))"
    using intern_known[OF wf f rc] by blast
  have "g(p \<mapsto> (of_nat i, pe_rc (p_table s ! i) + 1)) = (\<lambda>p. map_option (\<lambda>i. (of_nat i, pe_rc (p_table s' ! i))) (f p))"
  proof
    fix q
    show "(g(p \<mapsto> (of_nat i, pe_rc (p_table s ! i) + 1))) q = map_option (\<lambda>i. (of_nat i, pe_rc (p_table s' ! i))) (f q)"
      using f s'(3) peer_wf_other[OF wf f, of q] g by (cases "q = p"; cases "f q") simp_all
  qed
  then show ?thesis using s'(1) interned_wf[OF s'(2)] interned_found[OF s'(2) f] by blast
qed

lemma intern_new_interned:
  assumes wf: "peer_wf s f fl" and f: "f p = None" and room: "peer_room s"
    and g: "g = (\<lambda>p. map_option (\<lambda>i. (of_nat i, pe_rc (p_table s ! i))) (f p))"
  shows "\<exists>i s'. GNUNET_PEER_intern s (Some p) = Some (of_nat i, s') \<and> (of_nat i :: uint32) \<noteq> 0 \<and>
    (\<forall>q j c. g q = Some (j, c) \<longrightarrow> j \<noteq> of_nat i) \<and> interned s' (g(p \<mapsto> (of_nat i, 1))) \<and>
    GNUNET_PEER_resolve s' (of_nat i) = Some p \<and> GNUNET_PEER_search s' (Some p) = Some (of_nat i)"
proof -
  obtain i s' fl' where s': "GNUNET_PEER_intern s (Some p) = Some (of_nat i, s')" "peer_wf s' (f(p \<mapsto> i)) fl'"
      "i \<notin> ran f" "pe_rc (p_table s' ! i) = 1"
      and rc: "\<And>q j. f q = Some j \<Longrightarrow> pe_rc (p_table s' ! j) = pe_rc (p_table s ! j)"
    using intern_new[OF wf f room] by blast
  have p: "(f(p \<mapsto> i)) p = Some i" by simp
  have "(of_nat k :: uint32) \<noteq> of_nat i" if "f q = Some k" for q k
  proof -
    have "(f(p \<mapsto> i)) q = Some k" using that f by auto
    moreover have "i \<noteq> k" using that s'(3) by (auto simp: ran_def)
    ultimately show ?thesis using slots_differ[OF s'(2), of q k i] peer_wfD(2)[OF s'(2) p] by blast
  qed
  then have "\<forall>q j c. g q = Some (j, c) \<longrightarrow> j \<noteq> of_nat i" using g by auto
  moreover have "g(p \<mapsto> (of_nat i, 1)) = (\<lambda>q. map_option (\<lambda>i. (of_nat i, pe_rc (p_table s' ! i))) ((f(p \<mapsto> i)) q))"
  proof
    fix q
    show "(g(p \<mapsto> (of_nat i, 1))) q = map_option (\<lambda>i. (of_nat i, pe_rc (p_table s' ! i))) ((f(p \<mapsto> i)) q)"
      using s'(4) rc[of q] g by (cases "q = p"; cases "f q") simp_all
  qed
  ultimately show ?thesis using s'(1) interned_wf[OF s'(2)] interned_found[OF s'(2) p] by blast
qed

lemma intern_first_interned:
  "\<exists>s'. GNUNET_PEER_intern peer_init (Some p) = Some (1, s') \<and> interned s' [p \<mapsto> (1, 1)] \<and>
    GNUNET_PEER_resolve s' 1 = Some p \<and> GNUNET_PEER_search s' (Some p) = Some 1"
proof -
  obtain s' fl where s': "GNUNET_PEER_intern peer_init (Some p) = Some (1, s')" "peer_wf s' [p \<mapsto> 1] fl"
      "pe_rc (p_table s' ! 1) = 1"
    using intern_first by blast
  have "[p \<mapsto> (1, 1 :: uint32)] = (\<lambda>q. map_option (\<lambda>i. (of_nat i :: uint32, pe_rc (p_table s' ! i))) ([p \<mapsto> 1] q))"
    using s'(3) by (auto simp: fun_eq_iff)
  from interned_wf[OF s'(2) this] show ?thesis using s'(1) interned_found[OF s'(2), of p 1] by simp
qed


lemma interned_init: "interned peer_init Map.empty" "peer_room peer_init"
  by (simp_all add: interned_def peer_init_def)


lemma set_rc_interned:
  assumes "interned s g" "g p = Some (i, c)"
  shows "\<exists>s'. set_rc i rc s = Some s' \<and> interned s' (if rc = 0 then g(p := None) else g(p \<mapsto> (i, rc)))"
    "i \<noteq> 0" "unat i < length (p_table s)" "pe_rc (p_table s ! unat i) = c" "c \<noteq> 0"
proof -
  have "\<not> (s = peer_init \<and> g = Map.empty)" using assms(2) by auto
  then obtain f fl where wf: "peer_wf s f fl" and g: "g = (\<lambda>p. map_option (\<lambda>i. (of_nat i, pe_rc (p_table s ! i))) (f p))"
    using assms(1) by (auto simp: interned_def)
  obtain k where f: "f p = Some k" and ik: "i = of_nat k" "c = pe_rc (p_table s ! k)"
    using assms(2) unfolding g by (cases "f p") auto
  note D = peer_wfD[OF wf f] and R = peer_resolve[OF wf f]
  show "i \<noteq> 0" "unat i < length (p_table s)" "pe_rc (p_table s ! unat i) = c" "c \<noteq> 0"
    using D R ik by simp_all
  show "\<exists>s'. set_rc i rc s = Some s' \<and> interned s' (if rc = 0 then g(p := None) else g(p \<mapsto> (i, rc)))"
  proof (cases "rc = 0")
    case True
    obtain s' where s': "set_rc (of_nat k) 0 s = Some s'" "peer_wf s' (f(p := None)) (k # fl)"
        "\<And>j. j \<noteq> k \<Longrightarrow> pe_rc (p_table s' ! j) = pe_rc (p_table s ! j)"
      using set_rc_free[OF wf f] by blast
    have "g(p := None) = (\<lambda>q. map_option (\<lambda>i. (of_nat i, pe_rc (p_table s' ! i))) ((f(p := None)) q))"
    proof
      fix q
      show "(g(p := None)) q = map_option (\<lambda>i. (of_nat i, pe_rc (p_table s' ! i))) ((f(p := None)) q)"
        using s'(3) peer_wf_other[OF wf f, of q] g by (cases "q = p"; cases "f q") simp_all
    qed
    from interned_wf[OF s'(2) this] show ?thesis using s'(1) True ik by simp
  next
    case False
    obtain s' where s': "set_rc (of_nat k) rc s = Some s'" "peer_wf s' f fl"
        "\<And>j. pe_rc (p_table s' ! j) = (if j = k then rc else pe_rc (p_table s ! j))"
      using set_rc_keep[OF wf f False] by blast
    have "g(p \<mapsto> (i, rc)) = (\<lambda>q. map_option (\<lambda>i. (of_nat i, pe_rc (p_table s' ! i))) (f q))"
    proof
      fix q
      show "(g(p \<mapsto> (i, rc))) q = map_option (\<lambda>i. (of_nat i, pe_rc (p_table s' ! i))) (f q)"
        using f s'(3) peer_wf_other[OF wf f, of q] g ik by (cases "q = p"; cases "f q") simp_all
    qed
    from interned_wf[OF s'(2) this] show ?thesis using s'(1) False ik by simp
  qed
qed

text \<open>Releasing one reference through the loop of \<^verbatim>\<open>GNUNET_PEER_decrement_rcs\<close>.\<close>

lemma decrement_one:
  assumes "interned s g" "g p = Some (i, c)"
  shows "\<exists>s'. GNUNET_PEER_decrement_rcs [i] s = Some s' \<and>
    interned s' (if c = 1 then g(p := None) else g(p \<mapsto> (i, c - 1)))"
  using set_rc_interned(1)[OF assms, of "c - 1"] set_rc_interned(2-5)[OF assms] by (auto simp: GNUNET_PEER_decrement_rcs_def)

text \<open>C21: Changing the reference counter of an interned peer by an amount that stays between zero and the largest counter fails no assertion; the peer is forgotten, and its slot goes to the free list, exactly when its counter becomes zero, and no other peer is affected.\<close>

theorem peer_change_rc_correct:
  assumes "interned s g" "g p = Some (i, c)" "0 \<le> uint c + delta" "uint c + delta < 2 ^ 32"
  shows "\<exists>s'. GNUNET_PEER_change_rc i delta s = Some s' \<and>
    interned s' (if uint c + delta = 0 then g(p := None) else g(p \<mapsto> (i, of_int (uint c + delta))))"
proof -
  note R = set_rc_interned[OF assms(1,2)]
  have sum: "c + of_int delta = (of_int (uint c + delta) :: uint32)" by (simp add: word_uint_eq_iff)
  define x where "x = uint c + delta"
  have "uint (of_int x :: uint32) = x" using assms(3,4) by (simp add: x_def[symmetric] uint_word_of_int)
  then have z: "(of_int (uint c + delta) :: uint32) = 0 \<longleftrightarrow> uint c + delta = 0"
    unfolding x_def[symmetric] by (metis uint_0_eq of_int_0)
  have "of_int (- delta) \<le> c" if neg: "\<not> delta \<ge> 0"
  proof -
    define y where "y = - delta"
    have y: "0 \<le> y" "y \<le> uint c" "y < 2 ^ 32" using neg assms(3) uint_lt2p[of c] by (auto simp: y_def)
    then have "uint (of_int y :: uint32) = y" by (simp add: uint_word_of_int)
    then show ?thesis unfolding y_def[symmetric] word_le_def using y(2) by linarith
  qed
  then have "GNUNET_PEER_change_rc i delta s = set_rc i (of_int (uint c + delta)) s"
    using R sum by (auto simp: GNUNET_PEER_change_rc_def Let_def)
  then show ?thesis using R(1)[of "of_int (uint c + delta)"] z by auto
qed

theorem peer_change_rc_correct_witness:
  "\<exists>s s' i. GNUNET_PEER_intern peer_init (Some \<lparr>q_y = [1, 2, 3, 4]\<rparr>) = Some (i, s) \<and>
     GNUNET_PEER_change_rc i (- 1) s = Some s' \<and> GNUNET_PEER_search s' (Some \<lparr>q_y = [1, 2, 3, 4]\<rparr>) = Some 0"
proof -
  let ?p = "\<lparr>q_y = [1, 2, 3, 4]\<rparr>"
  obtain s where s: "GNUNET_PEER_intern peer_init (Some ?p) = Some (1, s)" "interned s [?p \<mapsto> (1, 1)]"
    using intern_first_interned[of ?p] by blast
  obtain s' where s': "GNUNET_PEER_change_rc 1 (- 1) s = Some s'" "interned s' (([?p \<mapsto> (1, 1)])(?p := None))"
    using peer_change_rc_correct[OF s(2), of ?p 1 1 "- 1"] by auto
  have "GNUNET_PEER_search s' (Some ?p) = Some 0"
    using s'(2) peer_search[of s' _ _ ?p]
    by (auto simp: interned_def GNUNET_PEER_search_def peer_init_def fun_eq_iff split: option.splits)
  then show ?thesis using s(1) s'(1) by blast
qed

end
