(* ===== verification/Base64.thy ===== *)
theory Base64
  imports Prelude
begin

text \<open>
  The Base64 codec of \<^verbatim>\<open>src/src/util/strings.c\<close>. Characters and data are bytes; shifts of a signed
  \<^verbatim>\<open>char\<close> are followed by a mask in the code, which makes them shifts of the byte. The decoder may read
  past its input: the byte there is not known, and \<^verbatim>\<open>None\<close> marks the read.
\<close>

section \<open>The codec\<close>

abbreviation FILLCHAR :: uint8 where "FILLCHAR \<equiv> 61"

definition cvt :: "uint8 list" where
  "cvt = map of_nat ([65 ..< 91] @ [97 ..< 123] @ [48 ..< 58] @ [43, 47])"

definition cvt_char :: "uint8 \<Rightarrow> uint8" where
  "cvt_char c = cvt ! unat c"

text \<open>The loop of the encoder, three bytes at a time; the last group may be shorter.\<close>

fun encode_groups :: "uint8 list \<Rightarrow> uint8 list" where
  "encode_groups [] = []"
| "encode_groups [a] =
     [cvt_char (drop_bit 2 a AND 63), cvt_char (push_bit 4 a AND 63), FILLCHAR, FILLCHAR]"
| "encode_groups [a, b] =
     [cvt_char (drop_bit 2 a AND 63), cvt_char ((push_bit 4 a AND 63) OR (drop_bit 4 b AND 15)),
      cvt_char (push_bit 2 b AND 63), FILLCHAR]"
| "encode_groups (a # b # c # ds) =
     [cvt_char (drop_bit 2 a AND 63), cvt_char ((push_bit 4 a AND 63) OR (drop_bit 4 b AND 15)),
      cvt_char ((push_bit 2 b AND 63) OR (drop_bit 6 c AND 3)), cvt_char (c AND 63)] @ encode_groups ds"

definition GNUNET_STRINGS_base64_encode :: "uint8 list \<Rightarrow> uint8 list" where
  "GNUNET_STRINGS_base64_encode data = encode_groups data @ [FILLCHAR]"

definition cvtfind :: "uint8 \<Rightarrow> uint8" where
  "cvtfind a =
     (if 65 \<le> a \<and> a \<le> 90 then a - 65
      else if 97 \<le> a \<and> a \<le> 122 then a - 97 + 26
      else if 48 \<le> a \<and> a \<le> 57 then a - 48 + 52
      else if a = 43 then 62
      else if a = 47 then 63 else - 1)"

text \<open>\<^verbatim>\<open>CHECK_CRLF\<close> skips line ends; reaching the end of the input there ends the decoding (\<open>Inl\<close>).\<close>

fun check_crlf :: "uint8 list \<Rightarrow> unit + uint8 list" where
  "check_crlf [] = Inr []"
| "check_crlf (d # ds) = (if d = 13 \<or> d = 10 then (if ds = [] then Inl () else check_crlf ds) else Inr (d # ds))"

text \<open>
  One turn of the decoder's loop, on the input from the current position: the bytes produced and, unless the
  loop ends, the rest of the input. The second character is read without a test for the end of the input.
\<close>

definition decode_group :: "uint8 list \<Rightarrow> (uint8 list \<times> uint8 list option) option" where
  "decode_group ds0 =
     (case check_crlf ds0 of
        Inl _ \<Rightarrow> Some ([], None)
      | Inr ds \<Rightarrow>
        (case ds of
           [] \<Rightarrow> Some ([], None)
         | d1 # ds1' \<Rightarrow>
             if d1 = FILLCHAR then Some ([], None)
             else
             case check_crlf ds1' of
               Inl _ \<Rightarrow> Some ([], None)
             | Inr [] \<Rightarrow> None
             | Inr (d2 # ds2) \<Rightarrow>
               (let c1 = cvtfind d2;
                    o1 = push_bit 2 (cvtfind d1) OR (drop_bit 4 c1 AND 3)
                in if ds2 = [] then Some ([o1], None)
                   else
                   case check_crlf ds2 of
                     Inl _ \<Rightarrow> Some ([o1], None)
                   | Inr [] \<Rightarrow> Some ([o1], None)
                   | Inr (d3 # ds3) \<Rightarrow>
                     if d3 = FILLCHAR then Some ([o1], None)
                     else
                     (let c = cvtfind d3;
                          o2 = (push_bit 4 c1 AND 240) OR (drop_bit 2 c AND 15)
                      in if ds3 = [] then Some ([o1, o2], None)
                         else
                         case check_crlf ds3 of
                           Inl _ \<Rightarrow> Some ([o1, o2], None)
                         | Inr [] \<Rightarrow> Some ([o1, o2], None)
                         | Inr (d4 # ds4) \<Rightarrow>
                           if d4 = FILLCHAR then Some ([o1, o2], None)
                           else Some ([o1, o2, (push_bit 6 c AND 192) OR cvtfind d4], Some ds4)))))"

lemma check_crlf_length: "check_crlf ds = Inr ds' \<Longrightarrow> length ds' \<le> length ds"
  by (induction ds) (auto split: if_splits)

lemma decode_group_shorter:
  assumes "decode_group ds = Some (os, Some rest)"
  shows "length rest < length ds"
  using assms unfolding decode_group_def Let_def
  by (auto split: sum.splits list.splits if_splits dest!: check_crlf_length)

function GNUNET_STRINGS_base64_decode :: "uint8 list \<Rightarrow> uint8 list option" where
  "GNUNET_STRINGS_base64_decode ds =
     (if ds = [] then Some []
      else case decode_group ds of
        None \<Rightarrow> None
      | Some (os, None) \<Rightarrow> Some os
      | Some (os, Some rest) \<Rightarrow> map_option ((@) os) (GNUNET_STRINGS_base64_decode rest))"
  by pat_completeness auto
termination
  by (relation "measure length") (auto dest: decode_group_shorter)

declare GNUNET_STRINGS_base64_decode.simps [simp del]

section \<open>Round trip\<close>

lemma cvt_char_all: "list_all (\<lambda>n. cvtfind (cvt_char (of_nat n)) = of_nat n \<and>
    cvt_char (of_nat n) \<notin> {10, 13, FILLCHAR}) [0 ..< 64]"
  by code_simp

lemma cvt_char_inverse:
  assumes "c < 64"
  shows "cvtfind (cvt_char c) = c" "cvt_char c \<noteq> 10" "cvt_char c \<noteq> 13" "cvt_char c \<noteq> FILLCHAR"
proof -
  have "unat c \<in> set [0 ..< 64]" using assms by (simp only: set_upt) (simp add: word_less_nat_alt)
  then have "cvtfind (cvt_char (of_nat (unat c))) = of_nat (unat c) \<and> cvt_char (of_nat (unat c)) \<notin> {10, 13, FILLCHAR}"
    using cvt_char_all unfolding list_all_iff by (rule bspec[rotated])
  then show "cvtfind (cvt_char c) = c" "cvt_char c \<noteq> 10" "cvt_char c \<noteq> 13" "cvt_char c \<noteq> FILLCHAR" by simp_all
qed

lemma mask_lt_64: "(x :: uint8) AND 63 < 64" "((x AND 63) OR (y AND 15)) < 64" "((x AND 63) OR (y AND 3)) < 64"
proof -
  have lt: "z AND 63 < 64" for z :: uint8
    using le_less_trans[OF word_and_le1[of z 63], of 64] by simp
  show "x AND 63 < 64" by (rule lt)
  have "(x AND 63) OR (y AND 15) = ((x AND 63) OR (y AND 15)) AND 63" "(x AND 63) OR (y AND 3) = ((x AND 63) OR (y AND 3)) AND 63"
    by (simp_all add: bit.conj_disj_distrib2 and.assoc)
  then show "((x AND 63) OR (y AND 15)) < 64" "((x AND 63) OR (y AND 3)) < 64" by (metis lt)+
qed

lemma bit_masks:
  "bit (252 :: uint8) n \<longleftrightarrow> 2 \<le> n \<and> n < 8" "bit (3 :: uint8) n \<longleftrightarrow> n < 2"
  "bit (240 :: uint8) n \<longleftrightarrow> 4 \<le> n \<and> n < 8" "bit (15 :: uint8) n \<longleftrightarrow> n < 4"
  "bit (192 :: uint8) n \<longleftrightarrow> 6 \<le> n \<and> n < 8" "bit (63 :: uint8) n \<longleftrightarrow> n < 6"
proof -
  have e: "(63 :: uint8) = mask 6" "(15 :: uint8) = mask 4" "(3 :: uint8) = mask 2"
      "(240 :: uint8) = push_bit 4 (mask 4)" "(192 :: uint8) = push_bit 6 (mask 2)" "(252 :: uint8) = push_bit 2 (mask 6)"
    by (simp_all add: mask_eq_exp_minus_1 push_bit_eq_mult)
  show "bit (252 :: uint8) n \<longleftrightarrow> 2 \<le> n \<and> n < 8" "bit (3 :: uint8) n \<longleftrightarrow> n < 2"
      "bit (240 :: uint8) n \<longleftrightarrow> 4 \<le> n \<and> n < 8" "bit (15 :: uint8) n \<longleftrightarrow> n < 4"
      "bit (192 :: uint8) n \<longleftrightarrow> 6 \<le> n \<and> n < 8" "bit (63 :: uint8) n \<longleftrightarrow> n < 6"
    unfolding e by (auto simp: bit_mask_iff bit_push_bit_iff)
qed

text \<open>The three bytes come back from the four six-bit groups: each is a high and a low part.\<close>

lemma high_low_parts:
  fixes x :: uint8
  assumes "k + l \<le> 8" "\<And>n. bit h n \<longleftrightarrow> k \<le> n \<and> n < 8" "\<And>n. bit m n \<longleftrightarrow> n < k"
  shows "(push_bit k (drop_bit k x) AND h) OR (drop_bit l (push_bit l x) AND m) = x"
  by (rule bit_word_eqI) (use assms(1) in \<open>auto simp: bit_or_iff bit_and_iff bit_push_bit_iff bit_drop_bit_eq assms(2,3)\<close>)

lemmas group_bytes =
  high_low_parts[of 2 4 252 3, OF _ bit_masks(1,2), simplified]
  high_low_parts[of 4 2 240 15, OF _ bit_masks(3,4), simplified]
  high_low_parts[of 6 0 192 63, OF _ bit_masks(5,6), simplified]

lemma decode_fill: "decode_group (FILLCHAR # ds) = Some ([], None)"
  by (simp add: decode_group_def)

lemma decode_encoded_group:
  "decode_group (encode_groups [a] @ ds) = Some ([a], None)"
  "decode_group (encode_groups [a, b] @ ds) = Some ([a, b], None)"
  "decode_group (encode_groups (a # b # c # d) @ ds) = Some ([a, b, c], Some (encode_groups d @ ds))"
  by (simp_all add: decode_group_def Let_def cvt_char_inverse mask_lt_64 group_bytes)


text \<open>The length the encoder returns: four characters for every three bytes begun, and one more.\<close>

lemma base64_encode_length:
  "length (GNUNET_STRINGS_base64_encode d) = 4 * ((length d + 2) div 3) + 1"
  unfolding GNUNET_STRINGS_base64_encode_def
  by (induction d rule: encode_groups.induct) (simp_all, presburger)

text \<open>The surplus fill character on a full group, and the read past a lone last character.\<close>

lemma base64_surplus_fill:
  "GNUNET_STRINGS_base64_encode [97, 98, 99] = [89, 87, 74, 106, FILLCHAR]"
  by code_simp

lemma base64_decode_overread: "d \<notin> {10, 13, FILLCHAR} \<Longrightarrow> GNUNET_STRINGS_base64_decode [d] = None"
  by (simp add: GNUNET_STRINGS_base64_decode.simps decode_group_def)

end
