(* ===== verification/Bandwidth.thy ===== *)
theory Bandwidth
  imports Time
begin

text \<open>
  Bandwidth values and trackers (\<^verbatim>\<open>src/src/util/bandwidth.c\<close>). The signed byte count of a tracker is an
  integer, with the conversions between \<^verbatim>\<open>int64_t\<close> and \<^verbatim>\<open>uint64_t\<close> written out; all unsigned quantities are
  words. The clock is the environment of theory Time, one reading per call. Trackers are those without
  a notification for excess bandwidth (\<^verbatim>\<open>GNUNET_BANDWIDTH_tracker_init\<close>): when that notification is due is
  computed in floating point.
\<close>

section \<open>Values\<close>

record GNUNET_BANDWIDTH_Value32NBO =
  bw_value :: uint32

definition GNUNET_BANDWIDTH_value_init :: "uint32 \<Rightarrow> GNUNET_BANDWIDTH_Value32NBO" where
  "GNUNET_BANDWIDTH_value_init bytes_per_second = \<lparr>bw_value = htonl bytes_per_second\<rparr>"

definition GNUNET_BANDWIDTH_value_min ::
  "GNUNET_BANDWIDTH_Value32NBO \<Rightarrow> GNUNET_BANDWIDTH_Value32NBO \<Rightarrow> GNUNET_BANDWIDTH_Value32NBO" where
  "GNUNET_BANDWIDTH_value_min b1 b2 = GNUNET_BANDWIDTH_value_init (min (htonl (bw_value b1)) (htonl (bw_value b2)))"

definition GNUNET_BANDWIDTH_value_max ::
  "GNUNET_BANDWIDTH_Value32NBO \<Rightarrow> GNUNET_BANDWIDTH_Value32NBO \<Rightarrow> GNUNET_BANDWIDTH_Value32NBO" where
  "GNUNET_BANDWIDTH_value_max b1 b2 = GNUNET_BANDWIDTH_value_init (max (htonl (bw_value b1)) (htonl (bw_value b2)))"

definition GNUNET_BANDWIDTH_value_get_available_until ::
  "GNUNET_BANDWIDTH_Value32NBO \<Rightarrow> GNUNET_TIME_Relative \<Rightarrow> uint64" where
  "GNUNET_BANDWIDTH_value_get_available_until bps deadline =
     (ucast (htonl (bw_value bps)) * rel_value_us deadline + 500000) div 1000000"

definition GNUNET_BANDWIDTH_value_get_delay_for ::
  "GNUNET_BANDWIDTH_Value32NBO \<Rightarrow> uint64 \<Rightarrow> GNUNET_TIME_Relative" where
  "GNUNET_BANDWIDTH_value_get_delay_for bps sz =
     (let b = ucast (htonl (bw_value bps)) :: uint64
      in if b = 0 then GNUNET_TIME_relative_get_forever
         else \<lparr>rel_value_us = sz * 1000 * 1000 div b\<rparr>)"

section \<open>Trackers\<close>

text \<open>Conversion of an integer to \<^verbatim>\<open>int64_t\<close> and to \<^verbatim>\<open>uint64_t\<close>.\<close>

definition s64 :: "int \<Rightarrow> int" where
  "s64 x = (x + 2 ^ 63) mod 2 ^ 64 - 2 ^ 63"

definition u64 :: "int \<Rightarrow> int" where
  "u64 x = x mod 2 ^ 64"

record Tracker =
  update_cb :: bool
  consumption :: int
  last_update :: GNUNET_TIME_Absolute
  available_bytes_per_s :: uint32
  max_carry_s :: uint32

abbreviation GNUNET_SERVER_MAX_MESSAGE_SIZE :: int where "GNUNET_SERVER_MAX_MESSAGE_SIZE \<equiv> 65536"
abbreviation (input) INT64_MAX :: int where "INT64_MAX \<equiv> 2 ^ 63 - 1"

definition GNUNET_BANDWIDTH_tracker_init ::
  "time_env \<Rightarrow> bool \<Rightarrow> GNUNET_BANDWIDTH_Value32NBO \<Rightarrow> uint32 \<Rightarrow> Tracker" where
  "GNUNET_BANDWIDTH_tracker_init env cb bytes_per_second_limit carry =
     \<lparr>update_cb = cb, consumption = 0, last_update = GNUNET_TIME_absolute_get env,
      available_bytes_per_s = htonl (bw_value bytes_per_second_limit), max_carry_s = carry\<rparr>"

text \<open>The product of the two 32-bit limits fits 64 bits.\<close>

definition max_carry :: "Tracker \<Rightarrow> int" where
  "max_carry av =
     (let mc = uint (ucast (available_bytes_per_s av) * ucast (max_carry_s av) :: uint64);
          mc = (if mc < GNUNET_SERVER_MAX_MESSAGE_SIZE then GNUNET_SERVER_MAX_MESSAGE_SIZE else mc)
      in if mc > INT64_MAX then INT64_MAX else mc)"

definition delta_avail :: "time_env \<Rightarrow> Tracker \<Rightarrow> uint64" where
  "delta_avail env av =
     (let delta_time = abs_value_us (GNUNET_TIME_absolute_get env) - abs_value_us (last_update av)
      in (delta_time * ucast (available_bytes_per_s av) + 500000) div 1000000)"

definition update_tracker :: "time_env \<Rightarrow> Tracker \<Rightarrow> Tracker" where
  "update_tracker env av =
     (let c = s64 (u64 (consumption av) - uint (delta_avail env av));
          c' = (if c < 0
                then let left_bytes = u64 (- c) in
                     if max_carry av > left_bytes then s64 (u64 (- left_bytes)) else s64 (u64 (- max_carry av))
                else c)
      in av\<lparr>consumption := c', last_update := GNUNET_TIME_absolute_get env\<rparr>)"

text \<open>The size is a \<^verbatim>\<open>ssize_t\<close>: a negative one gives bandwidth back.\<close>

definition GNUNET_BANDWIDTH_tracker_consume :: "time_env \<Rightarrow> int \<Rightarrow> Tracker \<Rightarrow> int \<times> Tracker" where
  "GNUNET_BANDWIDTH_tracker_consume env sz av =
     (let nc = s64 (consumption av + sz)
      in if sz > 0
         then if nc < consumption av then (GNUNET_SYSERR, av)
              else let av' = update_tracker env (av\<lparr>consumption := nc\<rparr>)
                   in (if consumption av' > 0 then GNUNET_YES else GNUNET_NO, av')
         else if nc > consumption av then (GNUNET_SYSERR, av)
              else (GNUNET_NO, av\<lparr>consumption := nc\<rparr>))"

definition GNUNET_BANDWIDTH_tracker_get_delay ::
  "time_env \<Rightarrow> nat \<Rightarrow> Tracker \<Rightarrow> GNUNET_TIME_Relative \<times> Tracker" where
  "GNUNET_BANDWIDTH_tracker_get_delay env sz av =
     (if available_bytes_per_s av = 0 then (GNUNET_TIME_relative_get_forever, av)
      else let av' = update_tracker env av;
               bytes_needed = s64 (int sz + consumption av')
           in if bytes_needed \<le> 0 then (GNUNET_TIME_relative_get_zero, av')
              else (\<lparr>rel_value_us = word_of_int (1000 * 1000 * bytes_needed) div ucast (available_bytes_per_s av')\<rparr>, av'))"

text \<open>The second reading of the clock may be later than the first.\<close>

definition GNUNET_BANDWIDTH_tracker_get_available :: "time_env \<Rightarrow> time_env \<Rightarrow> Tracker \<Rightarrow> int \<times> Tracker" where
  "GNUNET_BANDWIDTH_tracker_get_available env env2 av =
     (let av' = update_tracker env av;
          bps = GNUNET_BANDWIDTH_value_init (available_bytes_per_s av');
          avail = GNUNET_BANDWIDTH_value_get_available_until bps
            (GNUNET_TIME_absolute_get_duration env2 (last_update av'))
      in (s64 (uint avail - consumption av'), av'))"

text \<open>The flag tells whether the update callback is called.\<close>

definition GNUNET_BANDWIDTH_tracker_update_quota ::
  "time_env \<Rightarrow> time_env \<Rightarrow> GNUNET_BANDWIDTH_Value32NBO \<Rightarrow> Tracker \<Rightarrow> bool \<times> Tracker" where
  "GNUNET_BANDWIDTH_tracker_update_quota env env2 bytes_per_second_limit av =
     (let new_limit = htonl (bw_value bytes_per_second_limit);
          av1 = update_tracker env av;
          old_limit = available_bytes_per_s av1;
          av2 = av1\<lparr>available_bytes_per_s := new_limit\<rparr>
      in (update_cb av, if old_limit > new_limit then update_tracker env2 av2 else av2))"

definition GNUNET_BANDWIDTH_tracker_notification_stop :: "Tracker \<Rightarrow> Tracker" where
  "GNUNET_BANDWIDTH_tracker_notification_stop av = av\<lparr>update_cb := False\<rparr>"

section \<open>Conversions and limits\<close>

lemma s64_range: "- (2 ^ 63) \<le> s64 x" "s64 x < 2 ^ 63"
proof -
  have "0 \<le> (x + 2 ^ 63) mod 2 ^ 64" "(x + 2 ^ 63) mod 2 ^ 64 < (2 :: int) ^ 64" by simp_all
  then show "- (2 ^ 63) \<le> s64 x" "s64 x < 2 ^ 63" by (simp_all add: s64_def)
qed

lemma s64_id: "- (2 ^ 63) \<le> x \<Longrightarrow> x < 2 ^ 63 \<Longrightarrow> s64 x = x"
  by (simp add: s64_def)

lemma s64_u64: "s64 (u64 x - y) = s64 (x - y)" "s64 (u64 x) = s64 x"
proof -
  have "((x mod 2 ^ 64) - y + 2 ^ 63) mod 2 ^ 64 = (x - y + 2 ^ 63) mod 2 ^ 64" for y :: int
    using mod_add_left_eq[of x "2 ^ 64" "2 ^ 63 - y"] by (simp only: diff_conv_add_uminus ac_simps)
  from this[of y] this[of 0] show "s64 (u64 x - y) = s64 (x - y)" "s64 (u64 x) = s64 x"
    by (simp_all only: s64_def u64_def diff_zero)
qed

lemma uint_ucast_32_64: "uint (ucast (x :: uint32) :: uint64) = uint x"
  using unsigned_less[where 'a = int, of x] by (simp add: unsigned_ucast_eq take_bit_int_eq_self)

lemma uint_pos: "(x :: 'a::len word) \<noteq> 0 \<Longrightarrow> 0 < uint x"
  by (metis uint_0_iff uint_ge_0 order_le_less)

lemma product_lt: "uint (a :: uint32) * uint (b :: uint32) < 2 ^ 64"
proof -
  have "uint a \<le> 2 ^ 32 - 1" "uint b \<le> 2 ^ 32 - 1" using unsigned_less[where 'a = int, of a] unsigned_less[where 'a = int, of b] by simp_all
  then have "uint a * uint b \<le> (2 ^ 32 - 1) * (2 ^ 32 - 1)" by (intro mult_mono) simp_all
  then show ?thesis by simp
qed

lemma max_carry_eq:
  "max_carry av = min INT64_MAX (max GNUNET_SERVER_MAX_MESSAGE_SIZE (uint (available_bytes_per_s av) * uint (max_carry_s av)))"
proof -
  let ?a = "available_bytes_per_s av" and ?b = "max_carry_s av"
  have "uint ?a * uint ?b < 2 ^ 64" using product_lt[of ?a ?b] .
  then have "uint (ucast ?a * ucast ?b :: uint64) = uint ?a * uint ?b"
    using uint_mult_lem[of "ucast ?a :: uint64" "ucast ?b"] by (simp add: uint_ucast_32_64)
  then show ?thesis by (simp add: max_carry_def Let_def min_def max_def)
qed

lemma max_carry_range: "0 < max_carry av" "max_carry av < 2 ^ 63"
  by (simp_all add: max_carry_eq)

text \<open>An update takes the bandwidth that became available off the consumption, and caps the savings.\<close>

lemma update_tracker_consumption:
  "consumption (update_tracker env av) =
     max (- max_carry av) (s64 (consumption av - uint (delta_avail env av)))"
proof -
  define c m where "c = s64 (consumption av - uint (delta_avail env av))" and "m = max_carry av"
  have r: "- (2 ^ 63) \<le> c" "c < 2 ^ 63" "0 < m" "m < 2 ^ 63"
    unfolding c_def m_def by (rule s64_range max_carry_range)+
  have u: "u64 (- c) = - c" if "c < 0" using r that by (simp add: u64_def)
  have c: "s64 c = c" "s64 (- m) = - m" using r by (auto intro!: s64_id)
  have "consumption (update_tracker env av) = (if c < 0 then if m > u64 (- c) then s64 (- u64 (- c)) else s64 (- m) else c)"
    unfolding update_tracker_def Let_def s64_u64 c_def[symmetric] m_def[symmetric] by simp
  also have "\<dots> = max (- m) c" using r u c by (cases "c < 0"; cases "m > - c") (simp_all add: max_def)
  finally show ?thesis by (simp only: c_def m_def)
qed

lemma update_tracker_fields [simp]:
  "update_cb (update_tracker env av) = update_cb av"
  "last_update (update_tracker env av) = GNUNET_TIME_absolute_get env"
  "available_bytes_per_s (update_tracker env av) = available_bytes_per_s av"
  "max_carry_s (update_tracker env av) = max_carry_s av"
  by (simp_all add: update_tracker_def Let_def)

lemma max_carry_cong [simp]: "max_carry (av\<lparr>consumption := c\<rparr>) = max_carry av" "max_carry (update_tracker env av) = max_carry av"
  by (simp_all add: max_carry_eq)

section \<open>The delay suffices\<close>

text \<open>Microseconds since the last update, and the bytes that became available, rounded to the nearest.\<close>

definition elapsed :: "time_env \<Rightarrow> Tracker \<Rightarrow> int" where
  "elapsed env av = uint (abs_value_us (GNUNET_TIME_absolute_get env) - abs_value_us (last_update av))"

lemma elapsed_cong [simp]: "elapsed env (av\<lparr>consumption := c\<rparr>) = elapsed env av"
  by (simp add: elapsed_def)

lemma delta_avail_eq:
  assumes "elapsed env av * uint (available_bytes_per_s av) + 500000 < 2 ^ 64"
  shows "uint (delta_avail env av) = (elapsed env av * uint (available_bytes_per_s av) + 500000) div 1000000"
proof -
  let ?d = "abs_value_us (GNUNET_TIME_absolute_get env) - abs_value_us (last_update av)" and ?a = "ucast (available_bytes_per_s av) :: uint64"
  have "uint ?d * uint ?a < 2 ^ 64" using assms by (simp add: elapsed_def uint_ucast_32_64)
  then have m: "uint (?d * ?a) = uint ?d * uint ?a" using uint_mult_lem[of ?d ?a] by simp
  then have "uint (?d * ?a) + uint (500000 :: uint64) < 2 ^ 64" using assms by (simp add: elapsed_def uint_ucast_32_64)
  then have "uint (?d * ?a + 500000) = uint (?d * ?a) + 500000" using uint_add_lem[of "?d * ?a" 500000] by simp
  then show ?thesis by (simp add: delta_avail_def Let_def elapsed_def uint_ucast_32_64 m uint_div)
qed

lemma div_lower: "0 < (m :: int) \<Longrightarrow> x - m < m * (x div m)"
  using mult_div_mod_eq[of m x] pos_mod_bound[of m x] by linarith

lemma delay_covers:
  fixes a needed t :: int
  assumes "0 < a" "1000000 * needed div a \<le> t"
  shows "needed - (t * a + 500000) div 1000000 \<le> (a + 499998) div 1000000"
proof -
  have "1000000 * needed - a < a * (1000000 * needed div a)" by (rule div_lower[OF assms(1)])
  also have "\<dots> \<le> a * t" using assms by (intro mult_left_mono) auto
  finally have "1000000 * needed - a < t * a" by (simp only: mult.commute)
  then show ?thesis using div_lower[of 1000000 "t * a + 500000"] div_lower[of 1000000 "a + 499998"] by linarith
qed

lemma tracker_get_delay_eq:
  assumes "available_bytes_per_s av \<noteq> 0" "GNUNET_BANDWIDTH_tracker_get_delay env sz av = (d, av1)"
    and "1000000 * (int sz + consumption av1) < 2 ^ 63"
  shows "av1 = update_tracker env av"
    "uint (rel_value_us d) = max 0 (1000000 * (int sz + consumption av1) div uint (available_bytes_per_s av))"
proof -
  define c where "c = consumption av1"
  show av1: "av1 = update_tracker env av"
    using assms by (auto simp: GNUNET_BANDWIDTH_tracker_get_delay_def Let_def split: if_splits)
  have a: "0 < uint (available_bytes_per_s av)" using assms(1) by (simp add: uint_pos)
  have c: "- (2 ^ 63) < c" using max_carry_range[of av] by (simp add: c_def av1 update_tracker_consumption max_def)
  have s: "s64 (int sz + c) = int sz + c" using assms(3) c by (intro s64_id) (simp_all add: c_def)
  show "uint (rel_value_us d) = max 0 (1000000 * (int sz + consumption av1) div uint (available_bytes_per_s av))"
  proof (cases "int sz + c \<le> 0")
    case True
    then have "1000000 * (int sz + c) div uint (available_bytes_per_s av) \<le> 0"
      using a by (simp add: div_nonpos_pos_le0)
    moreover have "d = GNUNET_TIME_relative_get_zero"
      using assms(1,2) True s by (simp add: GNUNET_BANDWIDTH_tracker_get_delay_def Let_def c_def av1 split: if_splits)
    ultimately show ?thesis by (simp add: time_defs c_def)
  next
    case False
    have "take_bit LENGTH(64) (1000000 * (int sz + c)) = 1000000 * (int sz + c)"
      using False assms(3) by (intro take_bit_int_eq_self) (simp_all add: c_def)
    then have "uint (word_of_int (1000000 * (int sz + c)) :: uint64) = 1000000 * (int sz + c)"
      by (simp only: uint_word_of_int_eq)
    moreover have "rel_value_us d = word_of_int (1000000 * (int sz + c)) div ucast (available_bytes_per_s av)"
      using assms(1,2) False s by (auto simp: GNUNET_BANDWIDTH_tracker_get_delay_def Let_def c_def av1 split: if_splits)
    ultimately have "uint (rel_value_us d) = 1000000 * (int sz + c) div uint (available_bytes_per_s av)"
      by (simp only: uint_div uint_ucast_32_64)
    then show ?thesis using False a by (simp add: c_def pos_imp_zdiv_nonneg_iff)
  qed
qed

text \<open>C27: whoever waits at least the delay the tracker asks for and then consumes the bytes ends at most a
  rounding error above the limit: one byte per million bytes per second of the limit, rounded half down, so
  that up to 500001 bytes per second the consumption is reported to be within the limit. The hypotheses exclude
  overflow of the 64-bit counters only.\<close>

theorem bandwidth_delay_sufficient:
  assumes avail: "available_bytes_per_s av \<noteq> 0" and size: "0 < sz"
    and delay: "GNUNET_BANDWIDTH_tracker_get_delay env sz av = (d, av1)"
    and wait: "uint (rel_value_us d) \<le> elapsed env' av1"
    and room: "1000000 * (int sz + consumption av1) < 2 ^ 63"
      "elapsed env' av1 * uint (available_bytes_per_s av) + 500000 < 2 ^ 64"
      "uint (available_bytes_per_s av) * uint (max_carry_s av) < 2 ^ 62"
    and r: "GNUNET_BANDWIDTH_tracker_consume env' (int sz) av1 = (rc, av2)"
  shows "consumption av2 \<le> (uint (available_bytes_per_s av) + 499998) div 1000000 \<and>
    (available_bytes_per_s av \<le> 500001 \<longrightarrow> rc = GNUNET_NO)"
proof -
  define c a where "c = consumption av1" and "a = uint (available_bytes_per_s av)"
  define t where "t = elapsed env' av1"
  have a: "0 < a" using avail by (simp add: a_def uint_pos)
  note g = tracker_get_delay_eq[OF avail delay room(1)]
  have c: "- (2 ^ 62) \<le> c" "1000000 * (int sz + c) < 2 ^ 63"
    using room by (simp_all add: c_def g(1) update_tracker_consumption max_carry_eq)
  have t: "0 \<le> t" "1000000 * (int sz + c) div a \<le> t" "t * a + 500000 < 2 ^ 64"
    using wait room(2) g(2) by (simp_all add: t_def c_def a_def elapsed_def)
  define e where "e = int sz + c - (t * a + 500000) div 1000000"
  have "0 \<le> (t * a + 500000) div 1000000" "(t * a + 500000) div 1000000 < 2 ^ 62"
    using t a mult_nonneg_nonneg[of t a] by (simp_all add: pos_imp_zdiv_nonneg_iff)
  then have s: "s64 e = e" "s64 (c + int sz) = c + int sz" "\<not> c + int sz < c"
    using c size by (auto intro!: s64_id simp: e_def)
  have u: "consumption (update_tracker env' (av1\<lparr>consumption := c + int sz\<rparr>)) = max (- max_carry av) e"
  proof -
    let ?v = "av1\<lparr>consumption := c + int sz\<rparr>"
    have "uint (delta_avail env' ?v) = (t * a + 500000) div 1000000"
      using delta_avail_eq[of env' ?v] t by (simp add: t_def a_def g(1))
    then have "consumption ?v - uint (delta_avail env' ?v) = e" by (simp add: e_def)
    then show ?thesis unfolding update_tracker_consumption by (simp only: s) (simp add: g(1))
  qed
  have e: "e \<le> (a + 499998) div 1000000" using delay_covers[OF a t(2)] by (simp add: e_def)
  have "0 \<le> (a + 499998) div 1000000" using a by simp
  then have "max (- max_carry av) e \<le> (a + 499998) div 1000000"
    using e max_carry_range[of av] by simp
  moreover have "(rc, av2) = (if max (- max_carry av) e > 0 then GNUNET_YES else GNUNET_NO,
      update_tracker env' (av1\<lparr>consumption := c + int sz\<rparr>))"
    using r size s u unfolding GNUNET_BANDWIDTH_tracker_consume_def Let_def c_def[symmetric] by simp
  moreover have "(a + 499998) div 1000000 = 0" if "available_bytes_per_s av \<le> 500001"
    using that a by (simp add: a_def word_le_def)
  ultimately show ?thesis using u by (auto simp: a_def)
qed

definition sample_env :: "uint64 \<Rightarrow> time_env" where
  "sample_env us = \<lparr>tv_sec = 1, tv_usec = us, timestamp_offset = 0\<rparr>"

definition sample_tracker :: Tracker where
  "sample_tracker = \<lparr>update_cb = False, consumption = 20, last_update = \<lparr>abs_value_us = 1000000\<rparr>,
     available_bytes_per_s = 1000, max_carry_s = 5\<rparr>"

theorem bandwidth_delay_sufficient_witness:
  "GNUNET_BANDWIDTH_tracker_get_delay (sample_env 0) 100 sample_tracker = (\<lparr>rel_value_us = 120000\<rparr>, sample_tracker) \<and>
   fst (GNUNET_BANDWIDTH_tracker_consume (sample_env 120000) 100 sample_tracker) = GNUNET_NO"
proof -
  have d: "GNUNET_BANDWIDTH_tracker_get_delay (sample_env 0) 100 sample_tracker = (\<lparr>rel_value_us = 120000\<rparr>, sample_tracker)"
    by code_simp
  have e: "uint (rel_value_us \<lparr>rel_value_us = 120000\<rparr>) \<le> elapsed (sample_env 120000) sample_tracker"
    "1000000 * (int 100 + consumption sample_tracker) < 2 ^ 63"
    "elapsed (sample_env 120000) sample_tracker * uint (available_bytes_per_s sample_tracker) + 500000 < 2 ^ 64"
    "uint (available_bytes_per_s sample_tracker) * uint (max_carry_s sample_tracker) < 2 ^ 62"
    "available_bytes_per_s sample_tracker \<noteq> 0" "available_bytes_per_s sample_tracker \<le> 500001"
    by code_simp+
  have "fst (GNUNET_BANDWIDTH_tracker_consume (sample_env 120000) (int 100) sample_tracker) = GNUNET_NO"
    using bandwidth_delay_sufficient[OF e(5) _ d e(1-4) surjective_pairing] e(6) by simp
  then show ?thesis using d by simp
qed

section \<open>Polling\<close>

text \<open>Asking for the delay again and again, at the given readings of the clock.\<close>

fun poll :: "nat \<Rightarrow> time_env list \<Rightarrow> Tracker \<Rightarrow> Tracker" where
  "poll sz [] av = av"
| "poll sz (env # envs) av = poll sz envs (snd (GNUNET_BANDWIDTH_tracker_get_delay env sz av))"

text \<open>Every reading comes less than the time of half a byte after the one before.\<close>

fun quick :: "time_env list \<Rightarrow> Tracker \<Rightarrow> bool" where
  "quick [] av = True"
| "quick (env # envs) av =
     (elapsed env av * uint (available_bytes_per_s av) < 500000 \<and>
      quick envs (av\<lparr>last_update := GNUNET_TIME_absolute_get env\<rparr>))"

lemma poll_once:
  assumes "elapsed env av * uint (available_bytes_per_s av) < 500000" "0 \<le> consumption av" "consumption av < 2 ^ 63"
  shows "update_tracker env av = av\<lparr>last_update := GNUNET_TIME_absolute_get env\<rparr>"
proof -
  have "0 \<le> elapsed env av * uint (available_bytes_per_s av)" by (simp add: elapsed_def)
  then have "uint (delta_avail env av) = 0" using assms(1) delta_avail_eq[of env av] by simp
  then have "consumption (update_tracker env av) = consumption av"
    using assms max_carry_range[of av] by (simp add: update_tracker_consumption s64_id)
  then show ?thesis by (simp add: update_tracker_def Let_def)
qed

text \<open>Polling starves the tracker. As long as the delay is asked for more often than the time the limit
  grants half a byte in, every update rounds the bandwidth earned since the last one down to nothing and
  forgets the time that passed, so the consumption never goes down, however long the polling lasts.\<close>

lemma bandwidth_polling_starves:
  assumes "quick envs av" "available_bytes_per_s av \<noteq> 0" "0 \<le> consumption av" "consumption av < 2 ^ 63"
  shows "consumption (poll sz envs av) = consumption av"
  using assms
proof (induction envs arbitrary: av)
  case (Cons env envs)
  then have u: "update_tracker env av = av\<lparr>last_update := GNUNET_TIME_absolute_get env\<rparr>" by (intro poll_once) simp_all
  then have "snd (GNUNET_BANDWIDTH_tracker_get_delay env sz av) = av\<lparr>last_update := GNUNET_TIME_absolute_get env\<rparr>"
    using Cons.prems by (simp add: GNUNET_BANDWIDTH_tracker_get_delay_def Let_def)
  then show ?case using Cons.IH[of "av\<lparr>last_update := GNUNET_TIME_absolute_get env\<rparr>"] Cons.prems by simp
qed simp

end
