(* ===== verification/Fragmentation.thy ===== *)
theory Fragmentation
  imports Bandwidth MST
begin

text \<open>
  The sending side of message fragmentation (\<^verbatim>\<open>src/src/fragmentation/fragmentation.c\<close>): a message is cut into
  at most 64 fragments, which are sent round-robin until the other side has acknowledged all of them. A
  result \<^verbatim>\<open>None\<close> is a failed assertion, a loop that does not end or a read outside the message. Message
  headers hold their fields in network byte order. The message given to the transmission callback
  is part of the result; the readings of the clock during one call are the values of \<open>clk\<close>.
\<close>

section \<open>Messages\<close>

abbreviation FRAGMENT_HEADER_SIZE :: nat where "FRAGMENT_HEADER_SIZE \<equiv> 12"
abbreviation FRAGMENT_ACK_SIZE :: nat where "FRAGMENT_ACK_SIZE \<equiv> 16"
abbreviation GNUNET_MESSAGE_TYPE_FRAGMENT :: uint16 where "GNUNET_MESSAGE_TYPE_FRAGMENT \<equiv> 18"
abbreviation GNUNET_MESSAGE_TYPE_FRAGMENT_ACK :: uint16 where "GNUNET_MESSAGE_TYPE_FRAGMENT_ACK \<equiv> 19"

record FragmentHeader =
  fh_size :: uint16
  fh_type :: uint16
  fh_fragment_id :: uint32
  fh_total_size :: uint16
  fh_offset :: uint16
  fh_data :: "uint8 list"

record FragmentAcknowledgement =
  fa_size :: uint16
  fa_type :: uint16
  fa_fragment_id :: uint32
  fa_bits :: uint64

text \<open>The size field of a message in memory, as a little-endian host reads it without conversion.\<close>

definition msg_size_nbo :: "uint8 list \<Rightarrow> uint16" where
  "msg_size_nbo bs = ucast (bs ! 0) OR push_bit 8 (ucast (bs ! 1))"

section \<open>The fragmentation context\<close>

datatype Task = TaskNow | TaskDelayed GNUNET_TIME_Relative | TaskAt GNUNET_TIME_Absolute

record FragmentContext =
  fc_tracker :: "Tracker option"
  fc_ack_delay :: GNUNET_TIME_Relative
  fc_msg_delay :: GNUNET_TIME_Relative
  fc_delay_until :: GNUNET_TIME_Absolute
  fc_last_round :: GNUNET_TIME_Absolute
  fc_msg :: "uint8 list"
  fc_acks :: uint64
  fc_acks_mask :: uint64
  fc_task :: "Task option"
  fc_fragment_id :: uint32
  fc_next_transmission :: nat
  fc_num_rounds :: uint32
  fc_num_transmissions :: uint32
  fc_proc_busy :: bool
  fc_wack :: bool
  fc_mtu :: uint16

text \<open>The bytes of the message one fragment carries.\<close>

definition payload_size :: "uint16 \<Rightarrow> nat" where
  "payload_size mtu = unat mtu - FRAGMENT_HEADER_SIZE"

definition num_fragments :: "uint16 \<Rightarrow> nat \<Rightarrow> nat" where
  "num_fragments mtu sz = (sz + payload_size mtu - 1) div payload_size mtu"

definition GNUNET_FRAGMENT_context_create ::
  "uint16 \<Rightarrow> Tracker option \<Rightarrow> GNUNET_TIME_Relative \<Rightarrow> GNUNET_TIME_Relative \<Rightarrow> uint8 list \<Rightarrow> uint32 \<Rightarrow>
   FragmentContext option" where
  "GNUNET_FRAGMENT_context_create mtu tracker msg_delay ack_delay msg rnd =
     (if \<not> unat mtu \<ge> 1024 + FRAGMENT_HEADER_SIZE then None
      else if \<not> msg_size msg \<ge> HEADER_SIZE then None
      else let n = num_fragments mtu (msg_size msg)
      in if \<not> n \<le> 64 then None
         else let acks_mask = (if n = 64 then UINT64_MAX else push_bit n 1 - 1)
         in Some \<lparr>fc_tracker = tracker, fc_ack_delay = ack_delay, fc_msg_delay = msg_delay,
              fc_delay_until = \<lparr>abs_value_us = 0\<rparr>, fc_last_round = \<lparr>abs_value_us = 0\<rparr>,
              fc_msg = take (msg_size msg) msg, fc_acks = acks_mask, fc_acks_mask = acks_mask, fc_task = Some TaskNow,
              fc_fragment_id = rnd, fc_next_transmission = 0, fc_num_rounds = 0, fc_num_transmissions = 0,
              fc_proc_busy = False, fc_wack = False, fc_mtu = mtu\<rparr>)"

section \<open>Transmission\<close>

text \<open>The loop that looks for the next unacknowledged fragment; the flag records a wrap-around.\<close>

partial_function (option) next_unacked :: "uint64 \<Rightarrow> nat \<Rightarrow> bool \<Rightarrow> (nat \<times> bool) option" where
  "next_unacked acks n wrap =
     (if acks AND push_bit n 1 = 0
      then let n' = (n + 1) mod 64 in next_unacked acks n' (wrap \<or> n' = 0)
      else Some (n, wrap))"

text \<open>The delay the tracker asks for, and its state after the question.\<close>

definition tracker_delay :: "time_env \<Rightarrow> nat \<Rightarrow> Tracker option \<Rightarrow> GNUNET_TIME_Relative \<times> Tracker option" where
  "tracker_delay env sz tr =
     (case tr of
        None \<Rightarrow> (GNUNET_TIME_relative_get_zero, None)
      | Some t \<Rightarrow> (case GNUNET_BANDWIDTH_tracker_get_delay env sz t of (d, t') \<Rightarrow> (d, Some t')))"

definition MIN_ACK_DELAY :: GNUNET_TIME_Relative where
  "MIN_ACK_DELAY = GNUNET_TIME_relative_multiply GNUNET_TIME_relative_get_millisecond 1"

text \<open>Assembling the fragment for a bit: its size, its header and the bytes copied out of the message.\<close>

definition fragment_size :: "FragmentContext \<Rightarrow> nat \<Rightarrow> nat" where
  "fragment_size fc b =
     (if b = msg_size (fc_msg fc) div payload_size (fc_mtu fc)
      then msg_size (fc_msg fc) mod payload_size (fc_mtu fc) + FRAGMENT_HEADER_SIZE
      else unat (fc_mtu fc))"

definition assemble :: "FragmentContext \<Rightarrow> nat \<Rightarrow> FragmentHeader option" where
  "assemble fc b =
     (let fsize = fragment_size fc b;
          off = b * payload_size (fc_mtu fc)
      in if off + (fsize - FRAGMENT_HEADER_SIZE) > length (fc_msg fc) then None
         else Some \<lparr>fh_size = htons (of_nat fsize), fh_type = htons GNUNET_MESSAGE_TYPE_FRAGMENT,
                    fh_fragment_id = htonl (fc_fragment_id fc), fh_total_size = msg_size_nbo (fc_msg fc),
                    fh_offset = htons (of_nat (payload_size (fc_mtu fc) * b)),
                    fh_data = take (fsize - FRAGMENT_HEADER_SIZE) (drop off (fc_msg fc))\<rparr>)"

text \<open>The delay after the transmission; the size of the next fragment is computed without its header there.\<close>

definition next_delay :: "time_env \<Rightarrow> FragmentContext \<Rightarrow> GNUNET_TIME_Relative \<times> Tracker option" where
  "next_delay env fc =
     (let b = fc_next_transmission fc;
          fsize = (if b = msg_size (fc_msg fc) div payload_size (fc_mtu fc)
                   then msg_size (fc_msg fc) mod payload_size (fc_mtu fc) else unat (fc_mtu fc));
          (delay, tr) = tracker_delay env fsize (fc_tracker fc)
      in (if fc_num_rounds fc < 64
          then GNUNET_TIME_relative_max delay
                 (GNUNET_TIME_relative_saturating_multiply (fc_msg_delay fc) (push_bit (unat (fc_num_rounds fc)) 1))
          else GNUNET_TIME_relative_get_forever, tr))"

definition full_round :: "time_env \<Rightarrow> FragmentContext \<Rightarrow> GNUNET_TIME_Relative \<times> FragmentContext" where
  "full_round env fc =
     (GNUNET_TIME_relative_max MIN_ACK_DELAY (GNUNET_TIME_relative_saturating_multiply (fc_ack_delay fc) 2),
      fc\<lparr>fc_num_rounds := fc_num_rounds fc + 1, fc_wack := True, fc_last_round := GNUNET_TIME_absolute_get env\<rparr>)"

definition transmit_fragment ::
  "(nat \<Rightarrow> time_env) \<Rightarrow> nat \<Rightarrow> bool \<Rightarrow> FragmentContext \<Rightarrow> (FragmentHeader option \<times> FragmentContext) option" where
  "transmit_fragment clk b wrap fc =
     (case assemble fc b of
        None \<Rightarrow> None
      | Some fh \<Rightarrow>
          let fc1 = fc\<lparr>fc_tracker := map_option
                (\<lambda>t. snd (GNUNET_BANDWIDTH_tracker_consume (clk 1) (int (fragment_size fc b)) t)) (fc_tracker fc)\<rparr>;
              (delay, tr) = next_delay (clk 2) fc1;
              fc2 = fc1\<lparr>fc_tracker := tr\<rparr>;
              (delay', fc3) = (if wrap then full_round (clk 3) fc2 else (delay, fc2))
          in Some (Some fh, fc3\<lparr>fc_proc_busy := True,
                 fc_delay_until := GNUNET_TIME_relative_to_absolute (clk 4) delay',
                 fc_num_transmissions := fc_num_transmissions fc3 + 1\<rparr>))"

definition transmit_next ::
  "(nat \<Rightarrow> time_env) \<Rightarrow> FragmentContext \<Rightarrow> (FragmentHeader option \<times> FragmentContext) option" where
  "transmit_next clk fc0 =
     (let fc = fc0\<lparr>fc_task := None\<rparr>
      in if fc_proc_busy fc then None
         else if fc_acks fc = 0 then Some (None, fc)
         else case next_unacked (fc_acks fc) (fc_next_transmission fc) False of
           None \<Rightarrow> None
         | Some (b, wrap) \<Rightarrow>
             let (delay, tr) = tracker_delay (clk 0) (fragment_size fc b) (fc_tracker fc);
                 fc1 = fc\<lparr>fc_next_transmission := b, fc_tracker := tr\<rparr>
             in if rel_value_us delay > 0 then Some (None, fc1\<lparr>fc_task := Some (TaskDelayed delay)\<rparr>)
                else let n' = (b + 1) mod 64
                in case next_unacked (fc_acks fc) n' (wrap \<or> n' = 0) of
                     None \<Rightarrow> None
                   | Some (b', wrap') \<Rightarrow> transmit_fragment clk b wrap' (fc1\<lparr>fc_next_transmission := b'\<rparr>))"

definition GNUNET_FRAGMENT_context_transmission_done :: "FragmentContext \<Rightarrow> FragmentContext option" where
  "GNUNET_FRAGMENT_context_transmission_done fc =
     (if \<not> fc_proc_busy fc \<or> fc_task fc \<noteq> None then None
      else Some (fc\<lparr>fc_proc_busy := False, fc_task := Some (TaskAt (fc_delay_until fc))\<rparr>))"

section \<open>Acknowledgements\<close>

text \<open>The numbers of fragments sent and acknowledged, as the loop counts them: the masked bit is compared with 1.\<close>

definition count_acks :: "uint64 \<Rightarrow> uint64 \<Rightarrow> uint32 \<times> uint32" where
  "count_acks acks_mask abits =
     fold (\<lambda>i (snd_cnt, ack_cnt).
       if acks_mask AND push_bit i 1 = 1
       then (snd_cnt + 1, if abits AND push_bit i 1 = 0 then ack_cnt + 1 else ack_cnt)
       else (snd_cnt, ack_cnt)) [0 ..< 64] (0, 0)"

definition update_delays :: "time_env \<Rightarrow> uint64 \<Rightarrow> FragmentContext \<Rightarrow> FragmentContext" where
  "update_delays env abits fc =
     (let ndelay = GNUNET_TIME_absolute_get_duration env (fc_last_round fc);
          per_msg = rel_value_us ndelay div ucast (fc_num_transmissions fc);
          ack_delay = \<lparr>rel_value_us = (per_msg + 3 * rel_value_us (fc_ack_delay fc)) div 4\<rparr>;
          (snd_cnt, ack_cnt) = count_acks (fc_acks_mask fc) abits;
          msg_delay =
            (if ack_cnt = 0 then GNUNET_TIME_relative_saturating_multiply (fc_msg_delay fc) (ucast snd_cnt)
             else if snd_cnt > ack_cnt
             then \<lparr>rel_value_us = rel_value_us (fc_msg_delay fc) * ucast ack_cnt div ucast snd_cnt\<rparr>
             else if snd_cnt = ack_cnt
             then \<lparr>rel_value_us = (per_msg + 3 * rel_value_us (fc_msg_delay fc)) div 5\<rparr>
             else fc_msg_delay fc)
      in fc\<lparr>fc_wack := False, fc_num_transmissions := 0,
            fc_msg_delay := GNUNET_TIME_relative_min msg_delay GNUNET_TIME_relative_get_second,
            fc_ack_delay := GNUNET_TIME_relative_min ack_delay GNUNET_TIME_relative_get_second\<rparr>)"

definition GNUNET_FRAGMENT_process_ack ::
  "time_env \<Rightarrow> FragmentAcknowledgement \<Rightarrow> FragmentContext \<Rightarrow> (int \<times> FragmentContext) option" where
  "GNUNET_FRAGMENT_process_ack env fa fc =
     (if FRAGMENT_ACK_SIZE \<noteq> unat (htons (fa_size fa)) then Some (GNUNET_SYSERR, fc)
      else if htonl (fa_fragment_id fa) \<noteq> fc_fragment_id fc then Some (GNUNET_SYSERR, fc)
      else
        let abits = GNUNET_ntohll (fa_bits fa);
            fc1 = (if fc_wack fc \<and> fc_num_transmissions fc \<noteq> 0 then update_delays env abits fc else fc);
            fc2 = fc1\<lparr>fc_acks := abits AND fc_acks_mask fc1\<rparr>
        in if fc_acks fc2 \<noteq> 0
           then (case fc_task fc2 of
                   Some _ \<Rightarrow> Some (GNUNET_NO, fc2\<lparr>fc_task := Some TaskNow\<rparr>)
                 | None \<Rightarrow> if \<not> fc_proc_busy fc2 then None else Some (GNUNET_NO, fc2))
           else Some (GNUNET_OK, fc2\<lparr>fc_task := None\<rparr>))"

text \<open>The delays reported when the context is destroyed.\<close>

definition GNUNET_FRAGMENT_context_destroy :: "FragmentContext \<Rightarrow> GNUNET_TIME_Relative \<times> GNUNET_TIME_Relative" where
  "GNUNET_FRAGMENT_context_destroy fc =
     (GNUNET_TIME_relative_saturating_multiply (fc_msg_delay fc) (ucast (fc_num_rounds fc)), fc_ack_delay fc)"

section \<open>Fragments of a message\<close>

text \<open>The fragment for a bit, without reference to the state of the sender.\<close>

definition fragment_data :: "uint16 \<Rightarrow> uint8 list \<Rightarrow> nat \<Rightarrow> uint8 list" where
  "fragment_data mtu msg b = take (payload_size mtu) (drop (b * payload_size mtu) msg)"

definition fragment_of :: "uint16 \<Rightarrow> uint32 \<Rightarrow> uint8 list \<Rightarrow> nat \<Rightarrow> FragmentHeader" where
  "fragment_of mtu fid msg b =
     \<lparr>fh_size = htons (of_nat (FRAGMENT_HEADER_SIZE + length (fragment_data mtu msg b))),
      fh_type = htons GNUNET_MESSAGE_TYPE_FRAGMENT, fh_fragment_id = htonl fid,
      fh_total_size = htons (of_nat (length msg)), fh_offset = htons (of_nat (b * payload_size mtu)),
      fh_data = fragment_data mtu msg b\<rparr>"

text \<open>A message whose size field is its length, and an MTU the sender accepts.\<close>

definition message_ok :: "uint8 list \<Rightarrow> bool" where
  "message_ok msg \<longleftrightarrow> HEADER_SIZE \<le> length msg \<and> msg_size msg = length msg"

abbreviation mtu_ok :: "uint16 \<Rightarrow> bool" where
  "mtu_ok mtu \<equiv> 1024 + FRAGMENT_HEADER_SIZE \<le> unat mtu"

lemma msg_size_nbo_eq: "htons (msg_size_nbo bs) = of_nat (msg_size bs)"
proof -
  have "htons (msg_size_nbo bs) = push_bit 8 (ucast (bs ! 0)) OR ucast (bs ! 1)"
    by (rule bit_word_eqI)
      (auto simp: htons_bits msg_size_nbo_def bit_or_iff bit_push_bit_iff bit_ucast_iff dest: bit_imp_le_length)
  also have "\<dots> = push_bit 8 (ucast (bs ! 0)) + ucast (bs ! 1)"
    by (rule disjunctive_add[symmetric]) (auto simp: bit_push_bit_iff bit_ucast_iff dest: bit_imp_le_length)
  finally show ?thesis by (simp add: msg_size_def push_bit_eq_mult)
qed

lemma msg_size_less: "msg_size bs < 65536"
  using unsigned_less[where 'a = nat, of "bs ! 0"] unsigned_less[where 'a = nat, of "bs ! 1"] by (simp add: msg_size_def)

lemma payload_pos: "mtu_ok mtu \<Longrightarrow> 1024 \<le> payload_size mtu"
  by (simp add: payload_size_def)

lemma num_fragments_gt: "mtu_ok mtu \<Longrightarrow> b < num_fragments mtu sz \<longleftrightarrow> b * payload_size mtu < sz"
proof -
  assume "mtu_ok mtu"
  then have p: "0 < payload_size mtu" using payload_pos by fastforce
  have "b < (sz + payload_size mtu - 1) div payload_size mtu \<longleftrightarrow> Suc b * payload_size mtu \<le> sz + payload_size mtu - 1"
    using less_eq_div_iff_mult_less_eq[OF p, of "Suc b" "sz + payload_size mtu - 1"] by (simp only: Suc_le_eq)
  then show ?thesis using p by (auto simp: num_fragments_def)
qed

lemma num_fragments_le: "mtu_ok mtu \<Longrightarrow> sz < 65536 \<Longrightarrow> num_fragments mtu sz \<le> 64"
proof -
  assume m: "mtu_ok mtu" and "sz < 65536"
  then have "\<not> 64 * payload_size mtu < sz" using payload_pos[OF m] by linarith
  then show ?thesis using num_fragments_gt[OF m, of 64 sz] by simp
qed

text \<open>The invariant of the sender.\<close>

definition frag_wf :: "FragmentContext \<Rightarrow> bool" where
  "frag_wf fc \<longleftrightarrow>
     mtu_ok (fc_mtu fc) \<and> message_ok (fc_msg fc) \<and>
     fc_acks_mask fc = mask (num_fragments (fc_mtu fc) (length (fc_msg fc))) \<and>
     fc_acks fc AND fc_acks_mask fc = fc_acks fc \<and> fc_next_transmission fc < 64 \<and>
     (fc_task fc = None \<and> fc_acks fc \<noteq> 0 \<longrightarrow> fc_proc_busy fc) \<and> (fc_proc_busy fc \<longrightarrow> fc_task fc = None)"

abbreviation fc_fragment :: "FragmentContext \<Rightarrow> nat \<Rightarrow> FragmentHeader" where
  "fc_fragment fc b \<equiv> fragment_of (fc_mtu fc) (fc_fragment_id fc) (fc_msg fc) b"

lemma all_acks_mask:
  "n \<le> 64 \<Longrightarrow> (if n = 64 then UINT64_MAX else push_bit n 1 - 1 :: uint64) = mask n"
proof -
  have "mask 64 = (- 1 :: uint64)" by (simp add: mask_eq_exp_minus_1)
  then show ?thesis by (simp add: mask_eq_exp_minus_1 push_bit_eq_mult)
qed

lemma bit_test: "(x :: uint64) AND push_bit n 1 = 0 \<longleftrightarrow> \<not> bit x n"
  by (simp add: push_bit_of_1 and_exp_eq_0_iff_not_bit)

lemma assemble_fragment:
  assumes m: "mtu_ok (fc_mtu fc)" "message_ok (fc_msg fc)" and b: "b < num_fragments (fc_mtu fc) (length (fc_msg fc))"
  shows "assemble fc b = Some (fc_fragment fc b)" "fragment_size fc b = FRAGMENT_HEADER_SIZE + length (fragment_data (fc_mtu fc) (fc_msg fc) b)"
    "fragment_size fc b \<le> unat (fc_mtu fc)"
proof -
  let ?p = "payload_size (fc_mtu fc)" and ?n = "length (fc_msg fc)"
  have p: "0 < ?p" "unat (fc_mtu fc) = FRAGMENT_HEADER_SIZE + ?p" using payload_pos[OF m(1)] by (simp_all add: payload_size_def)
  have lt: "b * ?p < ?n" using b num_fragments_gt[OF m(1)] by simp
  have data: "length (fragment_data (fc_mtu fc) (fc_msg fc) b) = (if b = ?n div ?p then ?n mod ?p else ?p)"
  proof (cases "b = ?n div ?p")
    case True
    then have "?n - b * ?p = ?n mod ?p" by (simp add: minus_div_mult_eq_mod)
    then show ?thesis using True p by (simp add: fragment_data_def min_def less_imp_le)
  next
    case False
    have "b \<le> ?n div ?p" using lt p(1) by (simp add: less_eq_div_iff_mult_less_eq)
    then have "Suc b \<le> ?n div ?p" using False by simp
    then have "Suc b * ?p \<le> ?n" using less_eq_div_iff_mult_less_eq[OF p(1), of "Suc b" ?n] by simp
    then show ?thesis using False by (simp add: fragment_data_def)
  qed
  show fs: "fragment_size fc b = FRAGMENT_HEADER_SIZE + length (fragment_data (fc_mtu fc) (fc_msg fc) b)"
    using m(2) p by (simp add: fragment_size_def data message_ok_def)
  show "fragment_size fc b \<le> unat (fc_mtu fc)" using p by (simp add: fs data less_imp_le)
  have d: "take (length (fragment_data (fc_mtu fc) (fc_msg fc) b)) (drop (b * ?p) (fc_msg fc)) = fragment_data (fc_mtu fc) (fc_msg fc) b"
    by (simp add: fragment_data_def min_def)
  have le: "b * ?p + length (fragment_data (fc_mtu fc) (fc_msg fc) b) \<le> ?n" using lt by (simp add: fragment_data_def)
  have "msg_size_nbo (fc_msg fc) = htons (of_nat ?n)"
    using msg_size_nbo_eq[of "fc_msg fc"] m(2) htons_htons unfolding message_ok_def by metis
  then show "assemble fc b = Some (fc_fragment fc b)"
    using le by (simp add: assemble_def fs fragment_of_def d mult.commute)
qed

section \<open>The loops end\<close>

text \<open>The number of steps from one position to another, going round the 64 positions.\<close>

definition ahead :: "nat \<Rightarrow> nat \<Rightarrow> nat" where
  "ahead n b = (b + 64 - n) mod 64"

lemma ahead_step: "n < 64 \<Longrightarrow> b < 64 \<Longrightarrow> n \<noteq> b \<Longrightarrow> Suc (ahead ((n + 1) mod 64) b) = ahead n b"
  unfolding ahead_def by (cases "n = 63"; cases "b < n") (auto simp: mod_if)

lemma ahead_0: "n < 64 \<Longrightarrow> b < 64 \<Longrightarrow> ahead n b = 0 \<longleftrightarrow> n = b"
  unfolding ahead_def by (cases "b < n") (auto simp: mod_if)

lemma next_unacked_step:
  "bit acks n \<Longrightarrow> next_unacked acks n wrap = Some (n, wrap)"
  "\<not> bit acks n \<Longrightarrow> next_unacked acks n wrap = next_unacked acks ((n + 1) mod 64) (wrap \<or> (n + 1) mod 64 = 0)"
  by (subst next_unacked.simps, simp only: bit_test Let_def not_True_eq_False not_False_eq_True if_True if_False)+

lemma next_unacked_finds:
  assumes "bit acks b" "n < 64"
  shows "\<exists>b' w. next_unacked acks n wrap = Some (b', w) \<and> bit acks b' \<and> b' < 64 \<and>
    ahead n b' + ahead b' b = ahead n b"
  using assms(2)
proof (induction "ahead n b" arbitrary: n wrap)
  have b: "b < 64" using bit_imp_le_length[OF assms(1)] by simp
  {
    case 0
    then have "n = b" using b by (simp add: ahead_0)
    then show ?case using assms(1) 0 b by (simp add: next_unacked_step ahead_0)
  next
    case (Suc k)
    show ?case
    proof (cases "bit acks n")
      case True
      then show ?thesis using Suc.prems by (simp add: next_unacked_step ahead_0)
    next
      case False
      then have ne: "n \<noteq> b" using assms(1) by auto
      let ?n = "(n + 1) mod 64"
      have k: "k = ahead ?n b" "?n < 64" using ahead_step[OF Suc.prems b ne] Suc.hyps(2) by simp_all
      from Suc.hyps(1)[OF k, of "wrap \<or> ?n = 0"] obtain b' w where
        r: "next_unacked acks ?n (wrap \<or> ?n = 0) = Some (b', w)" "bit acks b'" "b' < 64" "ahead ?n b' + ahead b' b = ahead ?n b" by auto
      have "n \<noteq> b'" using r(2) False by auto
      then have "ahead n b' + ahead b' b = ahead n b"
        using ahead_step[OF Suc.prems r(3)] ahead_step[OF Suc.prems b ne] r(4) by simp
      then show ?thesis using r next_unacked_step(2)[OF False, of wrap] by simp
    qed
  }
qed

section \<open>Transmissions\<close>

text \<open>What a transmission leaves alone.\<close>

definition same_message :: "FragmentContext \<Rightarrow> FragmentContext \<Rightarrow> bool" where
  "same_message fc fc' \<longleftrightarrow> fc_mtu fc' = fc_mtu fc \<and> fc_msg fc' = fc_msg fc \<and> fc_acks_mask fc' = fc_acks_mask fc \<and>
     fc_fragment_id fc' = fc_fragment_id fc"

lemma same_message_refl [simp]: "same_message fc fc" by (simp add: same_message_def)

lemma same_message_trans [trans]: "same_message a b \<Longrightarrow> same_message b c \<Longrightarrow> same_message a c"
  by (simp add: same_message_def)

abbreviation fc_count :: "FragmentContext \<Rightarrow> nat" where
  "fc_count fc \<equiv> num_fragments (fc_mtu fc) (length (fc_msg fc))"

lemma frag_wf_bits:
  assumes "frag_wf fc" "bit (fc_acks fc) b"
  shows "b < fc_count fc" "b < 64"
proof -
  have "fc_acks fc = fc_acks fc AND mask (fc_count fc)" using assms(1) unfolding frag_wf_def by metis
  then have "bit (fc_acks fc AND mask (fc_count fc)) b" using assms(2) by metis
  then show "b < fc_count fc" by (simp add: bit_and_iff bit_mask_iff)
  show "b < 64" using bit_imp_le_length[OF assms(2)] by simp
qed

lemma nonzero_bit: "(w :: uint64) \<noteq> 0 \<Longrightarrow> \<exists>b. bit w b"
  using bit_word_eqI[of w 0] by auto

lemma transmit_fragment_ok:
  assumes "mtu_ok (fc_mtu fc)" "message_ok (fc_msg fc)" "b < fc_count fc"
  shows "\<exists>fc'. transmit_fragment clk b wrap fc = Some (Some (fc_fragment fc b), fc') \<and> same_message fc fc' \<and>
    fc_acks fc' = fc_acks fc \<and> fc_next_transmission fc' = fc_next_transmission fc \<and> fc_task fc' = fc_task fc \<and> fc_proc_busy fc' \<and>
    (fc_tracker fc = None \<longrightarrow> fc_tracker fc' = None)"
  by (auto simp: transmit_fragment_def assemble_fragment(1)[OF assms] full_round_def same_message_def Let_def
      next_delay_def tracker_delay_def split: prod.splits)

lemma tracker_delay_None [simp]: "tracker_delay env sz None = (GNUNET_TIME_relative_get_zero, None)"
  by (simp add: tracker_delay_def)

text \<open>
  One run of the transmission task: it is done, it waits for the bandwidth, or it sends the first missing
  fragment from the round-robin position on, and moves the position on to the missing fragment after that.
\<close>

lemma transmit_next_done:
  "\<not> fc_proc_busy fc \<Longrightarrow> fc_acks fc = 0 \<Longrightarrow> transmit_next clk fc = Some (None, fc\<lparr>fc_task := None\<rparr>)"
  by (simp add: transmit_next_def)

lemma transmit_next_cases:
  assumes wf: "frag_wf fc" and idle: "\<not> fc_proc_busy fc" and missing: "fc_acks fc \<noteq> 0"
  obtains (delayed) b w fc' where "next_unacked (fc_acks fc) (fc_next_transmission fc) False = Some (b, w)"
      "bit (fc_acks fc) b" "b < 64" "same_message fc fc'" "fc_acks fc' = fc_acks fc"
      "transmit_next clk fc = Some (None, fc')" "fc_tracker fc \<noteq> None" "\<not> fc_proc_busy fc'" "fc_task fc' \<noteq> None"
      "fc_next_transmission fc' = b"
    | (sent) b w w' w'' fc' where "next_unacked (fc_acks fc) (fc_next_transmission fc) False = Some (b, w)"
      "bit (fc_acks fc) b" "b < 64" "same_message fc fc'" "fc_acks fc' = fc_acks fc"
      "transmit_next clk fc = Some (Some (fc_fragment fc b), fc')" "fc_proc_busy fc'" "fc_task fc' = None"
      "fc_tracker fc = None \<longrightarrow> fc_tracker fc' = None"
      "next_unacked (fc_acks fc) ((b + 1) mod 64) w' = Some (fc_next_transmission fc', w'')"
proof -
  obtain t where t: "bit (fc_acks fc) t" using nonzero_bit[OF missing] by blast
  from next_unacked_finds[OF t, of "fc_next_transmission fc" False] wf obtain b w where
    b: "next_unacked (fc_acks fc) (fc_next_transmission fc) False = Some (b, w)" "bit (fc_acks fc) b" "b < 64"
    by (auto simp: frag_wf_def)
  define w' where "w' = (w \<or> (b + 1) mod 64 = 0)"
  from next_unacked_finds[OF t, of "(b + 1) mod 64" w'] obtain b' w'' where
    b': "next_unacked (fc_acks fc) ((b + 1) mod 64) w' = Some (b', w'')" by auto
  obtain delay tr where d: "tracker_delay (clk 0) (fragment_size (fc\<lparr>fc_task := None\<rparr>) b) (fc_tracker fc) = (delay, tr)" by fastforce
  have tr: "fc_tracker fc = None \<Longrightarrow> tr = None \<and> rel_value_us delay = 0" using d by (auto simp: time_defs)
  define fc1 fc2 where "fc1 = fc\<lparr>fc_task := Some (TaskDelayed delay), fc_next_transmission := b, fc_tracker := tr\<rparr>"
    and "fc2 = fc\<lparr>fc_task := None, fc_tracker := tr, fc_next_transmission := b'\<rparr>"
  have T: "transmit_next clk fc = (if rel_value_us delay > 0 then Some (None, fc1) else transmit_fragment clk b w'' fc2)"
    using idle missing b(1) d b' by (simp add: transmit_next_def w'_def Let_def fc1_def fc2_def)
  show ?thesis
  proof (cases "rel_value_us delay > 0")
    case True
    then have "fc_tracker fc \<noteq> None" using tr by (cases "fc_tracker fc") simp_all
    then show ?thesis using T True idle by (intro delayed[OF b, of fc1]) (simp_all add: fc1_def same_message_def)
  next
    case False
    from transmit_fragment_ok[of fc2 b clk w''] wf frag_wf_bits(1)[OF wf b(2)] obtain fc' where
      f: "transmit_fragment clk b w'' fc2 = Some (Some (fc_fragment fc2 b), fc')" "same_message fc2 fc'" "fc_acks fc' = fc_acks fc"
        "fc_next_transmission fc' = b'" "fc_task fc' = None" "fc_proc_busy fc'" "tr = None \<longrightarrow> fc_tracker fc' = None"
      by (auto simp: frag_wf_def fc2_def)
    have "same_message fc fc'" "fc_fragment fc2 b = fc_fragment fc b" using f(2) by (simp_all add: same_message_def fc2_def)
    then show ?thesis using T False f tr b' by (intro sent[OF b]) auto
  qed
qed

lemma next_unacked_less: "next_unacked acks n w = Some (b, w') \<Longrightarrow> acks \<noteq> 0 \<Longrightarrow> n < 64 \<Longrightarrow> bit acks b \<and> b < 64"
  using nonzero_bit[of acks] next_unacked_finds[of acks _ n w] by fastforce

lemma transmit_next_wf:
  assumes wf: "frag_wf fc" and idle: "\<not> fc_proc_busy fc"
  shows "\<exists>out fc'. transmit_next clk fc = Some (out, fc') \<and> frag_wf fc' \<and> same_message fc fc' \<and> fc_acks fc' = fc_acks fc \<and>
    (case out of None \<Rightarrow> \<not> fc_proc_busy fc' \<and> (fc_acks fc \<noteq> 0 \<longrightarrow> fc_tracker fc \<noteq> None \<and> fc_task fc' \<noteq> None)
     | Some f \<Rightarrow> fc_proc_busy fc' \<and> (\<exists>b. bit (fc_acks fc) b \<and> b < fc_count fc \<and> f = fc_fragment fc b))"
proof (cases "fc_acks fc = 0")
  case True
  then show ?thesis using transmit_next_done[OF idle] wf idle by (auto simp: frag_wf_def same_message_def)
next
  case False
  from wf idle False show ?thesis
  proof (cases rule: transmit_next_cases[where clk = clk])
    case (delayed b w fc')
    then show ?thesis using wf False idle by (auto simp: frag_wf_def same_message_def)
  next
    case (sent b w w' w'' fc')
    have "fc_next_transmission fc' < 64" using next_unacked_less[OF sent(10) False] by simp
    then show ?thesis using sent wf False frag_wf_bits[OF wf sent(2)] by (auto simp: frag_wf_def same_message_def)
  qed
qed

lemma transmission_done_ok:
  assumes "frag_wf fc" "fc_proc_busy fc"
  shows "\<exists>fc'. GNUNET_FRAGMENT_context_transmission_done fc = Some fc' \<and> frag_wf fc' \<and> same_message fc fc' \<and>
    fc_acks fc' = fc_acks fc \<and> \<not> fc_proc_busy fc' \<and> fc_task fc' \<noteq> None \<and>
    fc_next_transmission fc' = fc_next_transmission fc \<and> fc_tracker fc' = fc_tracker fc"
  using assms by (auto simp: GNUNET_FRAGMENT_context_transmission_done_def frag_wf_def same_message_def)

lemma context_create_ok:
  assumes "mtu_ok mtu" "message_ok msg"
  shows "\<exists>fc. GNUNET_FRAGMENT_context_create mtu tracker msg_delay ack_delay msg rnd = Some fc \<and> frag_wf fc \<and>
    fc_msg fc = msg \<and> fc_mtu fc = mtu \<and> fc_fragment_id fc = rnd \<and> fc_acks fc = fc_acks_mask fc \<and> fc_tracker fc = tracker \<and>
    \<not> fc_proc_busy fc \<and> fc_task fc \<noteq> None"
proof -
  have "msg_size msg < 65536" by (rule msg_size_less)
  then have n: "num_fragments mtu (length msg) \<le> 64" using assms num_fragments_le by (simp add: message_ok_def)
  show ?thesis
    using assms all_acks_mask[OF n] n
    by (simp add: GNUNET_FRAGMENT_context_create_def frag_wf_def message_ok_def Let_def)
qed

section \<open>Counting acknowledgements\<close>

text \<open>The loop that should count all fragments sent only ever counts the first one.\<close>

lemma count_acks_first_only:
  "count_acks acks_mask abits = (if bit acks_mask 0 then (1, if bit abits 0 then 0 else 1) else (0, 0))"
proof -
  have one: "acks_mask AND push_bit i 1 = 1 \<longleftrightarrow> i = 0 \<and> bit acks_mask 0" for i
  proof (cases i)
    case (Suc j)
    have "\<not> bit (acks_mask AND push_bit (Suc j) 1) 0" by (simp only: bit_and_iff bit_push_bit_iff) simp
    then have "acks_mask AND push_bit (Suc j) 1 \<noteq> 1" by (metis bit_1_0)
    then show ?thesis using Suc by simp
  qed (simp add: and_one_eq mod_2_eq_odd bit_0)
  define f where "f = (\<lambda>i (snd_cnt :: uint32, ack_cnt :: uint32).
    if acks_mask AND push_bit i 1 = 1
    then (snd_cnt + 1, if abits AND push_bit i 1 = 0 then ack_cnt + 1 else ack_cnt) else (snd_cnt, ack_cnt))"
  have rest: "fold f is c = c" if "0 \<notin> set is" for "is" c
    using that by (induction "is" arbitrary: c) (auto simp: f_def one simp del: push_bit_of_1)
  have "[0 ..< 64] = 0 # [Suc 0 ..< 64]" by (rule upt_conv_Cons) simp
  then have "count_acks acks_mask abits = fold f [Suc 0 ..< 64] (f 0 (0, 0))"
    unfolding count_acks_def f_def by simp
  then show ?thesis using rest[of "[Suc 0 ..< 64]"] one[of 0] by (simp add: f_def and_one_eq mod_2_eq_odd bit_0)
qed

section \<open>Every missing fragment is sent\<close>

text \<open>Transmissions one after the other, each followed by the report that it was done; the fragments sent.\<close>

fun send_many :: "(nat \<Rightarrow> nat \<Rightarrow> time_env) \<Rightarrow> nat \<Rightarrow> FragmentContext \<Rightarrow> (FragmentHeader list \<times> FragmentContext) option" where
  "send_many clk 0 fc = Some ([], fc)"
| "send_many clk (Suc k) fc =
     (case transmit_next (clk k) fc of
        Some (Some f, fc1) \<Rightarrow>
          (case GNUNET_FRAGMENT_context_transmission_done fc1 of
             None \<Rightarrow> None
           | Some fc2 \<Rightarrow> map_option (\<lambda>(fs, fc'). (f # fs, fc')) (send_many clk k fc2))
      | _ \<Rightarrow> None)"

text \<open>One transmission without a bandwidth limit sends the target, or comes closer to it.\<close>

lemma send_step:
  assumes wf: "frag_wf fc" and idle: "\<not> fc_proc_busy fc" and tr: "fc_tracker fc = None" and t: "bit (fc_acks fc) t"
  shows "\<exists>b fc1 fc2. transmit_next clk fc = Some (Some (fc_fragment fc b), fc1) \<and> bit (fc_acks fc) b \<and>
    GNUNET_FRAGMENT_context_transmission_done fc1 = Some fc2 \<and> frag_wf fc2 \<and> \<not> fc_proc_busy fc2 \<and> fc_tracker fc2 = None \<and>
    same_message fc fc2 \<and> fc_acks fc2 = fc_acks fc \<and>
    (b = t \<or> ahead (fc_next_transmission fc2) t < ahead (fc_next_transmission fc) t)"
proof -
  have ne: "fc_acks fc \<noteq> 0" using t by auto
  from wf idle ne show ?thesis
  proof (cases rule: transmit_next_cases[where clk = clk])
    case (delayed b w fc')
    then show ?thesis using tr by simp
  next
    case (sent b w w' w'' fc')
    obtain out fc0 where o: "transmit_next clk fc = Some (out, fc0)" "frag_wf fc0"
      using transmit_next_wf[OF wf idle, of clk] by blast
    then have "frag_wf fc'" using sent(6) by simp
    from transmission_done_ok[OF this sent(7)] obtain fc2 where
      d: "GNUNET_FRAGMENT_context_transmission_done fc' = Some fc2" "frag_wf fc2" "same_message fc' fc2" "fc_acks fc2 = fc_acks fc'"
        "\<not> fc_proc_busy fc2" "fc_next_transmission fc2 = fc_next_transmission fc'" "fc_tracker fc2 = fc_tracker fc'" by blast
    have n: "fc_next_transmission fc < 64" "t < 64" using wf frag_wf_bits(2)[OF wf t] by (simp_all add: frag_wf_def)
    have "ahead (fc_next_transmission fc2) t < ahead (fc_next_transmission fc) t" if "b \<noteq> t"
    proof -
      have "ahead (fc_next_transmission fc) b + ahead b t = ahead (fc_next_transmission fc) t"
        using next_unacked_finds[OF t n(1), of False] sent(1) by auto
      moreover have "ahead ((b + 1) mod 64) (fc_next_transmission fc') + ahead (fc_next_transmission fc') t = ahead ((b + 1) mod 64) t"
        using next_unacked_finds[OF t, of "(b + 1) mod 64" w'] sent(10) by auto
      ultimately show ?thesis using ahead_step[OF sent(3) n(2) that] d(6) by simp
    qed
    then show ?thesis using sent d tr same_message_trans[OF sent(4) d(3)] by (intro exI[of _ b] exI[of _ fc'] exI[of _ fc2]) auto
  qed
qed

lemma fc_fragment_same: "same_message fc fc' \<Longrightarrow> fc_fragment fc' b = fc_fragment fc b"
  by (simp add: same_message_def)

lemma send_many_ok:
  assumes "frag_wf fc" "\<not> fc_proc_busy fc" "fc_tracker fc = None" "fc_acks fc \<noteq> 0"
  shows "\<exists>fs fc'. send_many clk k fc = Some (fs, fc') \<and> frag_wf fc' \<and> \<not> fc_proc_busy fc' \<and> same_message fc fc' \<and> fc_acks fc' = fc_acks fc \<and>
    set fs \<subseteq> fc_fragment fc ` {b. bit (fc_acks fc) b} \<and> length fs = k \<and>
    (\<forall>t. bit (fc_acks fc) t \<longrightarrow> ahead (fc_next_transmission fc) t < k \<longrightarrow> fc_fragment fc t \<in> set fs)"
  using assms
proof (induction k arbitrary: fc)
  case (Suc k)
  obtain t0 where t0: "bit (fc_acks fc) t0" using nonzero_bit Suc.prems(4) by blast
  from send_step[OF Suc.prems(1-3) t0, of "clk k"] obtain b fc1 fc2 where
    s: "transmit_next (clk k) fc = Some (Some (fc_fragment fc b), fc1)" "bit (fc_acks fc) b"
      "GNUNET_FRAGMENT_context_transmission_done fc1 = Some fc2" "frag_wf fc2" "\<not> fc_proc_busy fc2" "fc_tracker fc2 = None"
      "same_message fc fc2" "fc_acks fc2 = fc_acks fc" by blast
  have closer: "fc_fragment fc b = fc_fragment fc t \<or> ahead (fc_next_transmission fc2) t < ahead (fc_next_transmission fc) t"
    if "bit (fc_acks fc) t" for t
    using send_step[OF Suc.prems(1-3) that, of "clk k"] s(1,3) by auto
  obtain fs fc' where r: "send_many clk k fc2 = Some (fs, fc')" "frag_wf fc'" "\<not> fc_proc_busy fc'" "same_message fc2 fc'"
      "fc_acks fc' = fc_acks fc" "set fs \<subseteq> fc_fragment fc ` {b. bit (fc_acks fc) b}" "length fs = k"
      "\<And>t. bit (fc_acks fc) t \<Longrightarrow> ahead (fc_next_transmission fc2) t < k \<Longrightarrow> fc_fragment fc t \<in> set fs"
    using Suc.IH[OF s(4-6)] Suc.prems(4) s(7,8) by (auto simp: same_message_def)
  have "fc_fragment fc t \<in> set (fc_fragment fc b # fs)"
    if "bit (fc_acks fc) t" "ahead (fc_next_transmission fc) t < Suc k" for t
    using closer[OF that(1)] r(8)[OF that(1)] that(2) by (cases "fc_fragment fc t = fc_fragment fc b") auto
  then show ?case using s r same_message_trans[OF s(7) r(4)] by auto
qed simp

text \<open>Without a bandwidth limit and without acknowledgements, 64 transmissions from any state of a sender that
  has not been acknowledged completely send every missing fragment of the message at least once, and nothing but missing
  fragments; no assertion fails, no loop runs forever and no read leaves the message.\<close>

lemma fragment_round_robin_complete:
  assumes "frag_wf fc" "\<not> fc_proc_busy fc" "fc_tracker fc = None" "fc_acks fc \<noteq> 0" "64 \<le> k"
  shows "\<exists>fs fc'. send_many clk k fc = Some (fs, fc') \<and> frag_wf fc' \<and>
    set fs = fc_fragment fc ` {b. bit (fc_acks fc) b}"
proof -
  from send_many_ok[OF assms(1-4), of clk k] obtain fs fc' where
    r: "send_many clk k fc = Some (fs, fc')" "frag_wf fc'" "set fs \<subseteq> fc_fragment fc ` {b. bit (fc_acks fc) b}"
      "\<And>t. bit (fc_acks fc) t \<Longrightarrow> ahead (fc_next_transmission fc) t < k \<Longrightarrow> fc_fragment fc t \<in> set fs" by blast
  have "ahead n t < k" for n t using assms(5) by (simp add: ahead_def less_le_trans[OF mod_less_divisor])
  then show ?thesis using r by blast
qed

definition sample_message :: "uint8 list" where
  "sample_message = [4, 1] @ replicate 1023 7"

lemma sample_message_ok: "message_ok sample_message" "length sample_message = 1025"
  by (simp_all add: message_ok_def sample_message_def msg_size_def)

lemma bit_3: "bit (3 :: uint64) b \<longleftrightarrow> b \<in> {0, 1}"
proof -
  have "bit (3 :: uint64) b \<longleftrightarrow> bit (mask 2 :: uint64) b" by (simp add: mask_eq_exp_minus_1)
  also have "\<dots> \<longleftrightarrow> b < 2" by (auto simp only: bit_mask_iff) simp_all
  finally show ?thesis by auto
qed

end
