(* ===== verification/Defragmentation.thy ===== *)
theory Defragmentation
  imports Fragmentation
begin

text \<open>
  The receiving side of message fragmentation (\<^verbatim>\<open>src/src/fragmentation/defragmentation.c\<close>). Fragments come
  from the network and are not trusted: every field of the header is arbitrary. A result \<^verbatim>\<open>None\<close> is a failed
  assertion, a shift by more than 63 bits, a division by zero or a write outside of an array. The estimate
  of the latency is a least-squares fit in floating point and the parameter \<open>estimate_latency\<close>; it
  only decides when an acknowledgement is sent. The message handed to the callback is part of the result.
\<close>

section \<open>State\<close>

record FragTimes =
  ft_time :: GNUNET_TIME_Absolute
  ft_bit :: nat

record MessageContext =
  mc_msg :: "uint8 list"
  mc_last_update :: GNUNET_TIME_Absolute
  mc_ack_task :: "GNUNET_TIME_Relative option"
  mc_frag_times :: "FragTimes list"
  mc_bits :: uint64
  mc_fragment_id :: uint32
  mc_last_bit :: nat
  mc_frag_times_start_offset :: nat
  mc_frag_times_write_offset :: nat
  mc_total_size :: uint16
  mc_last_duplicate :: bool

record DefragmentContext =
  dc_list :: "MessageContext list"
  dc_latency :: GNUNET_TIME_Relative
  dc_num_msgs :: uint32
  dc_list_size :: uint32
  dc_mtu :: uint16

definition GNUNET_DEFRAGMENT_context_create :: "uint16 \<Rightarrow> uint32 \<Rightarrow> DefragmentContext" where
  "GNUNET_DEFRAGMENT_context_create mtu num_msgs =
     \<lparr>dc_list = [], dc_latency = GNUNET_TIME_relative_get_second, dc_num_msgs = num_msgs, dc_list_size = 0, dc_mtu = mtu\<rparr>"

text \<open>The loop of the destructor: every context is unlinked and the counter must end at zero.\<close>

fun destroy_list :: "MessageContext list \<Rightarrow> uint32 \<Rightarrow> uint32" where
  "destroy_list [] n = n"
| "destroy_list (mc # mcs) n = destroy_list mcs (n - 1)"

definition GNUNET_DEFRAGMENT_context_destroy :: "DefragmentContext \<Rightarrow> unit option" where
  "GNUNET_DEFRAGMENT_context_destroy dc = (if destroy_list (dc_list dc) (dc_list_size dc) = 0 then Some () else None)"

section \<open>Acknowledgements\<close>

definition send_ack :: "MessageContext \<Rightarrow> FragmentAcknowledgement \<times> MessageContext" where
  "send_ack mc =
     (\<lparr>fa_size = htons (of_nat FRAGMENT_ACK_SIZE), fa_type = htons GNUNET_MESSAGE_TYPE_FRAGMENT_ACK,
       fa_fragment_id = htonl (mc_fragment_id mc), fa_bits = GNUNET_htonll (mc_bits mc)\<rparr>,
      mc\<lparr>mc_ack_task := None, mc_last_duplicate := False\<rparr>)"

section \<open>Processing a fragment\<close>

text \<open>The position of the context that was not updated for the longest time.\<close>

fun find_oldest :: "nat \<Rightarrow> (nat \<times> GNUNET_TIME_Absolute) option \<Rightarrow> MessageContext list \<Rightarrow> nat option" where
  "find_oldest i old [] = map_option fst old"
| "find_oldest i old (pos # rest) =
     find_oldest (Suc i)
       (case old of
          None \<Rightarrow> Some (i, mc_last_update pos)
        | Some (j, t) \<Rightarrow> if abs_value_us t > abs_value_us (mc_last_update pos) then Some (i, mc_last_update pos) else old) rest"

definition discard_oldest_mc :: "DefragmentContext \<Rightarrow> DefragmentContext option" where
  "discard_oldest_mc dc =
     (case find_oldest 0 None (dc_list dc) of
        None \<Rightarrow> None
      | Some i \<Rightarrow> Some (dc\<lparr>dc_list := take i (dc_list dc) @ drop (Suc i) (dc_list dc), dc_list_size := dc_list_size dc - 1\<rparr>))"

fun find_mc :: "nat \<Rightarrow> uint32 \<Rightarrow> MessageContext list \<Rightarrow> nat option" where
  "find_mc i fid [] = None"
| "find_mc i fid (mc # mcs) = (if fid \<noteq> mc_fragment_id mc then find_mc (Suc i) fid mcs else Some i)"

text \<open>A new context; the message follows the structure in memory and is zeroed by the allocation.\<close>

definition new_mc :: "DefragmentContext \<Rightarrow> GNUNET_TIME_Absolute \<Rightarrow> uint32 \<Rightarrow> uint16 \<Rightarrow> MessageContext option" where
  "new_mc dc now fid msize =
     (let n = num_fragments (dc_mtu dc) (unat msize)
      in if n > 64 then None
         else Some \<lparr>mc_msg = replicate (unat msize) 0, mc_last_update = now, mc_ack_task = None,
                    mc_frag_times = replicate 64 \<lparr>ft_time = \<lparr>abs_value_us = 0\<rparr>, ft_bit = 0\<rparr>,
                    mc_bits = (if n = 64 then UINT64_MAX else push_bit n 1 - 1), mc_fragment_id = fid, mc_last_bit = 0,
                    mc_frag_times_start_offset = 0, mc_frag_times_write_offset = 0, mc_total_size = msize,
                    mc_last_duplicate = False\<rparr>)"

definition insert_mc :: "MessageContext \<Rightarrow> DefragmentContext \<Rightarrow> DefragmentContext option" where
  "insert_mc mc dc =
     (case (if dc_list_size dc \<ge> dc_num_msgs dc then discard_oldest_mc dc else Some dc) of
        None \<Rightarrow> None
      | Some dc1 \<Rightarrow> Some (dc1\<lparr>dc_list := mc # dc_list dc1, dc_list_size := dc_list_size dc1 + 1\<rparr>))"

text \<open>Copying the data of a fragment that was missing; the time is recorded for the latency estimate.\<close>

definition copy_fragment ::
  "nat \<Rightarrow> GNUNET_TIME_Absolute \<Rightarrow> nat \<Rightarrow> uint8 list \<Rightarrow> MessageContext \<Rightarrow> MessageContext option" where
  "copy_fragment payload now b data mc =
     (case mem_write (mc_msg mc) (b * payload) data of
        None \<Rightarrow> None
      | Some msg \<Rightarrow>
          let w = mc_frag_times_write_offset mc
          in if w \<ge> length (mc_frag_times mc) then None
             else Some (mc\<lparr>mc_bits := mc_bits mc - push_bit b 1, mc_msg := msg, mc_last_update := now,
                    mc_frag_times_start_offset := (if b < mc_last_bit mc then w else mc_frag_times_start_offset mc),
                    mc_last_bit := b, mc_frag_times := (mc_frag_times mc)[w := \<lparr>ft_time = now, ft_bit = b\<rparr>],
                    mc_frag_times_write_offset := w + 1\<rparr>))"

definition count_missing :: "nat \<Rightarrow> uint64 \<Rightarrow> uint32" where
  "count_missing b missing = fold (\<lambda>i bc. if missing AND push_bit i 1 \<noteq> 0 then bc + 1 else 0) [b ..< 64] 0"

text \<open>
  The part after the context is found or created, at position \<open>i\<close> of the list: the return value, the message that is
  complete now, and the new state.
\<close>

definition process_in_mc ::
  "(MessageContext \<Rightarrow> GNUNET_TIME_Relative) \<Rightarrow> GNUNET_TIME_Absolute \<Rightarrow> bool \<Rightarrow> nat \<Rightarrow> uint8 list \<Rightarrow> nat \<Rightarrow> DefragmentContext \<Rightarrow>
   (int \<times> uint8 list option \<times> DefragmentContext) option" where
  "process_in_mc estimate_latency now ack_now b data i dc =
     (let mc = dc_list dc ! i;
          duplicate = (mc_bits mc AND push_bit b 1 = 0)
      in case (if b \<ge> 64 then None
               else if duplicate then Some mc else copy_fragment (payload_size (dc_mtu dc)) now b data mc) of
           None \<Rightarrow> None
         | Some mc1 \<Rightarrow>
             let bc = count_missing b (mc_bits mc1);
                 out = (if \<not> duplicate \<and> mc_bits mc1 = 0 then Some (mc_msg mc1) else None);
                 latency = (if mc_frag_times_write_offset mc1 - mc_frag_times_start_offset mc1 > 1
                            then estimate_latency mc1 else dc_latency dc);
                 delay = (if ack_now \<or> mc_bits mc1 = 0 \<or> duplicate then GNUNET_TIME_relative_get_zero
                          else GNUNET_TIME_relative_saturating_multiply latency (ucast (bc + 1)));
                 mc2 = mc1\<lparr>mc_ack_task := Some delay, mc_last_duplicate := (duplicate \<or> mc_last_duplicate mc1)\<rparr>
             in Some (if duplicate then GNUNET_NO else GNUNET_YES, out,
                      dc\<lparr>dc_list := (dc_list dc)[i := mc2], dc_latency := latency\<rparr>))"

definition GNUNET_DEFRAGMENT_process_fragment ::
  "(MessageContext \<Rightarrow> GNUNET_TIME_Relative) \<Rightarrow> time_env \<Rightarrow> FragmentHeader \<Rightarrow> DefragmentContext \<Rightarrow>
   (int \<times> uint8 list option \<times> DefragmentContext) option" where
  "GNUNET_DEFRAGMENT_process_fragment estimate_latency env fh dc =
     (let sz = unat (htons (fh_size fh));
          mtu = unat (dc_mtu dc);
          payload = mtu - FRAGMENT_HEADER_SIZE
      in if sz < FRAGMENT_HEADER_SIZE then Some (GNUNET_SYSERR, None, dc)
         else if sz > mtu then Some (GNUNET_SYSERR, None, dc)
         else
           let msize = htons (fh_total_size fh);
               fid = htonl (fh_fragment_id fh);
               foff = unat (htons (fh_offset fh))
           in if unat msize < HEADER_SIZE then Some (GNUNET_SYSERR, None, dc)
              else if foff \<ge> unat msize then Some (GNUNET_SYSERR, None, dc)
              else if payload = 0 then None
              else if foff mod payload \<noteq> 0 then Some (GNUNET_SYSERR, None, dc)
              else
                let num_frags = (sz + mtu - FRAGMENT_HEADER_SIZE - 1) div payload;
                    last = length (filter (\<lambda>mc. mc_fragment_id mc > fid) (dc_list dc));
                    b = foff div payload;
                    ack_now = (of_nat last + fid = of_nat num_frags);
                    now = GNUNET_TIME_absolute_get env;
                    data = take (sz - FRAGMENT_HEADER_SIZE) (fh_data fh)
                in if b * payload + sz - FRAGMENT_HEADER_SIZE > unat msize then Some (GNUNET_SYSERR, None, dc)
                   else case find_mc 0 fid (dc_list dc) of
                     Some i \<Rightarrow>
                       if msize \<noteq> mc_total_size (dc_list dc ! i) then Some (GNUNET_SYSERR, None, dc)
                       else process_in_mc estimate_latency now ack_now b data i dc
                   | None \<Rightarrow>
                       (case new_mc dc now fid msize of
                          None \<Rightarrow> None
                        | Some mc \<Rightarrow>
                            (case insert_mc mc dc of
                               None \<Rightarrow> None
                             | Some dc1 \<Rightarrow> process_in_mc estimate_latency now ack_now b data 0 dc1)))"

section \<open>Arbitrary fragments are handled safely\<close>

definition mc_wf :: "uint16 \<Rightarrow> MessageContext \<Rightarrow> bool" where
  "mc_wf mtu mc \<longleftrightarrow>
     length (mc_msg mc) = unat (mc_total_size mc) \<and> length (mc_frag_times mc) = 64 \<and>
     mc_frag_times_start_offset mc \<le> mc_frag_times_write_offset mc \<and>
     (\<forall>b. bit (mc_bits mc) b \<longrightarrow> b < num_fragments mtu (unat (mc_total_size mc))) \<and>
     mc_frag_times_write_offset mc + card {b. bit (mc_bits mc) b} = num_fragments mtu (unat (mc_total_size mc))"

definition dc_wf :: "DefragmentContext \<Rightarrow> bool" where
  "dc_wf dc \<longleftrightarrow>
     mtu_ok (dc_mtu dc) \<and> 0 < dc_num_msgs dc \<and> (\<forall>mc \<in> set (dc_list dc). mc_wf (dc_mtu dc) mc) \<and>
     distinct (map mc_fragment_id (dc_list dc)) \<and> length (dc_list dc) \<le> unat (dc_num_msgs dc) \<and>
     dc_list_size dc = of_nat (length (dc_list dc))"

lemma unat_16_less: "unat (w :: uint16) < 65536"
  using unsigned_less[where 'a = nat, of w] by simp

lemma finite_bits: "finite {b. bit (w :: uint64) b}"
  by (rule finite_subset[of _ "{..<64}"]) (auto dest: bit_imp_le_length)

lemma minus_bit:
  assumes "bit (w :: uint64) b"
  shows "w - push_bit b 1 = unset_bit b w"
proof -
  have "w = unset_bit b w OR push_bit b 1"
    by (rule bit_word_eqI) (use assms in \<open>auto simp: bit_or_iff bit_unset_bit_iff bit_exp_iff\<close>)
  also have "\<dots> = unset_bit b w + push_bit b 1"
    by (rule disjunctive_add[symmetric]) (auto simp: bit_unset_bit_iff bit_exp_iff)
  finally show ?thesis by (metis add_diff_cancel_right')
qed

lemma mem_write_ok: "pos + length xs \<le> length buf \<Longrightarrow> mem_write buf pos xs = Some (take pos buf @ xs @ drop (pos + length xs) buf)"
  by (simp add: mem_write_def)

lemma copy_fragment_ok:
  assumes wf: "mc_wf mtu mc" and mtu: "mtu_ok mtu" and b: "bit (mc_bits mc) b"
    and fits: "b * payload + length data \<le> unat (mc_total_size mc)"
  shows "\<exists>mc'. copy_fragment payload now b data mc = Some mc' \<and> mc_wf mtu mc' \<and> mc_bits mc' = unset_bit b (mc_bits mc) \<and>
    mc_msg mc' = take (b * payload) (mc_msg mc) @ data @ drop (b * payload + length data) (mc_msg mc) \<and>
    mc_fragment_id mc' = mc_fragment_id mc \<and> mc_total_size mc' = mc_total_size mc"
proof -
  let ?B = "{b. bit (mc_bits mc) b}" and ?n = "num_fragments mtu (unat (mc_total_size mc))"
  have B: "{i. bit (unset_bit b (mc_bits mc)) i} = ?B - {b}" by (auto simp: bit_unset_bit_iff dest: bit_imp_le_length)
  have c: "card (?B - {b}) + 1 = card ?B" using card_Suc_Diff1[OF finite_bits, of b "mc_bits mc"] b by simp
  have n: "?n \<le> 64" using num_fragments_le[OF mtu unat_16_less] .
  have w: "mc_frag_times_write_offset mc < 64" using wf c n by (simp add: mc_wf_def)
  show ?thesis
    using wf fits w c minus_bit[OF b]
    by (auto simp: copy_fragment_def mem_write_ok mc_wf_def Let_def B bit_unset_bit_iff)
qed

lemma find_mc_Some:
  "find_mc i fid mcs = Some j \<Longrightarrow> i \<le> j \<and> j < i + length mcs \<and> mc_fragment_id (mcs ! (j - i)) = fid"
  by (induction mcs arbitrary: i) (fastforce split: if_splits simp: nth_Cons')+

lemma find_mc_None: "find_mc i fid mcs = None \<longleftrightarrow> fid \<notin> mc_fragment_id ` set mcs"
  by (induction mcs arbitrary: i) auto

text \<open>
  The candidate carried along is the first of the contexts seen so far with the smallest time; the position
  counter is the number of contexts seen.
\<close>

lemma find_oldest_append:
  assumes "case old of None \<Rightarrow> pre = []
      | Some (j, t) \<Rightarrow> j < length pre \<and> mc_last_update (pre ! j) = t \<and> (\<forall>mc \<in> set pre. abs_value_us t \<le> abs_value_us (mc_last_update mc))"
    and "find_oldest (length pre) old mcs = Some j"
  shows "j < length (pre @ mcs) \<and>
    (\<forall>mc \<in> set (pre @ mcs). abs_value_us (mc_last_update ((pre @ mcs) ! j)) \<le> abs_value_us (mc_last_update mc))"
  using assms
proof (induction mcs arbitrary: pre old)
  case (Cons mc mcs)
  let ?old = "case old of None \<Rightarrow> Some (length pre, mc_last_update mc)
    | Some (j, t) \<Rightarrow> if abs_value_us t > abs_value_us (mc_last_update mc) then Some (length pre, mc_last_update mc) else old"
  have "find_oldest (length (pre @ [mc])) ?old mcs = Some j" using Cons.prems(2) by simp
  moreover have "case ?old of None \<Rightarrow> pre @ [mc] = []
      | Some (j, t) \<Rightarrow> j < length (pre @ [mc]) \<and> mc_last_update ((pre @ [mc]) ! j) = t \<and>
          (\<forall>m \<in> set (pre @ [mc]). abs_value_us t \<le> abs_value_us (mc_last_update m))"
    using Cons.prems(1) by (cases old) (force simp: nth_append not_less)+
  ultimately have "j < length ((pre @ [mc]) @ mcs) \<and>
    (\<forall>m \<in> set ((pre @ [mc]) @ mcs). abs_value_us (mc_last_update (((pre @ [mc]) @ mcs) ! j)) \<le> abs_value_us (mc_last_update m))"
    by (rule Cons.IH[rotated])
  then show ?case by simp
qed (auto split: option.splits)

lemma find_oldest_exists: "old \<noteq> None \<or> mcs \<noteq> [] \<Longrightarrow> \<exists>j. find_oldest i old mcs = Some j"
  by (induction mcs arbitrary: i old) (auto split: option.splits)

text \<open>The context discarded is one that was updated least recently.\<close>

lemma find_oldest_first:
  assumes "mcs \<noteq> []"
  shows "\<exists>j. find_oldest 0 None mcs = Some j \<and> j < length mcs \<and>
    (\<forall>mc \<in> set mcs. abs_value_us (mc_last_update (mcs ! j)) \<le> abs_value_us (mc_last_update mc))"
proof -
  obtain j where j: "find_oldest 0 None mcs = Some j" using find_oldest_exists[of None mcs 0] assms by blast
  then show ?thesis using find_oldest_append[of "[]" None mcs j] by simp
qed

lemma discard_oldest_ok:
  assumes "dc_list dc \<noteq> []"
  shows "\<exists>j. j < length (dc_list dc) \<and> (\<forall>mc \<in> set (dc_list dc).
      abs_value_us (mc_last_update (dc_list dc ! j)) \<le> abs_value_us (mc_last_update mc)) \<and>
    discard_oldest_mc dc = Some (dc\<lparr>dc_list := take j (dc_list dc) @ drop (Suc j) (dc_list dc), dc_list_size := dc_list_size dc - 1\<rparr>)"
  using find_oldest_first[OF assms] by (auto simp: discard_oldest_mc_def)

lemma new_mc_ok:
  assumes "mtu_ok (dc_mtu dc)"
  shows "\<exists>mc. new_mc dc now fid msize = Some mc \<and> mc_wf (dc_mtu dc) mc \<and> mc_fragment_id mc = fid \<and> mc_total_size mc = msize \<and>
    mc_bits mc = mask (num_fragments (dc_mtu dc) (unat msize)) \<and> mc_msg mc = replicate (unat msize) 0"
proof -
  let ?n = "num_fragments (dc_mtu dc) (unat msize)"
  have n: "?n \<le> 64" using num_fragments_le[OF assms unat_16_less] .
  have "{b. bit (mask ?n :: uint64) b} = {..<?n}" using n by (auto simp: bit_mask_iff)
  then have "card {b. bit (mask ?n :: uint64) b} = ?n" "\<forall>b. bit (mask ?n :: uint64) b \<longrightarrow> b < ?n" by auto
  then show ?thesis using n unfolding new_mc_def Let_def all_acks_mask[OF n] mc_wf_def by simp
qed

lemma remove_nth_props:
  assumes "j < length xs"
  shows "set (take j xs @ drop (Suc j) xs) \<subseteq> set xs" "length (take j xs @ drop (Suc j) xs) = length xs - 1"
    "distinct (map f xs) \<Longrightarrow> distinct (map f (take j xs @ drop (Suc j) xs))"
proof -
  have x: "xs = take j xs @ xs ! j # drop (Suc j) xs" using id_take_nth_drop[OF assms] .
  show "set (take j xs @ drop (Suc j) xs) \<subseteq> set xs" using set_take_subset set_drop_subset by fastforce
  show "length (take j xs @ drop (Suc j) xs) = length xs - 1" using assms by simp
  assume "distinct (map f xs)"
  then have "distinct (map f (take j xs @ xs ! j # drop (Suc j) xs))" using x by simp
  then show "distinct (map f (take j xs @ drop (Suc j) xs))" by auto
qed

lemma insert_mc_wf:
  assumes wf: "dc_wf dc" and mc: "mc_wf (dc_mtu dc) mc" and new: "mc_fragment_id mc \<notin> mc_fragment_id ` set (dc_list dc)"
  shows "\<exists>dc'. insert_mc mc dc = Some dc' \<and> dc_wf dc' \<and> dc_mtu dc' = dc_mtu dc \<and> dc_num_msgs dc' = dc_num_msgs dc \<and>
    dc_list dc' ! 0 = mc \<and> dc_list dc' \<noteq> [] \<and>
    (length (dc_list dc) < unat (dc_num_msgs dc) \<longrightarrow> dc_list dc' = mc # dc_list dc)"
proof -
  let ?l = "dc_list dc"
  have len: "unat (of_nat (length ?l) :: uint32) = length ?l"
    using wf unsigned_less[where 'a = nat, of "dc_num_msgs dc"] by (simp add: dc_wf_def unsigned_of_nat take_bit_nat_eq_self)
  have ge: "dc_list_size dc \<ge> dc_num_msgs dc \<longleftrightarrow> length ?l = unat (dc_num_msgs dc)"
    using wf len by (auto simp: dc_wf_def word_le_nat_alt)
  show ?thesis
  proof (cases "length ?l = unat (dc_num_msgs dc)")
    case True
    then have "?l \<noteq> []" using wf by (auto simp: dc_wf_def word_less_nat_alt)
    from discard_oldest_ok[OF this] obtain j where j: "j < length ?l"
      "discard_oldest_mc dc = Some (dc\<lparr>dc_list := take j ?l @ drop (Suc j) ?l, dc_list_size := dc_list_size dc - 1\<rparr>)" by auto
    define m where "m = take j ?l @ drop (Suc j) ?l"
    have R: "set m \<subseteq> set ?l" "length m = length ?l - 1" "distinct (map mc_fragment_id m)"
      using remove_nth_props[OF j(1)] wf unfolding m_def dc_wf_def by blast+
    have "insert_mc mc dc = Some (dc\<lparr>dc_list := mc # m, dc_list_size := dc_list_size dc\<rparr>)"
      using j(2) ge True by (simp add: insert_mc_def m_def)
    moreover have "dc_wf (dc\<lparr>dc_list := mc # m, dc_list_size := dc_list_size dc\<rparr>)"
    proof -
      have "mc_fragment_id mc \<notin> mc_fragment_id ` set m" "\<forall>x \<in> set m. mc_wf (dc_mtu dc) x" "Suc (length m) = length ?l"
        using new R wf j(1) by (auto simp: dc_wf_def)
      then show ?thesis using wf mc R(3) by (simp add: dc_wf_def flip: of_nat_Suc)
    qed
    ultimately show ?thesis using True by simp
  next
    case False
    then have "insert_mc mc dc = Some (dc\<lparr>dc_list := mc # ?l, dc_list_size := dc_list_size dc + 1\<rparr>)"
      using ge by (auto simp: insert_mc_def)
    moreover have "dc_wf (dc\<lparr>dc_list := mc # ?l, dc_list_size := dc_list_size dc + 1\<rparr>)"
      using wf mc new False by (auto simp: dc_wf_def)
    ultimately show ?thesis by simp
  qed
qed

lemma dc_wf_update:
  assumes "dc_wf dc" "i < length (dc_list dc)" "mc_wf (dc_mtu dc) mc" "mc_fragment_id mc = mc_fragment_id (dc_list dc ! i)"
  shows "dc_wf (dc\<lparr>dc_list := (dc_list dc)[i := mc], dc_latency := l\<rparr>)"
proof -
  have "map mc_fragment_id ((dc_list dc)[i := mc]) = map mc_fragment_id (dc_list dc)"
    using assms(2,4) by (simp add: map_update list_update_same_conv)
  moreover have "\<forall>x \<in> set ((dc_list dc)[i := mc]). mc_wf (dc_mtu dc) x"
    using assms(1,3) set_update_subset_insert[of "dc_list dc" i mc] by (auto simp: dc_wf_def)
  ultimately show ?thesis using assms(1) by (simp add: dc_wf_def)
qed

text \<open>A fragment that was missing, and one that was not.\<close>

lemma process_in_mc_new:
  assumes wf: "dc_wf dc" and i: "i < length (dc_list dc)" and mc: "mc = dc_list dc ! i" and b: "b < 64"
    and fits: "b * payload_size (dc_mtu dc) + length data \<le> unat (mc_total_size mc)" and missing: "bit (mc_bits mc) b"
  obtains mc' l where
    "process_in_mc est now ack_now b data i dc = Some (GNUNET_YES, if mc_bits mc' = 0 then Some (mc_msg mc') else None,
       dc\<lparr>dc_list := (dc_list dc)[i := mc'], dc_latency := l\<rparr>)"
    "dc_wf (dc\<lparr>dc_list := (dc_list dc)[i := mc'], dc_latency := l\<rparr>)"
    "mc_fragment_id mc' = mc_fragment_id mc" "mc_total_size mc' = mc_total_size mc" "mc_ack_task mc' \<noteq> None"
    "mc_bits mc' = unset_bit b (mc_bits mc)"
    "mc_msg mc' = take (b * payload_size (dc_mtu dc)) (mc_msg mc) @ data @ drop (b * payload_size (dc_mtu dc) + length data) (mc_msg mc)"
proof -
  have w: "mc_wf (dc_mtu dc) mc" "mtu_ok (dc_mtu dc)" using wf i mc by (auto simp: dc_wf_def)
  from copy_fragment_ok[OF w missing fits, of now] obtain mc1 where
    c: "copy_fragment (payload_size (dc_mtu dc)) now b data mc = Some mc1" "mc_wf (dc_mtu dc) mc1" "mc_bits mc1 = unset_bit b (mc_bits mc)"
      "mc_msg mc1 = take (b * payload_size (dc_mtu dc)) (mc_msg mc) @ data @ drop (b * payload_size (dc_mtu dc) + length data) (mc_msg mc)"
      "mc_fragment_id mc1 = mc_fragment_id mc" "mc_total_size mc1 = mc_total_size mc" by blast
  have t: "mc_bits mc AND push_bit b 1 \<noteq> 0" using missing by (simp only: bit_test not_not)
  define l d where "l = (if mc_frag_times_write_offset mc1 - mc_frag_times_start_offset mc1 > 1 then est mc1 else dc_latency dc)"
    and "d = (if ack_now \<or> mc_bits mc1 = 0 then GNUNET_TIME_relative_get_zero
      else GNUNET_TIME_relative_saturating_multiply l (ucast (count_missing b (mc_bits mc1) + 1)))"
  define mc2 where "mc2 = mc1\<lparr>mc_ack_task := Some d, mc_last_duplicate := mc_last_duplicate mc1\<rparr>"
  have m2: "mc_bits mc2 = mc_bits mc1" "mc_msg mc2 = mc_msg mc1" "mc_fragment_id mc2 = mc_fragment_id mc1" "mc_total_size mc2 = mc_total_size mc1"
      "mc_ack_task mc2 \<noteq> None" by (simp_all add: mc2_def)
  have "process_in_mc est now ack_now b data i dc = Some (GNUNET_YES, if mc_bits mc2 = 0 then Some (mc_msg mc2) else None,
      dc\<lparr>dc_list := (dc_list dc)[i := mc2], dc_latency := l\<rparr>)"
    unfolding process_in_mc_def Let_def mc[symmetric] using b t c(1) by (simp add: mc2_def d_def l_def del: push_bit_of_1)
  moreover have "mc_wf (dc_mtu dc) mc2" using c(2) by (simp add: mc_wf_def mc2_def)
  then have "dc_wf (dc\<lparr>dc_list := (dc_list dc)[i := mc2], dc_latency := l\<rparr>)"
    using dc_wf_update[OF wf i, of mc2 l] c(5) mc m2(3) by simp
  ultimately show thesis using m2 c(3-6) by (intro that[of mc2 l]) simp_all
qed

lemma process_in_mc_duplicate:
  assumes wf: "dc_wf dc" and i: "i < length (dc_list dc)" and mc: "mc = dc_list dc ! i" and b: "b < 64" and dup: "\<not> bit (mc_bits mc) b"
  obtains mc' l where
    "process_in_mc est now ack_now b data i dc = Some (GNUNET_NO, None, dc\<lparr>dc_list := (dc_list dc)[i := mc'], dc_latency := l\<rparr>)"
    "dc_wf (dc\<lparr>dc_list := (dc_list dc)[i := mc'], dc_latency := l\<rparr>)"
    "mc_fragment_id mc' = mc_fragment_id mc" "mc_total_size mc' = mc_total_size mc" "mc_ack_task mc' \<noteq> None"
    "mc_bits mc' = mc_bits mc" "mc_msg mc' = mc_msg mc"
proof -
  have w: "mc_wf (dc_mtu dc) mc" using wf i mc by (auto simp: dc_wf_def)
  have t: "mc_bits mc AND push_bit b 1 = 0" using dup by (rule bit_test[THEN iffD2])
  define l where "l = (if mc_frag_times_write_offset mc - mc_frag_times_start_offset mc > 1 then est mc else dc_latency dc)"
  define mc2 where "mc2 = mc\<lparr>mc_ack_task := Some GNUNET_TIME_relative_get_zero, mc_last_duplicate := True\<rparr>"
  have "process_in_mc est now ack_now b data i dc = Some (GNUNET_NO, None, dc\<lparr>dc_list := (dc_list dc)[i := mc2], dc_latency := l\<rparr>)"
    unfolding process_in_mc_def Let_def mc[symmetric] using b t by (simp add: mc2_def l_def del: push_bit_of_1)
  moreover have "mc_wf (dc_mtu dc) mc2" using w by (simp add: mc_wf_def mc2_def)
  then have "dc_wf (dc\<lparr>dc_list := (dc_list dc)[i := mc2], dc_latency := l\<rparr>)"
    using dc_wf_update[OF wf i, of mc2 l] mc by (simp add: mc2_def)
  ultimately show thesis by (intro that[of l mc2]) (simp_all add: mc2_def)
qed

text \<open>The header checks, and the processing of a fragment that passes them.\<close>

definition fh_bit :: "DefragmentContext \<Rightarrow> FragmentHeader \<Rightarrow> nat" where
  "fh_bit dc fh = unat (htons (fh_offset fh)) div payload_size (dc_mtu dc)"

definition fh_bytes :: "FragmentHeader \<Rightarrow> uint8 list" where
  "fh_bytes fh = take (unat (htons (fh_size fh)) - FRAGMENT_HEADER_SIZE) (fh_data fh)"

definition header_ok :: "DefragmentContext \<Rightarrow> FragmentHeader \<Rightarrow> bool" where
  "header_ok dc fh \<longleftrightarrow>
     (let sz = unat (htons (fh_size fh)); msize = unat (htons (fh_total_size fh)); foff = unat (htons (fh_offset fh))
      in FRAGMENT_HEADER_SIZE \<le> sz \<and> sz \<le> unat (dc_mtu dc) \<and> HEADER_SIZE \<le> msize \<and> foff < msize \<and>
         foff mod payload_size (dc_mtu dc) = 0 \<and>
         fh_bit dc fh * payload_size (dc_mtu dc) + sz - FRAGMENT_HEADER_SIZE \<le> msize)"

lemma process_fragment_rejects:
  assumes "mtu_ok (dc_mtu dc)" "\<not> header_ok dc fh"
  shows "GNUNET_DEFRAGMENT_process_fragment est env fh dc = Some (GNUNET_SYSERR, None, dc)"
  using assms payload_pos[OF assms(1)]
  by (auto simp: GNUNET_DEFRAGMENT_process_fragment_def header_ok_def fh_bit_def payload_size_def Let_def)

lemma process_fragment_accepts:
  assumes "mtu_ok (dc_mtu dc)" "header_ok dc fh"
  shows "\<exists>ack_now. GNUNET_DEFRAGMENT_process_fragment est env fh dc =
    (let msize = htons (fh_total_size fh); fid = htonl (fh_fragment_id fh); now = GNUNET_TIME_absolute_get env
     in case find_mc 0 fid (dc_list dc) of
       Some i \<Rightarrow>
         if msize \<noteq> mc_total_size (dc_list dc ! i) then Some (GNUNET_SYSERR, None, dc)
         else process_in_mc est now ack_now (fh_bit dc fh) (fh_bytes fh) i dc
     | None \<Rightarrow>
         (case new_mc dc now fid msize of
            None \<Rightarrow> None
          | Some mc \<Rightarrow>
              (case insert_mc mc dc of
                 None \<Rightarrow> None
               | Some dc1 \<Rightarrow> process_in_mc est now ack_now (fh_bit dc fh) (fh_bytes fh) 0 dc1)))"
  using assms payload_pos[OF assms(1)]
  unfolding GNUNET_DEFRAGMENT_process_fragment_def header_ok_def fh_bit_def payload_size_def Let_def fh_bytes_def
  by (auto simp: not_less split: option.splits)

lemma header_ok_fits:
  assumes "mtu_ok (dc_mtu dc)" "header_ok dc fh"
  shows "fh_bit dc fh < num_fragments (dc_mtu dc) (unat (htons (fh_total_size fh)))" "fh_bit dc fh < 64"
    "fh_bit dc fh * payload_size (dc_mtu dc) + length (fh_bytes fh) \<le> unat (htons (fh_total_size fh))"
proof -
  let ?p = "payload_size (dc_mtu dc)" and ?m = "unat (htons (fh_total_size fh))"
  have "fh_bit dc fh * ?p \<le> unat (htons (fh_offset fh))" by (simp add: fh_bit_def)
  then have lt: "fh_bit dc fh * ?p < ?m" using assms(2) by (simp add: header_ok_def Let_def)
  then show n: "fh_bit dc fh < num_fragments (dc_mtu dc) ?m" using num_fragments_gt[OF assms(1)] by simp
  show "fh_bit dc fh < 64" using n num_fragments_le[OF assms(1) unat_16_less] by (meson less_le_trans)
  show "fh_bit dc fh * ?p + length (fh_bytes fh) \<le> ?m" using assms(2) by (auto simp: header_ok_def Let_def fh_bytes_def)
qed

text \<open>C8: no fragment, whatever its header and data, makes the receiver fail an assertion, write outside of a message
  buffer or of the array of arrival times, or shift by too many bits: from every consistent state, processing the fragment
  returns a result and a consistent state again, with at most the permitted number of messages under assembly.\<close>

theorem defragment_memory_safe:
  assumes "dc_wf dc"
  shows "\<exists>rc out dc'. GNUNET_DEFRAGMENT_process_fragment est env fh dc = Some (rc, out, dc') \<and> dc_wf dc' \<and>
    rc \<in> {GNUNET_YES, GNUNET_NO, GNUNET_SYSERR} \<and> (rc \<noteq> GNUNET_YES \<longrightarrow> out = None) \<and> (rc = GNUNET_SYSERR \<longrightarrow> dc' = dc)"
proof -
  have mtu: "mtu_ok (dc_mtu dc)" using assms by (simp add: dc_wf_def)
  show ?thesis
  proof (cases "header_ok dc fh")
    case False
    then show ?thesis using process_fragment_rejects[OF mtu] assms by simp
  next
    case True
    note fits = header_ok_fits[OF mtu True]
    have step: "\<exists>rc out d'. process_in_mc est now a (fh_bit dc fh) (fh_bytes fh) i d = Some (rc, out, d') \<and> dc_wf d' \<and>
        rc \<in> {GNUNET_YES, GNUNET_NO} \<and> (rc \<noteq> GNUNET_YES \<longrightarrow> out = None)"
      if d: "dc_wf d" "i < length (dc_list d)" "mc_total_size (dc_list d ! i) = htons (fh_total_size fh)" "dc_mtu d = dc_mtu dc" for d i now a
    proof (cases "bit (mc_bits (dc_list d ! i)) (fh_bit dc fh)")
      case True
      show ?thesis
        by (rule process_in_mc_new[OF d(1,2) refl fits(2) _ True, of "fh_bytes fh" est now a]) (use fits(3) d in simp_all)
    next
      case False
      show ?thesis
        by (rule process_in_mc_duplicate[OF d(1,2) refl fits(2) False, of est now a "fh_bytes fh"]) simp
    qed
    obtain a where P: "GNUNET_DEFRAGMENT_process_fragment est env fh dc =
      (let msize = htons (fh_total_size fh); fid = htonl (fh_fragment_id fh); now = GNUNET_TIME_absolute_get env
       in case find_mc 0 fid (dc_list dc) of
         Some i \<Rightarrow> if msize \<noteq> mc_total_size (dc_list dc ! i) then Some (GNUNET_SYSERR, None, dc)
           else process_in_mc est now a (fh_bit dc fh) (fh_bytes fh) i dc
       | None \<Rightarrow> (case new_mc dc now fid msize of None \<Rightarrow> None
            | Some mc \<Rightarrow> (case insert_mc mc dc of None \<Rightarrow> None
                 | Some dc1 \<Rightarrow> process_in_mc est now a (fh_bit dc fh) (fh_bytes fh) 0 dc1)))"
      using process_fragment_accepts[OF mtu True] by blast
    show ?thesis
    proof (cases "find_mc 0 (htonl (fh_fragment_id fh)) (dc_list dc)")
      case None
      from new_mc_ok[OF mtu, of "GNUNET_TIME_absolute_get env" "htonl (fh_fragment_id fh)" "htons (fh_total_size fh)"] obtain mc where
        mc: "new_mc dc (GNUNET_TIME_absolute_get env) (htonl (fh_fragment_id fh)) (htons (fh_total_size fh)) = Some mc"
          "mc_wf (dc_mtu dc) mc" "mc_fragment_id mc = htonl (fh_fragment_id fh)" "mc_total_size mc = htons (fh_total_size fh)" by blast
      with None obtain dc1 where "insert_mc mc dc = Some dc1" "dc_wf dc1" "dc_mtu dc1 = dc_mtu dc" "dc_list dc1 ! 0 = mc" "dc_list dc1 \<noteq> []"
        using insert_mc_wf[OF assms mc(2)] by (auto simp: find_mc_None)
      then show ?thesis using P None mc step[of dc1 0 "GNUNET_TIME_absolute_get env" a] by auto
    next
      case (Some i)
      then show ?thesis
        using P assms step[OF assms _ _ refl, of i "GNUNET_TIME_absolute_get env" a] find_mc_Some[OF Some] by (auto simp: Let_def)
    qed
  qed
qed

lemma context_create_wf: "mtu_ok mtu \<Longrightarrow> 0 < num_msgs \<Longrightarrow> dc_wf (GNUNET_DEFRAGMENT_context_create mtu num_msgs)"
  by (simp add: dc_wf_def GNUNET_DEFRAGMENT_context_create_def)

theorem defragment_memory_safe_witness:
  "\<exists>rc out dc'. GNUNET_DEFRAGMENT_process_fragment (\<lambda>_. \<lparr>rel_value_us = 1\<rparr>) (sample_env 0)
      \<lparr>fh_size = 65535, fh_type = 0, fh_fragment_id = 7, fh_total_size = 1, fh_offset = 255, fh_data = [1]\<rparr>
      (GNUNET_DEFRAGMENT_context_create 1036 4) = Some (rc, out, dc') \<and> dc_wf dc'"
  using defragment_memory_safe[OF context_create_wf[of 1036 4]] by fastforce

text \<open>Destroying a consistent context releases every message and never fails.\<close>

lemma destroy_list_eq: "destroy_list mcs n = n - of_nat (length mcs)"
  by (induction mcs arbitrary: n) (simp_all add: diff_diff_add)

lemma context_destroy_ok: "dc_wf dc \<Longrightarrow> GNUNET_DEFRAGMENT_context_destroy dc = Some ()"
  by (simp add: GNUNET_DEFRAGMENT_context_destroy_def destroy_list_eq dc_wf_def)

section \<open>Genuine fragments are assembled\<close>

text \<open>
  A context holds the part of a message whose fragments, given by their bits, have arrived.
\<close>

definition mc_holds :: "uint16 \<Rightarrow> uint8 list \<Rightarrow> nat set \<Rightarrow> MessageContext \<Rightarrow> bool" where
  "mc_holds mtu msg R mc \<longleftrightarrow>
     mc_total_size mc = of_nat (length msg) \<and> length (mc_msg mc) = length msg \<and> R \<subseteq> {..< num_fragments mtu (length msg)} \<and>
     (\<forall>b. bit (mc_bits mc) b \<longleftrightarrow> b < num_fragments mtu (length msg) \<and> b \<notin> R) \<and>
     (\<forall>i < length msg. i div payload_size mtu \<in> R \<longrightarrow> mc_msg mc ! i = msg ! i)"

lemma message_size_word: "message_ok msg \<Longrightarrow> unat (of_nat (length msg) :: uint16) = length msg"
  using msg_size_less[of msg] by (simp add: message_ok_def unsigned_of_nat take_bit_nat_eq_self)

lemma mc_holds_complete:
  assumes "mc_holds mtu msg R mc" "mtu_ok mtu" "R = {..< num_fragments mtu (length msg)}"
  shows "mc_msg mc = msg" "mc_bits mc = 0"
proof -
  have "i div payload_size mtu < num_fragments mtu (length msg)" if "i < length msg" for i
    using num_fragments_gt[OF assms(2)] that by (meson div_times_less_eq_dividend le_less_trans)
  then show "mc_msg mc = msg" using assms(1,3) by (intro nth_equalityI) (auto simp: mc_holds_def)
  show "mc_bits mc = 0" using assms(1,3) by (intro bit_word_eqI) (auto simp: mc_holds_def)
qed

lemma mc_holds_incomplete:
  assumes "mc_holds mtu msg R mc" "R \<noteq> {..< num_fragments mtu (length msg)}"
  shows "mc_bits mc \<noteq> 0"
proof -
  obtain b where "b < num_fragments mtu (length msg)" "b \<notin> R" using assms by (auto simp: mc_holds_def)
  then have "bit (mc_bits mc) b" using assms(1) by (simp add: mc_holds_def)
  then show ?thesis by auto
qed

lemma nth_overwrite:
  assumes "pos + length xs \<le> length buf" "i < length buf"
  shows "(take pos buf @ xs @ drop (pos + length xs) buf) ! i =
    (if pos \<le> i \<and> i < pos + length xs then xs ! (i - pos) else buf ! i)"
  using assms by (auto simp: nth_append)

lemma mc_holds_insert:
  assumes h: "mc_holds mtu msg R mc" and mtu: "mtu_ok mtu" and b: "b < num_fragments mtu (length msg)"
    and mc': "mc_bits mc' = unset_bit b (mc_bits mc)" "mc_total_size mc' = mc_total_size mc"
      "mc_msg mc' = take (b * payload_size mtu) (mc_msg mc) @ fragment_data mtu msg b @
         drop (b * payload_size mtu + length (fragment_data mtu msg b)) (mc_msg mc)"
  shows "mc_holds mtu msg (insert b R) mc'"
proof -
  let ?p = "payload_size mtu" and ?d = "fragment_data mtu msg b"
  have p: "0 < ?p" using payload_pos[OF mtu] by simp
  have lt: "b * ?p < length msg" using b num_fragments_gt[OF mtu] by simp
  have ld: "length ?d = min ?p (length msg - b * ?p)" by (simp add: fragment_data_def)
  have len: "length (mc_msg mc') = length msg" using h lt ld mc'(3) by (simp add: mc_holds_def)
  have nth: "mc_msg mc' ! i = (if i div ?p = b then msg ! i else mc_msg mc ! i)" if i: "i < length msg" for i
  proof -
    have dv: "i div ?p = b \<longleftrightarrow> b * ?p \<le> i \<and> i < b * ?p + ?p"
      using p by (metis div_nat_eqI div_mult_mod_eq le_add1 mod_less_divisor add_less_cancel_left mult.commute mult_Suc_right add.commute)
    have lm: "length (mc_msg mc) = length msg" using h by (simp add: mc_holds_def)
    have "mc_msg mc' ! i = (if b * ?p \<le> i \<and> i < b * ?p + length ?d then ?d ! (i - b * ?p) else mc_msg mc ! i)"
      unfolding mc'(3) by (rule nth_overwrite) (use lm lt ld i in simp_all)
    moreover have "b * ?p \<le> i \<and> i < b * ?p + length ?d \<longleftrightarrow> i div ?p = b" using dv ld i lt by auto
    moreover have "?d ! (i - b * ?p) = msg ! i" if "i div ?p = b"
    proof -
      have "i - b * ?p < ?p" "b * ?p + (i - b * ?p) = i" using that dv by linarith+
      then show ?thesis using lt by (simp add: fragment_data_def)
    qed
    ultimately show ?thesis by simp
  qed
  have "bit (mc_bits mc') k \<longleftrightarrow> k < num_fragments mtu (length msg) \<and> k \<notin> insert b R" for k
    using h mc'(1) by (auto simp: bit_unset_bit_iff mc_holds_def)
  then show ?thesis using h len nth b mc'(2) by (auto simp: mc_holds_def)
qed

lemma unat_of_nat_16: "n < 65536 \<Longrightarrow> unat (of_nat n :: uint16) = n"
  by (simp add: unsigned_of_nat take_bit_nat_eq_self)

lemma fragment_of_header:
  assumes msg: "message_ok msg" and mtu: "mtu_ok (dc_mtu dc)" and b: "b < num_fragments (dc_mtu dc) (length msg)"
  shows "header_ok dc (fragment_of (dc_mtu dc) fid msg b)" "fh_bit dc (fragment_of (dc_mtu dc) fid msg b) = b"
    "fh_bytes (fragment_of (dc_mtu dc) fid msg b) = fragment_data (dc_mtu dc) msg b"
proof -
  let ?p = "payload_size (dc_mtu dc)" and ?d = "fragment_data (dc_mtu dc) msg b"
  have p: "0 < ?p" "unat (dc_mtu dc) = FRAGMENT_HEADER_SIZE + ?p" using payload_pos[OF mtu] mtu by (simp_all add: payload_size_def)
  have lt: "b * ?p < length msg" using b num_fragments_gt[OF mtu] by simp
  have lm: "length msg < 65536" "HEADER_SIZE \<le> length msg" using msg msg_size_less[of msg] by (simp_all add: message_ok_def)
  have ld: "length ?d = min ?p (length msg - b * ?p)" by (simp add: fragment_data_def)
  have "FRAGMENT_HEADER_SIZE + length ?d \<le> unat (dc_mtu dc)" using p ld by simp
  then have sz: "unat (of_nat (FRAGMENT_HEADER_SIZE + length ?d) :: uint16) = FRAGMENT_HEADER_SIZE + length ?d"
    by (intro unat_of_nat_16) (use unat_16_less[of "dc_mtu dc"] in linarith)
  have off: "unat (of_nat (b * ?p) :: uint16) = b * ?p" using lt lm by (intro unat_of_nat_16) simp
  have f: "unat (htons (fh_size (fragment_of (dc_mtu dc) fid msg b))) = FRAGMENT_HEADER_SIZE + length ?d"
      "unat (htons (fh_total_size (fragment_of (dc_mtu dc) fid msg b))) = length msg"
      "unat (htons (fh_offset (fragment_of (dc_mtu dc) fid msg b))) = b * ?p"
    by (simp_all add: fragment_of_def sz off message_size_word[OF msg] del: of_nat_add of_nat_mult)
  show bit: "fh_bit dc (fragment_of (dc_mtu dc) fid msg b) = b" using p by (simp add: fh_bit_def fragment_of_def off del: of_nat_mult)
  show "fh_bytes (fragment_of (dc_mtu dc) fid msg b) = ?d" by (simp add: fh_bytes_def fragment_of_def sz del: of_nat_add)
  show "header_ok dc (fragment_of (dc_mtu dc) fid msg b)"
    unfolding header_ok_def Let_def bit f using p lt lm ld by auto
qed

text \<open>
  The receiver under messages \<open>M\<close>, by fragment identifier, of which the fragments \<open>R\<close> have arrived.
\<close>

definition dc_holds :: "(uint32 \<rightharpoonup> uint8 list) \<Rightarrow> (uint32 \<Rightarrow> nat set) \<Rightarrow> DefragmentContext \<Rightarrow> bool" where
  "dc_holds M R dc \<longleftrightarrow> dc_wf dc \<and>
     (\<forall>mc \<in> set (dc_list dc). \<exists>msg. M (mc_fragment_id mc) = Some msg \<and> mc_holds (dc_mtu dc) msg (R (mc_fragment_id mc)) mc) \<and>
     (\<forall>fid. fid \<notin> mc_fragment_id ` set (dc_list dc) \<longrightarrow> R fid = {})"

definition msgs_ok :: "(uint32 \<rightharpoonup> uint8 list) \<Rightarrow> DefragmentContext \<Rightarrow> bool" where
  "msgs_ok M dc \<longleftrightarrow> finite (dom M) \<and> card (dom M) \<le> unat (dc_num_msgs dc) \<and> (\<forall>msg \<in> ran M. message_ok msg)"

lemma dc_holds_room:
  assumes "dc_holds M R dc" "msgs_ok M dc" "M fid = Some msg" "fid \<notin> mc_fragment_id ` set (dc_list dc)"
  shows "length (dc_list dc) < unat (dc_num_msgs dc)"
proof -
  have "mc_fragment_id ` set (dc_list dc) \<subseteq> dom M - {fid}" using assms(1,4) by (auto simp: dc_holds_def)
  then have "card (mc_fragment_id ` set (dc_list dc)) \<le> card (dom M - {fid})"
    using assms(2) by (intro card_mono) (simp_all add: msgs_ok_def)
  also have "\<dots> < card (dom M)" using assms(2,3) by (intro psubset_card_mono) (auto simp: msgs_ok_def)
  also have "\<dots> \<le> unat (dc_num_msgs dc)" using assms(2) by (simp add: msgs_ok_def)
  finally show ?thesis using distinct_card[of "map mc_fragment_id (dc_list dc)"] assms(1) by (simp add: dc_holds_def dc_wf_def)
qed

lemma dc_holds_update:
  assumes h: "dc_holds M R dc" and i: "i < length (dc_list dc)" and wf: "dc_wf (dc\<lparr>dc_list := (dc_list dc)[i := mc], dc_latency := l\<rparr>)"
    and mc: "mc_fragment_id mc = fid" "mc_fragment_id (dc_list dc ! i) = fid" "M fid = Some msg" "mc_holds (dc_mtu dc) msg R' mc"
  shows "dc_holds M (R(fid := R')) (dc\<lparr>dc_list := (dc_list dc)[i := mc], dc_latency := l\<rparr>)"
proof -
  have ids: "map mc_fragment_id ((dc_list dc)[i := mc]) = map mc_fragment_id (dc_list dc)"
    using i mc(1,2) by (simp add: map_update list_update_same_conv)
  have other: "x = mc \<or> x \<in> set (dc_list dc) \<and> mc_fragment_id x \<noteq> fid" if x: "x \<in> set ((dc_list dc)[i := mc])" for x
  proof -
    obtain k where k: "k < length (dc_list dc)" "x = (dc_list dc)[i := mc] ! k" using x by (auto simp: in_set_conv_nth)
    show ?thesis
    proof (cases "k = i")
      case False
      have "distinct (map mc_fragment_id (dc_list dc))" using h by (simp add: dc_holds_def dc_wf_def)
      then have "map mc_fragment_id (dc_list dc) ! k \<noteq> map mc_fragment_id (dc_list dc) ! i"
        using nth_eq_iff_index_eq[of "map mc_fragment_id (dc_list dc)" k i] k(1) i False by simp
      then show ?thesis using k i False mc(2) by simp
    qed (use k i in simp)
  qed
  have img: "mc_fragment_id ` set ((dc_list dc)[i := mc]) = mc_fragment_id ` set (dc_list dc)" using ids by (metis set_map)
  have "fid \<in> mc_fragment_id ` set (dc_list dc)" using i mc(2) by (metis image_eqI nth_mem)
  then have none: "(R(fid := R')) fid' = {}" if "fid' \<notin> mc_fragment_id ` set ((dc_list dc)[i := mc])" for fid'
    using that h unfolding img dc_holds_def by (metis fun_upd_apply)
  have "\<exists>m. M (mc_fragment_id x) = Some m \<and> mc_holds (dc_mtu dc) m ((R(fid := R')) (mc_fragment_id x)) x"
    if "x \<in> set ((dc_list dc)[i := mc])" for x
    using other[OF that]
  proof
    assume "x = mc"
    then show ?thesis using mc by simp
  next
    assume "x \<in> set (dc_list dc) \<and> mc_fragment_id x \<noteq> fid"
    then show ?thesis using h by (auto simp: dc_holds_def)
  qed
  then show ?thesis using wf none by (simp add: dc_holds_def)
qed

lemma new_mc_holds:
  assumes "mtu_ok (dc_mtu dc)" "message_ok msg"
  obtains mc where "new_mc dc now fid (of_nat (length msg)) = Some mc" "mc_wf (dc_mtu dc) mc" "mc_fragment_id mc = fid"
    "mc_holds (dc_mtu dc) msg {} mc"
proof -
  from new_mc_ok[OF assms(1), of now fid "of_nat (length msg)"] obtain mc where
    mc: "new_mc dc now fid (of_nat (length msg)) = Some mc" "mc_wf (dc_mtu dc) mc" "mc_fragment_id mc = fid" "mc_total_size mc = of_nat (length msg)"
      "mc_bits mc = mask (num_fragments (dc_mtu dc) (length msg))" "mc_msg mc = replicate (length msg) 0"
    unfolding message_size_word[OF assms(2)] by blast
  have "length msg < 65536" using assms(2) msg_size_less[of msg] by (simp add: message_ok_def)
  then have "num_fragments (dc_mtu dc) (length msg) \<le> 64" by (rule num_fragments_le[OF assms(1)])
  then have "mc_holds (dc_mtu dc) msg {} mc" using mc by (auto simp: mc_holds_def bit_mask_iff)
  then show thesis using mc that by blast
qed

lemma insert_new_holds:
  assumes h: "dc_holds M R dc" and M: "msgs_ok M dc" "M fid = Some msg" and new: "fid \<notin> mc_fragment_id ` set (dc_list dc)"
    and mc: "mc_wf (dc_mtu dc) mc" "mc_fragment_id mc = fid" "mc_holds (dc_mtu dc) msg {} mc"
  obtains dc1 where "insert_mc mc dc = Some dc1" "dc_holds M R dc1" "dc_mtu dc1 = dc_mtu dc" "dc_num_msgs dc1 = dc_num_msgs dc"
    "dc_list dc1 = mc # dc_list dc"
proof -
  have wf: "dc_wf dc" using h by (simp add: dc_holds_def)
  have "mc_fragment_id mc \<notin> mc_fragment_id ` set (dc_list dc)" using new mc(2) by simp
  from insert_mc_wf[OF wf mc(1) this] dc_holds_room[OF h M new] obtain dc1 where
    d: "insert_mc mc dc = Some dc1" "dc_wf dc1" "dc_mtu dc1 = dc_mtu dc" "dc_num_msgs dc1 = dc_num_msgs dc" "dc_list dc1 = mc # dc_list dc" by auto
  have "R fid = {}" using h new by (simp add: dc_holds_def)
  then have "dc_holds M R dc1" using h d mc M(2) by (simp add: dc_holds_def)
  then show thesis using d that by blast
qed

lemma dc_holds_nth:
  assumes "dc_holds M R dc" "i < length (dc_list dc)" "mc_fragment_id (dc_list dc ! i) = fid" "M fid = Some msg"
  shows "mc_holds (dc_mtu dc) msg (R fid) (dc_list dc ! i)"
proof -
  have "\<forall>mc \<in> set (dc_list dc). \<exists>m. M (mc_fragment_id mc) = Some m \<and> mc_holds (dc_mtu dc) m (R (mc_fragment_id mc)) mc"
    using assms(1) by (simp add: dc_holds_def)
  from bspec[OF this nth_mem[OF assms(2)]] show ?thesis using assms(3,4) by simp
qed

definition ack_due :: "uint32 \<Rightarrow> DefragmentContext \<Rightarrow> bool" where
  "ack_due fid dc \<longleftrightarrow> (\<exists>mc \<in> set (dc_list dc). mc_fragment_id mc = fid \<and> mc_ack_task mc \<noteq> None)"

lemma ack_due_update:
  "i < length (dc_list dc) \<Longrightarrow> mc_fragment_id mc = fid \<Longrightarrow> mc_ack_task mc \<noteq> None \<Longrightarrow>
   ack_due fid (dc\<lparr>dc_list := (dc_list dc)[i := mc], dc_latency := l\<rparr>)"
  unfolding ack_due_def by (rule bexI[of _ mc]) (simp_all add: set_update_memI)

lemma process_in_holds:
  assumes h: "dc_holds M R dc" and i: "i < length (dc_list dc)" "mc_fragment_id (dc_list dc ! i) = fid"
    and M: "M fid = Some msg" "message_ok msg" and b: "b < num_fragments (dc_mtu dc) (length msg)"
  shows "\<exists>dc'. process_in_mc est now a b (fragment_data (dc_mtu dc) msg b) i dc =
      Some (if b \<in> R fid then GNUNET_NO else GNUNET_YES,
        if b \<notin> R fid \<and> insert b (R fid) = {..< num_fragments (dc_mtu dc) (length msg)} then Some msg else None, dc') \<and>
    dc_holds M (R(fid := insert b (R fid))) dc' \<and> dc_mtu dc' = dc_mtu dc \<and> dc_num_msgs dc' = dc_num_msgs dc \<and> ack_due fid dc'"
proof -
  let ?n = "num_fragments (dc_mtu dc) (length msg)" and ?mc = "dc_list dc ! i"
  have wf: "dc_wf dc" and mtu: "mtu_ok (dc_mtu dc)" using h by (simp_all add: dc_holds_def dc_wf_def)
  have mh: "mc_holds (dc_mtu dc) msg (R fid) ?mc" by (rule dc_holds_nth[OF h i M(1)])
  have b64: "b < 64" using b num_fragments_le[OF mtu, of "length msg"] M(2) msg_size_less[of msg] by (simp add: message_ok_def)
  have bit: "bit (mc_bits ?mc) b \<longleftrightarrow> b \<notin> R fid" using mh b by (simp add: mc_holds_def)
  show ?thesis
  proof (cases "b \<in> R fid")
    case True
    then have nb: "\<not> bit (mc_bits ?mc) b" using bit by simp
    obtain mc' l where
      r: "process_in_mc est now a b (fragment_data (dc_mtu dc) msg b) i dc =
            Some (GNUNET_NO, None, dc\<lparr>dc_list := (dc_list dc)[i := mc'], dc_latency := l\<rparr>)"
        "dc_wf (dc\<lparr>dc_list := (dc_list dc)[i := mc'], dc_latency := l\<rparr>)" "mc_fragment_id mc' = mc_fragment_id ?mc"
        "mc_total_size mc' = mc_total_size ?mc" "mc_ack_task mc' \<noteq> None" "mc_bits mc' = mc_bits ?mc" "mc_msg mc' = mc_msg ?mc"
      by (rule process_in_mc_duplicate[OF wf i(1) refl b64 nb])
    have "mc_holds (dc_mtu dc) msg (insert b (R fid)) mc'" using mh r True by (simp add: mc_holds_def insert_absorb)
    then show ?thesis using dc_holds_update[OF h i(1) r(2)] ack_due_update[OF i(1) _ r(5)] r(1,3) i(2) M(1) True by auto
  next
    case False
    then have mb: "bit (mc_bits ?mc) b" using bit by simp
    have "b * payload_size (dc_mtu dc) + length (fragment_data (dc_mtu dc) msg b) \<le> unat (mc_total_size ?mc)"
      using mh message_size_word[OF M(2)] b num_fragments_gt[OF mtu] by (simp add: mc_holds_def fragment_data_def)
    then obtain mc' l where
      r: "process_in_mc est now a b (fragment_data (dc_mtu dc) msg b) i dc = Some (GNUNET_YES, if mc_bits mc' = 0 then Some (mc_msg mc') else None,
            dc\<lparr>dc_list := (dc_list dc)[i := mc'], dc_latency := l\<rparr>)"
        "dc_wf (dc\<lparr>dc_list := (dc_list dc)[i := mc'], dc_latency := l\<rparr>)" "mc_fragment_id mc' = mc_fragment_id ?mc"
        "mc_total_size mc' = mc_total_size ?mc" "mc_ack_task mc' \<noteq> None" "mc_bits mc' = unset_bit b (mc_bits ?mc)"
        "mc_msg mc' = take (b * payload_size (dc_mtu dc)) (mc_msg ?mc) @ fragment_data (dc_mtu dc) msg b @
           drop (b * payload_size (dc_mtu dc) + length (fragment_data (dc_mtu dc) msg b)) (mc_msg ?mc)"
      by (rule process_in_mc_new[OF wf i(1) refl b64 _ mb])
    have mh': "mc_holds (dc_mtu dc) msg (insert b (R fid)) mc'" by (rule mc_holds_insert[OF mh mtu b r(6,4,7)])
    have "(if mc_bits mc' = 0 then Some (mc_msg mc') else None) = (if insert b (R fid) = {..<?n} then Some msg else None)"
      using mc_holds_complete[OF mh' mtu] mc_holds_incomplete[OF mh'] by auto
    then show ?thesis using dc_holds_update[OF h i(1) r(2) _ i(2) M(1) mh'] ack_due_update[OF i(1) _ r(5)] r(1,3) i(2) False by auto
  qed
qed

lemma process_genuine:
  assumes h: "dc_holds M R dc" and M: "msgs_ok M dc" "M fid = Some msg" and b: "b < num_fragments (dc_mtu dc) (length msg)"
  shows "\<exists>dc'. GNUNET_DEFRAGMENT_process_fragment est env (fragment_of (dc_mtu dc) fid msg b) dc =
      Some (if b \<in> R fid then GNUNET_NO else GNUNET_YES,
        if b \<notin> R fid \<and> insert b (R fid) = {..< num_fragments (dc_mtu dc) (length msg)} then Some msg else None, dc') \<and>
    dc_holds M (R(fid := insert b (R fid))) dc' \<and> dc_mtu dc' = dc_mtu dc \<and> dc_num_msgs dc' = dc_num_msgs dc \<and> ack_due fid dc'"
proof -
  have mtu: "mtu_ok (dc_mtu dc)" using h by (simp add: dc_holds_def dc_wf_def)
  have msg: "message_ok msg" using M by (auto simp: msgs_ok_def ran_def)
  define F where "F = fragment_of (dc_mtu dc) fid msg b"
  have F: "header_ok dc F" "fh_bit dc F = b" "fh_bytes F = fragment_data (dc_mtu dc) msg b" "htonl (fh_fragment_id F) = fid"
      "htons (fh_total_size F) = of_nat (length msg)"
    using fragment_of_header[OF msg mtu b, of fid] by (simp_all add: F_def) (simp_all add: fragment_of_def)
  from process_fragment_accepts[OF mtu F(1), of est env] obtain a where
    P: "GNUNET_DEFRAGMENT_process_fragment est env F dc =
      (case find_mc 0 fid (dc_list dc) of
         Some i \<Rightarrow> if of_nat (length msg) \<noteq> mc_total_size (dc_list dc ! i) then Some (GNUNET_SYSERR, None, dc)
           else process_in_mc est (GNUNET_TIME_absolute_get env) a b (fragment_data (dc_mtu dc) msg b) i dc
       | None \<Rightarrow> (case new_mc dc (GNUNET_TIME_absolute_get env) fid (of_nat (length msg)) of None \<Rightarrow> None
            | Some mc \<Rightarrow> (case insert_mc mc dc of None \<Rightarrow> None
                 | Some dc1 \<Rightarrow> process_in_mc est (GNUNET_TIME_absolute_get env) a b (fragment_data (dc_mtu dc) msg b) 0 dc1)))"
    unfolding F Let_def by blast
  show ?thesis unfolding F_def[symmetric]
  proof (cases "find_mc 0 fid (dc_list dc)")
    case None
    then have new: "fid \<notin> mc_fragment_id ` set (dc_list dc)" by (simp add: find_mc_None)
    obtain mc where mc: "new_mc dc (GNUNET_TIME_absolute_get env) fid (of_nat (length msg)) = Some mc" "mc_wf (dc_mtu dc) mc" "mc_fragment_id mc = fid"
      "mc_holds (dc_mtu dc) msg {} mc" by (rule new_mc_holds[OF mtu msg])
    obtain dc1 where d: "insert_mc mc dc = Some dc1" "dc_holds M R dc1" "dc_mtu dc1 = dc_mtu dc" "dc_num_msgs dc1 = dc_num_msgs dc"
      "dc_list dc1 = mc # dc_list dc" by (rule insert_new_holds[OF h M new mc(2-4)])
    show "\<exists>dc'. GNUNET_DEFRAGMENT_process_fragment est env F dc = Some (if b \<in> R fid then GNUNET_NO else GNUNET_YES,
        if b \<notin> R fid \<and> insert b (R fid) = {..< num_fragments (dc_mtu dc) (length msg)} then Some msg else None, dc') \<and>
      dc_holds M (R(fid := insert b (R fid))) dc' \<and> dc_mtu dc' = dc_mtu dc \<and> dc_num_msgs dc' = dc_num_msgs dc \<and> ack_due fid dc'"
      using process_in_holds[OF d(2), of 0 fid msg b est "GNUNET_TIME_absolute_get env" a] P None mc d M(2) msg b by simp
  next
    case (Some i)
    then have i: "i < length (dc_list dc)" "mc_fragment_id (dc_list dc ! i) = fid" using find_mc_Some[OF Some] by simp_all
    have "mc_total_size (dc_list dc ! i) = of_nat (length msg)"
      using dc_holds_nth[OF h i M(2)] by (simp add: mc_holds_def)
    then show "\<exists>dc'. GNUNET_DEFRAGMENT_process_fragment est env F dc = Some (if b \<in> R fid then GNUNET_NO else GNUNET_YES,
        if b \<notin> R fid \<and> insert b (R fid) = {..< num_fragments (dc_mtu dc) (length msg)} then Some msg else None, dc') \<and>
      dc_holds M (R(fid := insert b (R fid))) dc' \<and> dc_mtu dc' = dc_mtu dc \<and> dc_num_msgs dc' = dc_num_msgs dc \<and> ack_due fid dc'"
      using process_in_holds[OF h i M(2) msg b, of est "GNUNET_TIME_absolute_get env" a] P Some by simp
  qed
qed

section \<open>Sequences of fragments\<close>

text \<open>Fragments one after the other, each with the clock at its arrival; the messages handed over.\<close>

fun receive ::
  "(MessageContext \<Rightarrow> GNUNET_TIME_Relative) \<Rightarrow> (time_env \<times> FragmentHeader) list \<Rightarrow> DefragmentContext \<Rightarrow>
   (uint8 list list \<times> DefragmentContext) option" where
  "receive est [] dc = Some ([], dc)"
| "receive est ((env, fh) # fs) dc =
     (case GNUNET_DEFRAGMENT_process_fragment est env fh dc of
        None \<Rightarrow> None
      | Some (rc, out, dc') \<Rightarrow>
          map_option (\<lambda>(ms, dc''). ((case out of None \<Rightarrow> ms | Some m \<Rightarrow> m # ms), dc'')) (receive est fs dc'))"

text \<open>The messages all of whose fragments are in a set of pairs of identifier and bit.\<close>

definition complete_ids :: "uint16 \<Rightarrow> (uint32 \<rightharpoonup> uint8 list) \<Rightarrow> (uint32 \<Rightarrow> nat set) \<Rightarrow> uint32 set" where
  "complete_ids mtu M R = {fid \<in> dom M. {..< num_fragments mtu (length (the (M fid)))} \<subseteq> R fid}"

definition arrived :: "(time_env \<times> uint32 \<times> nat) list \<Rightarrow> (uint32 \<Rightarrow> nat set) \<Rightarrow> uint32 \<Rightarrow> nat set" where
  "arrived tr R fid = R fid \<union> {b. \<exists>env. (env, fid, b) \<in> set tr}"

lemma arrived_Cons: "arrived ((env, fid, b) # tr) R = arrived tr (R(fid := insert b (R fid)))"
  by (auto simp: arrived_def fun_eq_iff)

abbreviation genuine :: "uint16 \<Rightarrow> (uint32 \<rightharpoonup> uint8 list) \<Rightarrow> time_env \<times> uint32 \<times> nat \<Rightarrow> time_env \<times> FragmentHeader" where
  "genuine mtu M \<equiv> \<lambda>(env, fid, b). (env, fragment_of mtu fid (the (M fid)) b)"

lemma complete_ids_step:
  assumes M: "finite (dom M)" "M fid = Some msg" and b: "b < num_fragments mtu (length msg)" and R: "R fid \<subseteq> {..< num_fragments mtu (length msg)}"
  shows "complete_ids mtu M R \<subseteq> complete_ids mtu M (R(fid := insert b (R fid)))"
    "complete_ids mtu M (R(fid := insert b (R fid))) - complete_ids mtu M R =
     (if b \<notin> R fid \<and> insert b (R fid) = {..< num_fragments mtu (length msg)} then {fid} else {})"
  using assms by (auto simp: complete_ids_def split: if_splits)

lemma complete_ids_arrived: "complete_ids mtu M R \<subseteq> complete_ids mtu M (arrived tr R)"
  by (auto simp: complete_ids_def arrived_def)

lemma dc_holds_subset:
  assumes "dc_holds M R dc" "M fid = Some msg"
  shows "R fid \<subseteq> {..< num_fragments (dc_mtu dc) (length msg)}"
proof (cases "fid \<in> mc_fragment_id ` set (dc_list dc)")
  case True
  then obtain i where "i < length (dc_list dc)" "mc_fragment_id (dc_list dc ! i) = fid" by (auto simp: in_set_conv_nth)
  then show ?thesis using dc_holds_nth[OF assms(1) _ _ assms(2), of i] by (auto simp: mc_holds_def)
next
  case False
  then show ?thesis using assms(1) by (simp add: dc_holds_def)
qed

lemma receive_genuine:
  assumes "dc_holds M R dc" "msgs_ok M dc"
    and "\<forall>(env, fid, b) \<in> set tr. \<exists>msg. M fid = Some msg \<and> b < num_fragments (dc_mtu dc) (length msg)"
  shows "\<exists>ms dc'. receive est (map (genuine (dc_mtu dc) M) tr) dc = Some (ms, dc') \<and> dc_holds M (arrived tr R) dc' \<and>
    mset ms = image_mset (the \<circ> M) (mset_set (complete_ids (dc_mtu dc) M (arrived tr R) - complete_ids (dc_mtu dc) M R))"
  using assms
proof (induction tr arbitrary: R dc)
  case Nil
  then show ?case by (simp add: arrived_def)
next
  case (Cons x tr)
  obtain env fid b where x: "x = (env, fid, b)" by (cases x) auto
  obtain msg where m: "M fid = Some msg" "b < num_fragments (dc_mtu dc) (length msg)" using Cons.prems(3) x by auto
  let ?R = "R(fid := insert b (R fid))" and ?mtu = "dc_mtu dc"
  let ?new = "b \<notin> R fid \<and> insert b (R fid) = {..< num_fragments ?mtu (length msg)}"
  from process_genuine[OF Cons.prems(1,2) m, of est env] obtain dc1 where
    p: "GNUNET_DEFRAGMENT_process_fragment est env (fragment_of ?mtu fid msg b) dc =
        Some (if b \<in> R fid then GNUNET_NO else GNUNET_YES, if ?new then Some msg else None, dc1)"
      "dc_holds M ?R dc1" "dc_mtu dc1 = ?mtu" "dc_num_msgs dc1 = dc_num_msgs dc" by blast
  have "msgs_ok M dc1" using Cons.prems(2) p(4) by (simp add: msgs_ok_def)
  moreover have "\<forall>(env, fid, b) \<in> set tr. \<exists>msg. M fid = Some msg \<and> b < num_fragments (dc_mtu dc1) (length msg)"
    using Cons.prems(3) p(3) by simp
  ultimately obtain ms dc' where
    r: "receive est (map (genuine ?mtu M) tr) dc1 = Some (ms, dc')" "dc_holds M (arrived tr ?R) dc'"
      "mset ms = image_mset (the \<circ> M) (mset_set (complete_ids ?mtu M (arrived tr ?R) - complete_ids ?mtu M ?R))"
    using Cons.IH[OF p(2)] unfolding p(3) by blast
  have fin: "finite (complete_ids ?mtu M S)" for S
    by (rule finite_subset[of _ "dom M"]) (use Cons.prems(2) in \<open>auto simp: complete_ids_def msgs_ok_def\<close>)
  have "finite (dom M)" using Cons.prems(2) by (simp add: msgs_ok_def)
  note C = complete_ids_step[of M fid msg b ?mtu R, OF this m dc_holds_subset[OF Cons.prems(1) m(1)]]
  define A B D where "A = complete_ids ?mtu M (arrived tr ?R)" and "B = complete_ids ?mtu M ?R" and "D = complete_ids ?mtu M R"
  have "A - D = (A - B) \<union> (B - D)" "(A - B) \<inter> (B - D) = {}"
    using C(1) complete_ids_arrived[of ?mtu M ?R tr] by (auto simp: A_def B_def D_def)
  then have "mset_set (A - D) = mset_set (A - B) + mset_set (B - D)"
    using fin by (simp add: mset_set_Union A_def B_def D_def)
  moreover have "mset_set (B - D) = (if ?new then {#fid#} else {#})" unfolding B_def D_def C(2) by simp
  ultimately have "image_mset (the \<circ> M) (mset_set (A - D)) = mset (if ?new then msg # ms else ms)"
    using r(3) m(1) by (simp add: A_def B_def)
  moreover have "receive est (map (genuine ?mtu M) (x # tr)) dc = Some (if ?new then msg # ms else ms, dc')"
    using p(1) r(1) m(1) by (simp add: x)
  ultimately show ?case using r(2) unfolding x arrived_Cons A_def D_def by (metis (no_types, lifting))
qed

text \<open>C2: fragments of several messages may arrive in any order, interleaved and repeated, some not at all: as long as no more
  messages are under way than the receiver may assemble at the same time, it hands over exactly the messages all of whose fragments
  arrived, byte for byte and once each, and no fragment makes it fail.\<close>

theorem defragment_delivers_exactly_once:
  assumes "mtu_ok mtu" "finite (dom M)" "card (dom M) \<le> unat num_msgs" "0 < num_msgs" "\<forall>msg \<in> ran M. message_ok msg"
    and "\<forall>(env, fid, b) \<in> set tr. \<exists>msg. M fid = Some msg \<and> b < num_fragments mtu (length msg)"
  shows "\<exists>ms dc'. receive est (map (\<lambda>(env, fid, b). (env, fragment_of mtu fid (the (M fid)) b)) tr)
      (GNUNET_DEFRAGMENT_context_create mtu num_msgs) = Some (ms, dc') \<and>
    mset ms = image_mset (the \<circ> M) (mset_set {fid \<in> dom M. \<forall>b < num_fragments mtu (length (the (M fid))). \<exists>env. (env, fid, b) \<in> set tr})"
proof -
  define dc where "dc = GNUNET_DEFRAGMENT_context_create mtu num_msgs"
  have dc: "dc_mtu dc = mtu" "dc_num_msgs dc = num_msgs" "dc_list dc = []" by (simp_all add: dc_def GNUNET_DEFRAGMENT_context_create_def)
  have h: "dc_holds M (\<lambda>_. {}) dc" using context_create_wf[OF assms(1,4)] dc by (simp add: dc_holds_def dc_def)
  have "complete_ids mtu M (\<lambda>_. {}) = {}"
  proof -
    have "0 \<in> {..< num_fragments mtu (length msg)}" if "msg \<in> ran M" for msg
      using assms(5) that num_fragments_gt[OF assms(1), of 0 "length msg"] by (auto simp: message_ok_def)
    then show ?thesis by (fastforce simp: complete_ids_def ran_def)
  qed
  moreover have "complete_ids mtu M (arrived tr (\<lambda>_. {})) =
      {fid \<in> dom M. \<forall>b < num_fragments mtu (length (the (M fid))). \<exists>env. (env, fid, b) \<in> set tr}"
    by (auto simp: complete_ids_def arrived_def)
  ultimately show ?thesis
    using receive_genuine[OF h, of tr est] assms dc unfolding dc_def[symmetric] by (simp add: msgs_ok_def) blast
qed

lemma sample_num_fragments: "num_fragments 1036 (length sample_message) = 2"
  unfolding sample_message_ok(2) by (simp add: num_fragments_def payload_size_def)

theorem defragment_delivers_exactly_once_witness:
  "\<exists>ms dc'. receive (\<lambda>_. \<lparr>rel_value_us = 1\<rparr>)
      [(sample_env 0, fragment_of 1036 5 sample_message 1), (sample_env 1, fragment_of 1036 5 sample_message 1),
       (sample_env 2, fragment_of 1036 5 sample_message 0)]
      (GNUNET_DEFRAGMENT_context_create 1036 3) = Some (ms, dc') \<and> mset ms = {#sample_message#}"
proof -
  let ?tr = "[(sample_env 0, 5 :: uint32, 1 :: nat), (sample_env 1, 5, 1), (sample_env 2, 5, 0)]"
  let ?M = "[5 \<mapsto> sample_message] :: uint32 \<rightharpoonup> uint8 list"
  have "{fid \<in> dom ?M. \<forall>b < num_fragments 1036 (length (the (?M fid))). \<exists>env. (env, fid, b) \<in> set ?tr} = {5}"
    by (auto simp: sample_num_fragments less_2_cases_iff)
  then show ?thesis
    using defragment_delivers_exactly_once[of 1036 ?M 3 ?tr "\<lambda>_. \<lparr>rel_value_us = 1\<rparr>"] sample_message_ok(1)
    by (simp add: sample_num_fragments)
qed

section \<open>Truncated fragments\<close>

text \<open>C33: the receiver does not check that a fragment carries all the bytes of its slot. A fragment without any data
  counts as the whole first slot, so a message that fits one fragment is handed over at once, with zeros in place of the
  bytes that never arrived; the size field in its header, zero as well, is not the size of the message.\<close>

theorem defragment_accepts_truncated:
  assumes mtu: "mtu_ok mtu" and num: "0 < num_msgs" and size: "HEADER_SIZE \<le> unat msize" "unat msize \<le> payload_size mtu"
  shows "\<exists>dc'. GNUNET_DEFRAGMENT_process_fragment est env
      \<lparr>fh_size = htons 12, fh_type = t, fh_fragment_id = i, fh_total_size = htons msize, fh_offset = htons 0, fh_data = []\<rparr>
      (GNUNET_DEFRAGMENT_context_create mtu num_msgs) = Some (GNUNET_YES, Some (replicate (unat msize) 0), dc')"
proof -
  define F where "F = \<lparr>fh_size = htons 12, fh_type = t, fh_fragment_id = i, fh_total_size = htons msize, fh_offset = htons 0, fh_data = []\<rparr>"
  define dc where "dc = GNUNET_DEFRAGMENT_context_create mtu num_msgs"
  have dc: "dc_mtu dc = mtu" "dc_list dc = []" "mtu_ok (dc_mtu dc)" using mtu by (simp_all add: dc_def GNUNET_DEFRAGMENT_context_create_def)
  have F: "header_ok dc F" "fh_bit dc F = 0" "fh_bytes F = []" "htons (fh_total_size F) = msize"
    using mtu size by (auto simp: header_ok_def F_def fh_bit_def fh_bytes_def dc Let_def)
  have one: "num_fragments mtu (unat msize) = 1"
    using num_fragments_gt[OF mtu, of 0 "unat msize"] num_fragments_gt[OF mtu, of 1 "unat msize"] size by simp
  from new_mc_ok[OF dc(3), of "GNUNET_TIME_absolute_get env" "htonl i" msize] obtain mc where
    mc: "new_mc dc (GNUNET_TIME_absolute_get env) (htonl i) msize = Some mc" "mc_wf mtu mc" "mc_total_size mc = msize"
      "mc_bits mc = mask 1" "mc_msg mc = replicate (unat msize) 0" unfolding dc(1) one by blast
  obtain dc1 where d: "insert_mc mc dc = Some dc1" "dc_wf dc1" "dc_mtu dc1 = mtu" "dc_list dc1 ! 0 = mc" "dc_list dc1 \<noteq> []"
    using insert_mc_wf[of dc mc] context_create_wf[OF mtu num] mc(2) dc by (auto simp: dc_def)
  have "unset_bit 0 (1 :: uint64) = 0" by (rule bit_word_eqI) (auto simp: bit_unset_bit_iff bit_1_iff)
  then have b: "bit (mc_bits mc) 0" "unset_bit 0 (mc_bits mc) = 0" unfolding mc(4) by simp_all
  obtain a where P: "GNUNET_DEFRAGMENT_process_fragment est env F dc = process_in_mc est (GNUNET_TIME_absolute_get env) a 0 [] 0 dc1"
    using process_fragment_accepts[OF dc(3) F(1), of est env] F(2-4) dc(2) mc(1) d(1) by (auto simp: F_def Let_def)
  show ?thesis unfolding F_def[symmetric] dc_def[symmetric] P
    by (rule process_in_mc_new[OF d(2) _ d(4)[symmetric], of 0 "[]" est "GNUNET_TIME_absolute_get env" a])
      (use d(5) b mc(5) in \<open>simp_all\<close>)
qed

theorem defragment_accepts_truncated_witness:
  "\<exists>dc'. GNUNET_DEFRAGMENT_process_fragment (\<lambda>_. \<lparr>rel_value_us = 1\<rparr>) (sample_env 0)
      \<lparr>fh_size = htons 12, fh_type = 0, fh_fragment_id = 1, fh_total_size = htons 4, fh_offset = htons 0, fh_data = []\<rparr>
      (GNUNET_DEFRAGMENT_context_create 1036 1) = Some (GNUNET_YES, Some (replicate 4 0), dc')"
  using defragment_accepts_truncated[of 1036 1 4 "\<lambda>_. \<lparr>rel_value_us = 1\<rparr>" "sample_env 0" 0 1] by (simp add: payload_size_def)

end
