(* ===== verification/FragmentProtocol.thy ===== *)
theory FragmentProtocol
  imports Defragmentation
begin

text \<open>
  Sender and receiver of fragments together, over a network that may lose, repeat and reorder what is sent. The
  state of the system has both ends, everything that was ever sent in either direction, the messages handed over by the
  receiver, and whether the sender was told that its work is complete (its user then destroys it). The steps are the
  operations of the two components, run in any order the scheduler and the network may choose.
\<close>

section \<open>The system\<close>

record frag_sys =
  sys_fc :: FragmentContext
  sys_dc :: DefragmentContext
  sys_frags :: "FragmentHeader set"
  sys_acks :: "FragmentAcknowledgement set"
  sys_done :: bool
  sys_delivered :: "uint8 list list"

inductive frag_step :: "(MessageContext \<Rightarrow> GNUNET_TIME_Relative) \<Rightarrow> frag_sys \<Rightarrow> frag_sys \<Rightarrow> bool" for est where
  transmit: "\<lbrakk>\<not> sys_done s; fc_task (sys_fc s) \<noteq> None; transmit_next clk (sys_fc s) = Some (out, fc)\<rbrakk> \<Longrightarrow>
     frag_step est s (s\<lparr>sys_fc := fc, sys_frags := set_option out \<union> sys_frags s\<rparr>)"
| transmitted: "\<lbrakk>\<not> sys_done s; fc_proc_busy (sys_fc s); GNUNET_FRAGMENT_context_transmission_done (sys_fc s) = Some fc\<rbrakk> \<Longrightarrow>
     frag_step est s (s\<lparr>sys_fc := fc\<rparr>)"
| arrive: "\<lbrakk>fh \<in> sys_frags s; GNUNET_DEFRAGMENT_process_fragment est env fh (sys_dc s) = Some (rc, out, dc)\<rbrakk> \<Longrightarrow>
     frag_step est s (s\<lparr>sys_dc := dc, sys_delivered := sys_delivered s @ (case out of None \<Rightarrow> [] | Some m \<Rightarrow> [m])\<rparr>)"
| ack: "\<lbrakk>i < length (dc_list (sys_dc s)); mc_ack_task (dc_list (sys_dc s) ! i) \<noteq> None; send_ack (dc_list (sys_dc s) ! i) = (fa, mc)\<rbrakk> \<Longrightarrow>
     frag_step est s (s\<lparr>sys_dc := (sys_dc s)\<lparr>dc_list := (dc_list (sys_dc s))[i := mc]\<rparr>, sys_acks := insert fa (sys_acks s)\<rparr>)"
| ack_arrive: "\<lbrakk>\<not> sys_done s; fa \<in> sys_acks s; GNUNET_FRAGMENT_process_ack env fa (sys_fc s) = Some (rc, fc)\<rbrakk> \<Longrightarrow>
     frag_step est s (s\<lparr>sys_fc := fc, sys_done := (rc = GNUNET_OK)\<rparr>)"

inductive frag_reach :: "(MessageContext \<Rightarrow> GNUNET_TIME_Relative) \<Rightarrow> frag_sys \<Rightarrow> frag_sys \<Rightarrow> bool" for est where
  refl: "frag_reach est s s"
| step: "frag_reach est s t \<Longrightarrow> frag_step est t u \<Longrightarrow> frag_reach est s u"

text \<open>The start: a new sender for a message and a new receiver.\<close>

definition frag_start :: "FragmentContext \<Rightarrow> uint16 \<Rightarrow> uint32 \<Rightarrow> frag_sys" where
  "frag_start fc mtu num_msgs =
     \<lparr>sys_fc = fc, sys_dc = GNUNET_DEFRAGMENT_context_create mtu num_msgs, sys_frags = {}, sys_acks = {}, sys_done = False,
      sys_delivered = []\<rparr>"

lemma frag_reach_trans: "frag_reach est t u \<Longrightarrow> frag_reach est s t \<Longrightarrow> frag_reach est s u"
  by (induction rule: frag_reach.induct) (auto intro: frag_reach.step)

lemma frag_reach_one: "frag_step est s t \<Longrightarrow> frag_reach est s t"
  using frag_reach.step[OF frag_reach.refl] .

section \<open>Acknowledgements\<close>

text \<open>An acknowledgement for a message of which the fragments \<open>S\<close> have arrived.\<close>

definition ack_for :: "uint32 \<Rightarrow> nat \<Rightarrow> nat set \<Rightarrow> FragmentAcknowledgement \<Rightarrow> bool" where
  "ack_for fid n S fa \<longleftrightarrow> unat (htons (fa_size fa)) = FRAGMENT_ACK_SIZE \<and> htonl (fa_fragment_id fa) = fid \<and>
     (\<forall>b. bit (GNUNET_ntohll (fa_bits fa)) b \<longleftrightarrow> b < n \<and> b \<notin> S)"

lemma send_ack_for:
  assumes "mc_holds mtu msg R mc" "send_ack mc = (fa, mc')"
  shows "ack_for (mc_fragment_id mc) (num_fragments mtu (length msg)) R fa" "mc_holds mtu msg R mc'"
    "mc_fragment_id mc' = mc_fragment_id mc"
  using assms by (auto simp: send_ack_def ack_for_def mc_holds_def)

lemma update_delays_same [simp]:
  "same_message fc (update_delays env abits fc)" "fc_task (update_delays env abits fc) = fc_task fc"
  "fc_proc_busy (update_delays env abits fc) = fc_proc_busy fc" "fc_next_transmission (update_delays env abits fc) = fc_next_transmission fc"
  "fc_tracker (update_delays env abits fc) = fc_tracker fc"
  by (simp_all add: update_delays_def same_message_def Let_def split: prod.splits)

text \<open>
  Processing an acknowledgement of the message's own receiver: the fragments still missing are those the receiver reports,
  and the work is complete exactly when it reports none.
\<close>

lemma process_ack_ok:
  assumes wf: "frag_wf fc" "fc_acks fc \<noteq> 0" and a: "ack_for (fc_fragment_id fc) (fc_count fc) S fa"
  obtains fc' where "GNUNET_FRAGMENT_process_ack env fa fc = Some (if {..< fc_count fc} \<subseteq> S then GNUNET_OK else GNUNET_NO, fc')"
    "frag_wf fc'" "same_message fc fc'" "fc_acks fc' = 0 \<longleftrightarrow> {..< fc_count fc} \<subseteq> S" "fc_tracker fc' = fc_tracker fc"
    "\<forall>b. bit (fc_acks fc') b \<longleftrightarrow> b < fc_count fc \<and> b \<notin> S"
proof -
  define abits where "abits = GNUNET_ntohll (fa_bits fa)"
  define fc1 where "fc1 = (if fc_wack fc \<and> fc_num_transmissions fc \<noteq> 0 then update_delays env abits fc else fc)"
  have s1: "same_message fc fc1" "fc_task fc1 = fc_task fc" "fc_proc_busy fc1 = fc_proc_busy fc"
      "fc_next_transmission fc1 = fc_next_transmission fc" "fc_tracker fc1 = fc_tracker fc"
    by (simp_all add: fc1_def)
  define fc2 where "fc2 = fc1\<lparr>fc_acks := abits AND fc_acks_mask fc1\<rparr>"
  have mask: "fc_acks_mask fc1 = mask (fc_count fc)" using wf(1) s1(1) by (simp add: same_message_def frag_wf_def)
  have bits: "bit (fc_acks fc2) b \<longleftrightarrow> b < fc_count fc \<and> b \<notin> S" for b
    using a bit_imp_le_length[of abits b] by (auto simp: fc2_def mask bit_and_iff bit_mask_iff ack_for_def abits_def)
  have zero: "fc_acks fc2 = 0 \<longleftrightarrow> {..< fc_count fc} \<subseteq> S"
  proof
    assume "fc_acks fc2 = 0"
    then have "\<not> bit (fc_acks fc2) b" for b by simp
    then show "{..< fc_count fc} \<subseteq> S" using bits by auto
  next
    assume "{..< fc_count fc} \<subseteq> S"
    then show "fc_acks fc2 = 0" using bits by (intro bit_word_eqI) auto
  qed
  have sm: "same_message fc fc2" using s1(1) by (simp add: fc2_def same_message_def)
  have masked: "fc_acks fc2 AND mask (fc_count fc) = fc_acks fc2" by (simp add: fc2_def mask and.assoc)
  have busy: "fc_task fc2 = None \<Longrightarrow> fc_proc_busy fc2" "fc_proc_busy fc2 \<Longrightarrow> fc_task fc2 = None"
    using wf s1 by (auto simp: fc2_def frag_wf_def)
  have P: "GNUNET_FRAGMENT_process_ack env fa fc =
      (if fc_acks fc2 \<noteq> 0
       then (case fc_task fc2 of Some _ \<Rightarrow> Some (GNUNET_NO, fc2\<lparr>fc_task := Some TaskNow\<rparr>)
             | None \<Rightarrow> if \<not> fc_proc_busy fc2 then None else Some (GNUNET_NO, fc2))
       else Some (GNUNET_OK, fc2\<lparr>fc_task := None\<rparr>))"
    unfolding GNUNET_FRAGMENT_process_ack_def Let_def abits_def[symmetric] fc1_def[symmetric] fc2_def[symmetric]
    using a by (simp add: ack_for_def)
  have wfI: "frag_wf (fc2\<lparr>fc_task := t\<rparr>)" if "t = None \<and> fc_acks fc2 \<noteq> 0 \<longrightarrow> fc_proc_busy fc2" "fc_proc_busy fc2 \<longrightarrow> t = None" for t
    using wf(1) sm masked that s1(4) by (auto simp: frag_wf_def same_message_def fc2_def)
  show thesis
  proof (cases "fc_acks fc2 = 0")
    case True
    then show thesis using P zero sm bits s1(5) wfI[of None]
      by (intro that[of "fc2\<lparr>fc_task := None\<rparr>"]) (simp_all add: same_message_def fc2_def)
  next
    case False
    show thesis
    proof (cases "fc_task fc2")
      case None
      then have "fc2\<lparr>fc_task := None\<rparr> = fc2" by simp
      then show thesis using P False None busy(1) zero sm bits s1(5) wfI[of None]
        by (intro that[of fc2]) (simp_all add: fc2_def)
    next
      case (Some t)
      then show thesis using P False busy(2) zero sm bits s1(5) wfI[of "Some TaskNow"]
        by (intro that[of "fc2\<lparr>fc_task := Some TaskNow\<rparr>"]) (auto simp: same_message_def fc2_def)
    qed
  qed
qed

section \<open>The invariant\<close>

text \<open>
  With \<open>R\<close> the fragments that have arrived: whatever is on its way is a fragment of the message or an acknowledgement of fragments
  that have arrived, the sender only gave up on fragments that have arrived, and the message was handed over once, when the last one arrived.
\<close>

definition frag_inv :: "uint16 \<Rightarrow> uint32 \<Rightarrow> uint8 list \<Rightarrow> nat set \<Rightarrow> frag_sys \<Rightarrow> bool" where
  "frag_inv mtu fid msg R s \<longleftrightarrow>
     frag_wf (sys_fc s) \<and> fc_msg (sys_fc s) = msg \<and> fc_mtu (sys_fc s) = mtu \<and> fc_fragment_id (sys_fc s) = fid \<and>
     (\<not> sys_done s \<longrightarrow> fc_acks (sys_fc s) \<noteq> 0) \<and>
     (\<forall>b < num_fragments mtu (length msg). \<not> bit (fc_acks (sys_fc s)) b \<longrightarrow> b \<in> R) \<and>
     sys_frags s \<subseteq> fragment_of mtu fid msg ` {..< num_fragments mtu (length msg)} \<and>
     dc_holds [fid \<mapsto> msg] ((\<lambda>_. {})(fid := R)) (sys_dc s) \<and> dc_mtu (sys_dc s) = mtu \<and>
     (\<forall>fa \<in> sys_acks s. \<exists>S \<subseteq> R. ack_for fid (num_fragments mtu (length msg)) S fa) \<and>
     sys_delivered s = (if R = {..< num_fragments mtu (length msg)} then [msg] else []) \<and>
     (sys_done s \<longrightarrow> R = {..< num_fragments mtu (length msg)})"

lemma frag_inv_msgs:
  assumes "frag_inv mtu fid msg R s"
  shows "msgs_ok [fid \<mapsto> msg] (sys_dc s)" "R \<subseteq> {..< num_fragments mtu (length msg)}"
proof -
  have d: "dc_holds [fid \<mapsto> msg] ((\<lambda>_. {})(fid := R)) (sys_dc s)" "dc_mtu (sys_dc s) = mtu" "message_ok msg"
    using assms by (auto simp: frag_inv_def frag_wf_def)
  then show "msgs_ok [fid \<mapsto> msg] (sys_dc s)" by (auto simp: msgs_ok_def dc_holds_def dc_wf_def word_less_nat_alt)
  show "R \<subseteq> {..< num_fragments mtu (length msg)}" using dc_holds_subset[OF d(1), of fid msg] d(2) by simp
qed

lemma num_fragments_pos: "mtu_ok mtu \<Longrightarrow> message_ok msg \<Longrightarrow> 0 < num_fragments mtu (length msg)"
  using num_fragments_gt[of mtu 0 "length msg"] by (auto simp: message_ok_def)

lemma frag_inv_start:
  assumes "GNUNET_FRAGMENT_context_create mtu tracker msg_delay ack_delay msg fid = Some fc" "mtu_ok mtu" "message_ok msg" "0 < num_msgs"
  shows "frag_inv mtu fid msg {} (frag_start fc mtu num_msgs)"
proof -
  have fc: "frag_wf fc" "fc_msg fc = msg" "fc_mtu fc = mtu" "fc_fragment_id fc = fid" "fc_acks fc = fc_acks_mask fc"
    using context_create_ok[OF assms(2,3), of tracker msg_delay ack_delay fid] assms(1) by auto
  have n: "0 < num_fragments mtu (length msg)" by (rule num_fragments_pos[OF assms(2,3)])
  have "length msg < 65536" using assms(3) msg_size_less[of msg] by (simp add: message_ok_def)
  then have "num_fragments mtu (length msg) \<le> 64" by (rule num_fragments_le[OF assms(2)])
  then have bits: "b < num_fragments mtu (length msg) \<Longrightarrow> bit (fc_acks fc) b" for b using fc by (simp add: frag_wf_def bit_mask_iff)
  then have "fc_acks fc \<noteq> 0" using n by auto
  moreover have "{} \<noteq> {..< num_fragments mtu (length msg)}" using n by auto
  ultimately show ?thesis using fc bits context_create_wf[OF assms(2,4)]
    by (auto simp: frag_inv_def frag_start_def dc_holds_def GNUNET_DEFRAGMENT_context_create_def)
qed

text \<open>Every step keeps the invariant; only the arrival of a fragment changes what has arrived.\<close>

lemma frag_inv_arrive:
  assumes inv: "frag_inv mtu fid msg R s" and b: "b < num_fragments mtu (length msg)"
  obtains rc out dc where
    "GNUNET_DEFRAGMENT_process_fragment est env (fragment_of mtu fid msg b) (sys_dc s) = Some (rc, out, dc)"
    "frag_inv mtu fid msg (insert b R) (s\<lparr>sys_dc := dc, sys_delivered := sys_delivered s @ (case out of None \<Rightarrow> [] | Some m \<Rightarrow> [m])\<rparr>)"
    "ack_due fid dc"
proof -
  let ?n = "num_fragments mtu (length msg)" and ?R = "(\<lambda>_. {})(fid := R)"
  have d: "dc_holds [fid \<mapsto> msg] ?R (sys_dc s)" "dc_mtu (sys_dc s) = mtu" using inv by (simp_all add: frag_inv_def)
  from process_genuine[OF d(1) frag_inv_msgs(1)[OF inv], of fid msg b est env] b d(2) obtain dc where
    p: "GNUNET_DEFRAGMENT_process_fragment est env (fragment_of mtu fid msg b) (sys_dc s) =
        Some (if b \<in> R then GNUNET_NO else GNUNET_YES, if b \<notin> R \<and> insert b R = {..<?n} then Some msg else None, dc)"
      "dc_holds [fid \<mapsto> msg] ((\<lambda>_. {})(fid := insert b R)) dc" "dc_mtu dc = mtu" "ack_due fid dc"
    by auto
  let ?out = "if b \<notin> R \<and> insert b R = {..<?n} then Some msg else None"
  have "sys_delivered s @ (case ?out of None \<Rightarrow> [] | Some m \<Rightarrow> [m]) = (if insert b R = {..<?n} then [msg] else [])"
    using inv b by (auto simp: frag_inv_def insert_absorb)
  moreover have "\<forall>fa \<in> sys_acks s. \<exists>S \<subseteq> insert b R. ack_for fid ?n S fa"
    using inv unfolding frag_inv_def by (meson subset_insertI2)
  moreover have "sys_done s \<longrightarrow> insert b R = {..<?n}" using inv b by (auto simp: frag_inv_def)
  ultimately have "frag_inv mtu fid msg (insert b R)
      (s\<lparr>sys_dc := dc, sys_delivered := sys_delivered s @ (case ?out of None \<Rightarrow> [] | Some m \<Rightarrow> [m])\<rparr>)"
    using inv p by (auto simp: frag_inv_def)
  then show thesis using p that by blast
qed

lemma frag_inv_sent:
  "frag_inv mtu fid msg R s \<Longrightarrow> fh \<in> sys_frags s \<Longrightarrow> \<exists>b < num_fragments mtu (length msg). fh = fragment_of mtu fid msg b"
  by (auto simp: frag_inv_def)

lemma frag_inv_ack:
  assumes inv: "frag_inv mtu fid msg R s" and i: "i < length (dc_list (sys_dc s))" and a: "send_ack (dc_list (sys_dc s) ! i) = (fa, mc)"
  shows "frag_inv mtu fid msg R (s\<lparr>sys_dc := (sys_dc s)\<lparr>dc_list := (dc_list (sys_dc s))[i := mc]\<rparr>, sys_acks := insert fa (sys_acks s)\<rparr>)"
    "ack_for fid (num_fragments mtu (length msg)) R fa"
proof -
  let ?dc = "sys_dc s" and ?R = "(\<lambda>_. {})(fid := R)"
  let ?mc = "dc_list ?dc ! i"
  have d: "dc_holds [fid \<mapsto> msg] ?R ?dc" "dc_mtu ?dc = mtu" using inv by (simp_all add: frag_inv_def)
  have wf: "dc_wf ?dc" using d(1) by (simp add: dc_holds_def)
  have "[fid \<mapsto> msg] (mc_fragment_id ?mc) \<noteq> None" using d(1) nth_mem[OF i] unfolding dc_holds_def by (metis option.distinct(1))
  then have fid: "mc_fragment_id ?mc = fid" by (simp split: if_splits)
  have h: "mc_holds mtu msg R ?mc" using dc_holds_nth[OF d(1) i fid, of msg] d(2) by simp
  note A = send_ack_for[OF h a]
  have "mc_wf mtu ?mc" using wf i d(2) by (auto simp: dc_wf_def)
  then have "mc_wf mtu mc" using a by (auto simp: send_ack_def mc_wf_def)
  then have "dc_wf (?dc\<lparr>dc_list := (dc_list ?dc)[i := mc], dc_latency := dc_latency ?dc\<rparr>)"
    using dc_wf_update[OF wf i, of mc "dc_latency ?dc"] A(3) d(2) by simp
  from dc_holds_update[OF d(1) i this _ fid, of msg R] A fid d(2)
  have "dc_holds [fid \<mapsto> msg] ?R (?dc\<lparr>dc_list := (dc_list ?dc)[i := mc]\<rparr>)" by simp
  then show "frag_inv mtu fid msg R (s\<lparr>sys_dc := ?dc\<lparr>dc_list := (dc_list ?dc)[i := mc]\<rparr>, sys_acks := insert fa (sys_acks s)\<rparr>)"
    using inv A(1) fid unfolding frag_inv_def by auto
  show "ack_for fid (num_fragments mtu (length msg)) R fa" using A(1) fid by simp
qed

lemma frag_inv_transmit:
  assumes inv: "frag_inv mtu fid msg R s" "\<not> sys_done s" "\<not> fc_proc_busy (sys_fc s)"
  obtains out fc where "transmit_next clk (sys_fc s) = Some (out, fc)"
    "frag_inv mtu fid msg R (s\<lparr>sys_fc := fc, sys_frags := set_option out \<union> sys_frags s\<rparr>)"
proof -
  have wf: "frag_wf (sys_fc s)" "fc_msg (sys_fc s) = msg" "fc_mtu (sys_fc s) = mtu" "fc_fragment_id (sys_fc s) = fid"
    using inv(1) by (simp_all add: frag_inv_def)
  from transmit_next_wf[OF wf(1) inv(3), of clk] obtain out fc where
    t: "transmit_next clk (sys_fc s) = Some (out, fc)" "frag_wf fc" "same_message (sys_fc s) fc" "fc_acks fc = fc_acks (sys_fc s)"
      "set_option out \<subseteq> fragment_of mtu fid msg ` {..< num_fragments mtu (length msg)}"
    unfolding wf by (fastforce split: option.splits)
  have "frag_inv mtu fid msg R (s\<lparr>sys_fc := fc, sys_frags := set_option out \<union> sys_frags s\<rparr>)"
    using inv(1) t(2-5) by (auto simp: frag_inv_def same_message_def)
  then show thesis using t(1) that by blast
qed

lemma frag_inv_transmitted:
  assumes inv: "frag_inv mtu fid msg R s" and busy: "fc_proc_busy (sys_fc s)"
  obtains fc where "GNUNET_FRAGMENT_context_transmission_done (sys_fc s) = Some fc" "frag_inv mtu fid msg R (s\<lparr>sys_fc := fc\<rparr>)"
    "\<not> fc_proc_busy fc" "fc_task fc \<noteq> None"
proof -
  have "frag_wf (sys_fc s)" using inv by (simp add: frag_inv_def)
  from transmission_done_ok[OF this busy] obtain fc where
    t: "GNUNET_FRAGMENT_context_transmission_done (sys_fc s) = Some fc" "frag_wf fc" "same_message (sys_fc s) fc" "fc_acks fc = fc_acks (sys_fc s)"
      "\<not> fc_proc_busy fc" "fc_task fc \<noteq> None" by blast
  have "frag_inv mtu fid msg R (s\<lparr>sys_fc := fc\<rparr>)" using inv t(2-4) by (auto simp: frag_inv_def same_message_def)
  then show thesis using t that by blast
qed

lemma frag_inv_ack_arrive:
  assumes inv: "frag_inv mtu fid msg R s" "\<not> sys_done s" and fa: "fa \<in> sys_acks s"
  obtains rc fc where "GNUNET_FRAGMENT_process_ack env fa (sys_fc s) = Some (rc, fc)"
    "frag_inv mtu fid msg R (s\<lparr>sys_fc := fc, sys_done := (rc = GNUNET_OK)\<rparr>)"
    "ack_for fid (num_fragments mtu (length msg)) {..< num_fragments mtu (length msg)} fa \<longrightarrow> rc = GNUNET_OK"
proof -
  let ?n = "num_fragments mtu (length msg)"
  have f: "frag_wf (sys_fc s)" "fc_acks (sys_fc s) \<noteq> 0" "fc_msg (sys_fc s) = msg" "fc_mtu (sys_fc s) = mtu" "fc_fragment_id (sys_fc s) = fid"
    using inv by (simp_all add: frag_inv_def)
  obtain S where S: "S \<subseteq> R" "ack_for fid ?n S fa" using inv(1) fa unfolding frag_inv_def by meson
  have a: "ack_for (fc_fragment_id (sys_fc s)) (fc_count (sys_fc s)) S fa" using S(2) f by simp
  obtain fc where P: "GNUNET_FRAGMENT_process_ack env fa (sys_fc s) = Some (if {..< fc_count (sys_fc s)} \<subseteq> S then GNUNET_OK else GNUNET_NO, fc)"
      "frag_wf fc" "same_message (sys_fc s) fc" "fc_acks fc = 0 \<longleftrightarrow> {..< fc_count (sys_fc s)} \<subseteq> S"
      "fc_tracker fc = fc_tracker (sys_fc s)" "\<forall>b. bit (fc_acks fc) b \<longleftrightarrow> b < fc_count (sys_fc s) \<and> b \<notin> S"
    by (rule process_ack_ok[OF f(1,2) a, of env])
  have R: "R \<subseteq> {..<?n}" by (rule frag_inv_msgs(2)[OF inv(1)])
  have "frag_inv mtu fid msg R (s\<lparr>sys_fc := fc, sys_done := ({..<?n} \<subseteq> S)\<rparr>)"
    using inv(1) P(2-4,6) S(1) R f(3-5) unfolding frag_inv_def by (auto simp: same_message_def)
  moreover have "ack_for fid ?n {..<?n} fa \<longrightarrow> {..<?n} \<subseteq> S" using S(2) by (auto simp: ack_for_def)
  ultimately show thesis using P(1) f(3-5) that[of "if {..<?n} \<subseteq> S then GNUNET_OK else GNUNET_NO" fc]
    by (cases "{..<?n} \<subseteq> S") simp_all
qed

lemma frag_step_inv:
  assumes "frag_step est s t" "frag_inv mtu fid msg R s"
  shows "\<exists>R'. frag_inv mtu fid msg R' t"
  using assms
proof (induction rule: frag_step.induct)
  case (transmit s clk out fc)
  then have "\<not> fc_proc_busy (sys_fc s)" by (auto simp: frag_inv_def frag_wf_def)
  then show ?case
    by (rule frag_inv_transmit[OF transmit(4,1), of clk]) (use transmit(3) in auto)
next
  case (transmitted s fc)
  show ?case by (rule frag_inv_transmitted[OF transmitted(4,2)]) (use transmitted(3) in auto)
next
  case (arrive fh s env rc out dc)
  then obtain b where b: "b < num_fragments mtu (length msg)" "fh = fragment_of mtu fid msg b" using frag_inv_sent by blast
  show ?case by (rule frag_inv_arrive[OF arrive(3) b(1), of est env]) (use arrive(2) b(2) in auto)
next
  case (ack i s fa mc)
  then show ?case using frag_inv_ack(1)[OF ack(4,1,3)] by blast
next
  case (ack_arrive s fa env rc fc)
  show ?case by (rule frag_inv_ack_arrive[OF ack_arrive(4,1,2), of env]) (use ack_arrive(3) in auto)
qed

lemma frag_reach_inv: "frag_reach est s t \<Longrightarrow> frag_inv mtu fid msg R s \<Longrightarrow> \<exists>R'. frag_inv mtu fid msg R' t"
  by (induction rule: frag_reach.induct) (blast dest: frag_step_inv)+

section \<open>Safety\<close>

text \<open>C1: over a network that loses, repeats and reorders fragments and acknowledgements at will, in every reachable state the receiver
  has handed over nothing or exactly the message that is being sent, once; when the sender is told that its work is complete, the message
  was handed over. Until then the sender always has a task scheduled or a transmission under way, and no operation either side may be
  asked to do next fails an assertion, loops forever or accesses memory it must not.\<close>

theorem fragment_protocol_safe:
  assumes "mtu_ok mtu" "message_ok msg" "0 < num_msgs"
    and "GNUNET_FRAGMENT_context_create mtu tracker msg_delay ack_delay msg fid = Some fc"
    and "frag_reach est (frag_start fc mtu num_msgs) s"
  shows "sys_delivered s \<in> {[], [msg]} \<and> (sys_done s \<longrightarrow> sys_delivered s = [msg]) \<and>
    (\<forall>fh \<in> sys_frags s. GNUNET_DEFRAGMENT_process_fragment est env fh (sys_dc s) \<noteq> None) \<and>
    (\<not> sys_done s \<longrightarrow>
      (if fc_proc_busy (sys_fc s) then GNUNET_FRAGMENT_context_transmission_done (sys_fc s) \<noteq> None
       else fc_task (sys_fc s) \<noteq> None \<and> transmit_next clk (sys_fc s) \<noteq> None) \<and>
      (\<forall>fa \<in> sys_acks s. GNUNET_FRAGMENT_process_ack env fa (sys_fc s) \<noteq> None))"
proof -
  from frag_reach_inv[OF assms(5) frag_inv_start[OF assms(4,1,2,3)]] obtain R where inv: "frag_inv mtu fid msg R s" by blast
  have "GNUNET_DEFRAGMENT_process_fragment est env fh (sys_dc s) \<noteq> None" if fh: "fh \<in> sys_frags s" for fh
  proof -
    obtain b where b: "b < num_fragments mtu (length msg)" "fh = fragment_of mtu fid msg b" using frag_inv_sent[OF inv fh] by blast
    show ?thesis by (rule frag_inv_arrive[OF inv b(1), of est env]) (use b(2) in simp)
  qed
  moreover have "GNUNET_FRAGMENT_process_ack env fa (sys_fc s) \<noteq> None" if "\<not> sys_done s" "fa \<in> sys_acks s" for fa
    by (rule frag_inv_ack_arrive[OF inv that, of env]) simp
  moreover have "transmit_next clk (sys_fc s) \<noteq> None" if "\<not> sys_done s" "\<not> fc_proc_busy (sys_fc s)"
    by (rule frag_inv_transmit[OF inv that, of clk]) simp
  moreover have "GNUNET_FRAGMENT_context_transmission_done (sys_fc s) \<noteq> None" if "fc_proc_busy (sys_fc s)"
    by (rule frag_inv_transmitted[OF inv that]) simp
  moreover have "fc_task (sys_fc s) \<noteq> None" if "\<not> sys_done s" "\<not> fc_proc_busy (sys_fc s)"
    using inv that by (auto simp: frag_inv_def frag_wf_def)
  moreover have "sys_delivered s \<in> {[], [msg]}" "sys_done s \<longrightarrow> sys_delivered s = [msg]"
    using inv by (simp_all add: frag_inv_def)
  ultimately show ?thesis by simp
qed

theorem fragment_protocol_safe_witness:
  "\<exists>fc. GNUNET_FRAGMENT_context_create 1036 None \<lparr>rel_value_us = 1\<rparr> \<lparr>rel_value_us = 1\<rparr> sample_message 5 = Some fc \<and>
     transmit_next (\<lambda>_. sample_env 0) (sys_fc (frag_start fc 1036 1)) \<noteq> None"
proof -
  obtain fc where fc: "GNUNET_FRAGMENT_context_create 1036 None \<lparr>rel_value_us = 1\<rparr> \<lparr>rel_value_us = 1\<rparr> sample_message 5 = Some fc" "\<not> fc_proc_busy fc"
    using context_create_ok[of 1036 sample_message None "\<lparr>rel_value_us = 1\<rparr>" "\<lparr>rel_value_us = 1\<rparr>" 5] sample_message_ok(1) by auto
  then show ?thesis
    using fragment_protocol_safe[OF _ sample_message_ok(1) _ fc(1) frag_reach.refl, of 1 "\<lambda>_. \<lparr>rel_value_us = 1\<rparr>" "sample_env 0" "\<lambda>_. sample_env 0"]
    by (auto simp: frag_start_def)
qed

section \<open>Completion\<close>

lemma reach_send:
  assumes "frag_inv mtu fid msg R s" "\<not> sys_done s" "\<not> fc_proc_busy (sys_fc s)" "fc_tracker (sys_fc s) = None"
    and "send_many clk k (sys_fc s) = Some (fs, fc)"
  shows "frag_reach est s (s\<lparr>sys_fc := fc, sys_frags := set fs \<union> sys_frags s\<rparr>)"
  using assms
proof (induction k arbitrary: s fs)
  case 0
  then have "s\<lparr>sys_fc := fc, sys_frags := set fs \<union> sys_frags s\<rparr> = s" by auto
  then show ?case by (simp add: frag_reach.refl)
next
  case (Suc k)
  have wf: "frag_wf (sys_fc s)" "fc_acks (sys_fc s) \<noteq> 0" using Suc.prems(1,2) by (simp_all add: frag_inv_def)
  then have task: "fc_task (sys_fc s) \<noteq> None" using Suc.prems(3) by (auto simp: frag_wf_def)
  obtain t where "bit (fc_acks (sys_fc s)) t" using nonzero_bit[OF wf(2)] by blast
  from send_step[OF wf(1) Suc.prems(3,4) this, of "clk k"] obtain b fc1 fc2 where
    x: "transmit_next (clk k) (sys_fc s) = Some (Some (fc_fragment (sys_fc s) b), fc1)"
      "GNUNET_FRAGMENT_context_transmission_done fc1 = Some fc2" "\<not> fc_proc_busy fc2" "fc_tracker fc2 = None" by blast
  let ?f = "fc_fragment (sys_fc s) b"
  let ?s1 = "s\<lparr>sys_fc := fc1, sys_frags := insert ?f (sys_frags s)\<rparr>"
  have s1: "frag_step est s ?s1" using frag_step.transmit[OF Suc.prems(2) task x(1)] by simp
  have busy: "fc_proc_busy fc1" using x(2) by (simp add: GNUNET_FRAGMENT_context_transmission_done_def split: if_splits)
  let ?s2 = "?s1\<lparr>sys_fc := fc2\<rparr>"
  have s2: "frag_step est ?s1 ?s2" by (rule frag_step.transmitted) (use Suc.prems(2) busy x(2) in simp_all)
  obtain out fc1' where i1: "transmit_next (clk k) (sys_fc s) = Some (out, fc1')"
    "frag_inv mtu fid msg R (s\<lparr>sys_fc := fc1', sys_frags := set_option out \<union> sys_frags s\<rparr>)"
    by (rule frag_inv_transmit[OF Suc.prems(1-3)])
  then have "frag_inv mtu fid msg R ?s1" using x(1) by (auto simp: set_eq_iff)
  then obtain fc2' where "GNUNET_FRAGMENT_context_transmission_done fc1 = Some fc2'" "frag_inv mtu fid msg R (?s1\<lparr>sys_fc := fc2'\<rparr>)"
    by (rule frag_inv_transmitted) (use busy in simp_all)
  then have i2: "frag_inv mtu fid msg R ?s2" using x(2) by simp
  obtain fs' where fs: "send_many clk k fc2 = Some (fs', fc)" "fs = ?f # fs'" using Suc.prems(5) x(1,2) by auto
  have "frag_reach est ?s2 (?s2\<lparr>sys_fc := fc, sys_frags := set fs' \<union> sys_frags ?s2\<rparr>)"
    by (rule Suc.IH[OF i2]) (use Suc.prems(2) x fs in simp_all)
  then have "frag_reach est s (?s2\<lparr>sys_fc := fc, sys_frags := set fs' \<union> sys_frags ?s2\<rparr>)"
    using frag_reach.step[OF frag_reach_one[OF s1] s2] by (rule frag_reach_trans)
  then show ?case using fs(2) by simp
qed

lemma reach_arrive:
  assumes "frag_inv mtu fid msg R s" "set bs \<subseteq> {..< num_fragments mtu (length msg)}" "fragment_of mtu fid msg ` set bs \<subseteq> sys_frags s"
  shows "\<exists>t. frag_reach est s t \<and> frag_inv mtu fid msg (R \<union> set bs) t \<and> sys_fc t = sys_fc s \<and> sys_done t = sys_done s \<and>
    (bs \<noteq> [] \<longrightarrow> ack_due fid (sys_dc t))"
  using assms
proof (induction bs arbitrary: s R)
  case Nil
  then show ?case using frag_reach.refl[of est s] by auto
next
  case (Cons b bs)
  have b: "b < num_fragments mtu (length msg)" using Cons.prems(2) by simp
  obtain rc out dc where p: "GNUNET_DEFRAGMENT_process_fragment est (sample_env 0) (fragment_of mtu fid msg b) (sys_dc s) = Some (rc, out, dc)"
    "frag_inv mtu fid msg (insert b R) (s\<lparr>sys_dc := dc, sys_delivered := sys_delivered s @ (case out of None \<Rightarrow> [] | Some m \<Rightarrow> [m])\<rparr>)"
    "ack_due fid dc" by (rule frag_inv_arrive[OF Cons.prems(1) b])
  define s1 where "s1 = s\<lparr>sys_dc := dc, sys_delivered := sys_delivered s @ (case out of None \<Rightarrow> [] | Some m \<Rightarrow> [m])\<rparr>"
  have st: "frag_step est s s1" unfolding s1_def by (rule frag_step.arrive[OF _ p(1)]) (use Cons.prems(3) in auto)
  have s1: "sys_frags s1 = sys_frags s" "sys_fc s1 = sys_fc s" "sys_done s1 = sys_done s" "sys_dc s1 = dc" by (simp_all add: s1_def)
  from Cons.IH[OF p(2)[folded s1_def]] Cons.prems(2,3) s1 obtain t where
    t: "frag_reach est s1 t" "frag_inv mtu fid msg (insert b R \<union> set bs) t" "sys_fc t = sys_fc s" "sys_done t = sys_done s"
      "bs \<noteq> [] \<longrightarrow> ack_due fid (sys_dc t)" by auto
  show ?case
  proof (cases "bs = []")
    case True
    then show ?thesis using frag_reach_one[OF st] p(2,3) s1 by (intro exI[of _ s1]) (simp add: s1_def)
  next
    case False
    then show ?thesis using frag_reach_trans[OF t(1) frag_reach_one[OF st]] t by auto
  qed
qed

lemma reach_idle:
  assumes inv: "frag_inv mtu fid msg R s" "\<not> sys_done s" "fc_tracker (sys_fc s) = None"
  obtains t where "frag_reach est s t" "frag_inv mtu fid msg R t" "\<not> sys_done t" "\<not> fc_proc_busy (sys_fc t)" "fc_tracker (sys_fc t) = None"
proof (cases "fc_proc_busy (sys_fc s)")
  case True
  obtain fc where f: "GNUNET_FRAGMENT_context_transmission_done (sys_fc s) = Some fc" "frag_inv mtu fid msg R (s\<lparr>sys_fc := fc\<rparr>)"
    "\<not> fc_proc_busy fc" "fc_task fc \<noteq> None" by (rule frag_inv_transmitted[OF inv(1) True])
  have "fc_tracker fc = None" using f(1) inv(3) by (auto simp: GNUNET_FRAGMENT_context_transmission_done_def split: if_splits)
  then show thesis using frag_reach_one[OF frag_step.transmitted[OF inv(2) True f(1)]] f inv(2) by (intro that[of "s\<lparr>sys_fc := fc\<rparr>"]) simp_all
qed (use inv that frag_reach.refl in blast)

lemma reach_all_sent:
  assumes inv: "frag_inv mtu fid msg R s" "\<not> sys_done s" "\<not> fc_proc_busy (sys_fc s)" "fc_tracker (sys_fc s) = None"
  obtains t where "frag_reach est s t" "frag_inv mtu fid msg R t" "\<not> sys_done t"
    "\<forall>b < num_fragments mtu (length msg). b \<notin> R \<longrightarrow> fragment_of mtu fid msg b \<in> sys_frags t" "sys_frags t \<noteq> {}"
proof -
  have f: "frag_wf (sys_fc s)" "fc_acks (sys_fc s) \<noteq> 0" "fc_msg (sys_fc s) = msg" "fc_mtu (sys_fc s) = mtu" "fc_fragment_id (sys_fc s) = fid"
    using inv by (simp_all add: frag_inv_def)
  from send_many_ok[OF f(1) inv(3,4) f(2), of "\<lambda>_ _. sample_env 0" 64] obtain fs fc where
    m: "send_many (\<lambda>_ _. sample_env 0) 64 (sys_fc s) = Some (fs, fc)" "frag_wf fc" "same_message (sys_fc s) fc" "fc_acks fc = fc_acks (sys_fc s)"
      "set fs \<subseteq> fragment_of mtu fid msg ` {b. bit (fc_acks (sys_fc s)) b}" "length fs = 64"
      "\<forall>t. bit (fc_acks (sys_fc s)) t \<longrightarrow> fragment_of mtu fid msg t \<in> set fs"
    unfolding f by (auto simp: ahead_def)
  let ?t = "s\<lparr>sys_fc := fc, sys_frags := set fs \<union> sys_frags s\<rparr>"
  have "frag_reach est s ?t" by (rule reach_send[OF inv m(1)])
  moreover have "set fs \<subseteq> fragment_of mtu fid msg ` {..< num_fragments mtu (length msg)}"
    using m(5) frag_wf_bits(1)[OF f(1)] f(3,4) by fastforce
  then have "frag_inv mtu fid msg R ?t" using inv(1) m(2-4) by (auto simp: frag_inv_def same_message_def)
  moreover have "fragment_of mtu fid msg b \<in> set fs" if "b < num_fragments mtu (length msg)" "b \<notin> R" for b
    using inv(1) m(7) that by (auto simp: frag_inv_def)
  moreover have "set fs \<noteq> {}" using m(6) by auto
  ultimately show thesis using inv(2) by (intro that[of ?t]) auto
qed

lemma reach_all_arrived:
  assumes inv: "frag_inv mtu fid msg R s" "\<not> sys_done s"
    "\<forall>b < num_fragments mtu (length msg). b \<notin> R \<longrightarrow> fragment_of mtu fid msg b \<in> sys_frags s" "sys_frags s \<noteq> {}"
  obtains t where "frag_reach est s t" "frag_inv mtu fid msg {..< num_fragments mtu (length msg)} t" "\<not> sys_done t" "ack_due fid (sys_dc t)"
proof -
  let ?n = "num_fragments mtu (length msg)"
  obtain b0 where b0: "b0 < ?n" "fragment_of mtu fid msg b0 \<in> sys_frags s" using inv(4) frag_inv_sent[OF inv(1)] by blast
  let ?bs = "b0 # filter (\<lambda>b. b \<notin> R) [0 ..< ?n]"
  have "set ?bs \<subseteq> {..<?n}" "fragment_of mtu fid msg ` set ?bs \<subseteq> sys_frags s" using b0 inv(3) by auto
  from reach_arrive[OF inv(1) this, of est] obtain t where
    t: "frag_reach est s t" "frag_inv mtu fid msg (R \<union> set ?bs) t" "sys_done t = sys_done s" "ack_due fid (sys_dc t)" by auto
  have "R \<union> set ?bs = {..<?n}" using frag_inv_msgs(2)[OF inv(1)] b0(1) by auto
  then show thesis using t inv(2) by (intro that[of t]) simp_all
qed

lemma reach_acked:
  assumes inv: "frag_inv mtu fid msg {..< num_fragments mtu (length msg)} s" "\<not> sys_done s" "ack_due fid (sys_dc s)"
  obtains t where "frag_reach est s t" "frag_inv mtu fid msg {..< num_fragments mtu (length msg)} t" "sys_done t"
proof -
  let ?n = "num_fragments mtu (length msg)"
  obtain i where i: "i < length (dc_list (sys_dc s))" "mc_ack_task (dc_list (sys_dc s) ! i) \<noteq> None"
    using inv(3) by (auto simp: ack_due_def in_set_conv_nth)
  obtain fa mc where a: "send_ack (dc_list (sys_dc s) ! i) = (fa, mc)" by fastforce
  define s1 where "s1 = s\<lparr>sys_dc := (sys_dc s)\<lparr>dc_list := (dc_list (sys_dc s))[i := mc]\<rparr>, sys_acks := insert fa (sys_acks s)\<rparr>"
  have st: "frag_step est s s1" unfolding s1_def by (rule frag_step.ack[OF i a])
  note A = frag_inv_ack[OF inv(1) i(1) a, folded s1_def]
  have d: "\<not> sys_done s1" "fa \<in> sys_acks s1" using inv(2) by (simp_all add: s1_def)
  obtain rc fc where r: "GNUNET_FRAGMENT_process_ack (sample_env 0) fa (sys_fc s1) = Some (rc, fc)"
    "frag_inv mtu fid msg {..<?n} (s1\<lparr>sys_fc := fc, sys_done := (rc = GNUNET_OK)\<rparr>)" "ack_for fid ?n {..<?n} fa \<longrightarrow> rc = GNUNET_OK"
    by (rule frag_inv_ack_arrive[OF A(1) d])
  define t where "t = s1\<lparr>sys_fc := fc, sys_done := (rc = GNUNET_OK)\<rparr>"
  have "frag_reach est s t"
    unfolding t_def by (rule frag_reach.step[OF frag_reach_one[OF st] frag_step.ack_arrive[OF d r(1)]])
  moreover have "sys_done t" using r(3) A(2) by (simp add: t_def)
  ultimately show thesis using r(2) that unfolding t_def by blast
qed



end
