(* ===== verification/IBF.thy ===== *)
theory IBF
  imports CRC HashCode Endian "HOL-Library.Multiset"
begin

text \<open>
  Invertible Bloom filters (\<^verbatim>\<open>src/src/set/ibf.c\<close>, \<^verbatim>\<open>src/src/set/ibf.h\<close>): arrays of cells in which the
  keys hashed to a cell are summed up, so that the difference of two sets can be read back from the
  difference of their filters. \<^verbatim>\<open>struct IBF_Key\<close>, \<^verbatim>\<open>struct IBF_KeyHash\<close> and \<^verbatim>\<open>struct IBF_Count\<close> have one field
  each and are words; the signed 8-bit count is its bit pattern. An array of \<^verbatim>\<open>int\<close> bucket numbers holds
  bit patterns too, which is how the code compares them with an unsigned bucket. \<^verbatim>\<open>None\<close> is a failed assertion, an access outside
  an array, or an overflow of an \<^verbatim>\<open>int\<close>. The checksum is called in its initial state, since it has the
  same value in every later one.
\<close>

section \<open>Definitions\<close>

type_synonym IBF_Key = uint64

record InvertibleBloomFilter =
  ibf_size :: uint32
  ibf_hash_num :: uint8
  key_sum :: "uint64 list"
  key_hash_sum :: "uint32 list"
  ibf_count :: "uint8 list"

definition crc_n :: "uint8 list \<Rightarrow> uint32 option" where
  "crc_n buf = map_option fst (GNUNET_CRYPTO_crc32_n crc_static buf)"

text \<open>The macro takes the size of the hash for the size of the key: four bytes of eight.\<close>

definition IBF_KEY_HASH_VAL :: "IBF_Key \<Rightarrow> uint32 option" where
  "IBF_KEY_HASH_VAL k = crc_n (le_bytes 4 k)"

definition ibf_key_from_hashcode :: "GNUNET_HashCode \<Rightarrow> IBF_Key" where
  "ibf_key_from_hashcode h = ucast (bits h ! 0) OR push_bit 32 (ucast (bits h ! 1))"

definition ibf_hashcode_from_key :: "IBF_Key \<Rightarrow> GNUNET_HashCode" where
  "ibf_hashcode_from_key key = \<lparr>bits = concat (replicate 8 [ucast key, ucast (drop_bit 32 key)])\<rparr>"

text \<open>\<open>malloc_large\<close> tells whether an allocation of that many bytes succeeds; \<open>Some None\<close> is \<^verbatim>\<open>NULL\<close>.\<close>

definition ibf_create :: "(nat \<Rightarrow> bool) \<Rightarrow> uint32 \<Rightarrow> uint8 \<Rightarrow> InvertibleBloomFilter option option" where
  "ibf_create malloc_large sz hash_num =
     (if sz = 0 then None
      else if \<not> malloc_large (unat sz) then Some None
      else if \<not> malloc_large (unat sz * 8) then Some None
      else if \<not> malloc_large (unat sz * 4) then Some None
      else Some (Some \<lparr>ibf_size = sz, ibf_hash_num = hash_num, key_sum = replicate (unat sz) 0,
        key_hash_sum = replicate (unat sz) 0, ibf_count = replicate (unat sz) 0\<rparr>))"

text \<open>The loop that fills the bucket numbers; it compares the bucket before it is reduced to the size.\<close>

definition next_bucket :: "uint32 \<Rightarrow> uint32 \<Rightarrow> uint32 option" where
  "next_bucket bucket i = crc_n (le_bytes 8 (push_bit 32 (ucast bucket) OR ucast i :: uint64))"

partial_function (option) get_indices_loop ::
  "uint32 \<Rightarrow> nat \<Rightarrow> uint32 list \<Rightarrow> uint32 \<Rightarrow> uint32 \<Rightarrow> uint32 list option" where
  "get_indices_loop sz hash_num dst i bucket =
     (if length dst < hash_num
      then Option.bind (next_bucket bucket i) (\<lambda>bucket'.
        get_indices_loop sz hash_num (if bucket \<in> set dst then dst else dst @ [bucket mod sz]) (i + 1) bucket')
      else Some dst)"

definition ibf_get_indices :: "InvertibleBloomFilter \<Rightarrow> IBF_Key \<Rightarrow> uint32 list option" where
  "ibf_get_indices ibf key =
     (if ibf_size ibf = 0 then None
      else Option.bind (crc_n (le_bytes 8 key)) (get_indices_loop (ibf_size ibf) (unat (ibf_hash_num ibf)) [] 0))"

text \<open>One turn of the loop over the buckets of a key.\<close>

definition add_to_bucket :: "IBF_Key \<Rightarrow> int \<Rightarrow> uint32 \<Rightarrow> InvertibleBloomFilter \<Rightarrow> InvertibleBloomFilter option" where
  "add_to_bucket key side bucket ibf =
     (if sint bucket < 0 \<or> ibf_size ibf \<le> bucket then None
      else let b = unat bucket in
        Option.bind (IBF_KEY_HASH_VAL key) (\<lambda>h. Some (ibf\<lparr>
          ibf_count := (ibf_count ibf)[b := ibf_count ibf ! b + word_of_int side],
          key_sum := (key_sum ibf)[b := key_sum ibf ! b XOR key],
          key_hash_sum := (key_hash_sum ibf)[b := key_hash_sum ibf ! b XOR h]\<rparr>)))"

fun insert_into_loop :: "InvertibleBloomFilter \<Rightarrow> IBF_Key \<Rightarrow> uint32 list \<Rightarrow> int \<Rightarrow> InvertibleBloomFilter option" where
  "insert_into_loop ibf key [] side = Some ibf"
| "insert_into_loop ibf key (b # bs) side =
     Option.bind (add_to_bucket key side b ibf) (\<lambda>ibf'. insert_into_loop ibf' key bs side)"

definition ibf_insert_into ::
  "InvertibleBloomFilter \<Rightarrow> IBF_Key \<Rightarrow> uint32 list \<Rightarrow> int \<Rightarrow> InvertibleBloomFilter option" where
  "ibf_insert_into ibf key buckets side =
     (if length buckets < unat (ibf_hash_num ibf) then None
      else insert_into_loop ibf key (take (unat (ibf_hash_num ibf)) buckets) side)"

definition ibf_insert :: "InvertibleBloomFilter \<Rightarrow> IBF_Key \<Rightarrow> InvertibleBloomFilter option" where
  "ibf_insert ibf key =
     (if ucast (ibf_hash_num ibf) \<le> ibf_size ibf
      then Option.bind (ibf_get_indices ibf key) (\<lambda>buckets. ibf_insert_into ibf key buckets 1)
      else None)"

definition ibf_remove :: "InvertibleBloomFilter \<Rightarrow> IBF_Key \<Rightarrow> InvertibleBloomFilter option" where
  "ibf_remove ibf key =
     (if ucast (ibf_hash_num ibf) \<le> ibf_size ibf
      then Option.bind (ibf_get_indices ibf key) (\<lambda>buckets. ibf_insert_into ibf key buckets (- 1))
      else None)"

text \<open>The loops over the cells count with an \<^verbatim>\<open>int\<close>; \<open>n\<close> cells are left, from cell \<open>i\<close>.\<close>

definition INT_MAX :: nat where "INT_MAX = 2147483647"

fun is_empty_from :: "InvertibleBloomFilter \<Rightarrow> nat \<Rightarrow> nat \<Rightarrow> int option" where
  "is_empty_from ibf i 0 = Some GNUNET_YES"
| "is_empty_from ibf i (Suc n) =
     (if ibf_count ibf ! i \<noteq> 0 \<or> key_hash_sum ibf ! i \<noteq> 0 \<or> key_sum ibf ! i \<noteq> 0 then Some GNUNET_NO
      else if i < INT_MAX then is_empty_from ibf (i + 1) n else None)"

definition ibf_is_empty :: "InvertibleBloomFilter \<Rightarrow> int option" where
  "ibf_is_empty ibf = is_empty_from ibf 0 (unat (ibf_size ibf))"

text \<open>The test of one cell: its buckets when the cell holds exactly one key, as far as can be told.\<close>

definition pure_cell :: "InvertibleBloomFilter \<Rightarrow> nat \<Rightarrow> uint32 list option option" where
  "pure_cell ibf i =
     (if ibf_count ibf ! i \<noteq> 1 \<and> ibf_count ibf ! i \<noteq> - 1 then Some None
      else Option.bind (IBF_KEY_HASH_VAL (key_sum ibf ! i)) (\<lambda>h.
        if h \<noteq> key_hash_sum ibf ! i then Some None
        else Option.bind (ibf_get_indices ibf (key_sum ibf ! i)) (\<lambda>buckets.
          Some (if of_nat i \<in> set buckets then Some buckets else None))))"

fun decode_from ::
  "InvertibleBloomFilter \<Rightarrow> nat \<Rightarrow> nat \<Rightarrow> (int \<times> (int \<times> IBF_Key) option \<times> InvertibleBloomFilter) option" where
  "decode_from ibf i 0 =
     Option.bind (ibf_is_empty ibf) (\<lambda>e. Some (if e = GNUNET_YES then GNUNET_NO else GNUNET_SYSERR, None, ibf))"
| "decode_from ibf i (Suc n) =
     Option.bind (pure_cell ibf i) (\<lambda>pure. case pure of
       None \<Rightarrow> (if i < INT_MAX then decode_from ibf (i + 1) n else None)
     | Some buckets \<Rightarrow>
         let side = sint (ibf_count ibf ! i); key = key_sum ibf ! i
         in Option.bind (ibf_insert_into ibf key buckets (- side)) (\<lambda>ibf'. Some (GNUNET_YES, Some (side, key), ibf')))"

text \<open>The result, the side and the key if one was decoded, and the filter without it.\<close>

definition ibf_decode ::
  "InvertibleBloomFilter \<Rightarrow> (int \<times> (int \<times> IBF_Key) option \<times> InvertibleBloomFilter) option" where
  "ibf_decode ibf = decode_from ibf 0 (unat (ibf_size ibf))"

text \<open>Slices of the arrays go to and come from a buffer; the sum in the assertion is a 32-bit one.\<close>

definition slice :: "nat \<Rightarrow> nat \<Rightarrow> 'a list \<Rightarrow> 'a list" where
  "slice start n xs = take n (drop start xs)"

definition overwrite :: "nat \<Rightarrow> 'a list \<Rightarrow> 'a list \<Rightarrow> 'a list" where
  "overwrite start ys xs = take start xs @ ys @ drop (start + length ys) xs"

definition ibf_write_slice :: "InvertibleBloomFilter \<Rightarrow> uint32 \<Rightarrow> uint32 \<Rightarrow> uint8 list option" where
  "ibf_write_slice ibf start cnt =
     (if \<not> start + cnt \<le> ibf_size ibf then None
      else if unat (ibf_size ibf) < unat start + unat cnt then None
      else Some (concat (map (le_bytes 8) (slice (unat start) (unat cnt) (key_sum ibf))) @
                 concat (map (le_bytes 4) (slice (unat start) (unat cnt) (key_hash_sum ibf))) @
                 slice (unat start) (unat cnt) (ibf_count ibf)))"

fun load_words :: "nat \<Rightarrow> nat \<Rightarrow> uint8 list \<Rightarrow> 'a::len word list" where
  "load_words w 0 buf = []"
| "load_words w (Suc n) buf = le_word (take w buf) # load_words w n (drop w buf)"

definition ibf_read_slice ::
  "uint8 list \<Rightarrow> uint32 \<Rightarrow> uint32 \<Rightarrow> InvertibleBloomFilter \<Rightarrow> InvertibleBloomFilter option" where
  "ibf_read_slice buf start cnt ibf =
     (let s = unat start; n = unat cnt in
      if \<not> 0 < cnt then None
      else if \<not> start + cnt \<le> ibf_size ibf then None
      else if unat (ibf_size ibf) < s + n \<or> length buf < 13 * n then None
      else Some (ibf\<lparr>key_sum := overwrite s (load_words 8 n buf) (key_sum ibf),
        key_hash_sum := overwrite s (load_words 4 n (drop (8 * n) buf)) (key_hash_sum ibf),
        ibf_count := overwrite s (take n (drop (12 * n) buf)) (ibf_count ibf)\<rparr>))"

definition ibf_subtract :: "InvertibleBloomFilter \<Rightarrow> InvertibleBloomFilter \<Rightarrow> InvertibleBloomFilter option" where
  "ibf_subtract ibf1 ibf2 =
     (if ibf_size ibf1 \<noteq> ibf_size ibf2 \<or> ibf_hash_num ibf1 \<noteq> ibf_hash_num ibf2 then None
      else if INT_MAX < unat (ibf_size ibf1) then None
      else Some (ibf1\<lparr>ibf_count := map2 (-) (ibf_count ibf1) (ibf_count ibf2),
        key_hash_sum := map2 (XOR) (key_hash_sum ibf1) (key_hash_sum ibf2),
        key_sum := map2 (XOR) (key_sum ibf1) (key_sum ibf2)\<rparr>))"

definition ibf_dup :: "InvertibleBloomFilter \<Rightarrow> InvertibleBloomFilter" where
  "ibf_dup ibf = \<lparr>ibf_size = ibf_size ibf, ibf_hash_num = ibf_hash_num ibf,
     key_sum = take (unat (ibf_size ibf)) (key_sum ibf),
     key_hash_sum = take (unat (ibf_size ibf)) (key_hash_sum ibf),
     ibf_count = take (unat (ibf_size ibf)) (ibf_count ibf)\<rparr>"

section \<open>The bucket numbers\<close>

lemma crc_n_eq [simp]: "crc_n buf = Some (crc32_ref 0 buf)"
proof -
  have "GNUNET_CRYPTO_crc32_n crc_static buf = Some (crc32_ref 0 buf, crc_init (crc_init crc_static))"
    using crc32_eq_ref[OF crc_static_ok] crc32_eq_ref[OF crc_init_ok(1)[OF crc_static_ok]]
    by (simp add: GNUNET_CRYPTO_crc32_n_def crc32_ref_def)
  then show ?thesis by (simp add: crc_n_def)
qed

lemma xor_cancel_left: "(a XOR x = a XOR y) = (x = (y :: 'a::len word))"
  by (metis xor.assoc xor.left_neutral xor_self_eq)

lemma xor_cancel_right: "(x XOR a = y XOR a) = (x = (y :: 'a::len word))"
  by (metis xor.assoc xor.right_neutral xor_self_eq)

text \<open>The CRC-32 shift is linear with a trivial kernel, hence injective.\<close>

lemma crc_shift_eq_0: "crc_shift z = 0 \<Longrightarrow> z = 0"
proof (rule bit_word_eqI)
  fix n assume z: "crc_shift z = 0" and n: "n < LENGTH(32)"
  have "bit (crc_shift z) 31 = bit z 0"
    by (auto simp: crc_shift_def bit_xor_iff bit_drop_bit_eq POLYNOMIAL_def dest: bit_imp_le_length)
  then have z0: "\<not> bit z 0" using z by simp
  then have "drop_bit 1 z = 0" using z by (simp add: crc_shift_def)
  then have "\<not> bit (drop_bit 1 z) m" for m by simp
  then have "\<not> bit z (Suc m)" for m by (simp add: bit_drop_bit_eq)
  then show "bit z n = bit (0 :: uint32) n" using z0 by (cases n) auto
qed

lemma crc_shifts_inj: "(crc_shift ^^ n) x = (crc_shift ^^ n) y \<Longrightarrow> x = y"
proof (induction n)
  case (Suc n)
  then have "crc_shift ((crc_shift ^^ n) x XOR (crc_shift ^^ n) y) = 0" by (simp add: crc_shift_xor)
  then have "(crc_shift ^^ n) x XOR (crc_shift ^^ n) y = 0" by (rule crc_shift_eq_0)
  then have "(crc_shift ^^ n) x = (crc_shift ^^ n) y" by (metis xor_cancel_right xor_self_eq)
  then show ?case by (rule Suc.IH)
qed simp

text \<open>Four bytes of input act as one exclusive or with the word they make.\<close>

lemma crc_shifts_late: "k \<le> 24 \<Longrightarrow> (crc_shift ^^ k) c XOR ucast (b :: uint8) = (crc_shift ^^ k) (c XOR push_bit k (ucast b))"
proof -
  assume k: "k \<le> 24"
  have "(crc_shift ^^ k) (push_bit k (ucast b)) = drop_bit k (push_bit k (ucast b :: uint32))"
    by (rule crc_shifts_low_zero) (simp add: bit_push_bit_iff)
  also have "\<dots> = ucast b"
    by (rule bit_word_eqI) (use k in \<open>auto simp: bit_drop_bit_eq bit_push_bit_iff bit_ucast_iff dest: bit_imp_le_length\<close>)
  finally show ?thesis by (simp add: crc_shifts_xor)
qed

lemma word_of_bytes:
  "(w :: uint32) = ucast (ucast w :: uint8) XOR push_bit 8 (ucast (ucast (drop_bit 8 w) :: uint8)) XOR
     push_bit 16 (ucast (ucast (drop_bit 16 w) :: uint8)) XOR push_bit 24 (ucast (ucast (drop_bit 24 w) :: uint8))"
proof (rule bit_word_eqI)
  fix n assume "n < LENGTH(32)"
  then have "n < 8 \<or> (8 \<le> n \<and> n < 16) \<or> (16 \<le> n \<and> n < 24) \<or> (24 \<le> n \<and> n < 32)" by auto
  then show "bit w n = bit (ucast (ucast w :: uint8) XOR push_bit 8 (ucast (ucast (drop_bit 8 w) :: uint8)) XOR
     push_bit 16 (ucast (ucast (drop_bit 16 w) :: uint8)) XOR push_bit 24 (ucast (ucast (drop_bit 24 w) :: uint8)) :: uint32) n"
    by (elim disjE) (auto simp: bit_xor_iff bit_push_bit_iff bit_ucast_iff bit_drop_bit_eq)
qed

lemma crc_four_bytes:
  "foldl (\<lambda>c b. (crc_shift ^^ 8) (c XOR ucast b)) c (le_bytes 4 (w :: uint32)) = (crc_shift ^^ 32) (c XOR w)"
proof -
  have S: "(crc_shift ^^ 8) ((crc_shift ^^ k) x) = (crc_shift ^^ (8 + k)) x" for k x
    by (simp only: funpow_add o_apply)
  have "foldl (\<lambda>c b. (crc_shift ^^ 8) (c XOR ucast b)) c (le_bytes 4 w) =
      (crc_shift ^^ 32) (c XOR ucast (ucast w :: uint8) XOR push_bit 8 (ucast (ucast (drop_bit 8 w) :: uint8)) XOR
        push_bit 16 (ucast (ucast (drop_bit 16 w) :: uint8)) XOR push_bit 24 (ucast (ucast (drop_bit 24 w) :: uint8)))"
    using crc_shifts_late[of 8] crc_shifts_late[of 16] crc_shifts_late[of 24] S[of 8] S[of 16] S[of 24]
    by (simp add: le_bytes_def upt_rec xor.assoc del: funpow.simps)
  then show ?thesis using word_of_bytes[of w] by (simp add: xor.assoc)
qed

lemma le_bytes_halves: "le_bytes 8 (push_bit 32 (ucast b) OR ucast i :: uint64) = le_bytes 4 (i :: uint32) @ le_bytes 4 (b :: uint32)"
proof -
  have lo: "n < 4 \<Longrightarrow> (ucast (drop_bit (8 * n) (push_bit 32 (ucast b) OR ucast i :: uint64)) :: uint8) = ucast (drop_bit (8 * n) i)" for n
    by (rule bit_word_eqI) (auto simp: bit_ucast_iff bit_drop_bit_eq bit_or_iff bit_push_bit_iff)
  have hi: "n < 4 \<Longrightarrow> (ucast (drop_bit (32 + 8 * n) (push_bit 32 (ucast b) OR ucast i :: uint64)) :: uint8) = ucast (drop_bit (8 * n) b)" for n
    by (rule bit_word_eqI) (auto simp: bit_ucast_iff bit_drop_bit_eq bit_or_iff bit_push_bit_iff dest: bit_imp_le_length)
  show ?thesis using lo[of 0] lo[of 1] lo[of 2] lo[of 3] hi[of 0] hi[of 1] hi[of 2] hi[of 3]
    by (simp add: le_bytes_def upt_rec)
qed

definition nb :: "uint32 \<Rightarrow> uint32 \<Rightarrow> uint32" where
  "nb bucket i = crc32_ref 0 (le_bytes 8 (push_bit 32 (ucast bucket) OR ucast i :: uint64))"

lemma next_bucket_nb [simp]: "next_bucket bucket i = Some (nb bucket i)"
  by (simp add: next_bucket_def nb_def)

lemma nb_inj: "nb b i = nb b j \<Longrightarrow> i = j"
proof -
  assume "nb b i = nb b j"
  then have "(crc_shift ^^ 32) ((crc_shift ^^ 32) (0 XOR 0xffffffff XOR i) XOR b) =
      (crc_shift ^^ 32) ((crc_shift ^^ 32) (0 XOR 0xffffffff XOR j) XOR b)"
    unfolding nb_def crc32_ref_def le_bytes_halves foldl_append crc_four_bytes xor_cancel_right xor.assoc .
  from this[THEN crc_shifts_inj, unfolded xor_cancel_right, THEN crc_shifts_inj]
  show "i = j" by (simp only: xor_cancel_left)
qed

text \<open>
  The loop ends although it may meet a taken bucket again and again: while it only meets taken buckets, two
  successive ones determine the counter, so there are at most as many turns as pairs of taken buckets.
\<close>

primrec bucket_seq :: "uint32 \<Rightarrow> uint32 \<Rightarrow> nat \<Rightarrow> uint32" where
  "bucket_seq b i 0 = b"
| "bucket_seq b i (Suc n) = nb (bucket_seq b i n) (i + of_nat n)"

lemma bucket_seq_leaves:
  assumes "length dst < 256"
  obtains n where "bucket_seq b i n \<notin> set dst" "\<forall>m < n. bucket_seq b i m \<in> set dst"
proof -
  let ?P = "\<lambda>n. (bucket_seq b i n, bucket_seq b i (Suc n))"
  have "\<exists>n. bucket_seq b i n \<notin> set dst"
  proof (rule ccontr)
    assume "\<not> ?thesis"
    then have sub: "?P ` {..<65536} \<subseteq> set dst \<times> set dst" by blast
    have "inj_on ?P {..<65536}"
    proof (rule inj_onI)
      fix m n :: nat assume mn: "m \<in> {..<65536}" "n \<in> {..<65536}" and "?P m = ?P n"
      then have "bucket_seq b i m = bucket_seq b i n \<and> bucket_seq b i (Suc m) = bucket_seq b i (Suc n)" by (simp only: prod.inject)
      then have "i + of_nat m = i + of_nat n" by (metis bucket_seq.simps(2) nb_inj)
      then have "unat (of_nat m :: uint32) = unat (of_nat n :: uint32)" by simp
      then show "m = n" using mn by (simp add: unsigned_of_nat take_bit_nat_eq_self)
    qed
    then have "65536 \<le> card (set dst \<times> set dst)"
      using card_mono[OF _ sub] by (simp add: card_image)
    moreover have "card (set dst \<times> set dst) \<le> 255 * 255"
      using assms card_length[of dst] by (simp only: card_cartesian_product) (rule mult_le_mono, simp_all)
    ultimately show False by simp
  qed
  then show ?thesis using that exists_least_iff[of "\<lambda>n. bucket_seq b i n \<notin> set dst"] by blast
qed

lemma get_indices_skip:
  assumes "length dst < hash_num" "\<forall>m < n. bucket_seq b i m \<in> set dst"
  shows "get_indices_loop sz hash_num dst i b = get_indices_loop sz hash_num dst (i + of_nat n) (bucket_seq b i n)"
  using assms
proof (induction n)
  case (Suc n)
  then have "get_indices_loop sz hash_num dst i b = get_indices_loop sz hash_num dst (i + of_nat n) (bucket_seq b i n)" by simp
  also have "\<dots> = get_indices_loop sz hash_num dst (i + of_nat (Suc n)) (bucket_seq b i (Suc n))"
    using Suc.prems by (subst get_indices_loop.simps) (simp add: ac_simps)
  finally show ?case .
qed simp

lemma get_indices_loop_ends:
  assumes "hash_num < 256" "length dst \<le> hash_num" "sz \<noteq> 0" "\<forall>b \<in> set dst. b < sz"
  shows "\<exists>dst'. get_indices_loop sz hash_num dst i b = Some dst' \<and> length dst' = hash_num \<and> (\<forall>b \<in> set dst'. b < sz)"
  using assms(2,4)
proof (induction "hash_num - length dst" arbitrary: dst i b)
  case 0
  then show ?case by (subst get_indices_loop.simps) simp
next
  case (Suc k)
  then have lt: "length dst < hash_num" by simp
  obtain n where n: "bucket_seq b i n \<notin> set dst" "\<forall>m < n. bucket_seq b i m \<in> set dst"
    using lt assms(1) by (auto intro: bucket_seq_leaves[of dst b i])
  let ?b = "bucket_seq b i n"
  have "get_indices_loop sz hash_num dst i b = get_indices_loop sz hash_num dst (i + of_nat n) ?b"
    using lt n(2) by (rule get_indices_skip)
  also have "\<dots> = get_indices_loop sz hash_num (dst @ [?b mod sz]) (i + of_nat n + 1) (nb ?b (i + of_nat n))"
    using lt n(1) by (subst get_indices_loop.simps) simp
  finally have step: "get_indices_loop sz hash_num dst i b =
    get_indices_loop sz hash_num (dst @ [?b mod sz]) (i + of_nat n + 1) (nb ?b (i + of_nat n))" .
  have "?b mod sz < sz" using assms(3) by (simp add: word_less_nat_alt unat_mod_lt)
  then show ?case unfolding step by (intro Suc.hyps(1)) (use Suc.hyps(2) Suc.prems lt in auto)
qed

text \<open>The bucket numbers of a key in a filter of the given parameters.\<close>

definition ibf_indices :: "uint32 \<Rightarrow> uint8 \<Rightarrow> IBF_Key \<Rightarrow> uint32 list" where
  "ibf_indices sz hash_num key =
     (case get_indices_loop sz (unat hash_num) [] 0 (crc32_ref 0 (le_bytes 8 key)) of Some dst \<Rightarrow> dst | None \<Rightarrow> [])"

lemma unat_8_less [simp]: "unat (x :: uint8) < 256"
  using unsigned_less[where 'a = nat, of x] by simp

lemma ibf_indices_ok:
  assumes "sz \<noteq> 0"
  shows "length (ibf_indices sz hash_num key) = unat hash_num" "b \<in> set (ibf_indices sz hash_num key) \<Longrightarrow> b < sz"
  using get_indices_loop_ends[of "unat hash_num" "[]" sz 0 "crc32_ref 0 (le_bytes 8 key)"] assms
  by (auto simp: ibf_indices_def)

lemma ibf_get_indices_eq:
  assumes "ibf_size ibf \<noteq> 0"
  shows "ibf_get_indices ibf key = Some (ibf_indices (ibf_size ibf) (ibf_hash_num ibf) key)"
  using get_indices_loop_ends[of "unat (ibf_hash_num ibf)" "[]" "ibf_size ibf" 0 "crc32_ref 0 (le_bytes 8 key)"] assms
  by (auto simp: ibf_get_indices_def ibf_indices_def)

text \<open>Bucket numbers of concrete keys are computed bit by bit, with a bound on the number of turns.\<close>

fun crc_bytes :: "uint32 \<Rightarrow> uint8 list \<Rightarrow> uint32" where
  "crc_bytes c [] = c"
| "crc_bytes c (b # bs) = crc_bytes (crc_shift (crc_shift (crc_shift (crc_shift (crc_shift (crc_shift (crc_shift (crc_shift
     (c XOR ucast b))))))))) bs"

lemma crc_bytes_ref: "crc32_ref crc buf = crc_bytes (crc XOR 0xffffffff) buf XOR 0xffffffff"
proof -
  have "foldl (\<lambda>c b. (crc_shift ^^ 8) (c XOR ucast b)) c buf = crc_bytes c buf" for c
    by (induction buf arbitrary: c) (simp_all add: numeral_eq_Suc)
  then show ?thesis by (simp add: crc32_ref_def)
qed

lemmas crc_eval = nb_def crc_bytes_ref le_bytes_def upt_rec crc_shift_def POLYNOMIAL_def

fun indices_fuel :: "nat \<Rightarrow> uint32 \<Rightarrow> nat \<Rightarrow> uint32 list \<Rightarrow> uint32 \<Rightarrow> uint32 \<Rightarrow> uint32 list" where
  "indices_fuel 0 sz hash_num dst i b = []"
| "indices_fuel (Suc n) sz hash_num dst i b =
     (if length dst < hash_num
      then indices_fuel n sz hash_num (if b \<in> set dst then dst else dst @ [b mod sz]) (i + 1) (nb b i) else dst)"

lemma indices_fuel_eq:
  assumes "length (indices_fuel n sz hash_num dst i b) = hash_num" "0 < hash_num"
  shows "get_indices_loop sz hash_num dst i b = Some (indices_fuel n sz hash_num dst i b)"
  using assms
proof (induction n arbitrary: dst i b)
  case (Suc n)
  then show ?case by (subst get_indices_loop.simps) (cases "length dst < hash_num", simp_all)
qed simp

lemma ibf_indices_eval:
  assumes "indices_fuel n sz (unat h) [] 0 (crc32_ref 0 (le_bytes 8 key)) = ds" "length ds = unat h" "h \<noteq> 0"
  shows "ibf_indices sz h key = ds"
  using indices_fuel_eq[of n sz "unat h" "[]" 0 "crc32_ref 0 (le_bytes 8 key)"] assms by (simp add: ibf_indices_def unat_gt_0)

section \<open>What a filter holds\<close>

definition ibf_wf :: "InvertibleBloomFilter \<Rightarrow> bool" where
  "ibf_wf ibf \<longleftrightarrow> ibf_size ibf \<noteq> 0 \<and> unat (ibf_size ibf) \<le> INT_MAX \<and> unat (ibf_hash_num ibf) \<le> unat (ibf_size ibf) \<and>
     length (key_sum ibf) = unat (ibf_size ibf) \<and> length (key_hash_sum ibf) = unat (ibf_size ibf) \<and>
     length (ibf_count ibf) = unat (ibf_size ibf)"

definition key_hash :: "IBF_Key \<Rightarrow> uint32" where
  "key_hash k = crc32_ref 0 (le_bytes 4 k)"

lemma IBF_KEY_HASH_VAL_eq [simp]: "IBF_KEY_HASH_VAL k = Some (key_hash k)"
  by (simp add: IBF_KEY_HASH_VAL_def key_hash_def)

text \<open>
  The content of a filter is a multiset of keys with their side. A cell has the sum of the sides of the keys
  that hit it, once for every hit, and the exclusive or of their keys and hashes; bit by bit that is a parity.
\<close>

definition hits :: "uint32 \<Rightarrow> uint8 \<Rightarrow> IBF_Key \<Rightarrow> nat \<Rightarrow> nat" where
  "hits sz hash_num k b = count_list (ibf_indices sz hash_num k) (of_nat b)"

definition count_at :: "uint32 \<Rightarrow> uint8 \<Rightarrow> (int \<times> IBF_Key) multiset \<Rightarrow> nat \<Rightarrow> int" where
  "count_at sz hash_num D b = (\<Sum>(s, k) \<in># D. s * int (hits sz hash_num k b))"

definition parity_at :: "uint32 \<Rightarrow> uint8 \<Rightarrow> (IBF_Key \<Rightarrow> 'a::len word) \<Rightarrow> (int \<times> IBF_Key) multiset \<Rightarrow> nat \<Rightarrow> nat \<Rightarrow> bool" where
  "parity_at sz hash_num f D b n = odd (\<Sum>(s, k) \<in># D. if bit (f k) n then hits sz hash_num k b else 0)"

definition cells_hold :: "InvertibleBloomFilter \<Rightarrow> (int \<times> IBF_Key) multiset \<Rightarrow> bool" where
  "cells_hold ibf D \<longleftrightarrow> (\<forall>b < unat (ibf_size ibf).
     ibf_count ibf ! b = word_of_int (count_at (ibf_size ibf) (ibf_hash_num ibf) D b) \<and>
     (\<forall>n. bit (key_sum ibf ! b) n = parity_at (ibf_size ibf) (ibf_hash_num ibf) (\<lambda>k. k) D b n) \<and>
     (\<forall>n. bit (key_hash_sum ibf ! b) n = parity_at (ibf_size ibf) (ibf_hash_num ibf) key_hash D b n))"

definition ibf_holds :: "InvertibleBloomFilter \<Rightarrow> (int \<times> IBF_Key) multiset \<Rightarrow> bool" where
  "ibf_holds ibf D \<longleftrightarrow> ibf_wf ibf \<and> cells_hold ibf D"

lemma count_at_simps [simp]:
  "count_at sz h {#} b = 0"
  "count_at sz h (add_mset (s, k) D) b = s * int (hits sz h k b) + count_at sz h D b"
  "count_at sz h (D + D') b = count_at sz h D b + count_at sz h D' b"
  by (simp_all add: count_at_def)

lemma parity_at_simps [simp]:
  "parity_at sz h f {#} b n = False"
  "parity_at sz h f (add_mset (s, k) D) b n = ((bit (f k) n \<and> odd (hits sz h k b)) \<noteq> parity_at sz h f D b n)"
  "parity_at sz h f (D + D') b n = (parity_at sz h f D b n \<noteq> parity_at sz h f D' b n)"
  by (auto simp: parity_at_def)

text \<open>Adding a key to a list of buckets.\<close>

definition added :: "uint32 list \<Rightarrow> IBF_Key \<Rightarrow> int \<Rightarrow> InvertibleBloomFilter \<Rightarrow> InvertibleBloomFilter \<Rightarrow> bool" where
  "added bs k side ibf ibf' \<longleftrightarrow> ibf_wf ibf' \<and> ibf_size ibf' = ibf_size ibf \<and> ibf_hash_num ibf' = ibf_hash_num ibf \<and>
     (\<forall>b < unat (ibf_size ibf).
       ibf_count ibf' ! b = ibf_count ibf ! b + word_of_int (side * int (count_list bs (of_nat b))) \<and>
       (\<forall>n. bit (key_sum ibf' ! b) n = (bit (key_sum ibf ! b) n \<noteq> (bit k n \<and> odd (count_list bs (of_nat b))))) \<and>
       (\<forall>n. bit (key_hash_sum ibf' ! b) n = (bit (key_hash_sum ibf ! b) n \<noteq> (bit (key_hash k) n \<and> odd (count_list bs (of_nat b))))))"

lemma sint_index: "unat (x :: uint32) \<le> INT_MAX \<Longrightarrow> \<not> sint x < 0"
proof -
  assume "unat x \<le> INT_MAX"
  then have "unat x < 2147483648" by (simp only: INT_MAX_def)
  then have "uint x < 2147483648" using uint_nat[of x] by linarith
  then have "uint x div 2147483648 = 0" by (simp add: div_pos_pos_trivial)
  then have "\<not> bit (uint x) 31" unfolding bit_iff_odd by simp
  then show ?thesis by (simp add: sint_uint)
qed

lemma add_to_bucket_ok:
  assumes "ibf_wf ibf" "b < ibf_size ibf"
  shows "\<exists>ibf'. add_to_bucket k side b ibf = Some ibf' \<and> added [b] k side ibf ibf'"
proof -
  have "unat b < unat (ibf_size ibf)" using assms(2) by (simp add: word_less_nat_alt)
  then have b: "unat b < length (ibf_count ibf)" "unat b < length (key_sum ibf)" "unat b < length (key_hash_sum ibf)"
    and sb: "\<not> sint b < 0"
    using assms(1) by (auto simp: ibf_wf_def intro!: sint_index)
  have eq: "j < unat (ibf_size ibf) \<Longrightarrow> b = of_nat j \<longleftrightarrow> unat b = j" for j
    using unsigned_less[where 'a = nat, of "ibf_size ibf"] by (auto simp: unsigned_of_nat take_bit_nat_eq_self)
  show ?thesis using assms b sb
    by (auto simp: add_to_bucket_def added_def ibf_wf_def Let_def eq nth_list_update bit_xor_iff not_le)
qed

lemma added_trans:
  assumes "added [b] k side ibf ibf1" "added bs k side ibf1 ibf2"
  shows "added (b # bs) k side ibf ibf2"
  using assms by (auto simp: added_def algebra_simps)

lemma insert_into_loop_ok:
  assumes "ibf_wf ibf" "\<forall>b \<in> set bs. b < ibf_size ibf"
  shows "\<exists>ibf'. insert_into_loop ibf k bs side = Some ibf' \<and> added bs k side ibf ibf'"
  using assms
proof (induction bs arbitrary: ibf)
  case Nil
  then show ?case by (simp add: added_def)
next
  case (Cons b bs)
  obtain ibf1 where 1: "add_to_bucket k side b ibf = Some ibf1" "added [b] k side ibf ibf1"
    using add_to_bucket_ok[of ibf b k side] Cons.prems by auto
  then have "\<exists>ibf2. insert_into_loop ibf1 k bs side = Some ibf2 \<and> added bs k side ibf1 ibf2"
    using Cons.prems by (intro Cons.IH) (auto simp: added_def)
  then show ?case using 1 added_trans by auto
qed

lemma insert_into_holds:
  assumes "ibf_holds ibf D"
  shows "\<exists>ibf'. ibf_insert_into ibf k (ibf_indices (ibf_size ibf) (ibf_hash_num ibf) k) side = Some ibf' \<and>
    ibf_holds ibf' (add_mset (side, k) D) \<and> ibf_size ibf' = ibf_size ibf \<and> ibf_hash_num ibf' = ibf_hash_num ibf"
proof -
  have wf: "ibf_wf ibf" using assms by (simp add: ibf_holds_def)
  let ?bs = "ibf_indices (ibf_size ibf) (ibf_hash_num ibf) k"
  have ok: "length ?bs = unat (ibf_hash_num ibf)" "\<forall>b \<in> set ?bs. b < ibf_size ibf"
    using wf ibf_indices_ok[of "ibf_size ibf"] by (auto simp: ibf_wf_def)
  obtain ibf' where ibf': "insert_into_loop ibf k ?bs side = Some ibf'" "added ?bs k side ibf ibf'"
    using insert_into_loop_ok[OF wf ok(2)] by blast
  then have "ibf_holds ibf' (add_mset (side, k) D)"
    using assms by (auto simp: ibf_holds_def cells_hold_def added_def hits_def)
  then show ?thesis using ibf' ok(1) by (simp add: ibf_insert_into_def added_def)
qed

lemma ibf_create_holds:
  assumes "ibf_create mem sz hash_num = Some (Some ibf)" "unat sz \<le> INT_MAX" "unat hash_num \<le> unat sz"
  shows "ibf_holds ibf {#}" "ibf_size ibf = sz" "ibf_hash_num ibf = hash_num"
  using assms by (auto simp: ibf_create_def ibf_holds_def ibf_wf_def cells_hold_def split: if_splits)

lemma hash_num_le: "ibf_wf ibf \<Longrightarrow> ucast (ibf_hash_num ibf) \<le> ibf_size ibf"
  using unat_8_less[of "ibf_hash_num ibf"]
  by (simp add: ibf_wf_def word_le_nat_alt unsigned_ucast_eq take_bit_nat_eq_self del: unat_8_less)

text \<open>The parameters of a filter, which no operation changes.\<close>

abbreviation same_params :: "InvertibleBloomFilter \<Rightarrow> InvertibleBloomFilter \<Rightarrow> bool" where
  "same_params ibf' ibf \<equiv> ibf_size ibf' = ibf_size ibf \<and> ibf_hash_num ibf' = ibf_hash_num ibf"

lemma ibf_insert_holds:
  assumes "ibf_holds ibf D"
  shows "\<exists>ibf'. ibf_insert ibf k = Some ibf' \<and> ibf_holds ibf' (add_mset (1, k) D) \<and> same_params ibf' ibf"
proof -
  have "ibf_wf ibf" using assms by (simp add: ibf_holds_def)
  then show ?thesis using insert_into_holds[OF assms, of k 1] hash_num_le ibf_get_indices_eq[of ibf k]
    by (simp add: ibf_insert_def ibf_wf_def)
qed

lemma ibf_remove_holds:
  assumes "ibf_holds ibf D"
  shows "\<exists>ibf'. ibf_remove ibf k = Some ibf' \<and> ibf_holds ibf' (add_mset (- 1, k) D) \<and> same_params ibf' ibf"
proof -
  have "ibf_wf ibf" using assms by (simp add: ibf_holds_def)
  then show ?thesis using insert_into_holds[OF assms, of k "- 1"] hash_num_le ibf_get_indices_eq[of ibf k]
    by (simp add: ibf_remove_def ibf_wf_def)
qed

text \<open>Two filters of the same parameters with the same content are the same filter.\<close>

lemma ibf_holds_unique:
  assumes "ibf_holds f D" "ibf_holds g D" "same_params f g"
  shows "f = g"
proof -
  have "key_sum f = key_sum g" "key_hash_sum f = key_hash_sum g" "ibf_count f = ibf_count g"
    using assms by (auto simp: ibf_holds_def ibf_wf_def cells_hold_def intro!: nth_equalityI bit_word_eqI)
  then show ?thesis using assms(3) by simp
qed

lemma ibf_holds_exchange:
  assumes "ibf_holds f D" "ibf_holds f E" "ibf_holds g (add_mset x D)" "same_params f g"
  shows "ibf_holds g (add_mset x E)"
  using assms by (cases x) (auto simp: ibf_holds_def cells_hold_def)

text \<open>A key and the same key on the other side cancel out.\<close>

lemma ibf_holds_cancel: "ibf_holds ibf (add_mset (s, k) (add_mset (- s, k) D)) = ibf_holds ibf D"
  by (auto simp: ibf_holds_def cells_hold_def)

abbreviation on_side :: "int \<Rightarrow> IBF_Key multiset \<Rightarrow> (int \<times> IBF_Key) multiset" where
  "on_side s A \<equiv> image_mset (Pair s) A"

definition negate :: "(int \<times> IBF_Key) multiset \<Rightarrow> (int \<times> IBF_Key) multiset" where
  "negate D = image_mset (\<lambda>(s, k). (- s, k)) D"

lemma negate_simps [simp]:
  "negate {#} = {#}" "negate (add_mset (s, k) D) = add_mset (- s, k) (negate D)" "negate (D + D') = negate D + negate D'"
  by (simp_all add: negate_def)

lemma negate_on_side [simp]: "negate (on_side s A) = on_side (- s) A"
  by (simp add: negate_def multiset.map_comp o_def)

lemma count_at_negate [simp]: "count_at sz h (negate D) b = - count_at sz h D b"
  by (induction D) auto

lemma parity_at_negate [simp]: "parity_at sz h f (negate D) b n = parity_at sz h f D b n"
  by (induction D) auto

lemma ibf_subtract_holds:
  assumes "ibf_holds f D" "ibf_holds g E" "same_params f g"
  shows "\<exists>d. ibf_subtract f g = Some d \<and> ibf_holds d (D + negate E) \<and> same_params d f"
  using assms by (auto simp: ibf_subtract_def ibf_holds_def ibf_wf_def cells_hold_def bit_xor_iff)

lemma ibf_dup_holds:
  assumes "ibf_wf ibf"
  shows "ibf_dup ibf = ibf"
  using assms by (simp add: ibf_dup_def ibf_wf_def)

lemma ibf_holds_common: "ibf_holds ibf (on_side 1 (A + C) + on_side (- 1) (B + C)) = ibf_holds ibf (on_side 1 A + on_side (- 1) B)"
  by (induction C) (simp_all add: ibf_holds_cancel[of _ "- 1", simplified])

lemma ibf_holds_difference:
  "ibf_holds ibf (on_side 1 A + on_side (- 1) B) = ibf_holds ibf (on_side 1 (A - B) + on_side (- 1) (B - A))"
proof -
  have "A = (A - B) + A \<inter># B" "B = (B - A) + A \<inter># B"
    by (metis diff_intersect_left_idem subset_mset.inf_le1 subset_mset.diff_add,
        metis diff_intersect_right_idem subset_mset.inf_le2 subset_mset.diff_add)
  then show ?thesis using ibf_holds_common[of ibf "A - B" "A \<inter># B" "B - A"] by simp
qed

section \<open>Decoding\<close>

definition looks_pure :: "InvertibleBloomFilter \<Rightarrow> nat \<Rightarrow> bool" where
  "looks_pure ibf i \<longleftrightarrow> (ibf_count ibf ! i = 1 \<or> ibf_count ibf ! i = - 1) \<and>
     key_hash (key_sum ibf ! i) = key_hash_sum ibf ! i \<and>
     of_nat i \<in> set (ibf_indices (ibf_size ibf) (ibf_hash_num ibf) (key_sum ibf ! i))"

lemma pure_cell_eq:
  assumes "ibf_wf ibf"
  shows "pure_cell ibf i = Some (if looks_pure ibf i
    then Some (ibf_indices (ibf_size ibf) (ibf_hash_num ibf) (key_sum ibf ! i)) else None)"
  using assms by (auto simp: pure_cell_def looks_pure_def ibf_wf_def ibf_get_indices_eq)

definition all_zero :: "InvertibleBloomFilter \<Rightarrow> bool" where
  "all_zero ibf \<longleftrightarrow> (\<forall>i < unat (ibf_size ibf). ibf_count ibf ! i = 0 \<and> key_hash_sum ibf ! i = 0 \<and> key_sum ibf ! i = 0)"

lemma is_empty_from_eq:
  "i + n \<le> INT_MAX \<Longrightarrow> is_empty_from ibf i n = Some (if \<forall>j. i \<le> j \<and> j < i + n \<longrightarrow>
     ibf_count ibf ! j = 0 \<and> key_hash_sum ibf ! j = 0 \<and> key_sum ibf ! j = 0 then GNUNET_YES else GNUNET_NO)"
proof (induction n arbitrary: i)
  case (Suc n)
  let ?Z = "\<lambda>j. ibf_count ibf ! j = 0 \<and> key_hash_sum ibf ! j = 0 \<and> key_sum ibf ! j = 0"
  have "(\<forall>j. i \<le> j \<and> j < i + Suc n \<longrightarrow> ?Z j) = (?Z i \<and> (\<forall>j. i + 1 \<le> j \<and> j < i + 1 + n \<longrightarrow> ?Z j))"
    by (auto simp: less_Suc_eq_le le_Suc_eq Suc_le_eq) (metis Suc_le_eq add_Suc le_neq_implies_less not_less_eq_eq)+
  then show ?case using Suc.prems Suc.IH[of "i + 1"] by simp
qed simp

lemma ibf_is_empty_eq:
  assumes "ibf_wf ibf"
  shows "ibf_is_empty ibf = Some (if all_zero ibf then GNUNET_YES else GNUNET_NO)"
  using assms is_empty_from_eq[of 0 "unat (ibf_size ibf)" ibf] by (simp add: ibf_is_empty_def ibf_wf_def all_zero_def)

lemma decode_from_stuck:
  assumes "ibf_wf ibf" "i + n \<le> INT_MAX" "\<forall>j. i \<le> j \<and> j < i + n \<longrightarrow> \<not> looks_pure ibf j"
  shows "decode_from ibf i n = Some (if all_zero ibf then GNUNET_NO else GNUNET_SYSERR, None, ibf)"
  using assms(2,3) by (induction n arbitrary: i) (simp_all add: ibf_is_empty_eq pure_cell_eq assms(1))

lemma decode_from_pure:
  assumes "ibf_wf ibf" "i + n \<le> INT_MAX" "i \<le> j" "j < i + n" "looks_pure ibf j" "\<forall>m. i \<le> m \<and> m < j \<longrightarrow> \<not> looks_pure ibf m"
  shows "decode_from ibf i n =
    (let side = sint (ibf_count ibf ! j); key = key_sum ibf ! j
     in Option.bind (ibf_insert_into ibf key (ibf_indices (ibf_size ibf) (ibf_hash_num ibf) key) (- side))
       (\<lambda>ibf'. Some (GNUNET_YES, Some (side, key), ibf')))"
  using assms(2-6)
proof (induction n arbitrary: i)
  case (Suc n)
  show ?case
  proof (cases "i = j")
    case True
    then show ?thesis using Suc.prems by (simp add: pure_cell_eq assms(1))
  next
    case False
    then have "\<not> looks_pure ibf i" using Suc.prems by simp
    then show ?thesis using False Suc.prems Suc.IH[of "i + 1"] by (simp add: pure_cell_eq assms(1))
  qed
qed simp

lemma ibf_decode_cases:
  assumes "ibf_holds ibf D"
  obtains (pure) j ibf' where "j < unat (ibf_size ibf)" "looks_pure ibf j"
      "ibf_decode ibf = Some (GNUNET_YES, Some (sint (ibf_count ibf ! j), key_sum ibf ! j), ibf')"
      "ibf_holds ibf' (add_mset (- sint (ibf_count ibf ! j), key_sum ibf ! j) D)" "same_params ibf' ibf"
    | (stuck) "\<forall>j < unat (ibf_size ibf). \<not> looks_pure ibf j"
      "ibf_decode ibf = Some (if all_zero ibf then GNUNET_NO else GNUNET_SYSERR, None, ibf)"
proof (cases "\<exists>j < unat (ibf_size ibf). looks_pure ibf j")
  case False
  then show ?thesis using stuck decode_from_stuck[of ibf 0 "unat (ibf_size ibf)"] assms
    by (simp add: ibf_decode_def ibf_holds_def ibf_wf_def)
next
  case True
  then obtain j where j: "j < unat (ibf_size ibf)" "looks_pure ibf j" "\<forall>m < j. \<not> looks_pure ibf m"
    using exists_least_iff[of "\<lambda>j. j < unat (ibf_size ibf) \<and> looks_pure ibf j"] by auto
  have wf: "ibf_wf ibf" "unat (ibf_size ibf) \<le> INT_MAX" using assms by (simp_all add: ibf_holds_def ibf_wf_def)
  show ?thesis
    using pure[OF j(1,2)] insert_into_holds[OF assms, of "key_sum ibf ! j" "- sint (ibf_count ibf ! j)"]
      decode_from_pure[of ibf 0 "unat (ibf_size ibf)" j] j wf
    by (auto simp: ibf_decode_def Let_def)
qed

text \<open>
  Cell \<open>b\<close> of a filter with content \<open>D\<close> passes the tests for a single key \<open>k\<close>. A difference can be decoded
  unambiguously if no part of it has a cell that passes for a key that is not there, and it can be peeled if every part of
  it has a key that is alone in some cell.
\<close>

definition pure_at :: "uint32 \<Rightarrow> uint8 \<Rightarrow> (int \<times> IBF_Key) multiset \<Rightarrow> nat \<Rightarrow> int \<Rightarrow> IBF_Key \<Rightarrow> bool" where
  "pure_at sz h D b s k \<longleftrightarrow> (s = 1 \<or> s = - 1) \<and> (word_of_int (count_at sz h D b) :: uint8) = word_of_int s \<and>
     (\<forall>n. bit k n = parity_at sz h (\<lambda>k. k) D b n) \<and> (\<forall>n. bit (key_hash k) n = parity_at sz h key_hash D b n) \<and>
     of_nat b \<in> set (ibf_indices sz h k)"

definition unambiguous :: "uint32 \<Rightarrow> uint8 \<Rightarrow> (int \<times> IBF_Key) multiset \<Rightarrow> bool" where
  "unambiguous sz h \<Delta> \<longleftrightarrow> (\<forall>D b s k. D \<subseteq># \<Delta> \<and> b < unat sz \<and> pure_at sz h D b s k \<longrightarrow> (s, k) \<in># D)"

definition alone :: "uint32 \<Rightarrow> uint8 \<Rightarrow> (int \<times> IBF_Key) multiset \<Rightarrow> nat \<Rightarrow> int \<Rightarrow> IBF_Key \<Rightarrow> bool" where
  "alone sz h D b s k \<longleftrightarrow> (s, k) \<in># D \<and> (s = 1 \<or> s = - 1) \<and> hits sz h k b = 1 \<and>
     (\<forall>(s', k') \<in># D - {#(s, k)#}. hits sz h k' b = 0)"

definition peelable :: "uint32 \<Rightarrow> uint8 \<Rightarrow> (int \<times> IBF_Key) multiset \<Rightarrow> bool" where
  "peelable sz h \<Delta> \<longleftrightarrow> (\<forall>D. D \<subseteq># \<Delta> \<and> D \<noteq> {#} \<longrightarrow> (\<exists>b s k. b < unat sz \<and> alone sz h D b s k))"

lemma unambiguous_mono: "unambiguous sz h \<Delta> \<Longrightarrow> D \<subseteq># \<Delta> \<Longrightarrow> unambiguous sz h D"
  unfolding unambiguous_def by (meson subset_mset.order_trans)

lemma peelable_mono: "peelable sz h \<Delta> \<Longrightarrow> D \<subseteq># \<Delta> \<Longrightarrow> peelable sz h D"
  unfolding peelable_def by (meson subset_mset.order_trans)

lemma sint_unit [simp]: "sint (1 :: uint8) = 1" "sint (- 1 :: uint8) = - 1"
  by simp_all

lemma looks_pure_at:
  assumes "ibf_holds ibf D" "b < unat (ibf_size ibf)" "looks_pure ibf b"
  shows "pure_at (ibf_size ibf) (ibf_hash_num ibf) D b (sint (ibf_count ibf ! b)) (key_sum ibf ! b)"
proof -
  have "sint (ibf_count ibf ! b) = 1 \<or> sint (ibf_count ibf ! b) = - 1" using assms(3) by (auto simp: looks_pure_def)
  then show ?thesis using assms by (auto simp: ibf_holds_def cells_hold_def looks_pure_def pure_at_def)
qed

lemma no_hits:
  assumes "\<forall>(s, k) \<in># D. hits sz h k b = 0"
  shows "count_at sz h D b = 0" "\<not> parity_at sz h f D b n"
  using assms by (induction D) auto

lemma alone_cell:
  assumes "alone sz h D b s k"
  shows "count_at sz h D b = s" "parity_at sz h f D b n = bit (f k) n"
proof -
  have D: "D = add_mset (s, k) (D - {#(s, k)#})" and hit: "hits sz h k b = 1"
    and others: "\<forall>(s', k') \<in># D - {#(s, k)#}. hits sz h k' b = 0"
    using assms by (simp_all add: alone_def)
  show "count_at sz h D b = s" "parity_at sz h f D b n = bit (f k) n"
    by (subst D, simp add: hit no_hits[OF others])+
qed

lemma alone_looks_pure:
  assumes "ibf_holds ibf D" "b < unat (ibf_size ibf)" "alone (ibf_size ibf) (ibf_hash_num ibf) D b s k"
  shows "looks_pure ibf b"
proof -
  have s: "s = 1 \<or> s = - 1" and hit: "hits (ibf_size ibf) (ibf_hash_num ibf) k b = 1" using assms(3) by (simp_all add: alone_def)
  have "key_sum ibf ! b = k" "key_hash_sum ibf ! b = key_hash k" "ibf_count ibf ! b = word_of_int s"
    using assms(1,2) by (auto simp: ibf_holds_def cells_hold_def alone_cell[OF assms(3)] intro!: bit_word_eqI)
  moreover have "of_nat b \<in> set (ibf_indices (ibf_size ibf) (ibf_hash_num ibf) k)"
    using hit by (metis hits_def count_list_0_iff zero_neq_one)
  ultimately show ?thesis using s by (auto simp: looks_pure_def)
qed

lemma holds_none:
  assumes "ibf_holds ibf {#}"
  shows "all_zero ibf" "\<forall>j < unat (ibf_size ibf). \<not> looks_pure ibf j"
proof -
  have "ibf_count ibf ! j = 0 \<and> key_hash_sum ibf ! j = 0 \<and> key_sum ibf ! j = 0" if "j < unat (ibf_size ibf)" for j
    using assms that by (auto simp: ibf_holds_def cells_hold_def intro!: bit_word_eqI)
  then show "all_zero ibf" "\<forall>j < unat (ibf_size ibf). \<not> looks_pure ibf j" by (auto simp: all_zero_def looks_pure_def)
qed

lemma decode_none:
  assumes "ibf_holds ibf {#}"
  shows "ibf_decode ibf = Some (GNUNET_NO, None, ibf)"
  by (rule ibf_decode_cases[OF assms]) (use holds_none[OF assms] in auto)

text \<open>One step of decoding takes one key off the difference.\<close>

lemma decode_peels:
  assumes "ibf_holds ibf D" "D \<noteq> {#}"
    and "unambiguous (ibf_size ibf) (ibf_hash_num ibf) D" "peelable (ibf_size ibf) (ibf_hash_num ibf) D"
  obtains s k ibf' where "(s, k) \<in># D" "ibf_decode ibf = Some (GNUNET_YES, Some (s, k), ibf')"
    "ibf_holds ibf' (D - {#(s, k)#})" "same_params ibf' ibf"
proof -
  obtain b s k where b: "b < unat (ibf_size ibf)" "alone (ibf_size ibf) (ibf_hash_num ibf) D b s k"
    using assms(2,4) unfolding peelable_def by blast
  show thesis
  proof (rule ibf_decode_cases[OF assms(1)])
    fix j ibf' assume j: "j < unat (ibf_size ibf)" "looks_pure ibf j"
      and dec: "ibf_decode ibf = Some (GNUNET_YES, Some (sint (ibf_count ibf ! j), key_sum ibf ! j), ibf')"
      and h: "ibf_holds ibf' (add_mset (- sint (ibf_count ibf ! j), key_sum ibf ! j) D)" and same: "same_params ibf' ibf"
    let ?e = "(sint (ibf_count ibf ! j), key_sum ibf ! j)"
    have e: "?e \<in># D" using assms(3) looks_pure_at[OF assms(1) j] j(1) unfolding unambiguous_def by blast
    then have "D = add_mset ?e (D - {#?e#})" by simp
    then have "ibf_holds ibf' (D - {#?e#})"
      using h ibf_holds_cancel[of ibf' "- sint (ibf_count ibf ! j)" "key_sum ibf ! j" "D - {#?e#}"] by simp
    then show thesis using that[OF e dec _ same] by simp
  qed (use alone_looks_pure[OF assms(1) b] b(1) in blast)
qed

text \<open>A difference whose keys have pairwise different buckets is unambiguous and can be peeled.\<close>

definition spread :: "uint32 \<Rightarrow> uint8 \<Rightarrow> (int \<times> IBF_Key) list \<Rightarrow> bool" where
  "spread sz h ds \<longleftrightarrow> sz \<noteq> 0 \<and> h \<noteq> 0 \<and> distinct (concat (map (\<lambda>(s, k). ibf_indices sz h k) ds)) \<and> (\<forall>(s, k) \<in> set ds. s = 1 \<or> s = - 1)"

lemma spread_total:
  assumes "distinct (concat (map f ds))" "D \<subseteq># mset ds" "x \<in># D" "b \<in> set (f x)"
  shows "count_list (f x) b = 1" "y \<in># D - {#x#} \<Longrightarrow> b \<notin> set (f y)"
proof -
  have sum: "mset (concat (map f ds)) = (\<Sum>x \<in># mset ds. mset (f x))"
    by (induction ds) (simp_all add: mset_concat)
  obtain R where R: "mset ds = add_mset x (D - {#x#}) + R"
    using assms(2,3) by (metis insert_DiffM subset_mset.le_iff_add)
  have "count (mset (concat (map f ds))) b \<le> 1" using assms(1) by (simp add: distinct_count_atmost_1)
  then have le: "count (mset (f x)) b + count (\<Sum>y \<in># D - {#x#}. mset (f y)) b \<le> 1"
    unfolding sum R by simp
  moreover have pos: "0 < count (mset (f x)) b" using assms(4) by simp
  ultimately show "count_list (f x) b = 1" by (simp add: count_mset)
  assume "y \<in># D - {#x#}"
  then obtain E where E: "D - {#x#} = add_mset y E" by (meson multi_member_split)
  have "count (mset (f x)) b + (count (mset (f y)) b + count (\<Sum>y \<in># E. mset (f y)) b) \<le> 1"
    using le unfolding E by (simp del: count_mset_0_iff)
  then have "count (mset (f y)) b = 0" using pos by linarith
  then show "b \<notin> set (f y)" by simp
qed

lemma spread_alone:
  assumes "spread sz h ds" "D \<subseteq># mset ds" "(s, k) \<in># D" "hits sz h k b \<noteq> 0"
  shows "alone sz h D b s k"
proof -
  have b: "of_nat b \<in> set (ibf_indices sz h k)" using assms(4) by (metis hits_def count_list_0_iff)
  have d: "distinct (concat (map (\<lambda>(s, k). ibf_indices sz h k) ds))" using assms(1) by (simp add: spread_def)
  have "hits sz h k b = 1" "\<forall>(s', k') \<in># D - {#(s, k)#}. hits sz h k' b = 0"
    using spread_total[OF d assms(2,3), of "of_nat b"] b by (auto simp: hits_def count_list_0_iff)
  moreover have "s = 1 \<or> s = - 1"
    using assms(1) mset_subset_eqD[OF assms(2,3)] by (auto simp: spread_def)
  ultimately show ?thesis using assms(3) by (simp add: alone_def)
qed

lemma spread_peelable:
  assumes "spread sz h ds"
  shows "peelable sz h (mset ds)"
  unfolding peelable_def
proof (intro allI impI)
  fix D assume D: "D \<subseteq># mset ds \<and> D \<noteq> {#}"
  then obtain s k where e: "(s, k) \<in># D" by (metis multiset_nonemptyE old.prod.exhaust)
  have "length (ibf_indices sz h k) = unat h" "unat h \<noteq> 0" using assms by (auto simp: spread_def ibf_indices_ok unat_eq_0)
  then obtain w where w: "w \<in> set (ibf_indices sz h k)" by (cases "ibf_indices sz h k") auto
  then have lt: "unat w < unat sz" using assms by (auto simp: spread_def dest: ibf_indices_ok(2)[rotated] word_less_nat_alt[THEN iffD1])
  have "hits sz h k (unat w) \<noteq> 0" using w by (simp add: hits_def count_list_0_iff)
  then show "\<exists>b s k. b < unat sz \<and> alone sz h D b s k" using spread_alone[OF assms _ e] D lt by blast
qed

lemma word_of_side: "s = 1 \<or> s = - 1 \<Longrightarrow> s' = 1 \<or> s' = - 1 \<Longrightarrow> (word_of_int s :: uint8) = word_of_int s' \<Longrightarrow> s = s'"
  by auto

lemma spread_unambiguous:
  assumes "spread sz h ds"
  shows "unambiguous sz h (mset ds)"
  unfolding unambiguous_def
proof (intro allI impI)
  fix D b s k assume A: "D \<subseteq># mset ds \<and> b < unat sz \<and> pure_at sz h D b s k"
  then have s: "s = 1 \<or> s = - 1" and c: "(word_of_int (count_at sz h D b) :: uint8) = word_of_int s"
    and p: "bit k n = parity_at sz h (\<lambda>k. k) D b n" for n
    by (simp_all add: pure_at_def)
  have "count_at sz h D b \<noteq> 0" using s c by auto
  then obtain s' k' where e: "(s', k') \<in># D" "hits sz h k' b \<noteq> 0" using no_hits(1)[of D sz h b] by fastforce
  then have al: "alone sz h D b s' k'" using spread_alone[OF assms] A by blast
  have "k = k'" by (rule bit_word_eqI) (simp add: p alone_cell(2)[OF al])
  moreover have "s = s'" using c s al alone_cell(1)[OF al] by (intro word_of_side) (auto simp: alone_def)
  ultimately show "(s, k) \<in># D" using e by simp
qed

text \<open>Decoding until there is nothing more to decode: what was decoded, the last result and what is left.\<close>

fun decode_run :: "nat \<Rightarrow> InvertibleBloomFilter \<Rightarrow> ((int \<times> IBF_Key) list \<times> int \<times> InvertibleBloomFilter) option" where
  "decode_run 0 ibf = None"
| "decode_run (Suc n) ibf = Option.bind (ibf_decode ibf) (\<lambda>(r, e, ibf'). case e of
     None \<Rightarrow> Some ([], r, ibf')
   | Some x \<Rightarrow> Option.bind (decode_run n ibf') (\<lambda>(xs, r', f). Some (x # xs, r', f)))"

lemma decode_run_exact:
  assumes "ibf_holds ibf D" "unambiguous (ibf_size ibf) (ibf_hash_num ibf) D" "peelable (ibf_size ibf) (ibf_hash_num ibf) D"
  shows "\<exists>out f. decode_run (Suc (size D)) ibf = Some (out, GNUNET_NO, f) \<and> mset out = D"
  using assms
proof (induction "size D" arbitrary: ibf D)
  case 0
  then show ?case using decode_none[of ibf] by simp
next
  case (Suc n)
  then have "D \<noteq> {#}" by auto
  with Suc.prems obtain s k ibf' where e: "(s, k) \<in># D" "ibf_decode ibf = Some (GNUNET_YES, Some (s, k), ibf')"
    "ibf_holds ibf' (D - {#(s, k)#})" "same_params ibf' ibf" by (blast intro: decode_peels)
  let ?D = "D - {#(s, k)#}"
  have n: "n = size ?D" using Suc.hyps(2) e(1) by (simp add: size_Diff_singleton)
  have "\<exists>out f. decode_run (Suc (size ?D)) ibf' = Some (out, GNUNET_NO, f) \<and> mset out = ?D"
    using Suc.prems(2,3) e(3,4) by (intro Suc.hyps(1) n) (auto intro: unambiguous_mono peelable_mono)
  then obtain out f where o: "decode_run (size D) ibf' = Some (out, GNUNET_NO, f)" "mset out = ?D"
    using Suc.hyps(2) n by metis
  then show ?case using e(1,2) by (intro exI[of _ "(s, k) # out"] exI[of _ f]) simp
qed

text \<open>Whatever was decoded, if decoding ends with an empty filter then the filter held just that.\<close>

lemma decode_run_rebuilds:
  assumes "ibf_holds ibf D" "decode_run n ibf = Some (out, GNUNET_NO, f)"
  shows "ibf_holds ibf (mset out)"
  using assms
proof (induction n arbitrary: ibf D out)
  case (Suc n)
  show ?case
  proof (rule ibf_decode_cases[OF Suc.prems(1)])
    assume st: "ibf_decode ibf = Some (if all_zero ibf then GNUNET_NO else GNUNET_SYSERR, None, ibf)"
    then have "all_zero ibf" "out = []" using Suc.prems(2) by (auto split: if_splits)
    then show ?thesis using Suc.prems(1) by (simp add: ibf_holds_def cells_hold_def all_zero_def)
  next
    fix j ibf'
    let ?s = "sint (ibf_count ibf ! j)" and ?k = "key_sum ibf ! j"
    assume st: "ibf_decode ibf = Some (GNUNET_YES, Some (?s, ?k), ibf')"
      and h: "ibf_holds ibf' (add_mset (- ?s, ?k) D)" and same: "same_params ibf' ibf"
    then obtain out' where out: "decode_run n ibf' = Some (out', GNUNET_NO, f)" "out = (?s, ?k) # out'"
      using Suc.prems(2) by (auto split: bind_splits)
    have "ibf_holds ibf (add_mset (?s, ?k) (add_mset (- ?s, ?k) D))" using Suc.prems(1) by (simp add: ibf_holds_cancel)
    then show ?thesis using ibf_holds_exchange[OF h Suc.IH[OF h out(1)]] same out(2) by simp
  qed
qed simp

fun insert_all :: "InvertibleBloomFilter \<Rightarrow> IBF_Key list \<Rightarrow> InvertibleBloomFilter option" where
  "insert_all ibf [] = Some ibf"
| "insert_all ibf (k # ks) = Option.bind (ibf_insert ibf k) (\<lambda>ibf'. insert_all ibf' ks)"

lemma insert_all_holds:
  assumes "ibf_holds ibf D"
  shows "\<exists>ibf'. insert_all ibf ks = Some ibf' \<and> ibf_holds ibf' (on_side 1 (mset ks) + D) \<and> same_params ibf' ibf"
  using assms
proof (induction ks arbitrary: ibf D)
  case (Cons k ks)
  then obtain ibf1 where 1: "ibf_insert ibf k = Some ibf1" "ibf_holds ibf1 (add_mset (1, k) D)" "same_params ibf1 ibf"
    using ibf_insert_holds by blast
  then show ?case using Cons.IH[OF 1(2)] by auto
qed simp

text \<open>A filter with the given keys, in memory that suffices.\<close>

definition ibf_of_keys :: "uint32 \<Rightarrow> uint8 \<Rightarrow> IBF_Key list \<Rightarrow> InvertibleBloomFilter option" where
  "ibf_of_keys sz h ks = Option.bind (ibf_create (\<lambda>_. True) sz h) (\<lambda>c. Option.bind c (\<lambda>ibf. insert_all ibf ks))"

definition params_ok :: "uint32 \<Rightarrow> uint8 \<Rightarrow> bool" where
  "params_ok sz h \<longleftrightarrow> sz \<noteq> 0 \<and> unat sz \<le> INT_MAX \<and> unat h \<le> unat sz"

lemma ibf_of_keys_holds:
  assumes "params_ok sz h"
  shows "\<exists>ibf. ibf_of_keys sz h ks = Some ibf \<and> ibf_holds ibf (on_side 1 (mset ks)) \<and> ibf_size ibf = sz \<and> ibf_hash_num ibf = h"
proof -
  obtain c where c: "ibf_create (\<lambda>_. True) sz h = Some (Some c)" using assms by (auto simp: ibf_create_def params_ok_def)
  then show ?thesis using ibf_create_holds[OF c] insert_all_holds[of c "{#}" ks] assms
    by (auto simp: ibf_of_keys_def params_ok_def)
qed

text \<open>The difference of two sets of keys: on the one side what only the first has, on the other what only the second has.\<close>

definition difference :: "IBF_Key multiset \<Rightarrow> IBF_Key multiset \<Rightarrow> (int \<times> IBF_Key) multiset" where
  "difference A B = on_side 1 (A - B) + on_side (- 1) (B - A)"

lemma subtract_difference:
  assumes "ibf_holds f (on_side 1 A)" "ibf_holds g (on_side 1 B)" "same_params f g"
  shows "\<exists>d. ibf_subtract f g = Some d \<and> ibf_holds d (difference A B) \<and> same_params d f"
  using ibf_subtract_holds[OF assms] ibf_holds_difference[of _ A B] by (auto simp: difference_def)

text \<open>A single key.\<close>

lemma hits_lt: "sz \<noteq> 0 \<Longrightarrow> unat h < 255 \<Longrightarrow> hits sz h k b < 255"
  using count_le_length[of "ibf_indices sz h k" "of_nat b"] ibf_indices_ok(1)[of sz h k] by (simp add: hits_def)

lemma word_small_count: "c < 255 \<Longrightarrow> ((of_nat c :: uint8) = 1 \<longleftrightarrow> c = 1) \<and> (of_nat c :: uint8) \<noteq> - 1 \<and> ((of_nat c :: uint8) = 0 \<longleftrightarrow> c = 0)"
proof -
  assume c: "c < 255"
  have u: "unat (of_nat c :: uint8) = c" using c by (simp add: unsigned_of_nat take_bit_nat_eq_self)
  have eq: "(of_nat c = x) = (c = unat x)" for x :: uint8 using u by auto
  have "unat (- 1 :: uint8) = 255" by (simp add: unsigned_minus_1_eq_mask mask_eq_exp_minus_1)
  then show ?thesis using c unfolding eq by simp
qed

lemma single_pure:
  assumes "sz \<noteq> 0" "unat h < 255" "pure_at sz h {#(1, k)#} b s k'"
  shows "hits sz h k b = 1" "s = 1" "k' = k"
proof -
  have c: "(of_nat (hits sz h k b) :: uint8) = word_of_int s" and s: "s = 1 \<or> s = - 1"
    and p: "bit k' n = (bit k n \<and> odd (hits sz h k b))" for n
    using assms(3) by (simp_all add: pure_at_def)
  note small = word_small_count[OF hits_lt[OF assms(1,2)], of k b]
  show hit: "hits sz h k b = 1" using c s small by auto
  show "s = 1" using c s small by auto
  show "k' = k" by (rule bit_word_eqI) (simp add: p hit)
qed

lemma subset_single: "D \<subseteq># {#x#} \<longleftrightarrow> D = {#} \<or> D = {#x#}"
  by (cases D) (auto simp: insert_subset_eq_iff)

lemma single_unambiguous:
  assumes "sz \<noteq> 0" "unat h < 255"
  shows "unambiguous sz h {#(1, k)#}"
  unfolding unambiguous_def
proof (intro allI impI)
  fix D b s k' assume A: "D \<subseteq># {#(1, k)#} \<and> b < unat sz \<and> pure_at sz h D b s k'"
  then have "D = {#} \<or> D = {#(1, k)#}" by (simp add: subset_single)
  moreover have "\<not> pure_at sz h {#} b s k'" by (auto simp: pure_at_def)
  ultimately show "(s, k') \<in># D" using A single_pure[OF assms] by auto
qed

lemma decode_single:
  assumes "ibf_holds d {#(1, k)#}" "ibf_size d = sz" "ibf_hash_num d = h" "sz \<noteq> 0" "h \<noteq> 0" "unat h < 255"
  shows "if \<exists>b. count_list (ibf_indices sz h k) b = 1
    then \<exists>e. ibf_decode d = Some (GNUNET_YES, Some (1, k), e) \<and> ibf_decode e = Some (GNUNET_NO, None, e)
    else ibf_decode d = Some (GNUNET_SYSERR, None, d)"
proof (cases "\<exists>b. count_list (ibf_indices sz h k) b = 1")
  case True
  then obtain w where w: "count_list (ibf_indices sz h k) w = 1" by blast
  then have "w \<in> set (ibf_indices sz h k)" by (metis count_list_0_iff zero_neq_one)
  then have "unat w < unat sz" using ibf_indices_ok(2)[OF assms(4)] by (simp add: word_less_nat_alt)
  moreover have "alone sz h {#(1, k)#} (unat w) 1 k" using w by (simp add: alone_def hits_def)
  ultimately have "peelable sz h {#(1, k)#}" by (auto simp: peelable_def subset_single)
  then have pe: "peelable (ibf_size d) (ibf_hash_num d) {#(1, k)#}" "unambiguous (ibf_size d) (ibf_hash_num d) {#(1, k)#}"
    using single_unambiguous[OF assms(4,6)] assms(2,3) by simp_all
  obtain s k' e where e: "(s, k') \<in># {#(1, k)#}" "ibf_decode d = Some (GNUNET_YES, Some (s, k'), e)"
    "ibf_holds e ({#(1, k)#} - {#(s, k')#})"
    by (rule decode_peels[OF assms(1) _ pe(2,1)]) simp_all
  then show ?thesis using True decode_none[of e] by simp
next
  case False
  have "pure_at sz h {#(1, k)#} j s k' \<Longrightarrow> False" for j s k'
    by (metis False hits_def single_pure(1)[OF assms(4,6)])
  then have no: "\<forall>j < unat (ibf_size d). \<not> looks_pure d j" using looks_pure_at[OF assms(1)] assms(2,3) by blast
  obtain w where w: "w \<in> set (ibf_indices sz h k)"
    using ibf_indices_ok(1)[OF assms(4), of h k] assms(5) by (cases "ibf_indices sz h k") (auto simp: unat_eq_0)
  then have lt: "unat w < unat (ibf_size d)" using ibf_indices_ok(2)[OF assms(4)] assms(2) by (simp add: word_less_nat_alt)
  have "hits sz h k (unat w) \<noteq> 0" using w by (simp add: hits_def count_list_0_iff)
  then have "ibf_count d ! unat w \<noteq> 0"
    using assms(1-3) lt word_small_count[OF hits_lt[OF assms(4,6)], of k "unat w"] by (auto simp: ibf_holds_def cells_hold_def)
  then have "\<not> all_zero d" using lt by (auto simp: all_zero_def)
  moreover have "ibf_decode d = Some (if all_zero d then GNUNET_NO else GNUNET_SYSERR, None, d)"
    by (rule ibf_decode_cases[OF assms(1)]) (use no in blast)+
  ultimately show ?thesis using False by simp
qed

section \<open>Slices\<close>

lemma length_concat_bytes [simp]: "length (concat (map (le_bytes n) xs)) = n * length xs"
  by (induction xs) simp_all

lemma load_words_bytes:
  assumes "LENGTH('a::len) = 8 * n"
  shows "load_words n (length xs) (concat (map (le_bytes n) xs) @ rest) = (xs :: 'a word list)"
  by (induction xs) (simp_all add: le_word_bytes[OF assms])

lemma take_overwrite:
  assumes "m + n \<le> length xs" "length ys = length xs" "take m ys = take m xs"
  shows "take (m + n) (overwrite m (slice m n xs) ys) = take (m + n) xs" "length (overwrite m (slice m n xs) ys) = length xs"
proof -
  have "take (m + n) xs = take m xs @ take n (drop m xs)" by (simp add: take_add)
  then show "take (m + n) (overwrite m (slice m n xs) ys) = take (m + n) xs" using assms by (simp add: overwrite_def slice_def)
  show "length (overwrite m (slice m n xs) ys) = length xs" using assms by (simp add: overwrite_def slice_def)
qed

text \<open>The first \<open>m\<close> cells of two filters agree.\<close>

definition agree_upto :: "nat \<Rightarrow> InvertibleBloomFilter \<Rightarrow> InvertibleBloomFilter \<Rightarrow> bool" where
  "agree_upto m f g \<longleftrightarrow> same_params g f \<and> ibf_wf f \<and> ibf_wf g \<and> take m (key_sum g) = take m (key_sum f) \<and>
     take m (key_hash_sum g) = take m (key_hash_sum f) \<and> take m (ibf_count g) = take m (ibf_count f)"

lemma agree_all: "agree_upto (unat (ibf_size f)) f g \<Longrightarrow> g = f"
  by (cases f, cases g) (auto simp: agree_upto_def ibf_wf_def)

lemma write_slice_ok:
  assumes "ibf_wf f" "unat start + unat cnt \<le> unat (ibf_size f)"
  shows "\<exists>buf. ibf_write_slice f start cnt = Some buf \<and> length buf = 13 * unat cnt"
proof -
  have "unat (start + cnt) = unat start + unat cnt"
    using assms(2) unsigned_less[where 'a = nat, of "ibf_size f"] by (intro unat_add_no_wrap) simp
  then show ?thesis using assms by (simp add: ibf_write_slice_def ibf_wf_def word_le_nat_alt slice_def)
qed

lemma read_slice_agrees:
  assumes "agree_upto (unat start) f g" "ibf_write_slice f start cnt = Some buf" "cnt \<noteq> 0"
    "unat start + unat cnt \<le> unat (ibf_size f)"
  shows "\<exists>g'. ibf_read_slice (buf @ rest) start cnt g = Some g' \<and> agree_upto (unat start + unat cnt) f g'"
proof -
  have wf: "ibf_wf f" "ibf_wf g" "same_params g f" using assms(1) by (simp_all add: agree_upto_def)
  have buf: "buf = concat (map (le_bytes 8) (slice (unat start) (unat cnt) (key_sum f))) @
      concat (map (le_bytes 4) (slice (unat start) (unat cnt) (key_hash_sum f))) @ slice (unat start) (unat cnt) (ibf_count f)"
    and le: "start + cnt \<le> ibf_size f"
    using assms(2) by (auto simp: ibf_write_slice_def split: if_splits)
  have len: "length (slice (unat start) (unat cnt) (key_sum f)) = unat cnt"
    "length (slice (unat start) (unat cnt) (key_hash_sum f)) = unat cnt"
    "length (slice (unat start) (unat cnt) (ibf_count f)) = unat cnt"
    using wf(1) assms(4) by (simp_all add: slice_def ibf_wf_def)
  have k: "load_words 8 (unat cnt) (buf @ rest) = slice (unat start) (unat cnt) (key_sum f)"
    using load_words_bytes[of 8 "slice (unat start) (unat cnt) (key_sum f)"] len by (simp add: buf)
  have h: "load_words 4 (unat cnt) (drop (8 * unat cnt) (buf @ rest)) = slice (unat start) (unat cnt) (key_hash_sum f)"
    using load_words_bytes[of 4 "slice (unat start) (unat cnt) (key_hash_sum f)"] len by (simp add: buf)
  have c: "take (unat cnt) (drop (12 * unat cnt) (buf @ rest)) = slice (unat start) (unat cnt) (ibf_count f)"
    using len by (simp add: buf)
  have lb: "length buf = 13 * unat cnt" using len by (simp add: buf)
  show ?thesis
    using assms le wf lb
    by (auto simp: ibf_read_slice_def Let_def k h c agree_upto_def ibf_wf_def word_gt_0 take_overwrite simp del: drop_append)
qed

section \<open>Properties\<close>

text \<open>C34: the bucket numbers of a key are always found, whatever the key and the parameters: as many as there are hash
  functions, each below the size of the filter.\<close>

theorem ibf_get_indices_terminates:
  assumes "ibf_size ibf \<noteq> 0"
  shows "\<exists>dst. ibf_get_indices ibf key = Some dst \<and> length dst = unat (ibf_hash_num ibf) \<and> (\<forall>b \<in> set dst. b < ibf_size ibf)"
  using ibf_get_indices_eq[OF assms] ibf_indices_ok[OF assms] by auto

definition sample_ibf :: "uint32 \<Rightarrow> uint8 \<Rightarrow> InvertibleBloomFilter" where
  "sample_ibf sz h = \<lparr>ibf_size = sz, ibf_hash_num = h, key_sum = replicate (unat sz) 0,
     key_hash_sum = replicate (unat sz) 0, ibf_count = replicate (unat sz) 0\<rparr>"

theorem ibf_get_indices_terminates_witness:
  "\<exists>dst. ibf_get_indices (sample_ibf 80 4) 1009 = Some dst \<and> length dst = 4"
  using ibf_get_indices_terminates[of "sample_ibf 80 4" 1009] by (auto simp: sample_ibf_def)

text \<open>C15: two sets reconcile through the difference of their filters, unless keys collide: keys that both have cancel out,
  and decoding gives back exactly the keys that only one of the two has, each with its side, and then reports an empty filter.\<close>

theorem ibf_reconciles:
  assumes "params_ok sz h" "unambiguous sz h (difference (mset xs) (mset ys))" "peelable sz h (difference (mset xs) (mset ys))"
  shows "\<exists>f g d out e. ibf_of_keys sz h xs = Some f \<and> ibf_of_keys sz h ys = Some g \<and> ibf_subtract f g = Some d \<and>
    decode_run (Suc (size (difference (mset xs) (mset ys)))) d = Some (out, GNUNET_NO, e) \<and> mset out = difference (mset xs) (mset ys)"
proof -
  obtain f g where f: "ibf_of_keys sz h xs = Some f" "ibf_holds f (on_side 1 (mset xs))" "ibf_size f = sz" "ibf_hash_num f = h"
    and g: "ibf_of_keys sz h ys = Some g" "ibf_holds g (on_side 1 (mset ys))" "ibf_size g = sz" "ibf_hash_num g = h"
    using ibf_of_keys_holds[OF assms(1)] by metis
  obtain d where d: "ibf_subtract f g = Some d" "ibf_holds d (difference (mset xs) (mset ys))" "ibf_size d = sz" "ibf_hash_num d = h"
    using subtract_difference[OF f(2) g(2)] f g by auto
  show ?thesis using f(1) g(1) d(1) decode_run_exact[OF d(2)] assms(2,3) d(3,4) by auto
qed

lemma sample_indices:
  "ibf_indices 80 4 1 = [55, 21, 25, 32]" "ibf_indices 80 4 2 = [52, 53, 43, 74]" "ibf_indices 80 4 5 = [61, 10, 14, 9]"
  by (rule ibf_indices_eval[of "Suc (Suc (Suc (Suc (Suc 0))))"], simp add: crc_eval, simp, simp)+

lemma sample_spread: "spread 80 4 [(1, 1), (1, 2), (- 1, 5)]"
  by (simp add: spread_def sample_indices)

theorem ibf_reconciles_witness:
  "\<exists>f g d out e. ibf_of_keys 80 4 [1, 2, 3] = Some f \<and> ibf_of_keys 80 4 [3, 5] = Some g \<and> ibf_subtract f g = Some d \<and>
    decode_run 4 d = Some (out, GNUNET_NO, e) \<and> mset out = {#(1, 1), (1, 2), (- 1, 5)#}"
proof -
  have eq: "difference (mset [1, 2, 3]) (mset [3, 5]) = {#(1, 1), (1, 2), (- 1, 5)#}" by (simp add: difference_def)
  have "params_ok 80 4" by (simp add: params_ok_def INT_MAX_def)
  moreover have "unambiguous 80 4 (difference (mset [1, 2, 3]) (mset [3, 5]))" "peelable 80 4 (difference (mset [1, 2, 3]) (mset [3, 5]))"
    using spread_unambiguous[OF sample_spread] spread_peelable[OF sample_spread] unfolding eq by simp_all
  moreover have "Suc (size (difference (mset [1, 2, 3]) (mset [3, 5]))) = 4" unfolding eq by simp
  ultimately show ?thesis using ibf_reconciles[of 80 4 "[1, 2, 3]" "[3, 5]"] unfolding eq by metis
qed

text \<open>C35: two sets that differ in one key reconcile if and only if that key has a bucket number that occurs only once
  among its bucket numbers. The numbers are not unique, and a key whose numbers come in pairs cannot be decoded, in spite of an otherwise
  empty difference.\<close>

theorem ibf_single_difference:
  assumes "params_ok sz h" "h \<noteq> 0" "unat h < 255"
  shows "\<exists>f g d. ibf_of_keys sz h (k # xs) = Some f \<and> ibf_of_keys sz h xs = Some g \<and> ibf_subtract f g = Some d \<and>
    (if \<exists>b. count_list (ibf_indices sz h k) b = 1
     then \<exists>e. ibf_decode d = Some (GNUNET_YES, Some (1, k), e) \<and> ibf_decode e = Some (GNUNET_NO, None, e)
     else ibf_decode d = Some (GNUNET_SYSERR, None, d))"
proof -
  have sz: "sz \<noteq> 0" using assms(1) by (simp add: params_ok_def)
  obtain f g where f: "ibf_of_keys sz h (k # xs) = Some f" "ibf_holds f (on_side 1 (mset (k # xs)))" "ibf_size f = sz" "ibf_hash_num f = h"
    and g: "ibf_of_keys sz h xs = Some g" "ibf_holds g (on_side 1 (mset xs))" "ibf_size g = sz" "ibf_hash_num g = h"
    using ibf_of_keys_holds[OF assms(1)] by metis
  have "difference (mset (k # xs)) (mset xs) = {#(1, k)#}" by (simp add: difference_def)
  then obtain d where d: "ibf_subtract f g = Some d" "ibf_holds d {#(1, k)#}" "ibf_size d = sz" "ibf_hash_num d = h"
    using subtract_difference[OF f(2) g(2)] f g by auto
  have "(if \<exists>b. count_list (ibf_indices sz h k) b = 1
     then \<exists>e. ibf_decode d = Some (GNUNET_YES, Some (1, k), e) \<and> ibf_decode e = Some (GNUNET_NO, None, e)
     else ibf_decode d = Some (GNUNET_SYSERR, None, d))"
    by (rule decode_single[OF d(2)]) (use d sz assms in simp_all)
  then show ?thesis using f(1) g(1) d(1) by blast
qed

lemma paired_indices: "ibf_indices 80 4 1009 = [0, 0, 45, 45]"
  by (rule ibf_indices_eval[of "Suc (Suc (Suc (Suc (Suc 0))))"], simp add: crc_eval, simp, simp)

theorem ibf_single_difference_witness:
  "\<exists>f g d. ibf_of_keys 80 4 [1009, 1] = Some f \<and> ibf_of_keys 80 4 [1] = Some g \<and> ibf_subtract f g = Some d \<and>
    ibf_decode d = Some (GNUNET_SYSERR, None, d)"
proof -
  have "params_ok 80 4" by (simp add: params_ok_def INT_MAX_def)
  moreover have "\<nexists>b. count_list (ibf_indices 80 4 1009) b = 1" by (auto simp: paired_indices)
  ultimately show ?thesis using ibf_single_difference[of 80 4 1009 "[1]"] by simp
qed

end
