(* ===== verification/StrataEstimator.thy ===== *)
theory StrataEstimator
  imports IBF
begin

text \<open>
  The strata estimator of the set union (\<^verbatim>\<open>src/src/set/gnunet-service-set_union_strata_estimator.c\<close>): an array of invertible Bloom
  filters, one for each number of trailing one bits of a key, from which the size of the difference of two sets is
  estimated. The compression of the serialised estimator is library code and a parameter. \<^verbatim>\<open>None\<close> is a failed assertion,
  an access outside the array of strata, or a shift of an \<^verbatim>\<open>int\<close> beyond its width.
\<close>

section \<open>Definitions\<close>

record StrataEstimator =
  strata :: "InvertibleBloomFilter list"
  strata_count :: uint32
  se_ibf_size :: uint32

definition IBF_BUCKET_SIZE :: nat where "IBF_BUCKET_SIZE = 13"

fun write_strata :: "uint32 \<Rightarrow> InvertibleBloomFilter list \<Rightarrow> uint8 list option" where
  "write_strata sz [] = Some []"
| "write_strata sz (f # fs) =
     Option.bind (ibf_write_slice f 0 sz) (\<lambda>buf. Option.bind (write_strata sz fs) (\<lambda>rest. Some (buf @ rest)))"

text \<open>\<open>compress\<close> gives the compressed bytes if they are fewer.\<close>

definition strata_estimator_write :: "(uint8 list \<Rightarrow> uint8 list option) \<Rightarrow> StrataEstimator \<Rightarrow> uint8 list option" where
  "strata_estimator_write compress se =
     Option.bind (write_strata (se_ibf_size se) (take (unat (strata_count se)) (strata se))) (\<lambda>buf.
       Some (case compress buf of Some cbuf \<Rightarrow> cbuf | None \<Rightarrow> buf))"

fun read_strata :: "uint8 list \<Rightarrow> uint32 \<Rightarrow> InvertibleBloomFilter list \<Rightarrow> InvertibleBloomFilter list option" where
  "read_strata buf sz [] = Some []"
| "read_strata buf sz (f # fs) = Option.bind (ibf_read_slice buf 0 sz f) (\<lambda>f'.
     Option.bind (read_strata (drop (unat sz * IBF_BUCKET_SIZE) buf) sz fs) (\<lambda>fs'. Some (f' # fs')))"

text \<open>The products are of unsigned 32-bit and of 64-bit factors; \<open>decompress\<close> yields exactly as many bytes as asked for.\<close>

definition strata_bytes :: "StrataEstimator \<Rightarrow> nat" where
  "strata_bytes se = unat (ucast (se_ibf_size se) * of_nat IBF_BUCKET_SIZE * ucast (strata_count se) :: uint64)"

definition strata_estimator_read ::
  "(uint8 list \<Rightarrow> nat \<Rightarrow> uint8 list option) \<Rightarrow> uint8 list \<Rightarrow> bool \<Rightarrow> StrataEstimator \<Rightarrow> (int \<times> StrataEstimator) option" where
  "strata_estimator_read decompress buf is_compressed se =
     (case (if is_compressed then decompress buf (strata_bytes se) else Some buf) of
        None \<Rightarrow> Some (GNUNET_SYSERR, se)
      | Some dbuf \<Rightarrow>
          if (if is_compressed then strata_bytes se else length buf) \<noteq>
             unat (ucast (strata_count se * se_ibf_size se) * of_nat IBF_BUCKET_SIZE :: uint64)
          then Some (GNUNET_SYSERR, se)
          else Option.bind (read_strata dbuf (se_ibf_size se) (take (unat (strata_count se)) (strata se))) (\<lambda>fs.
            Some (GNUNET_OK, se\<lparr>strata := fs @ drop (unat (strata_count se)) (strata se)\<rparr>)))"

text \<open>The loop that counts the trailing one bits; it ends because the value is shifted.\<close>

function trailing_ones :: "uint64 \<Rightarrow> nat \<Rightarrow> nat" where
  "trailing_ones v i = (if v AND 1 \<noteq> 0 then trailing_ones (drop_bit 1 v) (i + 1) else i)"
  by auto
termination
proof (relation "measure (\<lambda>(v, i). unat v)", simp)
  fix v :: uint64 and i :: nat assume "v AND 1 \<noteq> 0"
  then have "unat v \<noteq> 0" by (metis and_zero_eq unat_eq_0 zero_and_eq)
  moreover have "unat (drop_bit 1 v) = unat v div 2" using unsigned_less[where 'a = nat, of v]
    by (simp only: unsigned_drop_bit_eq) (simp add: drop_bit_eq_div take_bit_nat_eq_self)
  ultimately show "((drop_bit 1 v, i + 1), v, i) \<in> measure (\<lambda>(v, i). unat v)" by simp
qed

declare trailing_ones.simps [simp del]

definition strata_estimator_insert :: "StrataEstimator \<Rightarrow> IBF_Key \<Rightarrow> StrataEstimator option" where
  "strata_estimator_insert se key =
     (let i = trailing_ones key 0 in
      if length (strata se) \<le> i then None
      else Option.bind (ibf_insert (strata se ! i) key) (\<lambda>f. Some (se\<lparr>strata := (strata se)[i := f]\<rparr>)))"

definition strata_estimator_remove :: "StrataEstimator \<Rightarrow> IBF_Key \<Rightarrow> StrataEstimator option" where
  "strata_estimator_remove se key =
     (let i = trailing_ones key 0 in
      if length (strata se) \<le> i then None
      else Option.bind (ibf_remove (strata se ! i) key) (\<lambda>f. Some (se\<lparr>strata := (strata se)[i := f]\<rparr>)))"

text \<open>
  \<open>mem i\<close> tells which allocations of the stratum \<open>i\<close> succeed. When a stratum cannot be allocated the code means to free the
  strata before it, but frees the one that is \<^verbatim>\<open>NULL\<close>; for the first stratum there is nothing to free.
\<close>

fun create_strata :: "(nat \<Rightarrow> nat \<Rightarrow> bool) \<Rightarrow> uint32 \<Rightarrow> uint8 \<Rightarrow> nat \<Rightarrow> nat \<Rightarrow> InvertibleBloomFilter list option option" where
  "create_strata mem sz h i 0 = Some (Some [])"
| "create_strata mem sz h i (Suc n) = Option.bind (ibf_create (mem i) sz h) (\<lambda>c. case c of
     None \<Rightarrow> (if i = 0 then Some None else None)
   | Some f \<Rightarrow> Option.bind (create_strata mem sz h (i + 1) n) (\<lambda>r. Some (map_option ((#) f) r)))"

definition strata_estimator_create ::
  "(nat \<Rightarrow> nat \<Rightarrow> bool) \<Rightarrow> uint32 \<Rightarrow> uint32 \<Rightarrow> uint8 \<Rightarrow> StrataEstimator option option" where
  "strata_estimator_create mem cnt sz h =
     map_option (map_option (\<lambda>fs. \<lparr>strata = fs, strata_count = cnt, se_ibf_size = sz\<rparr>))
       (create_strata mem sz h 0 (unat cnt))"

text \<open>
  Decoding one stratum: the number of keys, or \<open>None\<close> inside if decoding fails or would not end. The loop is bounded by the
  test on the count, since the size of the filter does not change; \<open>n\<close> bounds the turns that are left.
\<close>

fun count_stratum :: "InvertibleBloomFilter \<Rightarrow> nat \<Rightarrow> nat \<Rightarrow> nat option option" where
  "count_stratum diff decoded 0 = None"
| "count_stratum diff decoded (Suc n) = Option.bind (ibf_decode diff) (\<lambda>(more, e, diff').
     if more = GNUNET_NO then Some (Some decoded)
     else if more = GNUNET_SYSERR \<or> unat (ibf_size diff') < decoded then Some None
     else count_stratum diff' (decoded + 1) n)"

text \<open>The strata from the one with the most trailing ones down; \<open>i\<close> strata are left.\<close>

fun difference_from ::
  "InvertibleBloomFilter list \<Rightarrow> InvertibleBloomFilter list \<Rightarrow> nat \<Rightarrow> uint32 \<Rightarrow> uint32 option" where
  "difference_from s1 s2 0 cnt = Some cnt"
| "difference_from s1 s2 (Suc i) cnt = Option.bind (ibf_subtract (ibf_dup (s1 ! i)) (s2 ! i)) (\<lambda>diff.
     Option.bind (count_stratum diff 0 (unat (ibf_size diff) + 2)) (\<lambda>r. case r of
       Some n \<Rightarrow> difference_from s1 s2 i (cnt + of_nat n)
     | None \<Rightarrow> if 30 < i + 1 then None else Some (cnt * 2 ^ (i + 1))))"

definition strata_estimator_difference :: "StrataEstimator \<Rightarrow> StrataEstimator \<Rightarrow> uint32 option" where
  "strata_estimator_difference se1 se2 =
     (if strata_count se1 \<noteq> strata_count se2 then None
      else difference_from (strata se1) (strata se2) (unat (strata_count se1)) 0)"

definition strata_estimator_dup :: "StrataEstimator \<Rightarrow> StrataEstimator" where
  "strata_estimator_dup se = \<lparr>strata = map ibf_dup (take (unat (strata_count se)) (strata se)),
     strata_count = strata_count se, se_ibf_size = se_ibf_size se\<rparr>"

section \<open>What an estimator holds\<close>

abbreviation in_stratum :: "nat \<Rightarrow> IBF_Key multiset \<Rightarrow> IBF_Key multiset" where
  "in_stratum i A \<equiv> filter_mset (\<lambda>k. trailing_ones k 0 = i) A"

definition se_holds :: "uint32 \<Rightarrow> uint32 \<Rightarrow> uint8 \<Rightarrow> StrataEstimator \<Rightarrow> IBF_Key multiset \<Rightarrow> bool" where
  "se_holds cnt sz h se A \<longleftrightarrow> strata_count se = cnt \<and> se_ibf_size se = sz \<and> length (strata se) = unat cnt \<and>
     (\<forall>k \<in># A. trailing_ones k 0 < unat cnt) \<and>
     (\<forall>i < unat cnt. ibf_holds (strata se ! i) (on_side 1 (in_stratum i A)) \<and>
       ibf_size (strata se ! i) = sz \<and> ibf_hash_num (strata se ! i) = h)"

lemma create_strata_ok:
  assumes "params_ok sz h" "\<forall>i n. mem i n"
  shows "\<exists>fs. create_strata mem sz h i n = Some (Some fs) \<and> length fs = n \<and>
    (\<forall>f \<in> set fs. ibf_holds f {#} \<and> ibf_size f = sz \<and> ibf_hash_num f = h)"
proof (induction n arbitrary: i)
  case (Suc n)
  obtain c where c: "ibf_create (mem i) sz h = Some (Some c)" using assms by (auto simp: ibf_create_def params_ok_def)
  show ?case using Suc.IH[of "i + 1"] c ibf_create_holds[OF c] assms(1) by (auto simp: params_ok_def)
qed simp

lemma strata_create_holds:
  assumes "params_ok sz h" "\<forall>i n. mem i n"
  shows "\<exists>se. strata_estimator_create mem cnt sz h = Some (Some se) \<and> se_holds cnt sz h se {#}"
  using create_strata_ok[OF assms, of 0 "unat cnt"] by (auto simp: strata_estimator_create_def se_holds_def)

lemma strata_insert_holds:
  assumes "se_holds cnt sz h se A" "trailing_ones k 0 < unat cnt"
  shows "\<exists>se'. strata_estimator_insert se k = Some se' \<and> se_holds cnt sz h se' (add_mset k A)"
proof -
  let ?i = "trailing_ones k 0"
  have i: "ibf_holds (strata se ! ?i) (on_side 1 (in_stratum ?i A))" "?i < length (strata se)"
    using assms by (simp_all add: se_holds_def)
  obtain f where f: "ibf_insert (strata se ! ?i) k = Some f" "ibf_holds f (add_mset (1, k) (on_side 1 (in_stratum ?i A)))"
    "same_params f (strata se ! ?i)" using ibf_insert_holds[OF i(1), of k] by blast
  then show ?thesis using assms i(2) by (auto simp: strata_estimator_insert_def Let_def se_holds_def nth_list_update)
qed

lemma strata_remove_holds:
  assumes "se_holds cnt sz h se (add_mset k A)"
  shows "\<exists>se'. strata_estimator_remove se k = Some se' \<and> se_holds cnt sz h se' A"
proof -
  let ?i = "trailing_ones k 0"
  have i: "ibf_holds (strata se ! ?i) (add_mset (1, k) (on_side 1 (in_stratum ?i A)))" "?i < length (strata se)"
    using assms by (auto simp: se_holds_def)
  obtain f where f: "ibf_remove (strata se ! ?i) k = Some f"
    "ibf_holds f (add_mset (- 1, k) (add_mset (1, k) (on_side 1 (in_stratum ?i A))))"
    "same_params f (strata se ! ?i)" using ibf_remove_holds[OF i(1), of k] by blast
  have "ibf_holds f (on_side 1 (in_stratum ?i A))" using f(2) ibf_holds_cancel[of f "- 1" k] by simp
  then show ?thesis using assms i(2) f(1,3) by (auto simp: strata_estimator_remove_def Let_def se_holds_def nth_list_update)
qed

lemma strata_dup_holds:
  assumes "se_holds cnt sz h se A"
  shows "strata_estimator_dup se = se"
proof -
  have "map ibf_dup (strata se) = strata se"
    using assms by (intro nth_equalityI) (simp_all add: se_holds_def ibf_holds_def ibf_dup_holds)
  then show ?thesis using assms by (simp add: strata_estimator_dup_def se_holds_def)
qed

section \<open>The estimate\<close>

lemma count_stratum_exact:
  assumes "ibf_holds d D" "unambiguous (ibf_size d) (ibf_hash_num d) D" "peelable (ibf_size d) (ibf_hash_num d) D"
    "c + size D \<le> unat (ibf_size d) + 1" "size D < n"
  shows "count_stratum d c n = Some (Some (c + size D))"
  using assms
proof (induction n arbitrary: d D c)
  case (Suc n)
  show ?case
  proof (cases "D = {#}")
    case True
    then show ?thesis using decode_none[of d] Suc.prems(1) by simp
  next
    case False
    obtain s k d' where e: "(s, k) \<in># D" "ibf_decode d = Some (GNUNET_YES, Some (s, k), d')"
      "ibf_holds d' (D - {#(s, k)#})" "same_params d' d"
      using decode_peels[OF Suc.prems(1) False Suc.prems(2,3)] by metis
    have sz: "size D = Suc (size (D - {#(s, k)#}))" using e(1) by (metis insert_DiffM size_add_mset)
    have "count_stratum d' (c + 1) n = Some (Some (c + 1 + size (D - {#(s, k)#})))"
      using Suc.prems(2-5) e(3,4) sz by (intro Suc.IH) (auto intro: unambiguous_mono peelable_mono)
    then show ?thesis using e(2,4) sz Suc.prems(4) by simp
  qed
qed simp

text \<open>The turns that are allowed are enough, whatever the filters hold.\<close>

lemma count_stratum_ends:
  assumes "ibf_holds d D" "c \<le> unat (ibf_size d) + 1" "unat (ibf_size d) + 2 \<le> c + n"
  shows "\<exists>r. count_stratum d c n = Some r"
  using assms
proof (induction n arbitrary: d D c)
  case (Suc n)
  show ?case
  proof (rule ibf_decode_cases[OF Suc.prems(1)])
    assume "ibf_decode d = Some (if all_zero d then GNUNET_NO else GNUNET_SYSERR, None, d)"
    then show ?thesis by auto
  next
    fix j d' assume d': "ibf_decode d = Some (GNUNET_YES, Some (sint (ibf_count d ! j), key_sum d ! j), d')"
      "ibf_holds d' (add_mset (- sint (ibf_count d ! j), key_sum d ! j) D)" "same_params d' d"
    show ?thesis
    proof (cases "unat (ibf_size d) < c")
      case False
      then have "\<exists>r. count_stratum d' (c + 1) n = Some r" using Suc.prems d' by (intro Suc.IH[OF d'(2)]) auto
      then show ?thesis using d' by simp
    qed (use d' in simp)
  qed
qed simp

lemma sum_strata:
  assumes "\<forall>x \<in># M. t x < (n :: nat)"
  shows "(\<Sum>i<n. size (filter_mset (\<lambda>x. t x = i) M)) = size M"
  using assms
proof (induction M)
  case (add x M)
  have "size (filter_mset (\<lambda>y. t y = i) (add_mset x M)) = size (filter_mset (\<lambda>y. t y = i) M) + (if i = t x then 1 else 0)" for i
    by auto
  moreover have "(\<Sum>i<n. if i = t x then 1 else 0 :: nat) = 1" using add.prems by (subst sum.delta) simp_all
  ultimately show ?case using add by (simp only: sum.distrib) simp
qed simp

lemma size_difference: "size (difference A B) = size (A - B) + size (B - A)"
  by (simp add: difference_def)

text \<open>The estimate is exact where all strata can be decoded; what is left of them is counted from the top.\<close>

definition decodable :: "uint32 \<Rightarrow> uint8 \<Rightarrow> (int \<times> IBF_Key) multiset \<Rightarrow> bool" where
  "decodable sz h D \<longleftrightarrow> unambiguous sz h D \<and> peelable sz h D \<and> size D \<le> unat sz"

lemma difference_from_exact:
  assumes "se_holds cnt sz h se1 A" "se_holds cnt sz h se2 B" "n \<le> unat cnt"
    and "\<forall>i < n. decodable sz h (difference (in_stratum i A) (in_stratum i B))"
  shows "difference_from (strata se1) (strata se2) n c =
    Some (c + of_nat (\<Sum>i<n. size (difference (in_stratum i A) (in_stratum i B))))"
  using assms(3,4)
proof (induction n arbitrary: c)
  case (Suc n)
  let ?D = "difference (in_stratum n A) (in_stratum n B)"
  have h: "ibf_holds (strata se1 ! n) (on_side 1 (in_stratum n A))" "ibf_holds (strata se2 ! n) (on_side 1 (in_stratum n B))"
    "same_params (strata se1 ! n) (strata se2 ! n)" "ibf_size (strata se1 ! n) = sz" "ibf_hash_num (strata se1 ! n) = h"
    using assms(1,2) Suc.prems(1) by (simp_all add: se_holds_def)
  obtain d where d: "ibf_subtract (strata se1 ! n) (strata se2 ! n) = Some d" "ibf_holds d ?D" "ibf_size d = sz" "ibf_hash_num d = h"
    using subtract_difference[OF h(1-3)] h(4,5) by auto
  have "count_stratum d 0 (unat (ibf_size d) + 2) = Some (Some (0 + size ?D))"
    using Suc.prems(2) d by (intro count_stratum_exact) (auto simp: decodable_def)
  moreover have "ibf_dup (strata se1 ! n) = strata se1 ! n" using h(1) by (simp add: ibf_dup_holds ibf_holds_def)
  ultimately show ?case using d(1) Suc by (simp add: add.assoc add.commute del: count_stratum.simps)
qed simp

lemma se_difference_exact:
  assumes "se_holds cnt sz h se1 A" "se_holds cnt sz h se2 B"
    and "\<forall>i < unat cnt. decodable sz h (difference (in_stratum i A) (in_stratum i B))"
  shows "strata_estimator_difference se1 se2 = Some (of_nat (size (difference A B)))"
proof -
  have lt: "\<forall>k \<in># A - B. trailing_ones k 0 < unat cnt" "\<forall>k \<in># B - A. trailing_ones k 0 < unat cnt"
    using assms(1,2) unfolding se_holds_def by (meson in_diffD)+
  have "(\<Sum>i<unat cnt. size (difference (in_stratum i A) (in_stratum i B))) =
      (\<Sum>i<unat cnt. size (in_stratum i (A - B))) + (\<Sum>i<unat cnt. size (in_stratum i (B - A)))"
    by (simp add: size_difference filter_diff_mset sum.distrib)
  also have "\<dots> = size (A - B) + size (B - A)"
    by (simp only: sum_strata[OF lt(1)] sum_strata[OF lt(2)])
  finally show ?thesis
    using difference_from_exact[OF assms(1,2) order_refl assms(3), of 0] assms(1,2)
    by (simp add: strata_estimator_difference_def se_holds_def size_difference)
qed

section \<open>Serialisation\<close>

lemma strata_transfer:
  assumes "\<forall>f \<in> set fs. ibf_wf f \<and> ibf_size f = sz \<and> ibf_hash_num f = h" "\<forall>g \<in> set gs. ibf_wf g \<and> ibf_size g = sz \<and> ibf_hash_num g = h"
    "length gs = length fs" "sz \<noteq> 0"
  shows "\<exists>buf. write_strata sz fs = Some buf \<and> length buf = length fs * (unat sz * IBF_BUCKET_SIZE) \<and>
    read_strata (buf @ rest) sz gs = Some fs"
  using assms(1-3)
proof (induction fs arbitrary: gs)
  case (Cons f fs)
  obtain g gs' where gs: "gs = g # gs'" using Cons.prems(3) by (cases gs) auto
  have "\<exists>buf. write_strata sz fs = Some buf \<and> length buf = length fs * (unat sz * IBF_BUCKET_SIZE) \<and>
      read_strata (buf @ rest) sz gs' = Some fs"
    by (rule Cons.IH) (use Cons.prems gs in auto)
  then obtain buf where buf: "write_strata sz fs = Some buf" "length buf = length fs * (unat sz * IBF_BUCKET_SIZE)"
    "read_strata (buf @ rest) sz gs' = Some fs" by blast
  have f: "ibf_wf f" "ibf_size f = sz" and g: "ibf_wf g" "same_params g f" using Cons.prems(1,2) gs by simp_all
  obtain b where b: "ibf_write_slice f 0 sz = Some b" "length b = 13 * unat sz" using write_slice_ok[of f 0 sz] f by auto
  have "agree_upto (unat 0) f g" using f g by (simp add: agree_upto_def)
  then obtain g' where g': "ibf_read_slice (b @ buf @ rest) 0 sz g = Some g'" "agree_upto (unat (ibf_size f)) f g'"
    using read_slice_agrees[of 0 f g sz b "buf @ rest"] b(1) assms(4) f(2) by auto
  then have "g' = f" using agree_all by blast
  then show ?case using gs buf b g'(1) by (simp add: IBF_BUCKET_SIZE_def)
qed simp

lemma product_words:
  assumes "unat cnt * unat sz * 13 < 2 ^ 32"
  shows "unat (ucast sz * of_nat IBF_BUCKET_SIZE * ucast cnt :: uint64) = unat cnt * (unat sz * IBF_BUCKET_SIZE)"
    "unat (ucast ((cnt :: uint32) * sz) * of_nat IBF_BUCKET_SIZE :: uint64) = unat cnt * (unat sz * IBF_BUCKET_SIZE)"
proof -
  have a: "unat cnt * unat sz < 2 ^ 32" using assms by simp
  have m: "unat (cnt * sz) = unat cnt * unat sz" using a by (simp add: unat_word_ariths(2))
  show "unat (ucast (cnt * sz) * of_nat IBF_BUCKET_SIZE :: uint64) = unat cnt * (unat sz * IBF_BUCKET_SIZE)"
    using assms m by (simp add: unat_word_ariths(2) IBF_BUCKET_SIZE_def)
  have lt: "unat cnt * (unat sz * IBF_BUCKET_SIZE) < 2 ^ 64" using assms by (simp add: IBF_BUCKET_SIZE_def mult.assoc)
  have eq: "ucast sz * of_nat IBF_BUCKET_SIZE * ucast cnt = (of_nat (unat cnt * (unat sz * IBF_BUCKET_SIZE)) :: uint64)"
    by (simp add: ac_simps)
  show "unat (ucast sz * of_nat IBF_BUCKET_SIZE * ucast cnt :: uint64) = unat cnt * (unat sz * IBF_BUCKET_SIZE)"
    unfolding eq unsigned_of_nat using take_bit_nat_eq_self[OF lt] by simp
qed

section \<open>Properties\<close>

fun strata_insert_all :: "StrataEstimator \<Rightarrow> IBF_Key list \<Rightarrow> StrataEstimator option" where
  "strata_insert_all se [] = Some se"
| "strata_insert_all se (k # ks) = Option.bind (strata_estimator_insert se k) (\<lambda>se'. strata_insert_all se' ks)"

text \<open>The estimator of a set of keys, in memory that suffices.\<close>

definition strata_of_keys :: "uint32 \<Rightarrow> uint32 \<Rightarrow> uint8 \<Rightarrow> IBF_Key list \<Rightarrow> StrataEstimator option" where
  "strata_of_keys cnt sz h ks =
     Option.bind (strata_estimator_create (\<lambda>_ _. True) cnt sz h) (\<lambda>c. Option.bind c (\<lambda>se. strata_insert_all se ks))"

lemma strata_insert_all_holds:
  assumes "se_holds cnt sz h se A" "\<forall>k \<in> set ks. trailing_ones k 0 < unat cnt"
  shows "\<exists>se'. strata_insert_all se ks = Some se' \<and> se_holds cnt sz h se' (mset ks + A)"
  using assms
proof (induction ks arbitrary: se A)
  case (Cons k ks)
  obtain se1 where 1: "strata_estimator_insert se k = Some se1" "se_holds cnt sz h se1 (add_mset k A)"
    using strata_insert_holds[OF Cons.prems(1), of k] Cons.prems(2) by auto
  then show ?case using Cons.IH[OF 1(2)] Cons.prems(2) by simp
qed simp

lemma strata_of_keys_holds:
  assumes "params_ok sz h" "\<forall>k \<in> set ks. trailing_ones k 0 < unat cnt"
  shows "\<exists>se. strata_of_keys cnt sz h ks = Some se \<and> se_holds cnt sz h se (mset ks)"
proof -
  obtain se where "strata_estimator_create (\<lambda>_ _. True) cnt sz h = Some (Some se)" "se_holds cnt sz h se {#}"
    using strata_create_holds[OF assms(1), of "\<lambda>_ _. True" cnt] by auto
  then show ?thesis using strata_insert_all_holds[OF _ assms(2), of sz h se "{#}"] by (auto simp: strata_of_keys_def)
qed


lemma spread_decodable: "spread sz h ds \<Longrightarrow> length ds \<le> unat sz \<Longrightarrow> decodable sz h (mset ds)"
  by (simp add: decodable_def spread_unambiguous spread_peelable)

lemma sample_trailing: "trailing_ones 1 0 = 1" "trailing_ones 2 0 = 0" "trailing_ones 5 0 = 1"
  by (simp_all add: trailing_ones.simps)


text \<open>What is written of an estimator, compressed or not, is read back as that estimator, provided decompression undoes
  compression.\<close>

lemma strata_estimator_roundtrip:
  assumes "se_holds cnt sz h se A" "se_holds cnt sz h se0 B" "sz \<noteq> 0" "unat cnt * unat sz * 13 < 2 ^ 32"
    and "\<forall>b c. compress b = Some c \<longrightarrow> length c < length b \<and> decompress c (length b) = Some b"
  shows "\<exists>buf. strata_estimator_write compress se = Some buf \<and>
    strata_estimator_read decompress buf (length buf < strata_bytes se) se0 = Some (GNUNET_OK, se)"
proof -
  have eq: "se = \<lparr>strata = strata se, strata_count = cnt, se_ibf_size = sz\<rparr>" "take (unat cnt) (strata se) = strata se"
    and eq0: "strata_count se0 = cnt" "se_ibf_size se0 = sz" "take (unat cnt) (strata se0) = strata se0" "drop (unat cnt) (strata se0) = []"
    and len: "length (strata se) = unat cnt" "length (strata se0) = unat cnt"
    using assms(1,2) by (simp_all add: se_holds_def)
  have wf: "\<forall>f \<in> set (strata se). ibf_wf f \<and> ibf_size f = sz \<and> ibf_hash_num f = h"
    "\<forall>f \<in> set (strata se0). ibf_wf f \<and> ibf_size f = sz \<and> ibf_hash_num f = h"
    using assms(1,2) by (auto simp: se_holds_def ibf_holds_def in_set_conv_nth)
  obtain b where b: "write_strata sz (strata se) = Some b" "length b = unat cnt * (unat sz * IBF_BUCKET_SIZE)"
    "read_strata b sz (strata se0) = Some (strata se)"
    using strata_transfer[OF wf, of "[]"] len assms(3) by auto
  have n: "strata_bytes se = length b" "strata_bytes se0 = length b"
    "unat (ucast (cnt * sz) * of_nat IBF_BUCKET_SIZE :: uint64) = length b"
    using product_words[OF assms(4)] b(2) eq0 by (simp_all add: strata_bytes_def eq(1)[THEN arg_cong, of strata_count] eq(1)[THEN arg_cong, of se_ibf_size])
  have w: "strata_estimator_write compress se = Some (case compress b of Some c \<Rightarrow> c | None \<Rightarrow> b)"
    using b(1) assms(1) eq(2) by (simp add: strata_estimator_write_def se_holds_def)
  have s: "se0\<lparr>strata := strata se\<rparr> = se" using eq(1) eq0(1,2) by (cases se, cases se0) simp
  show ?thesis
    using assms(5) w b(3) n eq0 s by (cases "compress b") (auto simp: strata_estimator_read_def)
qed

lemma trailing_ones_ge: "i \<le> trailing_ones v i"
  by (induction v i rule: trailing_ones.induct) (subst trailing_ones.simps, auto)

lemma trailing_ones_iff: "i + n \<le> trailing_ones v i \<longleftrightarrow> (\<forall>j < n. bit v j)"
proof (induction n arbitrary: v i)
  case 0
  then show ?case by (simp add: trailing_ones_ge)
next
  case (Suc n)
  have b0: "v AND 1 \<noteq> 0 \<longleftrightarrow> bit v 0" by (simp add: and_one_eq bit_0 odd_iff_mod_2_eq_one)
  have "(\<forall>j < Suc n. bit v j) \<longleftrightarrow> bit v 0 \<and> (\<forall>j < n. bit (drop_bit 1 v) j)"
    by (auto simp: bit_drop_bit_eq less_Suc_eq_0_disj)
  then show ?case using Suc.IH[of "i + 1" "drop_bit 1 v"] b0
    by (subst trailing_ones.simps) (cases "bit v 0", simp_all)
qed

text \<open>A key whose low 32 bits are all set has no stratum: with the 32 strata the service uses, inserting it accesses the array
  behind its end, and inserting any other key works.\<close>

lemma strata_insert_out_of_range:
  assumes "se_holds 32 sz h se A"
  shows "strata_estimator_insert se k = None \<longleftrightarrow> take_bit 32 k = mask 32"
proof -
  have m: "take_bit 32 k = mask 32 \<longleftrightarrow> (\<forall>j < 32. bit k j)"
  proof
    assume e: "take_bit 32 k = mask 32"
    have "bit (take_bit 32 k) j" if "j < 32" for j unfolding e using that by (simp add: bit_mask_iff)
    then show "\<forall>j < 32. bit k j" by (simp add: bit_take_bit_iff)
  next
    assume "\<forall>j < 32. bit k j"
    then show "take_bit 32 k = mask 32" by (intro bit_word_eqI) (auto simp: bit_take_bit_iff bit_mask_iff)
  qed
  have iff: "32 \<le> trailing_ones k 0 \<longleftrightarrow> (\<forall>j < 32. bit k j)" using trailing_ones_iff[of 0 32 k] by simp
  show ?thesis
  proof (cases "32 \<le> trailing_ones k 0")
    case True
    then have "strata_estimator_insert se k = None" using assms by (simp add: strata_estimator_insert_def se_holds_def Let_def)
    then show ?thesis using True m iff by blast
  next
    case False
    then have "strata_estimator_insert se k \<noteq> None" using strata_insert_holds[OF assms, of k] by auto
    then show ?thesis using False m iff by blast
  qed
qed

text \<open>Where decoding fails in one of the two topmost strata, the factor of the estimate is out of range.\<close>

lemma difference_from_overflow:
  assumes "se_holds cnt sz h se1 (add_mset k A)" "se_holds cnt sz h se2 A" "params_ok sz h" "h \<noteq> 0" "unat h < 255"
    "\<forall>b. count_list (ibf_indices sz h k) b \<noteq> 1" "30 \<le> trailing_ones k 0" "trailing_ones k 0 < n" "n \<le> unat cnt"
  shows "difference_from (strata se1) (strata se2) n c = None"
  using assms(8,9)
proof (induction n arbitrary: c)
  case (Suc n)
  let ?D = "difference (in_stratum n (add_mset k A)) (in_stratum n A)"
  have h: "ibf_holds (strata se1 ! n) (on_side 1 (in_stratum n (add_mset k A)))" "ibf_holds (strata se2 ! n) (on_side 1 (in_stratum n A))"
    "same_params (strata se1 ! n) (strata se2 ! n)" "ibf_size (strata se1 ! n) = sz" "ibf_hash_num (strata se1 ! n) = h"
    using assms(1,2) Suc.prems(2) by (simp_all add: se_holds_def)
  obtain d where d: "ibf_subtract (strata se1 ! n) (strata se2 ! n) = Some d" "ibf_holds d ?D" "ibf_size d = sz" "ibf_hash_num d = h"
    using subtract_difference[OF h(1-3)] h(4,5) by auto
  have dup: "ibf_dup (strata se1 ! n) = strata se1 ! n" using h(1) by (simp add: ibf_dup_holds ibf_holds_def)
  show ?case
  proof (cases "trailing_ones k 0 = n")
    case True
    then have "?D = {#(1, k)#}" by (simp add: difference_def)
    then have "ibf_decode d = Some (GNUNET_SYSERR, None, d)"
      using decode_single[of d k sz h] d assms(3-6) by (simp add: params_ok_def)
    then show ?thesis using d(1) dup True assms(7) by (simp add: numeral_2_eq_2)
  next
    case False
    then have "ibf_holds d {#}" using d(2) by (simp add: difference_def)
    then have "ibf_decode d = Some (GNUNET_NO, None, d)" by (rule decode_none)
    then have "difference_from (strata se1) (strata se2) (Suc n) c = difference_from (strata se1) (strata se2) n c"
      using d(1) dup by (simp add: numeral_2_eq_2)
    then show ?thesis using Suc False by simp
  qed
qed simp

text \<open>The estimate is undefined for two sets that differ in a single key, if that key has 30 or 31 trailing ones and its bucket
  numbers come in pairs: decoding fails in its stratum, and the code shifts an \<^verbatim>\<open>int\<close> by 31 or by 32.\<close>

lemma strata_difference_undefined:
  assumes "params_ok sz h" "h \<noteq> 0" "unat h < 255" "\<forall>b. count_list (ibf_indices sz h k) b \<noteq> 1"
    "30 \<le> trailing_ones k 0" "trailing_ones k 0 < 32" "\<forall>k \<in> set xs. trailing_ones k 0 < 32"
  shows "\<exists>s1 s2. strata_of_keys 32 sz h (k # xs) = Some s1 \<and> strata_of_keys 32 sz h xs = Some s2 \<and>
    strata_estimator_difference s1 s2 = None"
proof -
  obtain s1 s2 where s: "strata_of_keys 32 sz h (k # xs) = Some s1" "se_holds 32 sz h s1 (add_mset k (mset xs))"
    "strata_of_keys 32 sz h xs = Some s2" "se_holds 32 sz h s2 (mset xs)"
    using strata_of_keys_holds[OF assms(1), of "k # xs" 32] strata_of_keys_holds[OF assms(1), of xs 32] assms(6,7) by auto
  have "difference_from (strata s1) (strata s2) 32 0 = None"
    using s(2,4) assms by (intro difference_from_overflow[where k = k and A = "mset xs" and cnt = 32]) simp_all
  then show ?thesis using s by (auto simp: strata_estimator_difference_def se_holds_def)
qed

lemma overflow_indices: "ibf_indices 80 4 0xA4F7FFFFFFF = [0, 42, 0, 42]"
  by (rule ibf_indices_eval[of "Suc (Suc (Suc (Suc (Suc 0))))"], simp add: crc_eval, simp, simp)

end
