(* ===== verification/SetContent.thy ===== *)
theory SetContent
  imports MultiHashMap
begin

text \<open>
  The content of the sets of the set service (\<^verbatim>\<open>src/src/set/gnunet-service-set.c\<close>, \<^verbatim>\<open>gnunet-service-set.h\<close>): elements with
  their history of additions and removals, the generations that let operations, iterations and lazy copies see the state of a set at
  the time they began, the iteration over a set and the mutations that wait for it. The state is the family of the sets that
  share one content: the content, the sets under their addresses, the running operations, the pending requests for lazy copies
  and the messages sent to clients. An element entry is modified in place, so the hash map of the content maps hashes to addresses in a
  list of entries. The virtual table of a set is a parameter, as is the hash of an element, which is a SHA-512 hash of its size, type and data.
  \<^verbatim>\<open>None\<close> is a failed assertion. A client is identified with the address of its set; a client that violates the
  protocol is dropped, which destroys its set.
\<close>

section \<open>Definitions\<close>

record GNUNET_SET_Element =
  el_data :: "uint8 list"
  el_type :: uint16

record MutationEvent =
  mut_generation :: uint32
  mut_added :: bool

record ElementEntry =
  ee_element :: GNUNET_SET_Element
  ee_hash :: GNUNET_HashCode
  ee_mutations :: "MutationEvent list"
  ee_remote :: bool

record GenerationRange =
  range_start :: uint32
  range_end :: uint32

text \<open>A message that asks for a mutation: its type, the element type in network byte order, and the data.\<close>

datatype mutation_type = SET_ADD | SET_REMOVE | SET_OTHER

record ElementMessage =
  msg_type :: mutation_type
  msg_element_type :: uint16
  msg_data :: "uint8 list"

datatype client_message =
    ITER_DONE
  | ITER_ELEMENT (iter_type: uint16) (iter_id: uint16) (iter_data: "uint8 list")
  | COPY_LAZY_RESPONSE (copy_cookie: uint32)

record 's GSS_Set =
  set_state :: 's
  current_generation :: uint32
  excluded_generations :: "GenerationRange list"
  set_iter :: "nat MultiHashMapIterator option"
  iteration_id :: uint16
  iter_generation :: uint32

record GSS_Operation =
  op_set :: nat
  generation_created :: uint32

record SetContent =
  refcount :: uint32
  elements :: "nat MultiHashMap"
  element_heap :: "ElementEntry list"
  latest_generation :: uint32
  pending_mutations :: "(nat \<times> ElementMessage) list"
  iterator_count :: int

record 's family =
  content :: SetContent
  gss_sets :: "nat \<Rightarrow> 's GSS_Set option"
  gss_ops :: "GSS_Operation list"
  lazy_copies :: "(uint32 \<times> nat) list"
  lazy_copy_cookie :: uint32
  client_mq :: "(nat \<times> client_message) list"

record 's SetVT =
  vt_add :: "'s \<Rightarrow> ElementEntry \<Rightarrow> 's option"
  vt_remove :: "'s \<Rightarrow> ElementEntry \<Rightarrow> 's option"
  vt_copy_state :: "('s \<Rightarrow> 's) option"

fun is_excluded_generation :: "uint32 \<Rightarrow> GenerationRange list \<Rightarrow> bool" where
  "is_excluded_generation generation [] = False"
| "is_excluded_generation generation (r # rs) =
     (if range_start r \<le> generation \<and> generation < range_end r then True else is_excluded_generation generation rs)"

text \<open>The loop over the mutations of an element.\<close>

fun present_after :: "uint32 \<Rightarrow> GenerationRange list \<Rightarrow> MutationEvent list \<Rightarrow> bool \<Rightarrow> bool option" where
  "present_after query excluded [] is_present = Some is_present"
| "present_after query excluded (mut # muts) is_present =
     (if mut_generation mut > query then present_after query excluded muts is_present
      else if is_excluded_generation (mut_generation mut) excluded then present_after query excluded muts is_present
      else if is_present \<and> mut_added mut then None
      else if \<not> is_present \<and> \<not> mut_added mut then None
      else present_after query excluded muts (mut_added mut))"

definition is_element_of_generation :: "ElementEntry \<Rightarrow> uint32 \<Rightarrow> GenerationRange list \<Rightarrow> bool option" where
  "is_element_of_generation ee query excluded =
     (if ee_mutations ee = [] then None
      else if is_excluded_generation query excluded then Some False
      else present_after query excluded (ee_mutations ee) False)"

definition GSS_is_element_of_set :: "ElementEntry \<Rightarrow> 's GSS_Set \<Rightarrow> bool option" where
  "GSS_is_element_of_set ee st = is_element_of_generation ee (current_generation st) (excluded_generations st)"

definition is_element_of_iteration :: "ElementEntry \<Rightarrow> 's GSS_Set \<Rightarrow> bool option" where
  "is_element_of_iteration ee st = is_element_of_generation ee (iter_generation st) (excluded_generations st)"

definition GSS_is_element_of_operation :: "ElementEntry \<Rightarrow> GSS_Operation \<Rightarrow> 's GSS_Set \<Rightarrow> bool option" where
  "GSS_is_element_of_operation ee op st = is_element_of_generation ee (generation_created op) (excluded_generations st)"

text \<open>The element a message carries.\<close>

definition message_element :: "ElementMessage \<Rightarrow> GNUNET_SET_Element" where
  "message_element m = \<lparr>el_data = msg_data m, el_type = htons (msg_element_type m)\<rparr>"

text \<open>Appending to the mutations of the entry at an address, in the generation of the set.\<close>

definition append_mutation :: "nat \<Rightarrow> uint32 \<Rightarrow> bool \<Rightarrow> SetContent \<Rightarrow> SetContent" where
  "append_mutation a gen add c =
     (let ee = element_heap c ! a
      in c\<lparr>element_heap := (element_heap c)[a :=
        ee\<lparr>ee_mutations := ee_mutations ee @ [\<lparr>mut_generation = gen, mut_added = add\<rparr>]\<rparr>]\<rparr>)"

definition execute_add ::
  "(GNUNET_SET_Element \<Rightarrow> GNUNET_HashCode) \<Rightarrow> 's SetVT \<Rightarrow> nat \<Rightarrow> ElementMessage \<Rightarrow> 's family \<Rightarrow> 's family option" where
  "execute_add element_hash vt sid m w =
     (case gss_sets w sid of None \<Rightarrow> None | Some st \<Rightarrow>
      let el = message_element m; hash = element_hash el; c = content w;
          add = (\<lambda>a c. let c' = append_mutation a (current_generation st) True c in
            Option.bind (vt_add vt (set_state st) (element_heap c' ! a)) (\<lambda>s'.
              Some (w\<lparr>content := c', gss_sets := (gss_sets w)(sid \<mapsto> st\<lparr>set_state := s'\<rparr>)\<rparr>)))
      in case GNUNET_CONTAINER_multihashmap_get (elements c) hash of
           None \<Rightarrow>
             let a = length (element_heap c);
                 ee = \<lparr>ee_element = el, ee_hash = hash, ee_mutations = [], ee_remote = False\<rparr>
             in Option.bind (GNUNET_CONTAINER_multihashmap_put (elements c) hash a OPT_UNIQUE_ONLY) (\<lambda>(r, es).
                  add a (c\<lparr>elements := es, element_heap := element_heap c @ [ee]\<rparr>))
         | Some a \<Rightarrow> Option.bind (GSS_is_element_of_set (element_heap c ! a) st) (\<lambda>present.
             if present then Some w else add a c))"

definition execute_remove ::
  "(GNUNET_SET_Element \<Rightarrow> GNUNET_HashCode) \<Rightarrow> 's SetVT \<Rightarrow> nat \<Rightarrow> ElementMessage \<Rightarrow> 's family \<Rightarrow> 's family option" where
  "execute_remove element_hash vt sid m w =
     (case gss_sets w sid of None \<Rightarrow> None | Some st \<Rightarrow>
      let el = message_element m; hash = element_hash el; c = content w
      in case GNUNET_CONTAINER_multihashmap_get (elements c) hash of
           None \<Rightarrow> Some w
         | Some a \<Rightarrow> Option.bind (GSS_is_element_of_set (element_heap c ! a) st) (\<lambda>present.
             if \<not> present then Some w
             else let c' = append_mutation a (current_generation st) False c in
               Option.bind (vt_remove vt (set_state st) (element_heap c' ! a)) (\<lambda>s'.
                 Some (w\<lparr>content := c', gss_sets := (gss_sets w)(sid \<mapsto> st\<lparr>set_state := s'\<rparr>)\<rparr>))))"

definition execute_mutation ::
  "(GNUNET_SET_Element \<Rightarrow> GNUNET_HashCode) \<Rightarrow> 's SetVT \<Rightarrow> nat \<Rightarrow> ElementMessage \<Rightarrow> 's family \<Rightarrow> 's family option" where
  "execute_mutation element_hash vt sid m w =
     (case msg_type m of
        SET_ADD \<Rightarrow> execute_add element_hash vt sid m w
      | SET_REMOVE \<Rightarrow> execute_remove element_hash vt sid m w
      | SET_OTHER \<Rightarrow> Some w)"

definition handle_client_mutation ::
  "(GNUNET_SET_Element \<Rightarrow> GNUNET_HashCode) \<Rightarrow> 's SetVT \<Rightarrow> nat \<Rightarrow> ElementMessage \<Rightarrow> 's family \<Rightarrow> 's family option" where
  "handle_client_mutation element_hash vt sid m w =
     (case gss_sets w sid of
        None \<Rightarrow> Some w
      | Some st \<Rightarrow>
          if iterator_count (content w) \<noteq> 0
          then Some (w\<lparr>content := (content w)\<lparr>pending_mutations := pending_mutations (content w) @ [(sid, m)]\<rparr>\<rparr>)
          else execute_mutation element_hash vt sid m w)"

text \<open>The loop that executes the pending mutations, each taken off the list before it is executed.\<close>

fun execute_pending ::
  "(GNUNET_SET_Element \<Rightarrow> GNUNET_HashCode) \<Rightarrow> 's SetVT \<Rightarrow> (nat \<times> ElementMessage) list \<Rightarrow> 's family \<Rightarrow> 's family option" where
  "execute_pending element_hash vt [] w = Some w"
| "execute_pending element_hash vt ((sid, m) # pms) w =
     Option.bind (execute_mutation element_hash vt sid m (w\<lparr>content := (content w)\<lparr>pending_mutations := pms\<rparr>\<rparr>))
       (execute_pending element_hash vt pms)"

text \<open>The end of an operation; the collection of garbage that follows it leaves the elements as they are.\<close>

definition GSS_operation_destroy :: "GSS_Operation \<Rightarrow> 's family \<Rightarrow> 's family" where
  "GSS_operation_destroy op w = w\<lparr>gss_ops := remove1 op (gss_ops w)\<rparr>"

text \<open>Destroying a set: its operations go, its pending mutations and requests for copies are discarded, and the content loses a reference.\<close>

definition set_destroy :: "nat \<Rightarrow> 's family \<Rightarrow> 's family option" where
  "set_destroy sid w =
     (case gss_sets w sid of
        None \<Rightarrow> Some w
      | Some st \<Rightarrow>
          if refcount (content w) = 0 then None
          else Some (w\<lparr>gss_ops := filter (\<lambda>op. op_set op \<noteq> sid) (gss_ops w),
            content := (content w)\<lparr>pending_mutations := filter (\<lambda>pm. fst pm \<noteq> sid) (pending_mutations (content w)),
              refcount := refcount (content w) - 1\<rparr>,
            gss_sets := (gss_sets w)(sid := None),
            lazy_copies := filter (\<lambda>cr. snd cr \<noteq> sid) (lazy_copies w)\<rparr>))"

text \<open>
  The next element of the iteration that belongs to the set: the jump back to \<^verbatim>\<open>again\<close> skips the others. The iterator is returned
  with it; \<open>n\<close> bounds the number of turns, which the number of elements in the map limits.
\<close>

fun next_of_iteration ::
  "nat \<Rightarrow> SetContent \<Rightarrow> 's GSS_Set \<Rightarrow> nat MultiHashMapIterator \<Rightarrow> (nat option \<times> nat MultiHashMapIterator) option" where
  "next_of_iteration 0 c st it = None"
| "next_of_iteration (Suc n) c st it =
     Option.bind (GNUNET_CONTAINER_multihashmap_iterator_next (elements c) it) (\<lambda>(e, it'). case e of
       None \<Rightarrow> Some (None, it')
     | Some me \<Rightarrow> Option.bind (is_element_of_iteration (element_heap c ! me_value me) st) (\<lambda>member.
         if member then Some (Some (me_value me), it') else next_of_iteration n c st it'))"

definition gss_send_client_element ::
  "(GNUNET_SET_Element \<Rightarrow> GNUNET_HashCode) \<Rightarrow> 's SetVT \<Rightarrow> nat \<Rightarrow> 's family \<Rightarrow> 's family option" where
  "gss_send_client_element element_hash vt sid w =
     (case gss_sets w sid of None \<Rightarrow> None | Some st \<Rightarrow>
      case set_iter st of None \<Rightarrow> None | Some it \<Rightarrow>
      Option.bind (next_of_iteration (Suc (length (concat (mhm_map (elements (content w)))))) (content w) st it) (\<lambda>(e, it').
        case e of
          None \<Rightarrow>
            let w1 = w\<lparr>gss_sets := (gss_sets w)(sid \<mapsto> st\<lparr>set_iter := None, iteration_id := iteration_id st + 1\<rparr>)\<rparr>
            in if \<not> 0 < iterator_count (content w1) then None
               else let w2 = w1\<lparr>content := (content w1)\<lparr>iterator_count := iterator_count (content w1) - 1\<rparr>\<rparr>
               in Option.bind (if iterator_count (content w2) = 0
                    then execute_pending element_hash vt (pending_mutations (content w2)) w2 else Some w2) (\<lambda>w3.
                    Some (w3\<lparr>client_mq := client_mq w3 @ [(sid, ITER_DONE)]\<rparr>))
        | Some a \<Rightarrow>
            let ee = element_heap (content w) ! a
            in Some (w\<lparr>gss_sets := (gss_sets w)(sid \<mapsto> st\<lparr>set_iter := Some it'\<rparr>),
                 client_mq := client_mq w @ [(sid, ITER_ELEMENT (htons (el_type (ee_element ee)))
                   (htons (iteration_id st)) (el_data (ee_element ee)))]\<rparr>)))"

definition handle_client_iterate ::
  "(GNUNET_SET_Element \<Rightarrow> GNUNET_HashCode) \<Rightarrow> 's SetVT \<Rightarrow> nat \<Rightarrow> 's family \<Rightarrow> 's family option" where
  "handle_client_iterate element_hash vt sid w =
     (case gss_sets w sid of
        None \<Rightarrow> Some w
      | Some st \<Rightarrow>
          if set_iter st \<noteq> None then set_destroy sid w
          else gss_send_client_element element_hash vt sid
            (w\<lparr>content := (content w)\<lparr>iterator_count := iterator_count (content w) + 1\<rparr>,
               gss_sets := (gss_sets w)(sid \<mapsto> st\<lparr>
                 set_iter := Some (GNUNET_CONTAINER_multihashmap_iterator_create (elements (content w))),
                 iter_generation := current_generation st\<rparr>)\<rparr>))"

text \<open>The acknowledgement of an element; a zero in \<open>send_more\<close> ends the iteration.\<close>

definition handle_client_iter_ack ::
  "(GNUNET_SET_Element \<Rightarrow> GNUNET_HashCode) \<Rightarrow> 's SetVT \<Rightarrow> nat \<Rightarrow> uint32 \<Rightarrow> 's family \<Rightarrow> 's family option" where
  "handle_client_iter_ack element_hash vt sid send_more w =
     (case gss_sets w sid of
        None \<Rightarrow> Some w
      | Some st \<Rightarrow>
          if set_iter st = None then set_destroy sid w
          else if htonl send_more \<noteq> 0 then gss_send_client_element element_hash vt sid w
          else Some (w\<lparr>gss_sets := (gss_sets w)(sid \<mapsto> st\<lparr>set_iter := None, iteration_id := iteration_id st + 1\<rparr>)\<rparr>))"

definition advance_generation :: "nat \<Rightarrow> 's family \<Rightarrow> 's family option" where
  "advance_generation sid w =
     (case gss_sets w sid of None \<Rightarrow> None | Some st \<Rightarrow>
      if current_generation st = latest_generation (content w)
      then Some (w\<lparr>content := (content w)\<lparr>latest_generation := latest_generation (content w) + 1\<rparr>,
        gss_sets := (gss_sets w)(sid \<mapsto> st\<lparr>current_generation := current_generation st + 1\<rparr>)\<rparr>)
      else if \<not> current_generation st < latest_generation (content w) then None
      else let r = \<lparr>range_start = current_generation st + 1, range_end = latest_generation (content w) + 1\<rparr>
        in Some (w\<lparr>content := (content w)\<lparr>latest_generation := range_end r\<rparr>,
          gss_sets := (gss_sets w)(sid \<mapsto> st\<lparr>current_generation := range_end r,
            excluded_generations := excluded_generations st @ [r]\<rparr>)\<rparr>))"

text \<open>The part of starting or accepting an operation that concerns the content: the operation keeps the generation of the set, and the set
  leaves it.\<close>

definition start_operation :: "nat \<Rightarrow> 's family \<Rightarrow> 's family option" where
  "start_operation sid w =
     (case gss_sets w sid of
        None \<Rightarrow> Some w
      | Some st \<Rightarrow> map_option (\<lambda>w'. w'\<lparr>gss_ops := \<lparr>op_set = sid, generation_created = current_generation st\<rparr> # gss_ops w'\<rparr>)
          (advance_generation sid w))"

definition handle_client_copy_lazy_prepare :: "nat \<Rightarrow> 's family \<Rightarrow> 's family" where
  "handle_client_copy_lazy_prepare sid w =
     (case gss_sets w sid of
        None \<Rightarrow> w
      | Some st \<Rightarrow> w\<lparr>lazy_copies := (lazy_copy_cookie w, sid) # lazy_copies w, lazy_copy_cookie := lazy_copy_cookie w + 1,
          client_mq := client_mq w @ [(sid, COPY_LAZY_RESPONSE (lazy_copy_cookie w))]\<rparr>)"

text \<open>\<open>new\<close> is the address of the set that is allocated for the client.\<close>

definition handle_client_copy_lazy_connect :: "'s SetVT \<Rightarrow> nat \<Rightarrow> uint32 \<Rightarrow> 's family \<Rightarrow> 's family option" where
  "handle_client_copy_lazy_connect vt new cookie w =
     (if gss_sets w new \<noteq> None then set_destroy new w
      else case List.find (\<lambda>cr. fst cr = cookie) (lazy_copies w) of
        None \<Rightarrow> Some w
      | Some cr \<Rightarrow>
          let w1 = w\<lparr>lazy_copies := remove1 cr (lazy_copies w)\<rparr>
          in case gss_sets w (snd cr) of
            None \<Rightarrow> None
          | Some src \<Rightarrow>
              (case vt_copy_state vt of
                 None \<Rightarrow> Some w1
               | Some copy_state \<Rightarrow>
                   advance_generation new (w1\<lparr>content := (content w1)\<lparr>refcount := refcount (content w1) + 1\<rparr>,
                     gss_sets := (gss_sets w1)(new \<mapsto> \<lparr>set_state = copy_state (set_state src),
                       current_generation = current_generation src, excluded_generations = excluded_generations src,
                       set_iter = None, iteration_id = 0, iter_generation = 0\<rparr>)\<rparr>)))"

text \<open>A new set with a content of its own.\<close>

definition handle_client_create_set :: "nat \<Rightarrow> 's \<Rightarrow> 's family option" where
  "handle_client_create_set sid s =
     (case GNUNET_CONTAINER_multihashmap_create 1 True of
        None \<Rightarrow> None
      | Some es \<Rightarrow> Some \<lparr>content = \<lparr>refcount = 1, elements = es, element_heap = [], latest_generation = 0,
            pending_mutations = [], iterator_count = 0\<rparr>,
          gss_sets = [sid \<mapsto> \<lparr>set_state = s, current_generation = 0, excluded_generations = [],
            set_iter = None, iteration_id = 0, iter_generation = 0\<rparr>],
          gss_ops = [], lazy_copies = [], lazy_copy_cookie = 1, client_mq = []\<rparr>)"

section \<open>Histories and views\<close>

text \<open>
  A view is a generation with the ranges it excludes; it sees the mutations of the generations up to its own that are not
  excluded. The loop over the mutations checks that the ones that are seen alternate.
\<close>

definition sees :: "uint32 \<Rightarrow> GenerationRange list \<Rightarrow> uint32 \<Rightarrow> bool" where
  "sees query excluded g \<longleftrightarrow> g \<le> query \<and> \<not> is_excluded_generation g excluded"

fun alternate :: "bool \<Rightarrow> bool list \<Rightarrow> bool option" where
  "alternate p [] = Some p"
| "alternate p (a # as) = (if p = a then None else alternate a as)"

lemma alternate_append: "alternate p (xs @ ys) = Option.bind (alternate p xs) (\<lambda>q. alternate q ys)"
  by (induction xs arbitrary: p) auto

definition seen :: "uint32 \<Rightarrow> GenerationRange list \<Rightarrow> MutationEvent list \<Rightarrow> bool list" where
  "seen query excluded muts = map mut_added (filter (\<lambda>m. sees query excluded (mut_generation m)) muts)"

lemma present_after_seen: "present_after query excluded muts p = alternate p (seen query excluded muts)"
  by (induction muts arbitrary: p) (auto simp: seen_def sees_def not_le)

lemma seen_append [simp]: "seen q ex (ms @ ns) = seen q ex ms @ seen q ex ns"
  by (simp add: seen_def)

lemma seen_single: "seen q ex [\<lparr>mut_generation = g, mut_added = a\<rparr>] = (if sees q ex g then [a] else [])"
  by (simp add: seen_def)

lemma is_element_eq:
  "is_element_of_generation ee q ex = (if ee_mutations ee = [] then None
     else if is_excluded_generation q ex then Some False else alternate False (seen q ex (ee_mutations ee)))"
  by (simp add: is_element_of_generation_def present_after_seen)

lemma is_excluded_append [simp]:
  "is_excluded_generation g (xs @ ys) = (is_excluded_generation g xs \<or> is_excluded_generation g ys)"
  by (induction xs) auto

section \<open>The elements of a content\<close>

text \<open>The hash map holds, under its hash, the address of every entry that was ever added, and every entry has a history.\<close>

definition content_maps :: "SetContent \<Rightarrow> (GNUNET_HashCode \<Rightarrow> nat option) \<Rightarrow> bool" where
  "content_maps c f \<longleftrightarrow> mhm_wf (elements c) \<and> finite (dom f) \<and> mhm_entries (elements c) = map_entries f \<and>
     (\<forall>h a. f h = Some a \<longrightarrow> a < length (element_heap c) \<and> ee_hash (element_heap c ! a) = h \<and>
       ee_mutations (element_heap c ! a) \<noteq> [])"

lemma content_get: "content_maps c f \<Longrightarrow> GNUNET_CONTAINER_multihashmap_get (elements c) h = f h"
  by (simp add: content_maps_def mhmu.get_map)

lemma content_maps_inj: "content_maps c f \<Longrightarrow> f h = Some a \<Longrightarrow> f h' = Some a \<Longrightarrow> h = h'"
  unfolding content_maps_def by metis

text \<open>Whether an element is in a view; elements that were never added are in none.\<close>

definition in_view :: "SetContent \<Rightarrow> uint32 \<Rightarrow> GenerationRange list \<Rightarrow> GNUNET_HashCode \<Rightarrow> bool option" where
  "in_view c q ex h = (case GNUNET_CONTAINER_multihashmap_get (elements c) h of
     None \<Rightarrow> Some False | Some a \<Rightarrow> is_element_of_generation (element_heap c ! a) q ex)"

lemma in_view_cong:
  "elements c' = elements c \<Longrightarrow> element_heap c' = element_heap c \<Longrightarrow> in_view c' = in_view c"
  by (simp add: in_view_def fun_eq_iff split: option.split)

lemma content_maps_cong:
  "elements c' = elements c \<Longrightarrow> element_heap c' = element_heap c \<Longrightarrow> content_maps c' f = content_maps c f"
  by (simp add: content_maps_def)

lemma append_mutation_simps [simp]:
  "elements (append_mutation a g b c) = elements c" "latest_generation (append_mutation a g b c) = latest_generation c"
  "iterator_count (append_mutation a g b c) = iterator_count c" "pending_mutations (append_mutation a g b c) = pending_mutations c"
  "refcount (append_mutation a g b c) = refcount c"
  by (simp_all add: append_mutation_def Let_def)

lemma length_append_mutation [simp]: "length (element_heap (append_mutation a g b c)) = length (element_heap c)"
  by (simp add: append_mutation_def Let_def)

lemma append_mutation_nth:
  "i < length (element_heap c) \<Longrightarrow> element_heap (append_mutation a g b c) ! i =
     (if i = a then (element_heap c ! a)\<lparr>ee_mutations := ee_mutations (element_heap c ! a) @ [\<lparr>mut_generation = g, mut_added = b\<rparr>]\<rparr>
      else element_heap c ! i)"
  by (simp add: append_mutation_def Let_def nth_list_update)

lemma append_mutation_maps:
  assumes "content_maps c f"
  shows "content_maps (append_mutation a g b c) f"
  using assms unfolding content_maps_def by (auto simp: append_mutation_nth)

text \<open>A mutation changes what is in a view exactly if its generation is seen.\<close>

lemma append_mutation_view:
  assumes "content_maps c f" "f h = Some a" "\<not> is_excluded_generation q ex"
  shows "in_view (append_mutation a g b c) q ex h' =
    (if h' = h \<and> sees q ex g then Option.bind (in_view c q ex h) (\<lambda>p. if p = b then None else Some b) else in_view c q ex h')"
proof -
  have a: "a < length (element_heap c)" "ee_mutations (element_heap c ! a) \<noteq> []" using assms(1,2) by (auto simp: content_maps_def)
  have get: "GNUNET_CONTAINER_multihashmap_get (elements c) x = f x" for x using assms(1) by (rule content_get)
  show ?thesis
  proof (cases "f h' = Some a")
    case True
    then have "h' = h" using assms(1,2) content_maps_inj by blast
    then show ?thesis using a assms(2,3)
      by (cases "alternate False (seen q ex (ee_mutations (element_heap c ! a)))")
        (auto simp: in_view_def get append_mutation_def Let_def is_element_eq seen_single alternate_append)
  next
    case False
    then have "h' \<noteq> h" using assms(2) by auto
    then show ?thesis using False by (auto simp: in_view_def get append_mutation_def Let_def nth_list_update split: option.splits)
  qed
qed

lemma append_mutation_excluded:
  assumes "content_maps c f" "f h = Some a" "is_excluded_generation q ex"
  shows "in_view (append_mutation a g b c) q ex h' = in_view c q ex h'"
  using assms content_get[OF assms(1)]
  by (auto simp: in_view_def append_mutation_def Let_def is_element_eq nth_list_update content_maps_def split: option.splits)

text \<open>What is in the views after a mutation of the element with hash \<open>h\<close> in generation \<open>g\<close>.\<close>

definition after_mutation ::
  "SetContent \<Rightarrow> GNUNET_HashCode \<Rightarrow> bool \<Rightarrow> uint32 \<Rightarrow> uint32 \<Rightarrow> GenerationRange list \<Rightarrow> GNUNET_HashCode \<Rightarrow> bool option" where
  "after_mutation c h b g q ex h' =
     (if h' = h \<and> \<not> is_excluded_generation q ex \<and> sees q ex g
      then Option.bind (in_view c q ex h) (\<lambda>p. if p = b then None else Some b) else in_view c q ex h')"

definition mutation_frame :: "SetContent \<Rightarrow> SetContent \<Rightarrow> bool" where
  "mutation_frame c c' \<longleftrightarrow> latest_generation c' = latest_generation c \<and> iterator_count c' = iterator_count c \<and>
     pending_mutations c' = pending_mutations c \<and> refcount c' = refcount c"

lemma append_mutation_after:
  assumes "content_maps c f" "f h = Some a"
  shows "in_view (append_mutation a g b c) = after_mutation c h b g"
proof (intro ext)
  fix q ex h'
  show "in_view (append_mutation a g b c) q ex h' = after_mutation c h b g q ex h'"
    using append_mutation_view[OF assms, of q ex g b h'] append_mutation_excluded[OF assms, of q ex g b h']
    by (cases "is_excluded_generation q ex") (auto simp: after_mutation_def)
qed

lemma new_entry_after:
  assumes "content_maps c f" "f h = None"
    and put: "GNUNET_CONTAINER_multihashmap_put (elements c) h (length (element_heap c)) opt = Some (r, es)"
    and ee: "ee_hash ee = h" "ee_mutations ee = []"
    and c': "c' = append_mutation (length (element_heap c)) g True (c\<lparr>elements := es, element_heap := element_heap c @ [ee]\<rparr>)"
  shows "content_maps c' (f(h \<mapsto> length (element_heap c)))" "in_view c' = after_mutation c h True g"
proof -
  have c: "mhm_wf (elements c)" "finite (dom f)" "mhm_entries (elements c) = map_entries f"
    and old: "\<And>x a. f x = Some a \<Longrightarrow> a < length (element_heap c) \<and> ee_hash (element_heap c ! a) = x \<and> ee_mutations (element_heap c ! a) \<noteq> []"
    using assms(1) by (simp_all add: content_maps_def)
  have es: "mhm_wf es" "mhm_entries es = map_entries (f(h \<mapsto> length (element_heap c)))"
    using chainmap_put_stores[OF c(1) _ put[unfolded GNUNET_CONTAINER_multihashmap_put_def]] c(2,3) assms(2)
    by (simp_all add: map_entries_mem map_entries_insert)
  have nth: "element_heap c' ! i = (if i = length (element_heap c) then ee\<lparr>ee_mutations := [\<lparr>mut_generation = g, mut_added = True\<rparr>]\<rparr>
      else element_heap c ! i)" if "i \<le> length (element_heap c)" for i
    using that ee by (auto simp: c' append_mutation_nth nth_append)
  have len: "length (element_heap c') = Suc (length (element_heap c))" "elements c' = es" by (simp_all add: c')
  show maps: "content_maps c' (f(h \<mapsto> length (element_heap c)))"
    unfolding content_maps_def using es c(2) old ee by (auto simp: len nth less_imp_le less_SucI)
  have "in_view c' q ex h' = after_mutation c h True g q ex h'" for q ex h'
  proof (cases "h' = h")
    case True
    then show ?thesis using assms(2) content_get[OF assms(1)] content_get[OF maps]
      by (simp add: in_view_def after_mutation_def nth is_element_eq seen_single)
  next
    case False
    then show ?thesis using content_get[OF assms(1), of h'] content_get[OF maps, of h'] old[of h']
      by (auto simp: in_view_def after_mutation_def nth less_imp_le split: option.splits)
  qed
  then show "in_view c' = after_mutation c h True g" by (intro ext)
qed

text \<open>The outcome of an addition or a removal: nothing if the set has the element already, or not, and else a mutation in its generation.\<close>

definition mutates :: "nat \<Rightarrow> 's GSS_Set \<Rightarrow> GNUNET_HashCode \<Rightarrow> bool \<Rightarrow> 's family \<Rightarrow> 's family \<Rightarrow> bool" where
  "mutates sid st h b w w' \<longleftrightarrow>
     (in_view (content w) (current_generation st) (excluded_generations st) h = Some b \<and> w' = w) \<or>
     (in_view (content w) (current_generation st) (excluded_generations st) h = Some (\<not> b) \<and>
       (\<exists>c' f' s'. w' = w\<lparr>content := c', gss_sets := (gss_sets w)(sid \<mapsto> st\<lparr>set_state := s'\<rparr>)\<rparr> \<and> content_maps c' f' \<and>
         mutation_frame (content w) c' \<and> in_view c' = after_mutation (content w) h b (current_generation st)))"

lemma mutatesI:
  assumes "in_view (content w) (current_generation st) (excluded_generations st) h = Some (\<not> b)"
    and "w' = w\<lparr>content := c', gss_sets := (gss_sets w)(sid \<mapsto> st\<lparr>set_state := s'\<rparr>)\<rparr>"
    and "content_maps c' f'" "mutation_frame (content w) c'" "in_view c' = after_mutation (content w) h b (current_generation st)"
  shows "mutates sid st h b w w'"
  unfolding mutates_def using assms by blast

lemma append_mutation_frame [simp]: "mutation_frame c (append_mutation a g b c)"
  by (simp add: mutation_frame_def)

lemma execute_add_mutates:
  assumes "gss_sets w sid = Some st" "content_maps (content w) f"
    and "execute_add eh vt sid m w = Some w'"
  shows "mutates sid st (eh (message_element m)) True w w'"
proof (cases "f (eh (message_element m))")
  case None
  let ?h = "eh (message_element m)" and ?c = "content w"
  let ?ee = "\<lparr>ee_element = message_element m, ee_hash = ?h, ee_mutations = [], ee_remote = False\<rparr>"
  obtain r es s' where put: "GNUNET_CONTAINER_multihashmap_put (elements ?c) ?h (length (element_heap ?c)) OPT_UNIQUE_ONLY = Some (r, es)"
    and w': "w' = w\<lparr>content := append_mutation (length (element_heap ?c)) (current_generation st) True
        (?c\<lparr>elements := es, element_heap := element_heap ?c @ [?ee]\<rparr>),
      gss_sets := (gss_sets w)(sid \<mapsto> st\<lparr>set_state := s'\<rparr>)\<rparr>"
    using assms(1,3) None content_get[OF assms(2), of ?h] by (auto simp: execute_add_def Let_def split: bind_splits)
  have "in_view ?c (current_generation st) (excluded_generations st) ?h = Some False"
    using None content_get[OF assms(2), of ?h] by (simp add: in_view_def)
  then show ?thesis using new_entry_after[OF assms(2) None put _ _ refl, of ?ee "current_generation st"]
    unfolding mutates_def w' by (auto simp: mutation_frame_def)
next
  case (Some a)
  let ?h = "eh (message_element m)" and ?c = "content w"
  have view: "in_view ?c (current_generation st) (excluded_generations st) ?h = GSS_is_element_of_set (element_heap ?c ! a) st"
    using Some content_get[OF assms(2), of ?h] by (simp add: in_view_def GSS_is_element_of_set_def)
  obtain p where p: "GSS_is_element_of_set (element_heap ?c ! a) st = Some p"
    using assms(1,3) Some content_get[OF assms(2), of ?h] by (auto simp: execute_add_def Let_def split: bind_splits)
  show ?thesis
  proof (cases p)
    case True
    then have "w' = w" using assms(1,3) Some content_get[OF assms(2), of ?h] p by (simp add: execute_add_def Let_def)
    then show ?thesis using view p True by (simp add: mutates_def)
  next
    case False
    then obtain s' where "w' = w\<lparr>content := append_mutation a (current_generation st) True ?c,
        gss_sets := (gss_sets w)(sid \<mapsto> st\<lparr>set_state := s'\<rparr>)\<rparr>"
      using assms(1,3) Some content_get[OF assms(2), of ?h] p by (auto simp: execute_add_def Let_def split: bind_splits)
    then show ?thesis
      by (rule mutatesI[rotated, OF _ append_mutation_maps[OF assms(2)]]) (simp_all add: view p False append_mutation_after[OF assms(2) Some])
  qed
qed

lemma execute_remove_mutates:
  assumes "gss_sets w sid = Some st" "content_maps (content w) f"
    and "execute_remove eh vt sid m w = Some w'"
  shows "mutates sid st (eh (message_element m)) False w w'"
proof (cases "f (eh (message_element m))")
  case None
  then show ?thesis using assms content_get[OF assms(2), of "eh (message_element m)"]
    by (simp add: execute_remove_def Let_def mutates_def in_view_def)
next
  case (Some a)
  let ?h = "eh (message_element m)" and ?c = "content w"
  have view: "in_view ?c (current_generation st) (excluded_generations st) ?h = GSS_is_element_of_set (element_heap ?c ! a) st"
    using Some content_get[OF assms(2), of ?h] by (simp add: in_view_def GSS_is_element_of_set_def)
  obtain p where p: "GSS_is_element_of_set (element_heap ?c ! a) st = Some p"
    using assms(1,3) Some content_get[OF assms(2), of ?h] by (auto simp: execute_remove_def Let_def split: bind_splits)
  show ?thesis
  proof (cases p)
    case False
    then have "w' = w" using assms(1,3) Some content_get[OF assms(2), of ?h] p by (simp add: execute_remove_def Let_def)
    then show ?thesis using view p False by (simp add: mutates_def)
  next
    case True
    then obtain s' where "w' = w\<lparr>content := append_mutation a (current_generation st) False ?c,
        gss_sets := (gss_sets w)(sid \<mapsto> st\<lparr>set_state := s'\<rparr>)\<rparr>"
      using assms(1,3) Some content_get[OF assms(2), of ?h] p by (auto simp: execute_remove_def Let_def split: bind_splits)
    then show ?thesis
      by (rule mutatesI[rotated, OF _ append_mutation_maps[OF assms(2)]]) (simp_all add: view p True append_mutation_after[OF assms(2) Some])
  qed
qed

section \<open>Steps that leave the generations alone\<close>

definition generations :: "'s family \<Rightarrow> nat \<Rightarrow> (uint32 \<times> GenerationRange list) option" where
  "generations w sid = map_option (\<lambda>st. (current_generation st, excluded_generations st)) (gss_sets w sid)"

text \<open>A view that is out of reach of every set: mutations are made in the current generation of a set.\<close>

definition settled :: "'s family \<Rightarrow> uint32 \<Rightarrow> GenerationRange list \<Rightarrow> bool" where
  "settled w q ex \<longleftrightarrow> (\<forall>sid g ex'. generations w sid = Some (g, ex') \<longrightarrow> \<not> sees q ex g)"

definition quiet :: "'s family \<Rightarrow> 's family \<Rightarrow> bool" where
  "quiet w w' \<longleftrightarrow> generations w' = generations w \<and> gss_ops w' = gss_ops w \<and>
     latest_generation (content w') = latest_generation (content w) \<and> (\<exists>f. content_maps (content w') f) \<and>
     (\<forall>q ex. settled w q ex \<longrightarrow> in_view (content w') q ex = in_view (content w) q ex)"

lemma quiet_refl: "content_maps (content w) f \<Longrightarrow> quiet w w"
  by (auto simp: quiet_def)

lemma quiet_trans: "quiet w w1 \<Longrightarrow> quiet w1 w2 \<Longrightarrow> quiet w w2"
  unfolding quiet_def settled_def by simp

lemma quiet_maps: "quiet w w' \<Longrightarrow> \<exists>f. content_maps (content w') f"
  by (simp add: quiet_def)

lemma quiet_frame:
  assumes "content_maps (content w) f" "generations w' = generations w" "gss_ops w' = gss_ops w"
    and "elements (content w') = elements (content w)" "element_heap (content w') = element_heap (content w)"
    and "latest_generation (content w') = latest_generation (content w)"
  shows "quiet w w'"
  unfolding quiet_def using assms in_view_cong[OF assms(4,5)] content_maps_cong[OF assms(4,5)] by auto

lemma generations_upd [simp]:
  "generations (w\<lparr>gss_sets := (gss_sets w)(sid \<mapsto> st)\<rparr>) = (generations w)(sid \<mapsto> (current_generation st, excluded_generations st))"
  "generations (w\<lparr>content := c\<rparr>) = generations w" "generations (w\<lparr>client_mq := q\<rparr>) = generations w"
  "generations (w\<lparr>gss_ops := ops\<rparr>) = generations w" "generations (w\<lparr>lazy_copies := ls\<rparr>) = generations w"
  "generations (w\<lparr>lazy_copy_cookie := k\<rparr>) = generations w"
  by (auto simp: generations_def fun_eq_iff)

lemma generations_same: "gss_sets w sid = Some st \<Longrightarrow> (generations w)(sid \<mapsto> (current_generation st, excluded_generations st)) = generations w"
  by (auto simp: generations_def fun_eq_iff)

lemma mutates_quiet:
  assumes "gss_sets w sid = Some st" "content_maps (content w) f" "mutates sid st h b w w'"
  shows "quiet w w'"
proof (cases "w' = w")
  case True
  then show ?thesis using quiet_refl[OF assms(2)] by simp
next
  case False
  then obtain c' f' s' where w': "w' = w\<lparr>content := c', gss_sets := (gss_sets w)(sid \<mapsto> st\<lparr>set_state := s'\<rparr>)\<rparr>"
    and c': "content_maps c' f'" "mutation_frame (content w) c'" "in_view c' = after_mutation (content w) h b (current_generation st)"
    using assms(3) by (auto simp: mutates_def)
  have g: "generations w' = generations w"
    using assms(1) by (auto simp: w' generations_def fun_eq_iff)
  have "\<not> sees q ex (current_generation st)" if "settled w q ex" for q ex
    using that assms(1) by (auto simp: settled_def generations_def)
  then show ?thesis unfolding quiet_def
    using g c' by (auto simp: w' mutation_frame_def after_mutation_def fun_eq_iff)
qed

lemma execute_mutation_quiet:
  assumes "content_maps (content w) f" "execute_mutation eh vt sid m w = Some w'"
  shows "quiet w w'"
proof (cases "msg_type m")
  case SET_ADD
  then obtain st where st: "gss_sets w sid = Some st" "execute_add eh vt sid m w = Some w'"
    using assms(2) by (cases "gss_sets w sid") (auto simp: execute_mutation_def execute_add_def)
  then show ?thesis using mutates_quiet[OF st(1) assms(1) execute_add_mutates[OF st(1) assms(1) st(2)]] by simp
next
  case SET_REMOVE
  then obtain st where st: "gss_sets w sid = Some st" "execute_remove eh vt sid m w = Some w'"
    using assms(2) by (cases "gss_sets w sid") (auto simp: execute_mutation_def execute_remove_def)
  then show ?thesis using mutates_quiet[OF st(1) assms(1) execute_remove_mutates[OF st(1) assms(1) st(2)]] by simp
next
  case SET_OTHER
  then show ?thesis using assms quiet_refl by (auto simp: execute_mutation_def)
qed

lemma execute_pending_quiet:
  "content_maps (content w) f \<Longrightarrow> execute_pending eh vt pms w = Some w' \<Longrightarrow> quiet w w'"
proof (induction eh vt pms w arbitrary: f rule: execute_pending.induct)
  case (1 eh vt w)
  then show ?case using quiet_refl by auto
next
  case (2 eh vt sid m pms w)
  let ?w = "w\<lparr>content := (content w)\<lparr>pending_mutations := pms\<rparr>\<rparr>"
  obtain w1 where w1: "execute_mutation eh vt sid m ?w = Some w1" "execute_pending eh vt pms w1 = Some w'"
    using 2(3) by (auto split: bind_splits)
  have q: "quiet w ?w" by (rule quiet_frame[OF 2(2)]) simp_all
  then obtain f1 where "content_maps (content ?w) f1" using quiet_maps by blast
  then have q1: "quiet ?w w1" using execute_mutation_quiet w1(1) by blast
  then obtain f2 where "content_maps (content w1) f2" using quiet_maps by blast
  then have "quiet w1 w'" using 2(1)[OF w1(1) _ w1(2)] by blast
  then show ?case using q q1 quiet_trans by blast
qed

lemma send_client_element_quiet:
  assumes "content_maps (content w) f" "gss_send_client_element eh vt sid w = Some w'"
  shows "quiet w w'"
proof -
  obtain st it e it' where st: "gss_sets w sid = Some st" "set_iter st = Some it"
    and e: "next_of_iteration (Suc (length (concat (mhm_map (elements (content w)))))) (content w) st it = Some (e, it')"
    using assms(2) unfolding gss_send_client_element_def by (auto split: option.splits bind_splits)
  show ?thesis
  proof (cases e)
    case (Some a)
    then have "generations w' = generations w" "gss_ops w' = gss_ops w" "content w' = content w"
      using assms(2) st e by (auto simp: gss_send_client_element_def Let_def generations_def fun_eq_iff simp del: next_of_iteration.simps)
    then show ?thesis by (intro quiet_frame[OF assms(1)]) simp_all
  next
    case None
    let ?w = "w\<lparr>gss_sets := (gss_sets w)(sid \<mapsto> st\<lparr>set_iter := None, iteration_id := iteration_id st + 1\<rparr>),
      content := (content w)\<lparr>iterator_count := iterator_count (content w) - 1\<rparr>\<rparr>"
    have g: "generations ?w = generations w" using st by (auto simp: generations_def fun_eq_iff)
    then have q: "quiet w ?w" by (intro quiet_frame[OF assms(1)]) simp_all
    then obtain f1 where f1: "content_maps (content ?w) f1" using quiet_maps by blast
    have "Option.bind (if iterator_count (content ?w) = 0 then execute_pending eh vt (pending_mutations (content ?w)) ?w else Some ?w)
        (\<lambda>w3. Some (w3\<lparr>client_mq := client_mq w3 @ [(sid, ITER_DONE)]\<rparr>)) = Some w'"
      using assms(2) st e None by (simp add: gss_send_client_element_def Let_def split: if_splits del: next_of_iteration.simps)
    then obtain w3 where w3: "w3 = ?w \<or> execute_pending eh vt (pending_mutations (content ?w)) ?w = Some w3"
      and w': "w' = w3\<lparr>client_mq := client_mq w3 @ [(sid, ITER_DONE)]\<rparr>"
      unfolding bind_eq_Some_conv by (metis option.inject)
    have "quiet ?w w3" using w3 quiet_refl[OF f1] execute_pending_quiet[OF f1] by blast
    moreover from this obtain f3 where "content_maps (content w3) f3" using quiet_maps by blast
    then have "quiet w3 w'" by (rule quiet_frame) (simp_all add: w')
    ultimately show ?thesis using q quiet_trans by blast
  qed
qed

lemma handle_client_mutation_quiet:
  assumes "content_maps (content w) f" "handle_client_mutation eh vt sid m w = Some w'"
  shows "quiet w w'"
proof (cases "gss_sets w sid = None \<or> iterator_count (content w) = 0")
  case True
  then show ?thesis using assms quiet_refl execute_mutation_quiet[OF assms(1)]
    by (auto simp: handle_client_mutation_def split: option.splits)
next
  case False
  then have "w' = w\<lparr>content := (content w)\<lparr>pending_mutations := pending_mutations (content w) @ [(sid, m)]\<rparr>\<rparr>"
    using assms(2) by (auto simp: handle_client_mutation_def)
  then show ?thesis by (intro quiet_frame[OF assms(1)]) simp_all
qed

lemma handle_client_iterate_quiet:
  assumes "content_maps (content w) f" "handle_client_iterate eh vt sid w = Some w'"
  shows "quiet w w' \<or> set_destroy sid w = Some w'"
proof (cases "gss_sets w sid")
  case None
  then show ?thesis using assms quiet_refl by (auto simp: handle_client_iterate_def)
next
  case (Some st)
  let ?w = "w\<lparr>content := (content w)\<lparr>iterator_count := iterator_count (content w) + 1\<rparr>,
     gss_sets := (gss_sets w)(sid \<mapsto> st\<lparr>set_iter := Some (GNUNET_CONTAINER_multihashmap_iterator_create (elements (content w))),
       iter_generation := current_generation st\<rparr>)\<rparr>"
  have "generations ?w = generations w" using Some by (auto simp: generations_def fun_eq_iff)
  then have q: "quiet w ?w" by (intro quiet_frame[OF assms(1)]) simp_all
  then obtain f1 where f1: "content_maps (content ?w) f1" using quiet_maps by blast
  have "set_destroy sid w = Some w' \<or> gss_send_client_element eh vt sid ?w = Some w'"
    using assms(2) Some by (auto simp: handle_client_iterate_def split: if_splits)
  then show ?thesis using send_client_element_quiet[OF f1] quiet_trans[OF q] by blast
qed

lemma handle_client_iter_ack_quiet:
  assumes "content_maps (content w) f" "handle_client_iter_ack eh vt sid send_more w = Some w'"
  shows "quiet w w' \<or> set_destroy sid w = Some w'"
proof (cases "gss_send_client_element eh vt sid w = Some w' \<or> w' = w \<or> set_destroy sid w = Some w'")
  case True
  then show ?thesis using quiet_refl[OF assms(1)] send_client_element_quiet[OF assms(1)] by blast
next
  case False
  then obtain st where "gss_sets w sid = Some st"
    "w' = w\<lparr>gss_sets := (gss_sets w)(sid \<mapsto> st\<lparr>set_iter := None, iteration_id := iteration_id st + 1\<rparr>)\<rparr>"
    using assms(2) by (auto simp: handle_client_iter_ack_def split: option.splits if_splits)
  moreover from this have "generations w' = generations w" by (auto simp: generations_def fun_eq_iff)
  ultimately show ?thesis by (intro disjI1 quiet_frame[OF assms(1)]) simp_all
qed

lemma copy_lazy_prepare_quiet:
  "content_maps (content w) f \<Longrightarrow> quiet w (handle_client_copy_lazy_prepare sid w)"
  by (rule quiet_frame) (auto simp: handle_client_copy_lazy_prepare_def split: option.splits)

section \<open>Advancing the generation\<close>

text \<open>A set moves to a generation above every other, and what was mutated in between stays out of its view.\<close>

lemma advance_generation_fresh:
  assumes "advance_generation sid w = Some w'" "gss_sets w sid = Some st" "latest_generation (content w) \<noteq> - 1"
  obtains ex where "w' = w\<lparr>content := (content w)\<lparr>latest_generation := latest_generation (content w) + 1\<rparr>,
      gss_sets := (gss_sets w)(sid \<mapsto> st\<lparr>current_generation := latest_generation (content w) + 1, excluded_generations := ex\<rparr>)\<rparr>"
    and "current_generation st \<le> latest_generation (content w)"
    and "\<And>g. is_excluded_generation g ex \<longleftrightarrow> is_excluded_generation g (excluded_generations st) \<or>
      (current_generation st < g \<and> g \<le> latest_generation (content w))"
proof (cases "current_generation st = latest_generation (content w)")
  case True
  then show ?thesis using assms by (intro that[of "excluded_generations st"]) (auto simp: advance_generation_def)
next
  case False
  let ?l = "latest_generation (content w)"
  have lt: "current_generation st < ?l" using assms(1,2) False by (auto simp: advance_generation_def split: if_splits)
  have l: "x < ?l + 1 \<longleftrightarrow> x \<le> ?l" for x using inc_less_eq_iff[of ?l x] assms(3) by (simp add: not_le[symmetric])
  have c: "current_generation st + 1 \<le> x \<longleftrightarrow> current_generation st < x" for x
    using inc_less_eq_iff[of "current_generation st" x] lt by auto
  show ?thesis using assms(1,2) False lt
    by (intro that[of "excluded_generations st @ [\<lparr>range_start = current_generation st + 1, range_end = ?l + 1\<rparr>]"])
      (auto simp: advance_generation_def Let_def l c)
qed

section \<open>The steps of the service\<close>

text \<open>What the clients of a family of sets and the operations that end can make the service do, in any order. The side condition keeps the
  generations from wrapping around.\<close>

inductive set_step :: "(GNUNET_SET_Element \<Rightarrow> GNUNET_HashCode) \<Rightarrow> 's SetVT \<Rightarrow> 's family \<Rightarrow> 's family \<Rightarrow> bool"
  for eh :: "GNUNET_SET_Element \<Rightarrow> GNUNET_HashCode" and vt :: "'s SetVT" where
  step_mutation: "handle_client_mutation eh vt sid m w = Some w' \<Longrightarrow> set_step eh vt w w'"
| step_iterate: "handle_client_iterate eh vt sid w = Some w' \<Longrightarrow> set_step eh vt w w'"
| step_ack: "handle_client_iter_ack eh vt sid send_more w = Some w' \<Longrightarrow> set_step eh vt w w'"
| step_prepare: "set_step eh vt w (handle_client_copy_lazy_prepare sid w)"
| step_start: "latest_generation (content w) \<noteq> - 1 \<Longrightarrow> start_operation sid w = Some w' \<Longrightarrow> set_step eh vt w w'"
| step_connect: "latest_generation (content w) \<noteq> - 1 \<Longrightarrow> handle_client_copy_lazy_connect vt new cookie w = Some w' \<Longrightarrow>
    set_step eh vt w w'"
| step_end: "set_step eh vt w (GSS_operation_destroy op w)"
| step_destroy: "set_destroy sid w = Some w' \<Longrightarrow> set_step eh vt w w'"

lemma quiet_step:
  assumes "set_step eh vt w w'" "content_maps (content w) f"
  shows "quiet w w' \<or> (\<exists>sid. latest_generation (content w) \<noteq> - 1 \<and> start_operation sid w = Some w') \<or>
    (\<exists>new cookie. latest_generation (content w) \<noteq> - 1 \<and> handle_client_copy_lazy_connect vt new cookie w = Some w') \<or>
    (\<exists>op. w' = GSS_operation_destroy op w) \<or> (\<exists>sid. set_destroy sid w = Some w')"
  using assms(1)
proof cases
  case (step_mutation sid m)
  then show ?thesis using handle_client_mutation_quiet[OF assms(2)] by metis
next
  case (step_iterate sid)
  then show ?thesis using handle_client_iterate_quiet[OF assms(2)] by metis
next
  case (step_ack sid send_more)
  then show ?thesis using handle_client_iter_ack_quiet[OF assms(2)] by metis
next
  case (step_prepare sid)
  then show ?thesis using copy_lazy_prepare_quiet[OF assms(2)] by metis
qed metis+

section \<open>Operations work on a snapshot\<close>

text \<open>The members an operation sees.\<close>

definition operation_member :: "'s family \<Rightarrow> GSS_Operation \<Rightarrow> GNUNET_HashCode \<Rightarrow> bool option" where
  "operation_member w op h = (case gss_sets w (op_set op) of
     None \<Rightarrow> None | Some st \<Rightarrow> in_view (content w) (generation_created op) (excluded_generations st) h)"

definition set_member :: "'s family \<Rightarrow> nat \<Rightarrow> GNUNET_HashCode \<Rightarrow> bool option" where
  "set_member w sid h = (case gss_sets w sid of
     None \<Rightarrow> None | Some st \<Rightarrow> in_view (content w) (current_generation st) (excluded_generations st) h)"

definition below_latest :: "'s family \<Rightarrow> bool" where
  "below_latest w \<longleftrightarrow> (\<exists>f. content_maps (content w) f) \<and> (\<forall>sid st. gss_sets w sid = Some st \<longrightarrow> current_generation st \<le> latest_generation (content w))"

definition snapshot :: "GSS_Operation \<Rightarrow> (GNUNET_HashCode \<Rightarrow> bool option) \<Rightarrow> 's family \<Rightarrow> bool" where
  "snapshot op v w \<longleftrightarrow> below_latest w \<and> generation_created op \<le> latest_generation (content w) \<and>
     (\<forall>st. gss_sets w (op_set op) = Some st \<longrightarrow> generation_created op < current_generation st) \<and>
     (op \<in> set (gss_ops w) \<longrightarrow> (\<exists>st. gss_sets w (op_set op) = Some st \<and> settled w (generation_created op) (excluded_generations st) \<and>
       in_view (content w) (generation_created op) (excluded_generations st) = v))"

lemma generations_Some: "generations w sid = Some (g, ex) \<longleftrightarrow>
    (\<exists>st. gss_sets w sid = Some st \<and> current_generation st = g \<and> excluded_generations st = ex)"
  by (auto simp: generations_def)

lemma below_latest_gen: "below_latest w \<longleftrightarrow> (\<exists>f. content_maps (content w) f) \<and>
    (\<forall>sid g ex. generations w sid = Some (g, ex) \<longrightarrow> g \<le> latest_generation (content w))"
  by (auto simp: below_latest_def generations_Some)

lemma snapshot_gen: "snapshot op v w \<longleftrightarrow> below_latest w \<and> generation_created op \<le> latest_generation (content w) \<and>
     (\<forall>g ex. generations w (op_set op) = Some (g, ex) \<longrightarrow> generation_created op < g) \<and>
     (op \<in> set (gss_ops w) \<longrightarrow> (\<exists>g ex. generations w (op_set op) = Some (g, ex) \<and> settled w (generation_created op) ex \<and>
       in_view (content w) (generation_created op) ex = v))"
  by (cases "gss_sets w (op_set op)") (simp_all add: snapshot_def generations_def)

lemma quiet_snapshot: "quiet w w' \<Longrightarrow> snapshot op v w \<Longrightarrow> snapshot op v w'"
  by (cases "generations w (op_set op)") (auto simp: snapshot_gen below_latest_gen quiet_def settled_def)

lemma in_view_agree:
  assumes "\<And>g. g \<le> q \<Longrightarrow> is_excluded_generation g ex' = is_excluded_generation g ex"
  shows "in_view c q ex' = in_view c q ex"
proof -
  have "sees q ex' = sees q ex" using assms by (auto simp: sees_def fun_eq_iff)
  then have "seen q ex' = seen q ex" by (simp add: seen_def fun_eq_iff)
  then show ?thesis using assms[of q] by (simp add: in_view_def is_element_eq fun_eq_iff split: option.split)
qed

text \<open>A set that enters a fresh generation disturbs no snapshot.\<close>

lemma fresh_snapshot:
  assumes snap: "snapshot op v w" and top: "latest_generation (content w) \<noteq> - 1"
    and same: "elements (content w') = elements (content w)" "element_heap (content w') = element_heap (content w)"
    and latest: "latest_generation (content w') = latest_generation (content w) + 1"
    and gens: "generations w' = (generations w)(sid \<mapsto> (latest_generation (content w) + 1, ex'))"
    and ops: "op \<in> set (gss_ops w') \<Longrightarrow> op \<in> set (gss_ops w)"
    and ex': "\<And>g ex. generations w sid = Some (g, ex) \<Longrightarrow> \<forall>x. is_excluded_generation x ex' \<longleftrightarrow>
      is_excluded_generation x ex \<or> (g < x \<and> x \<le> latest_generation (content w))"
  shows "snapshot op v w'"
proof -
  let ?l = "latest_generation (content w)" and ?q = "generation_created op"
  have up: "x \<le> ?l \<Longrightarrow> x < ?l + 1" for x using inc_less_eq_iff[of ?l x] top by (simp add: not_le[symmetric])
  have q: "?q \<le> ?l" "?q < ?l + 1" using snap up by (auto simp: snapshot_gen)
  have below: "below_latest w'"
    using snap content_maps_cong[OF same] less_imp_le[OF up]
    unfolding snapshot_gen below_latest_gen gens latest by (auto split: if_splits)
  have view: "\<exists>g ex. generations w' (op_set op) = Some (g, ex) \<and> settled w' ?q ex \<and> in_view (content w') ?q ex = v"
    if op: "op \<in> set (gss_ops w')"
  proof -
    obtain g ex where g: "generations w (op_set op) = Some (g, ex)" "settled w ?q ex" "in_view (content w) ?q ex = v" "?q < g"
      using snap ops[OF op] by (auto simp: snapshot_gen)
    have fresh: "\<not> sees ?q e (?l + 1)" for e using q(2) by (simp add: sees_def not_le)
    show ?thesis
    proof (cases "op_set op = sid")
      case True
      then have e: "\<forall>x. is_excluded_generation x ex' \<longleftrightarrow> is_excluded_generation x ex \<or> (g < x \<and> x \<le> ?l)" using ex' g(1) by simp
      then have "sees ?q ex' x \<Longrightarrow> sees ?q ex x" for x by (auto simp: sees_def)
      then have "settled w' ?q ex'" using g(2) fresh unfolding settled_def gens by (auto split: if_splits)
      moreover have "in_view (content w) ?q ex' = in_view (content w) ?q ex" by (rule in_view_agree) (use e g(4) in auto)
      ultimately show ?thesis using True g(3) gens in_view_cong[OF same] by auto
    next
      case False
      then have "settled w' ?q ex" using g(2) fresh unfolding settled_def gens by (auto split: if_splits)
      then show ?thesis using False g gens in_view_cong[OF same] by auto
    qed
  qed
  show ?thesis unfolding snapshot_gen
    using below view q less_imp_le snap by (auto simp: gens latest snapshot_gen split: if_splits)
qed

lemma advance_frame:
  assumes "advance_generation sid w = Some w'" "gss_sets w sid = Some st" "latest_generation (content w) \<noteq> - 1"
  obtains ex where "generations w' = (generations w)(sid \<mapsto> (latest_generation (content w) + 1, ex))"
    and "elements (content w') = elements (content w)" "element_heap (content w') = element_heap (content w)"
    and "latest_generation (content w') = latest_generation (content w) + 1" "gss_ops w' = gss_ops w"
    and "\<And>g. is_excluded_generation g ex \<longleftrightarrow> is_excluded_generation g (excluded_generations st) \<or>
      (current_generation st < g \<and> g \<le> latest_generation (content w))"
proof (rule advance_generation_fresh[OF assms], goal_cases)
  case (1 ex)
  then have "generations w' = (generations w)(sid \<mapsto> (latest_generation (content w) + 1, ex))"
    by (auto simp: generations_def fun_eq_iff)
  then show ?case using 1 by (intro that[of ex]) simp_all
qed

lemma start_operation_snapshot:
  assumes "snapshot op v w" "latest_generation (content w) \<noteq> - 1" "start_operation sid w = Some w'"
  shows "snapshot op v w'"
proof (cases "gss_sets w sid")
  case None
  then show ?thesis using assms by (simp add: start_operation_def)
next
  case (Some st)
  then obtain w1 where w1: "advance_generation sid w = Some w1"
    and w': "w' = w1\<lparr>gss_ops := \<lparr>op_set = sid, generation_created = current_generation st\<rparr> # gss_ops w1\<rparr>"
    using assms(3) by (auto simp: start_operation_def)
  obtain ex where f: "generations w1 = (generations w)(sid \<mapsto> (latest_generation (content w) + 1, ex))"
    "elements (content w1) = elements (content w)" "element_heap (content w1) = element_heap (content w)"
    "latest_generation (content w1) = latest_generation (content w) + 1" "gss_ops w1 = gss_ops w"
    and ex: "\<And>g. is_excluded_generation g ex \<longleftrightarrow> is_excluded_generation g (excluded_generations st) \<or>
      (current_generation st < g \<and> g \<le> latest_generation (content w))"
    by (rule advance_frame[OF w1 Some assms(2)]) blast
  have "op \<noteq> \<lparr>op_set = sid, generation_created = current_generation st\<rparr>"
    using assms(1) Some by (auto simp: snapshot_def)
  then show ?thesis using f ex Some
    by (intro fresh_snapshot[OF assms(1,2), of w' sid ex]) (auto simp: w' generations_Some)
qed

lemma copy_lazy_connect_cases:
  assumes "handle_client_copy_lazy_connect vt new cookie w = Some w'"
  obtains "\<exists>ls. w' = w\<lparr>lazy_copies := ls\<rparr>"
  | "set_destroy new w = Some w'"
  | id src st1 copy_state w1 where "gss_sets w new = None" "vt_copy_state vt = Some copy_state"
    "(cookie, id) \<in> set (lazy_copies w)" "gss_sets w id = Some src"
    "st1 = \<lparr>set_state = copy_state (set_state src), current_generation = current_generation src,
       excluded_generations = excluded_generations src, set_iter = None, iteration_id = 0, iter_generation = 0\<rparr>"
    "w1 = w\<lparr>lazy_copies := remove1 (cookie, id) (lazy_copies w), content := (content w)\<lparr>refcount := refcount (content w) + 1\<rparr>,
       gss_sets := (gss_sets w)(new \<mapsto> st1)\<rparr>"
    "advance_generation new w1 = Some w'"
proof -
  have same: "\<exists>ls. w = w\<lparr>lazy_copies := ls\<rparr>" by (rule exI[of _ "lazy_copies w"]) simp
  show ?thesis
  proof (cases "gss_sets w new = None \<and> List.find (\<lambda>cr. fst cr = cookie) (lazy_copies w) \<noteq> None")
    case False
    then have "w' = w \<or> set_destroy new w = Some w'" using assms
      by (cases "List.find (\<lambda>cr. fst cr = cookie) (lazy_copies w)") (auto simp: handle_client_copy_lazy_connect_def split: if_splits)
    then show ?thesis using that(1,2) same by blast
  next
    case True
    then obtain id where f: "List.find (\<lambda>cr. fst cr = cookie) (lazy_copies w) = Some (cookie, id)"
      using find_Some_iff[of "\<lambda>cr. fst cr = cookie" "lazy_copies w"] by (metis eq_fst_iff option.exhaust)
    then have m: "(cookie, id) \<in> set (lazy_copies w)" by (auto simp: find_Some_iff)
    obtain src where src: "gss_sets w id = Some src"
      using assms True f by (auto simp: handle_client_copy_lazy_connect_def Let_def split: option.splits)
    show ?thesis
    proof (cases "vt_copy_state vt")
      case None
      then show ?thesis using assms True f src that(1) by (auto simp: handle_client_copy_lazy_connect_def Let_def)
    next
      case (Some copy_state)
      show ?thesis
        by (rule that(3)[OF _ Some m src refl refl]) (use assms True f src Some in \<open>simp_all add: handle_client_copy_lazy_connect_def Let_def\<close>)
    qed
  qed
qed

lemma set_destroy_snapshot:
  assumes "snapshot op v w" "set_destroy sid w = Some w'"
  shows "snapshot op v w'"
proof (cases "gss_sets w sid")
  case None
  then show ?thesis using assms by (simp add: set_destroy_def)
next
  case (Some st)
  then have w': "gss_ops w' = filter (\<lambda>op. op_set op \<noteq> sid) (gss_ops w)" "generations w' = (generations w)(sid := None)"
    and c': "elements (content w') = elements (content w)" "element_heap (content w') = element_heap (content w)"
      "latest_generation (content w') = latest_generation (content w)"
    using assms(2) by (auto simp: set_destroy_def generations_def fun_eq_iff split: if_splits)
  have "settled w' q ex" if "settled w q ex" for q ex
    using that by (auto simp: settled_def w' split: if_splits)
  then show ?thesis using assms(1) in_view_cong[OF c'(1,2)] content_maps_cong[OF c'(1,2)]
    by (auto simp: snapshot_gen below_latest_gen w' c'(3) split: if_splits)
qed

lemma connect_snapshot:
  assumes "snapshot op v w" "latest_generation (content w) \<noteq> - 1" "handle_client_copy_lazy_connect vt new cookie w = Some w'"
  shows "snapshot op v w'"
proof (rule copy_lazy_connect_cases[OF assms(3)], goal_cases)
  case 1
  moreover obtain f where "content_maps (content w) f" using assms(1) by (auto simp: snapshot_def below_latest_def)
  ultimately have "quiet w w'" by (auto intro: quiet_frame)
  then show ?case using assms(1) quiet_snapshot by blast
next
  case 2
  then show ?case using set_destroy_snapshot assms(1) by blast
next
  case (3 id src st1 copy_state w1)
  have l: "latest_generation (content w1) = latest_generation (content w)" using 3 by simp
  have s1: "gss_sets w1 new = Some st1" using 3 by simp
  obtain ex where f: "generations w' = (generations w1)(new \<mapsto> (latest_generation (content w1) + 1, ex))"
    "elements (content w') = elements (content w1)" "element_heap (content w') = element_heap (content w1)"
    "latest_generation (content w') = latest_generation (content w1) + 1" "gss_ops w' = gss_ops w1"
    by (rule advance_frame[OF 3(7) s1]) (use assms(2) l in auto)
  have "generations w' = (generations w)(new \<mapsto> (latest_generation (content w) + 1, ex))"
    using f(1) unfolding 3(6) by (auto simp: generations_def fun_eq_iff)
  then show ?case using 3(1) f
    by (intro fresh_snapshot[OF assms(1,2), of w' new ex]) (simp_all add: 3(6) generations_def)
qed

lemma operation_destroy_snapshot:
  assumes "snapshot op v w"
  shows "snapshot op v (GSS_operation_destroy op' w)"
proof -
  have "op \<in> set (remove1 op' (gss_ops w)) \<Longrightarrow> op \<in> set (gss_ops w)" using set_remove1_subset by fast
  then show ?thesis using assms by (auto simp: snapshot_gen below_latest_gen settled_def GSS_operation_destroy_def)
qed

lemma step_snapshot:
  assumes "set_step eh vt w w'" "snapshot op v w"
  shows "snapshot op v w'"
proof -
  obtain f where "content_maps (content w) f" using assms(2) by (auto simp: snapshot_def below_latest_def)
  from quiet_step[OF assms(1) this] show ?thesis
  proof (elim disjE exE conjE)
    show "quiet w w' \<Longrightarrow> ?thesis" by (rule quiet_snapshot[OF _ assms(2)])
    show "latest_generation (content w) \<noteq> - 1 \<Longrightarrow> start_operation sid w = Some w' \<Longrightarrow> ?thesis" for sid
      by (rule start_operation_snapshot[OF assms(2)])
    show "latest_generation (content w) \<noteq> - 1 \<Longrightarrow> handle_client_copy_lazy_connect vt new cookie w = Some w' \<Longrightarrow> ?thesis" for new cookie
      by (rule connect_snapshot[OF assms(2)])
    show "w' = GSS_operation_destroy op' w \<Longrightarrow> ?thesis" for op' using operation_destroy_snapshot[OF assms(2)] by simp
    show "set_destroy sid w = Some w' \<Longrightarrow> ?thesis" for sid by (rule set_destroy_snapshot[OF assms(2)])
  qed
qed

lemma steps_snapshot: "(set_step eh vt)\<^sup>*\<^sup>* w w' \<Longrightarrow> snapshot op v w \<Longrightarrow> snapshot op v w'"
  by (induction rule: rtranclp_induct) (auto intro: step_snapshot)

text \<open>No other set mutates in a generation that the set sees.\<close>

definition others_unseen :: "'s family \<Rightarrow> nat \<Rightarrow> 's GSS_Set \<Rightarrow> bool" where
  "others_unseen w sid st \<longleftrightarrow> (\<forall>sid' st'. gss_sets w sid' = Some st' \<and> sid' \<noteq> sid \<longrightarrow>
     \<not> sees (current_generation st) (excluded_generations st) (current_generation st'))"

lemma start_operation_snapshots:
  assumes "below_latest w" "gss_sets w sid = Some st" "latest_generation (content w) \<noteq> - 1" "others_unseen w sid st"
    and "start_operation sid w = Some w'"
  shows "snapshot \<lparr>op_set = sid, generation_created = current_generation st\<rparr> (set_member w sid) w'"
proof -
  let ?l = "latest_generation (content w)" and ?q = "current_generation st"
  obtain w1 where w1: "advance_generation sid w = Some w1"
    and w': "w' = w1\<lparr>gss_ops := \<lparr>op_set = sid, generation_created = current_generation st\<rparr> # gss_ops w1\<rparr>"
    using assms(2,5) by (auto simp: start_operation_def)
  obtain ex where f: "generations w1 = (generations w)(sid \<mapsto> (?l + 1, ex))"
    "elements (content w1) = elements (content w)" "element_heap (content w1) = element_heap (content w)"
    "latest_generation (content w1) = ?l + 1"
    and ex: "\<And>g. is_excluded_generation g ex \<longleftrightarrow> is_excluded_generation g (excluded_generations st) \<or> (?q < g \<and> g \<le> ?l)"
    by (rule advance_frame[OF w1 assms(2,3)]) blast
  have up: "x \<le> ?l \<Longrightarrow> x < ?l + 1" for x using inc_less_eq_iff[of ?l x] assms(3) by (simp add: not_le[symmetric])
  have q: "?q < ?l + 1" "?q \<le> ?l + 1" using assms(1,2) up[of ?q] by (auto simp: below_latest_def)
  have "in_view (content w) ?q ex = in_view (content w) ?q (excluded_generations st)" by (rule in_view_agree) (auto simp: ex)
  then have view: "in_view (content w1) ?q ex = set_member w sid"
    using assms(2) in_view_cong[OF f(2,3)] by (simp add: set_member_def fun_eq_iff)
  have "settled w' ?q ex" using assms(4) q ex
    by (auto simp: settled_def w' f(1) generations_Some others_unseen_def sees_def not_le split: if_splits)
  moreover have "below_latest w'" using assms(1) content_maps_cong[OF f(2,3)] less_imp_le[OF up]
    by (auto simp: below_latest_gen w' f(1,4) split: if_splits)
  ultimately show ?thesis using q view by (auto simp: snapshot_gen w' f)
qed

lemma snapshot_member: "snapshot op v w \<Longrightarrow> op \<in> set (gss_ops w) \<Longrightarrow> operation_member w op = v"
  by (auto simp: snapshot_def operation_member_def fun_eq_iff)

section \<open>Families of isolated sets\<close>

definition histories :: "SetContent \<Rightarrow> bool" where
  "histories c \<longleftrightarrow> (\<forall>ee \<in> set (element_heap c). \<forall>m \<in> set (ee_mutations ee). mut_generation m \<le> latest_generation c)"

definition family_wf :: "'s family \<Rightarrow> bool" where
  "family_wf w \<longleftrightarrow> below_latest w \<and> histories (content w) \<and> (\<forall>sid st. gss_sets w sid = Some st \<longrightarrow>
     (\<forall>g \<ge> current_generation st. \<not> is_excluded_generation g (excluded_generations st)) \<and>
     others_unseen w sid st \<and> (\<forall>h. set_member w sid h \<noteq> None))"

lemma append_mutation_histories:
  assumes "histories c" "g \<le> latest_generation c" "a < length (element_heap c)"
  shows "histories (append_mutation a g b c)"
  using assms set_update_subset_insert[of "element_heap c" a] nth_mem[OF assms(3)]
  by (fastforce simp: histories_def append_mutation_def Let_def)

lemma execute_add_histories:
  assumes "execute_add eh vt sid m w = Some w'" "histories (content w)" "content_maps (content w) f"
    and "gss_sets w sid = Some st" "current_generation st \<le> latest_generation (content w)"
  shows "histories (content w')"
proof (cases "f (eh (message_element m))")
  case None
  let ?h = "eh (message_element m)" and ?c = "content w"
  let ?ee = "\<lparr>ee_element = message_element m, ee_hash = ?h, ee_mutations = [], ee_remote = False\<rparr>"
  obtain es where c': "content w' = append_mutation (length (element_heap ?c)) (current_generation st) True
        (?c\<lparr>elements := es, element_heap := element_heap ?c @ [?ee]\<rparr>)"
    using assms(1,4) None content_get[OF assms(3), of ?h] by (auto simp: execute_add_def Let_def split: bind_splits)
  show ?thesis unfolding c' by (rule append_mutation_histories) (use assms(2,5) in \<open>auto simp: histories_def\<close>)
next
  case (Some a)
  then have "a < length (element_heap (content w))" using assms(3) by (simp add: content_maps_def)
  moreover have "w' = w \<or> content w' = append_mutation a (current_generation st) True (content w)"
    using assms(1,4) Some content_get[OF assms(3), of "eh (message_element m)"]
    by (auto simp: execute_add_def Let_def split: bind_splits if_splits)
  ultimately show ?thesis using append_mutation_histories[OF assms(2,5)] assms(2) by auto
qed

lemma execute_remove_histories:
  assumes "execute_remove eh vt sid m w = Some w'" "histories (content w)" "content_maps (content w) f"
    and "gss_sets w sid = Some st" "current_generation st \<le> latest_generation (content w)"
  shows "histories (content w')"
proof (cases "f (eh (message_element m))")
  case None
  then show ?thesis using assms content_get[OF assms(3), of "eh (message_element m)"]
    by (simp add: execute_remove_def Let_def)
next
  case (Some a)
  then have "a < length (element_heap (content w))" using assms(3) by (simp add: content_maps_def)
  moreover have "w' = w \<or> content w' = append_mutation a (current_generation st) False (content w)"
    using assms(1,4) Some content_get[OF assms(3), of "eh (message_element m)"]
    by (auto simp: execute_remove_def Let_def split: bind_splits if_splits)
  ultimately show ?thesis using append_mutation_histories[OF assms(2,5)] assms(2) by auto
qed

lemma set_member_gen: "generations w sid = Some (g, ex) \<Longrightarrow> set_member w sid = in_view (content w) g ex"
  by (auto simp: generations_Some set_member_def fun_eq_iff)

lemma set_member_None: "generations w sid = None \<Longrightarrow> set_member w sid h = None"
  by (cases "gss_sets w sid") (auto simp: generations_def set_member_def)

lemma family_wf_gen: "family_wf w \<longleftrightarrow> below_latest w \<and> histories (content w) \<and> (\<forall>sid g ex. generations w sid = Some (g, ex) \<longrightarrow>
     (\<forall>x \<ge> g. \<not> is_excluded_generation x ex) \<and> (\<forall>h. set_member w sid h \<noteq> None) \<and>
     (\<forall>sid' g' ex'. generations w sid' = Some (g', ex') \<and> sid' \<noteq> sid \<longrightarrow> \<not> sees g ex g'))"
  unfolding family_wf_def others_unseen_def generations_Some by (intro conj_cong refl) blast

lemma mutates_family:
  assumes wf: "family_wf w" and st: "gss_sets w sid = Some st" and mut: "mutates sid st h b w w'" and hist: "histories (content w')"
  shows "family_wf w' \<and> (\<forall>sid' h'. set_member w' sid' h' = (if sid' = sid \<and> h' = h then Some b else set_member w sid' h'))"
proof -
  obtain f where f: "content_maps (content w) f" using wf by (auto simp: family_wf_def below_latest_def)
  have quiet: "quiet w w'" by (rule mutates_quiet[OF st f mut])
  then have gens: "generations w' = generations w" by (simp add: quiet_def)
  have sid: "generations w sid = Some (current_generation st, excluded_generations st)" using st by (simp add: generations_def)
  have cur: "\<not> is_excluded_generation (current_generation st) (excluded_generations st)" using wf st by (simp add: family_wf_def)
  have self: "set_member w sid h = in_view (content w) (current_generation st) (excluded_generations st) h"
    using set_member_gen[OF sid] by simp
  have mem: "set_member w' sid' h' = (if sid' = sid \<and> h' = h then Some b else set_member w sid' h')" for sid' h'
  proof (cases "set_member w sid h = Some b \<and> w' = w \<or> generations w sid' = None")
    case True
    then show ?thesis using mut self sid set_member_None[of w sid' h'] set_member_None[of w' sid' h'] gens
      by (auto simp: mutates_def)
  next
    case False
    then obtain g ex where g: "generations w sid' = Some (g, ex)" by auto
    have "in_view (content w') = after_mutation (content w) h b (current_generation st)"
      and p: "in_view (content w) (current_generation st) (excluded_generations st) h = Some (\<not> b)"
      using mut False self by (auto simp: mutates_def)
    then have "set_member w' sid' h' = after_mutation (content w) h b (current_generation st) g ex h'"
      using set_member_gen[of w' sid'] g gens by simp
    moreover have "sid' \<noteq> sid \<Longrightarrow> \<not> sees g ex (current_generation st)" using wf g sid unfolding family_wf_gen by blast
    ultimately show ?thesis using p cur g sid set_member_gen[OF g]
      by (auto simp: after_mutation_def sees_def)
  qed
  have "family_wf w'" using wf quiet hist mem unfolding family_wf_gen gens
    by (auto simp: below_latest_gen quiet_def split: if_splits)
  then show ?thesis using mem by blast
qed

text \<open>Additions and removals do not fail if the implementation of the set takes them and the table of elements has room.\<close>

definition vt_total :: "'s SetVT \<Rightarrow> bool" where
  "vt_total vt \<longleftrightarrow> (\<forall>s ee. vt_add vt s ee \<noteq> None \<and> vt_remove vt s ee \<noteq> None)"

lemma execute_add_returns:
  assumes "gss_sets w sid = Some st" "content_maps (content w) f" "f (eh (message_element m)) = None \<Longrightarrow> chainmap_room (elements (content w))" "vt_total vt"
    and "set_member w sid (eh (message_element m)) \<noteq> None"
  shows "\<exists>w'. execute_add eh vt sid m w = Some w'"
proof (cases "f (eh (message_element m))")
  case None
  have c: "mhm_wf (elements (content w))" "finite (dom f)" "mhm_entries (elements (content w)) = map_entries f"
    using assms(2) by (simp_all add: content_maps_def)
  obtain es where "GNUNET_CONTAINER_multihashmap_put (elements (content w)) (eh (message_element m)) (length (element_heap (content w)))
      OPT_UNIQUE_ONLY = Some (GNUNET_OK, es)"
    using mhmu.put_map[OF c(1) assms(3)[OF None] c(3,2) None] by blast
  then show ?thesis using assms(1,4) None content_get[OF assms(2)] by (auto simp: execute_add_def Let_def vt_total_def bind_eq_Some_conv)
next
  case (Some a)
  then obtain p where "GSS_is_element_of_set (element_heap (content w) ! a) st = Some p"
    using assms(1,5) content_get[OF assms(2)] by (auto simp: set_member_def in_view_def GSS_is_element_of_set_def)
  then show ?thesis using assms(1,4) Some content_get[OF assms(2)] by (auto simp: execute_add_def Let_def vt_total_def bind_eq_Some_conv)
qed

lemma execute_remove_returns:
  assumes "gss_sets w sid = Some st" "content_maps (content w) f" "vt_total vt" "set_member w sid (eh (message_element m)) \<noteq> None"
  shows "\<exists>w'. execute_remove eh vt sid m w = Some w'"
proof (cases "f (eh (message_element m))")
  case None
  then show ?thesis using assms(1) content_get[OF assms(2)] by (auto simp: execute_remove_def Let_def)
next
  case (Some a)
  then obtain p where "GSS_is_element_of_set (element_heap (content w) ! a) st = Some p"
    using assms(1,4) content_get[OF assms(2)] by (auto simp: set_member_def in_view_def GSS_is_element_of_set_def)
  then show ?thesis using assms(1,3) Some content_get[OF assms(2)] by (auto simp: execute_remove_def Let_def vt_total_def bind_eq_Some_conv)
qed

text \<open>A set sees the same elements after it advanced.\<close>

lemma advance_view:
  assumes "content_maps c f" "histories c" "q \<le> latest_generation c" "latest_generation c \<noteq> - 1"
    and old: "\<And>g. q \<le> g \<Longrightarrow> \<not> is_excluded_generation g ex"
    and ex: "\<And>g. is_excluded_generation g ex' \<longleftrightarrow> is_excluded_generation g ex \<or> (q < g \<and> g \<le> latest_generation c)"
  shows "in_view c (latest_generation c + 1) ex' = in_view c q ex"
    and "\<And>g. latest_generation c + 1 \<le> g \<Longrightarrow> \<not> is_excluded_generation g ex'"
proof -
  let ?l = "latest_generation c"
  have up: "x < ?l + 1 \<longleftrightarrow> x \<le> ?l" for x using inc_less_eq_iff[of ?l x] assms(4) by (simp add: not_le[symmetric])
  show now: "\<not> is_excluded_generation x ex'" if "?l + 1 \<le> x" for x
    using that old[of x] assms(3) up ex[of x] by (metis less_imp_le not_le order.trans)
  have "sees (?l + 1) ex' g = sees q ex g" if "g \<le> ?l" for g using that assms(3) up[of g] ex[of g] by (auto simp: sees_def)
  then have seen: "seen (?l + 1) ex' (ee_mutations ee) = seen q ex (ee_mutations ee)" if "ee \<in> set (element_heap c)" for ee
    using assms(2) that by (auto simp: seen_def histories_def cong: filter_cong)
  have "in_view c (?l + 1) ex' h = in_view c q ex h" for h
  proof (cases "f h")
    case (Some a)
    then have "element_heap c ! a \<in> set (element_heap c)" using assms(1) by (simp add: content_maps_def)
    then show ?thesis using Some content_get[OF assms(1)] seen now[of "?l + 1"] old[of q] by (simp add: in_view_def is_element_eq)
  qed (simp add: in_view_def content_get[OF assms(1)])
  then show "in_view c (?l + 1) ex' = in_view c q ex" by (intro ext)
qed

lemma advance_family:
  assumes wf: "family_wf w" and st: "gss_sets w sid = Some st" and top: "latest_generation (content w) \<noteq> - 1"
  obtains w' where "advance_generation sid w = Some w'" "family_wf w'" "\<forall>sid' h. set_member w' sid' h = set_member w sid' h"
proof -
  let ?l = "latest_generation (content w)" and ?q = "current_generation st"
  have le: "?q \<le> ?l" using wf st by (auto simp: family_wf_def below_latest_def)
  then obtain w' where w': "advance_generation sid w = Some w'"
    using st by (cases "?q = ?l") (auto simp: advance_generation_def)
  obtain ex where gens: "generations w' = (generations w)(sid \<mapsto> (?l + 1, ex))"
    and c: "elements (content w') = elements (content w)" "element_heap (content w') = element_heap (content w)"
    and latest: "latest_generation (content w') = ?l + 1"
    and ex: "\<And>g. is_excluded_generation g ex \<longleftrightarrow> is_excluded_generation g (excluded_generations st) \<or> (?q < g \<and> g \<le> ?l)"
    by (rule advance_frame[OF w' st top]) blast
  have up: "x < ?l + 1 \<longleftrightarrow> x \<le> ?l" for x using inc_less_eq_iff[of ?l x] top by (simp add: not_le[symmetric])
  have old: "\<not> is_excluded_generation g (excluded_generations st)" if "?q \<le> g" for g using wf st that by (simp add: family_wf_def)
  have hist: "histories (content w)" using wf by (simp add: family_wf_def)
  obtain f where f: "content_maps (content w) f" using wf by (auto simp: family_wf_def below_latest_def)
  note view = advance_view[OF f hist le top old ex]
  have mem: "set_member w' sid' h = set_member w sid' h" for sid' h
    using gens view(1) st in_view_cong[OF c] set_member_gen[of w' sid'] set_member_gen[of w sid'] set_member_None[of w sid' h]
      set_member_None[of w' sid' h]
    by (cases "sid' = sid"; cases "generations w sid'") (auto simp: generations_def)
  have "below_latest w'" using wf content_maps_cong[OF c] up by (auto simp: family_wf_gen below_latest_gen gens latest less_imp_le split: if_splits)
  moreover have "histories (content w')" using hist up by (auto simp: histories_def c latest less_imp_le)
  moreover have "\<not> sees g e (?l + 1)" if "generations w s = Some (g, e)" for s g e
    using wf that up[of g] by (auto simp: family_wf_gen below_latest_gen sees_def not_le)
  moreover have "\<not> sees (?l + 1) ex g" if "generations w s = Some (g, e)" "s \<noteq> sid" for s g e
  proof -
    have "others_unseen w sid st" "below_latest w" using wf st by (simp_all add: family_wf_def)
    then have "g \<le> ?l" "\<not> sees ?q (excluded_generations st) g"
      using that by (auto simp: others_unseen_def below_latest_def generations_Some)
    then show ?thesis using ex[of g] by (auto simp: sees_def)
  qed
  moreover have "set_member w sid h \<noteq> None" for h using wf st by (simp add: family_wf_def)
  ultimately have "family_wf w'" using wf view(2) mem unfolding family_wf_gen gens by (auto split: if_splits)
  then show ?thesis using that w' mem by blast
qed

lemma create_family:
  assumes "handle_client_create_set sid s = Some w"
  shows "family_wf w" "gss_sets w = [sid \<mapsto> \<lparr>set_state = s, current_generation = 0, excluded_generations = [],
    set_iter = None, iteration_id = 0, iter_generation = 0\<rparr>]" "set_member w sid h = Some False" "latest_generation (content w) = 0"
    "iterator_count (content w) = 0" "chainmap_room (elements (content w))" "content_maps (content w) Map.empty"
    "gss_ops w = []" "lazy_copies w = []" "lazy_copy_cookie w = 1" "pending_mutations (content w) = []" "client_mq w = []"
proof -
  obtain es where es: "GNUNET_CONTAINER_multihashmap_create 1 True = Some es"
    and w: "w = \<lparr>content = \<lparr>refcount = 1, elements = es, element_heap = [], latest_generation = 0,
            pending_mutations = [], iterator_count = 0\<rparr>,
          gss_sets = [sid \<mapsto> \<lparr>set_state = s, current_generation = 0, excluded_generations = [],
            set_iter = None, iteration_id = 0, iter_generation = 0\<rparr>],
          gss_ops = [], lazy_copies = [], lazy_copy_cookie = 1, client_mq = []\<rparr>"
    using assms by (auto simp: handle_client_create_set_def split: option.splits)
  have e: "mhm_wf es" "mhm_entries es = {#}" "map_length es = 1"
    using chainmap_create_wf[of 1 True es hash_key] es by (auto simp: multihashmap_defs)
  then show maps: "content_maps (content w) Map.empty" by (simp add: w content_maps_def map_entries_def)
  have m: "set_member w sid h = Some False" for h
    using content_get[OF maps] by (simp add: w set_member_def in_view_def)
  then show "set_member w sid h = Some False" .
  show "family_wf w" using maps m
    by (auto simp: family_wf_def below_latest_def histories_def others_unseen_def w split: if_splits)
  show "gss_sets w = [sid \<mapsto> \<lparr>set_state = s, current_generation = 0, excluded_generations = [],
    set_iter = None, iteration_id = 0, iter_generation = 0\<rparr>]" "latest_generation (content w) = 0"
    "iterator_count (content w) = 0" "chainmap_room (elements (content w))"
    "gss_ops w = []" "lazy_copies w = []" "lazy_copy_cookie w = 1" "pending_mutations (content w) = []" "client_mq w = []"
    using e by (simp_all add: w)
qed

lemma create_set_returns: "\<exists>w. handle_client_create_set sid s = Some w"
  by (simp add: handle_client_create_set_def multihashmap_defs chainmap_create_def)

section \<open>Properties\<close>

text \<open>The set of one client that the instances below start from, with a state that counts its elements and elements that are hashed to
  their first byte.\<close>

definition counting_vt :: "nat SetVT" where
  "counting_vt = \<lparr>vt_add = \<lambda>s ee. Some (s + 1), vt_remove = \<lambda>s ee. Some (s - 1), vt_copy_state = Some (\<lambda>s. s)\<rparr>"

definition first_byte_hash :: "GNUNET_SET_Element \<Rightarrow> GNUNET_HashCode" where
  "first_byte_hash el = hash_of_word (case el_data el of [] \<Rightarrow> 0 | b # _ \<Rightarrow> ucast b)"

definition sample_family :: "nat family" where
  "sample_family = the (handle_client_create_set 0 0)"

lemma sample_family_created: "handle_client_create_set 0 0 = Some sample_family"
  using create_set_returns[of 0 "0::nat"] unfolding sample_family_def by (metis option.sel)

lemmas sample_family_facts = create_family[OF sample_family_created]

lemma counting_vt_total [simp]: "vt_total counting_vt"
  by (simp add: vt_total_def counting_vt_def)

lemma counting_vt_copy [simp]: "vt_copy_state counting_vt = Some (\<lambda>s. s)"
  by (simp add: counting_vt_def)

lemma mutation_family:
  assumes "family_wf w" "gss_sets w sid = Some st" "iterator_count (content w) = 0"
    and "msg_type m = (if b then SET_ADD else SET_REMOVE)" "chainmap_room (elements (content w))" "vt_total vt"
  shows "\<exists>w'. handle_client_mutation eh vt sid m w = Some w' \<and> family_wf w' \<and> (\<forall>sid' h. set_member w' sid' h =
    (if sid' = sid \<and> h = eh (message_element m) then Some b else set_member w sid' h))"
proof -
  have le: "current_generation st \<le> latest_generation (content w)" "histories (content w)"
    "set_member w sid (eh (message_element m)) \<noteq> None" using assms(1,2) by (auto simp: family_wf_def below_latest_def)
  obtain f where f: "content_maps (content w) f" using assms(1) by (auto simp: family_wf_def below_latest_def)
  show ?thesis
  proof (cases b)
    case True
    obtain w' where w': "execute_add eh vt sid m w = Some w'" using execute_add_returns[OF assms(2) f assms(5,6), of eh m] le(3) by blast
    note w'' = execute_add_mutates[OF assms(2) f w'] execute_add_histories[OF w' le(2) f assms(2) le(1)]
    have "handle_client_mutation eh vt sid m w = Some w'"
      using w' assms(2,3,4) True by (simp add: handle_client_mutation_def execute_mutation_def)
    then show ?thesis using mutates_family[OF assms(1,2) w''] True by auto
  next
    case False
    obtain w' where w': "execute_remove eh vt sid m w = Some w'" using execute_remove_returns[OF assms(2) f assms(6), of eh m] le(3) by blast
    note w'' = execute_remove_mutates[OF assms(2) f w'] execute_remove_histories[OF w' le(2) f assms(2) le(1)]
    have "handle_client_mutation eh vt sid m w = Some w'"
      using w' assms(2,3,4) False by (simp add: handle_client_mutation_def execute_mutation_def)
    then show ?thesis using mutates_family[OF assms(1,2) w''] False by auto
  qed
qed




definition sample_add :: "8 word \<Rightarrow> ElementMessage" where
  "sample_add b = \<lparr>msg_type = SET_ADD, msg_element_type = 0, msg_data = [b]\<rparr>"

lemma sample_started:
  obtains st w1 w2 where "gss_sets sample_family 0 = Some st" "start_operation 0 sample_family = Some w1" "family_wf w1"
    "handle_client_mutation first_byte_hash counting_vt 0 (sample_add 7) w1 = Some w2"
    "gss_ops w2 = [\<lparr>op_set = 0, generation_created = current_generation st\<rparr>]" "set_member w2 0 (hash_of_word 7) = Some True"
proof -
  have top: "latest_generation (content sample_family) \<noteq> - 1" by (simp add: sample_family_facts)
  obtain st where st: "gss_sets sample_family 0 = Some st" by (simp add: sample_family_facts)
  obtain w0 where w0: "advance_generation 0 sample_family = Some w0" "family_wf w0" "\<forall>sid' h. set_member w0 sid' h = set_member sample_family sid' h"
    using advance_family[OF sample_family_facts(1) st top] by blast
  obtain ex where f: "w0 = sample_family\<lparr>content := (content sample_family)\<lparr>latest_generation := latest_generation (content sample_family) + 1\<rparr>,
      gss_sets := (gss_sets sample_family)(0 \<mapsto> st\<lparr>current_generation := latest_generation (content sample_family) + 1, excluded_generations := ex\<rparr>)\<rparr>"
    by (rule advance_generation_fresh[OF w0(1) st top]) blast
  let ?op = "\<lparr>op_set = 0, generation_created = current_generation st\<rparr>"
  let ?w1 = "w0\<lparr>gss_ops := [?op]\<rparr>"
  have s1: "start_operation 0 sample_family = Some ?w1" using st w0(1) by (simp add: start_operation_def f sample_family_facts)
  have wf1: "family_wf ?w1" using w0(2) by (simp add: family_wf_def below_latest_def others_unseen_def set_member_def)
  have "\<exists>w2. handle_client_mutation first_byte_hash counting_vt 0 (sample_add 7) ?w1 = Some w2 \<and> family_wf w2 \<and>
      (\<forall>sid' h. set_member w2 sid' h = (if sid' = 0 \<and> h = first_byte_hash (message_element (sample_add 7)) then Some True else set_member ?w1 sid' h))"
    by (rule mutation_family[OF wf1]) (use sample_family_facts in \<open>simp_all add: f sample_add_def\<close>)
  then obtain w2 where w2: "handle_client_mutation first_byte_hash counting_vt 0 (sample_add 7) ?w1 = Some w2"
    "set_member w2 0 (hash_of_word 7) = Some True"
    by (auto simp: first_byte_hash_def sample_add_def message_element_def)
  obtain f where "content_maps (content ?w1) f" using wf1 by (auto simp: family_wf_def below_latest_def)
  then have "gss_ops w2 = [?op]" using handle_client_mutation_quiet[OF _ w2(1)] by (auto simp: quiet_def)
  then show ?thesis by (rule that[OF st s1 wf1 w2(1) _ w2(2)])
qed


section \<open>Copies\<close>

text \<open>A new copy has the elements of its source, and sees the generation in which the source goes on mutating.\<close>

lemma connect_copies:
  assumes wf: "family_wf w" and top: "latest_generation (content w) \<noteq> - 1" and new: "gss_sets w new = None"
    and req: "List.find (\<lambda>cr. fst cr = cookie) (lazy_copies w) = Some (cookie, src)" and st: "gss_sets w src = Some st"
    and vt: "vt_copy_state vt = Some copy_state"
  obtains w1 ex where "handle_client_copy_lazy_connect vt new cookie w = Some w1"
    "generations w1 = (generations w)(new \<mapsto> (latest_generation (content w) + 1, ex))"
    "elements (content w1) = elements (content w)" "element_heap (content w1) = element_heap (content w)"
    "iterator_count (content w1) = iterator_count (content w)"
    "latest_generation (content w1) = latest_generation (content w) + 1"
    "set_member w1 new = set_member w src" "sees (latest_generation (content w) + 1) ex (current_generation st)"
    "\<not> is_excluded_generation (latest_generation (content w) + 1) ex"
proof -
  let ?l = "latest_generation (content w)" and ?q = "current_generation st"
  let ?st = "\<lparr>set_state = copy_state (set_state st), current_generation = ?q, excluded_generations = excluded_generations st,
     set_iter = None, iteration_id = 0, iter_generation = 0\<rparr>"
  let ?w = "w\<lparr>lazy_copies := remove1 (cookie, src) (lazy_copies w), content := (content w)\<lparr>refcount := refcount (content w) + 1\<rparr>,
     gss_sets := (gss_sets w)(new \<mapsto> ?st)\<rparr>"
  have le: "?q \<le> ?l" and hist: "histories (content w)"
    and old: "\<And>g. ?q \<le> g \<Longrightarrow> \<not> is_excluded_generation g (excluded_generations st)"
    using wf st by (auto simp: family_wf_def below_latest_def)
  obtain f where f: "content_maps (content w) f" using wf by (auto simp: family_wf_def below_latest_def)
  have conn: "handle_client_copy_lazy_connect vt new cookie w = advance_generation new ?w"
    using new req st vt by (simp add: handle_client_copy_lazy_connect_def)
  obtain w1 where w1: "advance_generation new ?w = Some w1"
    using le by (cases "?q = ?l") (auto simp: advance_generation_def)
  have gens: "generations ?w = (generations w)(new \<mapsto> (?q, excluded_generations st))" by (auto simp: generations_def fun_eq_iff)
  obtain ex where e: "w1 = ?w\<lparr>content := (content ?w)\<lparr>latest_generation := ?l + 1\<rparr>,
      gss_sets := (gss_sets ?w)(new \<mapsto> ?st\<lparr>current_generation := ?l + 1, excluded_generations := ex\<rparr>)\<rparr>"
    and ex: "\<And>g. is_excluded_generation g ex \<longleftrightarrow> is_excluded_generation g (excluded_generations st) \<or> (?q < g \<and> g \<le> ?l)"
    by (rule advance_generation_fresh[OF w1, of ?st]) (use top in auto)
  note view = advance_view[OF f hist le top old ex]
  have g1: "generations w1 = (generations w)(new \<mapsto> (?l + 1, ex))" by (auto simp: e generations_def fun_eq_iff)
  have c: "elements (content w1) = elements (content w)" "element_heap (content w1) = element_heap (content w)" by (simp_all add: e)
  have "generations w1 new = Some (?l + 1, ex)" using g1 by simp
  then have "set_member w1 new = set_member w src"
    using view(1) st in_view_cong[OF c] set_member_gen[of w1 new] set_member_gen[of w src] by (simp add: generations_def)
  moreover have "?q < ?l + 1" using inc_less_eq_iff[of ?l ?q] top le by (simp add: not_le[symmetric])
  then have "sees (?l + 1) ex ?q" using old[of ?q] ex[of ?q] by (simp add: sees_def)
  ultimately show ?thesis using that[OF _ g1 c] conn w1 view(2) by (simp add: e)
qed

lemma undefined_member_aborts:
  assumes "gss_sets w sid = Some st" "set_member w sid (eh (message_element m)) = None" "iterator_count (content w) = 0"
    and "msg_type m \<noteq> SET_OTHER"
  shows "handle_client_mutation eh vt sid m w = None"
proof -
  obtain a where "GNUNET_CONTAINER_multihashmap_get (elements (content w)) (eh (message_element m)) = Some a"
    "GSS_is_element_of_set (element_heap (content w) ! a) st = None"
    using assms(1,2) by (auto simp: set_member_def in_view_def GSS_is_element_of_set_def split: option.splits)
  then show ?thesis using assms(1,3,4)
    by (cases "msg_type m") (auto simp: handle_client_mutation_def execute_mutation_def execute_add_def execute_remove_def Let_def)
qed

text \<open>What an addition does to a set that does not have the element, whatever the other sets see.\<close>

lemma addition_effect:
  assumes "gss_sets w sid = Some st" "content_maps (content w) f" "iterator_count (content w) = 0" "msg_type m = SET_ADD" "vt_total vt"
    and "set_member w sid (eh (message_element m)) = Some False"
    and "f (eh (message_element m)) = None \<Longrightarrow> chainmap_room (elements (content w))"
  obtains w' f' where "handle_client_mutation eh vt sid m w = Some w'" "generations w' = generations w" "iterator_count (content w') = 0"
    "content_maps (content w') f'" "in_view (content w') = after_mutation (content w) (eh (message_element m)) True (current_generation st)"
proof -
  obtain w' where w': "execute_add eh vt sid m w = Some w'" using execute_add_returns[OF assms(1,2,7,5)] assms(6) by auto
  note mut = execute_add_mutates[OF assms(1,2) w']
  have "in_view (content w) (current_generation st) (excluded_generations st) (eh (message_element m)) = Some False"
    using assms(1,6) by (simp add: set_member_def)
  then obtain f' where "content_maps (content w') f'" "iterator_count (content w') = 0"
    "in_view (content w') = after_mutation (content w) (eh (message_element m)) True (current_generation st)"
    using mut assms(3) unfolding mutates_def mutation_frame_def by (auto split: if_splits)
  moreover have "handle_client_mutation eh vt sid m w = Some w'"
    using w' assms(1,3,4) by (simp add: handle_client_mutation_def execute_mutation_def)
  moreover have "generations w' = generations w" using mutates_quiet[OF assms(1,2) mut] by (simp add: quiet_def)
  ultimately show ?thesis using that by blast
qed

lemma generations_set: "generations w sid = Some (g, ex) \<Longrightarrow>
    \<exists>st. gss_sets w sid = Some st \<and> current_generation st = g \<and> excluded_generations st = ex"
  by (simp add: generations_Some)

text \<open>C36: A lazy copy is not independent of its source. Once the copy exists, an element that is added to the copy and then to the source has a
  history in which the copy sees two additions in a row, and the next time the copy's client names the element the service runs into a
  failed assertion.\<close>

theorem lazy_copy_mutation_aborts:
  assumes "family_wf w" "latest_generation (content w) \<noteq> - 1" "gss_sets w new = None"
    and "List.find (\<lambda>cr. fst cr = cookie) (lazy_copies w) = Some (cookie, src)" "gss_sets w src = Some st"
    and "vt_copy_state vt = Some copy_state" "vt_total vt" "iterator_count (content w) = 0" "chainmap_room (elements (content w))"
    and "msg_type m = SET_ADD" "set_member w src (eh (message_element m)) = Some False"
  shows "\<exists>w1 w2 w3. handle_client_copy_lazy_connect vt new cookie w = Some w1 \<and>
    handle_client_mutation eh vt new m w1 = Some w2 \<and> handle_client_mutation eh vt src m w2 = Some w3 \<and>
    handle_client_mutation eh vt new m w3 = None"
proof -
  let ?l = "latest_generation (content w)" and ?q = "current_generation st" and ?h = "eh (message_element m)"
  obtain w1 ex where w1: "handle_client_copy_lazy_connect vt new cookie w = Some w1"
      "generations w1 = (generations w)(new \<mapsto> (?l + 1, ex))"
    and c1: "elements (content w1) = elements (content w)" "element_heap (content w1) = element_heap (content w)"
      "iterator_count (content w1) = iterator_count (content w)"
    and m1: "set_member w1 new = set_member w src" and sees: "sees (?l + 1) ex ?q" and cur: "\<not> is_excluded_generation (?l + 1) ex"
    by (rule connect_copies[OF assms(1-6)]) metis
  have src: "generations w src = Some (?q, excluded_generations st)" using assms(5) by (simp add: generations_def)
  have ne: "src \<noteq> new" using assms(3,5) by auto
  obtain st1 where st1: "gss_sets w1 new = Some st1" "current_generation st1 = ?l + 1"
    using generations_set[of w1 new "?l + 1" ex] w1(2) by auto
  obtain f where "content_maps (content w) f" using assms(1) by (auto simp: family_wf_def below_latest_def)
  then have f: "content_maps (content w1) f" using content_maps_cong[OF c1(1,2)] by simp
  obtain w2 f2 where w2: "handle_client_mutation eh vt new m w1 = Some w2" "generations w2 = generations w1" "iterator_count (content w2) = 0"
    "content_maps (content w2) f2" "in_view (content w2) = after_mutation (content w1) ?h True (?l + 1)"
    by (rule addition_effect[OF st1(1) f _ assms(10,7), of eh]) (use assms(8,9,11) c1 m1 st1(2) in \<open>auto simp: fun_eq_iff\<close>)
  have q: "?q \<le> ?l" using assms(1,5) by (auto simp: family_wf_def below_latest_def)
  then have "?q < ?l + 1" using inc_less_eq_iff[of ?l ?q] assms(2) by (simp add: not_le[symmetric])
  then have "\<not> sees ?q (excluded_generations st) (?l + 1)" by (simp add: sees_def not_le)
  then have s2: "set_member w2 src ?h = Some False" and n2: "in_view (content w2) (?l + 1) ex ?h = Some True"
    using set_member_gen[of w2 src] set_member_gen[OF src] set_member_gen[of w1 new] w2 w1(2) src ne m1 assms(11) cur in_view_cong[OF c1(1,2)]
    by (auto simp: after_mutation_def sees_def)
  obtain st2 where st2: "gss_sets w2 src = Some st2" "current_generation st2 = ?q"
    using generations_set[of w2 src ?q] w2(2) w1(2) src ne by auto
  have "f2 ?h \<noteq> None" using n2 content_get[OF w2(4), of ?h] by (auto simp: in_view_def split: option.splits)
  then obtain w3 f3 where w3: "handle_client_mutation eh vt src m w2 = Some w3" "generations w3 = generations w2" "iterator_count (content w3) = 0"
    "in_view (content w3) = after_mutation (content w2) ?h True ?q"
    by (metis addition_effect[OF st2(1) w2(4,3) assms(10,7), of eh] s2 st2(2))
  have "set_member w3 new ?h = None"
    using set_member_gen[of w3 new] w3 w2(2) w1(2) sees cur n2 by (simp add: after_mutation_def)
  moreover obtain st3 where "gss_sets w3 new = Some st3" using generations_set[of w3 new] w3(2) w2(2) w1(2) by auto
  ultimately have "handle_client_mutation eh vt new m w3 = None"
    using undefined_member_aborts[of w3 new st3 eh m vt] w3(3) assms(10) by simp
  then show ?thesis using w1(1) w2(1) w3(1) by blast
qed

theorem lazy_copy_mutation_aborts_witness:
  "\<exists>w1 w2 w3. handle_client_copy_lazy_connect counting_vt 1 1 (handle_client_copy_lazy_prepare 0 sample_family) = Some w1 \<and>
    handle_client_mutation first_byte_hash counting_vt 1 (sample_add 7) w1 = Some w2 \<and>
    handle_client_mutation first_byte_hash counting_vt 0 (sample_add 7) w2 = Some w3 \<and>
    handle_client_mutation first_byte_hash counting_vt 1 (sample_add 7) w3 = None"
proof -
  let ?w = "handle_client_copy_lazy_prepare 0 sample_family"
  have w: "content ?w = content sample_family" "gss_sets ?w = gss_sets sample_family" "lazy_copies ?w = [(1, 0)]"
    by (simp_all add: handle_client_copy_lazy_prepare_def sample_family_facts)
  then have "set_member ?w = set_member sample_family" by (intro ext) (simp add: set_member_def split: option.split)
  moreover from this have "family_wf ?w"
    using sample_family_facts(1) w by (simp add: family_wf_def below_latest_def others_unseen_def)
  ultimately show ?thesis
    by (intro lazy_copy_mutation_aborts[of ?w 1 1 0 _ counting_vt "\<lambda>s. s" "sample_add 7" first_byte_hash])
      (use sample_family_facts(6) in \<open>simp_all add: w sample_family_facts sample_add_def\<close>)
qed

section \<open>Iterations\<close>

text \<open>The sets that are iterated over. Each counts as one of the iterators of the content.\<close>

definition iterating :: "'s family \<Rightarrow> nat set" where
  "iterating w = {sid. \<exists>st. gss_sets w sid = Some st \<and> set_iter st \<noteq> None}"

text \<open>Elements are frozen while more iterators are counted than there are iterations.\<close>

definition frozen :: "SetContent \<Rightarrow> 's family \<Rightarrow> bool" where
  "frozen c w \<longleftrightarrow> finite (iterating w) \<and> int (card (iterating w)) < iterator_count (content w) \<and>
     elements (content w) = elements c \<and> element_heap (content w) = element_heap c"

lemma frozen_frame:
  assumes "frozen c w" "iterating w' \<subseteq> iterating w" "iterator_count (content w') = iterator_count (content w)"
    and "elements (content w') = elements (content w)" "element_heap (content w') = element_heap (content w)"
  shows "frozen c w'"
  using assms card_mono[of "iterating w" "iterating w'"] by (auto simp: frozen_def intro: finite_subset)

lemma iterating_upd:
  "gss_sets w' = (gss_sets w)(sid \<mapsto> st) \<Longrightarrow>
     iterating w' = (if set_iter st = None then iterating w - {sid} else insert sid (iterating w))"
  by (auto simp: iterating_def)

lemma send_client_element_frozen:
  assumes "gss_send_client_element eh vt sid w = Some w'" "frozen c w"
  shows "frozen c w'"
proof -
  obtain st it e it' where st: "gss_sets w sid = Some st" "set_iter st = Some it"
    and e: "next_of_iteration (Suc (length (concat (mhm_map (elements (content w)))))) (content w) st it = Some (e, it')"
    using assms(1) unfolding gss_send_client_element_def by (auto split: option.splits bind_splits)
  have i: "sid \<in> iterating w" "finite (iterating w)" "int (card (iterating w)) < iterator_count (content w)"
    using st assms(2) by (auto simp: iterating_def frozen_def)
  show ?thesis
  proof (cases e)
    case (Some a)
    then have w': "gss_sets w' = (gss_sets w)(sid \<mapsto> st\<lparr>set_iter := Some it'\<rparr>)" "content w' = content w"
      using assms(1) st e by (auto simp: gss_send_client_element_def Let_def simp del: next_of_iteration.simps)
    show ?thesis by (rule frozen_frame[OF assms(2)]) (use w' i iterating_upd[OF w'(1)] in auto)
  next
    case None
    have "card (iterating w) \<noteq> 0" using i by auto
    then have two: "0 < iterator_count (content w)" "iterator_count (content w) - 1 \<noteq> 0" using i(3) by linarith+
    then have "gss_sets w' = (gss_sets w)(sid \<mapsto> st\<lparr>set_iter := None, iteration_id := iteration_id st + 1\<rparr>) \<and>
        content w' = (content w)\<lparr>iterator_count := iterator_count (content w) - 1\<rparr>"
      using assms(1) st e None by (auto simp: gss_send_client_element_def Let_def simp del: next_of_iteration.simps)
    then have w': "gss_sets w' = (gss_sets w)(sid \<mapsto> st\<lparr>set_iter := None, iteration_id := iteration_id st + 1\<rparr>)"
        "content w' = (content w)\<lparr>iterator_count := iterator_count (content w) - 1\<rparr>" by auto
    have "iterating w' = iterating w - {sid}" using iterating_upd[OF w'(1)] by simp
    then have "finite (iterating w')" "int (card (iterating w')) = int (card (iterating w)) - 1"
      using i card_Suc_Diff1[OF i(2,1)] by simp_all
    then show ?thesis using i(3) assms(2) by (simp add: frozen_def w'(2))
  qed
qed

lemma advance_generation_frozen:
  assumes "advance_generation sid w = Some w'" "frozen c w"
  shows "frozen c w'"
proof (rule frozen_frame[OF assms(2)])
  obtain st st' where "gss_sets w sid = Some st" "gss_sets w' = (gss_sets w)(sid \<mapsto> st')" "set_iter st' = set_iter st"
    using assms(1) by (cases "gss_sets w sid") (auto simp: advance_generation_def Let_def split: if_splits)
  then show "iterating w' \<subseteq> iterating w" by (auto simp: iterating_def split: if_splits)
qed (use assms(1) in \<open>auto simp: advance_generation_def Let_def split: option.splits if_splits\<close>)

lemma set_destroy_frozen:
  assumes "set_destroy sid w = Some w'" "frozen c w"
  shows "frozen c w'"
  by (rule frozen_frame[OF assms(2)]) (use assms(1) in \<open>auto simp: set_destroy_def iterating_def split: option.splits if_splits\<close>)

lemma set_step_frozen:
  assumes "set_step eh vt w w'" "frozen c w"
  shows "frozen c w'"
  using assms(1)
proof cases
  case (step_mutation sid m)
  have "iterator_count (content w) \<noteq> 0" using assms(2) by (auto simp: frozen_def)
  then have "w' = w \<or> w' = w\<lparr>content := (content w)\<lparr>pending_mutations := pending_mutations (content w) @ [(sid, m)]\<rparr>\<rparr>"
    using step_mutation by (auto simp: handle_client_mutation_def split: option.splits)
  then show ?thesis using assms(2) by (auto simp: frozen_def iterating_def)
next
  case (step_iterate sid)
  show ?thesis
  proof (cases "w' = w \<or> set_destroy sid w = Some w'")
    case False
    then obtain st where st: "gss_sets w sid = Some st" "set_iter st = None"
      using step_iterate by (cases "gss_sets w sid") (auto simp: handle_client_iterate_def split: if_splits)
    let ?w = "w\<lparr>content := (content w)\<lparr>iterator_count := iterator_count (content w) + 1\<rparr>,
       gss_sets := (gss_sets w)(sid \<mapsto> st\<lparr>set_iter := Some (GNUNET_CONTAINER_multihashmap_iterator_create (elements (content w))),
         iter_generation := current_generation st\<rparr>)\<rparr>"
    have "sid \<notin> iterating w" using st by (simp add: iterating_def)
    moreover have "iterating ?w = insert sid (iterating w)" using iterating_upd[of ?w w sid] by simp
    ultimately have "frozen c ?w" using assms(2) by (simp add: frozen_def)
    then show ?thesis using send_client_element_frozen[of eh vt sid ?w w' c] step_iterate st by (simp add: handle_client_iterate_def)
  qed (use assms(2) set_destroy_frozen in blast)
next
  case (step_ack sid send_more)
  show ?thesis
  proof (cases "gss_send_client_element eh vt sid w = Some w' \<or> w' = w \<or> set_destroy sid w = Some w'")
    case True
    then show ?thesis using send_client_element_frozen[OF _ assms(2)] set_destroy_frozen assms(2) by blast
  next
    case False
    then obtain st where "w' = w\<lparr>gss_sets := (gss_sets w)(sid \<mapsto> st\<lparr>set_iter := None, iteration_id := iteration_id st + 1\<rparr>)\<rparr>"
      using step_ack by (auto simp: handle_client_iter_ack_def split: option.splits if_splits)
    moreover from this have "iterating w' = iterating w - {sid}" using iterating_upd[of w' w sid] by simp
    ultimately show ?thesis by (intro frozen_frame[OF assms(2)]) auto
  qed
next
  case (step_prepare sid)
  show ?thesis by (rule frozen_frame[OF assms(2)]) (auto simp: step_prepare handle_client_copy_lazy_prepare_def iterating_def split: option.splits)
next
  case (step_start sid)
  show ?thesis
  proof (cases "w' = w")
    case False
    then obtain w1 ops where w1: "advance_generation sid w = Some w1" "w' = w1\<lparr>gss_ops := ops\<rparr>"
      using step_start(2) by (auto simp: start_operation_def split: option.splits)
    then have "frozen c w1" using advance_generation_frozen[OF _ assms(2)] by blast
    then show ?thesis by (rule frozen_frame) (simp_all add: w1(2) iterating_def)
  qed (use assms(2) in simp)
next
  case (step_connect new cookie)
  show ?thesis
  proof (rule copy_lazy_connect_cases[OF step_connect(2)], goal_cases)
    case 1
    then show ?case by (intro frozen_frame[OF assms(2)]) (auto simp: iterating_def)
  next
    case 2
    then show ?case using set_destroy_frozen assms(2) by blast
  next
    case (3 id src st1 copy_state w1)
    have "frozen c w1" by (rule frozen_frame[OF assms(2)]) (auto simp: 3(5,6) iterating_def split: if_splits)
    then show ?case using advance_generation_frozen 3(7) by blast
  qed
next
  case (step_end op)
  show ?thesis by (rule frozen_frame[OF assms(2)]) (auto simp: step_end GSS_operation_destroy_def iterating_def)
next
  case (step_destroy sid)
  then show ?thesis using set_destroy_frozen assms(2) by blast
qed

lemma set_steps_frozen: "(set_step eh vt)\<^sup>*\<^sup>* w w' \<Longrightarrow> frozen c w \<Longrightarrow> frozen c w'"
  by (induction rule: rtranclp_induct) (auto intro: set_step_frozen)

text \<open>The entries an iterator has yet to visit.\<close>

abbreviation unvisited :: "SetContent \<Rightarrow> nat MultiHashMapIterator \<Rightarrow> nat HashEntryOf list" where
  "unvisited c it \<equiv> iterator_rest (elements c) (it_idx it) (it_me it)"

lemma next_of_iteration_spec:
  assumes "mhm_wf (elements c)"
  shows "it_modification_counter it = modification_counter (elements c) \<Longrightarrow>
    (\<forall>e \<in> set (unvisited c it). is_element_of_iteration (element_heap c ! me_value e) st = Some (P e)) \<Longrightarrow>
    length (unvisited c it) < n \<Longrightarrow>
    \<exists>it'. next_of_iteration n c st it = Some (case filter P (unvisited c it) of [] \<Rightarrow> None | e # es \<Rightarrow> Some (me_value e), it') \<and>
      it_modification_counter it' = modification_counter (elements c) \<and>
      filter P (unvisited c it') = tl (filter P (unvisited c it)) \<and> set (unvisited c it') \<subseteq> set (unvisited c it) \<and>
      length (unvisited c it') \<le> length (unvisited c it)"
proof (induction n arbitrary: it)
  case (Suc n)
  obtain it1 where it1: "GNUNET_CONTAINER_multihashmap_iterator_next (elements c) it =
        Some (case unvisited c it of [] \<Rightarrow> None | e # es \<Rightarrow> Some e, it1)"
      "it_modification_counter it1 = modification_counter (elements c)" "unvisited c it1 = tl (unvisited c it)"
    using chainmap_iterator_next_pops[OF assms Suc.prems(1)] by (auto simp: multihashmap_defs)
  show ?case
  proof (cases "unvisited c it")
    case Nil
    then show ?thesis using it1 by simp
  next
    case (Cons e es)
    then have e: "is_element_of_iteration (element_heap c ! me_value e) st = Some (P e)" using Suc.prems(2) by simp
    show ?thesis
    proof (cases "P e")
      case True
      then show ?thesis using it1 Cons e by auto
    next
      case False
      have "\<exists>it'. next_of_iteration n c st it1 = Some (case filter P (unvisited c it1) of [] \<Rightarrow> None | e # es \<Rightarrow> Some (me_value e), it') \<and>
          it_modification_counter it' = modification_counter (elements c) \<and>
          filter P (unvisited c it') = tl (filter P (unvisited c it1)) \<and> set (unvisited c it') \<subseteq> set (unvisited c it1) \<and>
          length (unvisited c it') \<le> length (unvisited c it1)"
        by (rule Suc.IH) (use it1 Cons Suc.prems in auto)
      then show ?thesis using it1 Cons e False by auto
    qed
  qed
qed simp

text \<open>A client that acknowledges \<open>n\<close> elements and asks for more each time.\<close>

fun acknowledge :: "(GNUNET_SET_Element \<Rightarrow> GNUNET_HashCode) \<Rightarrow> 's SetVT \<Rightarrow> nat \<Rightarrow> nat \<Rightarrow> 's family \<Rightarrow> 's family option" where
  "acknowledge eh vt sid 0 w = Some w"
| "acknowledge eh vt sid (Suc n) w = Option.bind (handle_client_iter_ack eh vt sid 1 w) (acknowledge eh vt sid n)"

definition element_message :: "SetContent \<Rightarrow> uint16 \<Rightarrow> nat \<Rightarrow> client_message" where
  "element_message c iteration a = ITER_ELEMENT (htons (el_type (ee_element (element_heap c ! a)))) (htons iteration)
     (el_data (ee_element (element_heap c ! a)))"

lemma iteration_send:
  assumes "mhm_wf (elements c)" "content w = c" "gss_sets w sid = Some st" "set_iter st = Some it"
    and "it_modification_counter it = modification_counter (elements c)"
    and "\<forall>e \<in> set (unvisited c it). is_element_of_iteration (element_heap c ! me_value e) st = Some (P e)"
    and "length (unvisited c it) \<le> length (concat (mhm_map (elements c)))" "filter P (unvisited c it) = e # es"
  obtains it' where "it_modification_counter it' = modification_counter (elements c)" "filter P (unvisited c it') = es"
    "set (unvisited c it') \<subseteq> set (unvisited c it)" "length (unvisited c it') \<le> length (unvisited c it)"
    "gss_send_client_element eh vt sid w = Some (w\<lparr>gss_sets := (gss_sets w)(sid \<mapsto> st\<lparr>set_iter := Some it'\<rparr>),
      client_mq := client_mq w @ [(sid, element_message c (iteration_id st) (me_value e))]\<rparr>)"
proof -
  obtain it' where it': "next_of_iteration (Suc (length (concat (mhm_map (elements c))))) c st it = Some (Some (me_value e), it')"
      "it_modification_counter it' = modification_counter (elements c)" "filter P (unvisited c it') = es"
      "set (unvisited c it') \<subseteq> set (unvisited c it)" "length (unvisited c it') \<le> length (unvisited c it)"
    using next_of_iteration_spec[OF assms(1,5,6), of "Suc (length (concat (mhm_map (elements c))))"] assms(7,8)
    by (auto simp: less_Suc_eq_le simp del: next_of_iteration.simps length_concat)
  then show ?thesis using assms(2-4)
    by (intro that[of it']) (simp_all add: gss_send_client_element_def Let_def element_message_def del: next_of_iteration.simps)
qed

lemma iteration_run:
  assumes "mhm_wf (elements c)" "iterator_count c = 1" "pending_mutations c = []"
  shows "content w = c \<Longrightarrow> gss_sets w sid = Some st \<Longrightarrow> set_iter st = Some it \<Longrightarrow>
    it_modification_counter it = modification_counter (elements c) \<Longrightarrow>
    (\<forall>e \<in> set (unvisited c it). is_element_of_iteration (element_heap c ! me_value e) st = Some (P e)) \<Longrightarrow>
    length (unvisited c it) \<le> length (concat (mhm_map (elements c))) \<Longrightarrow> filter P (unvisited c it) = es \<Longrightarrow>
    Option.bind (gss_send_client_element eh vt sid w) (acknowledge eh vt sid (length es)) =
      Some (w\<lparr>gss_sets := (gss_sets w)(sid \<mapsto> st\<lparr>set_iter := None, iteration_id := iteration_id st + 1\<rparr>),
        content := c\<lparr>iterator_count := 0\<rparr>,
        client_mq := client_mq w @ map (\<lambda>e. (sid, element_message c (iteration_id st) (me_value e))) es @ [(sid, ITER_DONE)]\<rparr>)"
proof (induction es arbitrary: w st it)
  case Nil
  obtain it' where "next_of_iteration (Suc (length (concat (mhm_map (elements c))))) c st it = Some (None, it')"
    using next_of_iteration_spec[OF assms(1) Nil.prems(4,5), of "Suc (length (concat (mhm_map (elements c))))"] Nil.prems(6,7)
    by (auto simp: less_Suc_eq_le simp del: next_of_iteration.simps length_concat)
  then show ?case using Nil.prems(1-3) assms(2,3)
    by (simp add: gss_send_client_element_def Let_def fun_upd_def del: next_of_iteration.simps)
next
  case (Cons e es)
  obtain it' where it': "it_modification_counter it' = modification_counter (elements c)" "filter P (unvisited c it') = es"
      "set (unvisited c it') \<subseteq> set (unvisited c it)" "length (unvisited c it') \<le> length (unvisited c it)"
    and send: "gss_send_client_element eh vt sid w = Some (w\<lparr>gss_sets := (gss_sets w)(sid \<mapsto> st\<lparr>set_iter := Some it'\<rparr>),
      client_mq := client_mq w @ [(sid, element_message c (iteration_id st) (me_value e))]\<rparr>)"
    by (rule iteration_send[OF assms(1) Cons.prems])
  let ?st = "st\<lparr>set_iter := Some it'\<rparr>"
  let ?w = "w\<lparr>gss_sets := (gss_sets w)(sid \<mapsto> ?st), client_mq := client_mq w @ [(sid, element_message c (iteration_id st) (me_value e))]\<rparr>"
  have ack: "handle_client_iter_ack eh vt sid 1 ?w = gss_send_client_element eh vt sid ?w"
    by (simp add: handle_client_iter_ack_def htonl_def)
  have "Option.bind (gss_send_client_element eh vt sid ?w) (acknowledge eh vt sid (length es)) =
      Some (?w\<lparr>gss_sets := (gss_sets ?w)(sid \<mapsto> ?st\<lparr>set_iter := None, iteration_id := iteration_id ?st + 1\<rparr>),
        content := c\<lparr>iterator_count := 0\<rparr>,
        client_mq := client_mq ?w @ map (\<lambda>e. (sid, element_message c (iteration_id ?st) (me_value e))) es @ [(sid, ITER_DONE)]\<rparr>)"
    by (rule Cons.IH[of ?w ?st it']) (use Cons.prems it' in \<open>auto simp: is_element_of_iteration_def\<close>)
  then show ?case by (simp add: send ack, simp add: fun_upd_def)
qed

text \<open>The entries of the table are the elements, each once.\<close>

lemma content_entries:
  assumes "content_maps c f"
  shows "distinct (map me_key (concat (mhm_map (elements c))))" "set (map me_key (concat (mhm_map (elements c)))) = dom f"
    "\<And>e. e \<in> set (concat (mhm_map (elements c))) \<Longrightarrow> f (me_key e) = Some (me_value e)"
proof -
  let ?es = "concat (mhm_map (elements c))"
  have f: "finite (dom f)" "image_mset entry_pair (mset ?es) = map_entries f"
    using assms by (simp_all add: content_maps_def mhm_entries_def)
  have "mset (map me_key ?es) = image_mset fst (image_mset entry_pair (mset ?es))"
    by (simp add: image_mset.compositionality o_def entry_pair_def)
  also have "\<dots> = mset_set (dom f)" by (simp add: f(2) map_entries_def image_mset.compositionality o_def)
  finally have m: "mset (map me_key ?es) = mset_set (dom f)" .
  then show keys: "set (map me_key ?es) = dom f" using f(1) by (metis finite_set_mset_mset_set set_mset_mset)
  show "distinct (map me_key ?es)" unfolding distinct_count_atmost_1 m keys by (simp add: count_mset_set' f(1))
  show "f (me_key e) = Some (me_value e)" if "e \<in> set ?es" for e
  proof -
    have "entry_pair e \<in># map_entries f" using that f(2) by (metis image_eqI set_image_mset set_mset_mset)
    then show ?thesis using f(1) by (simp add: entry_pair_def map_entries_mem)
  qed
qed

lemma iteration_complete:
  assumes "content_maps (content w) f" "gss_sets w sid = Some st" "set_iter st = None" "\<forall>h. set_member w sid h \<noteq> None"
    and "iterator_count (content w) = 0" "pending_mutations (content w) = []"
  obtains hs w1 w2 where "handle_client_iterate eh vt sid w = Some w1" "acknowledge eh vt sid (length hs) w1 = Some w2"
    "distinct hs" "set hs = {h. set_member w sid h = Some True}" "content w2 = content w"
    "client_mq w2 = client_mq w @ map (\<lambda>h. (sid, element_message (content w) (iteration_id st) (the (f h)))) hs @ [(sid, ITER_DONE)]"
    "hs \<noteq> [] \<Longrightarrow> iterating w1 = insert sid (iterating w) \<and> iterator_count (content w1) = 1"
proof -
  let ?c = "(content w)\<lparr>iterator_count := 1\<rparr>" and ?it = "GNUNET_CONTAINER_multihashmap_iterator_create (elements (content w))"
  let ?st = "st\<lparr>set_iter := Some ?it, iter_generation := current_generation st\<rparr>"
  let ?w = "w\<lparr>content := ?c, gss_sets := (gss_sets w)(sid \<mapsto> ?st)\<rparr>"
  let ?es = "concat (mhm_map (elements (content w)))" and ?P = "\<lambda>e. set_member w sid (me_key e) = Some True"
  have wf: "mhm_wf (elements (content w))" using assms(1) by (simp add: content_maps_def)
  note entries = content_entries[OF assms(1)]
  have it: "it_modification_counter ?it = modification_counter (elements (content w))" "unvisited (content w) ?it = ?es"
    using chainmap_iterator_next_pops[OF wf, of "chainmap_iterator_create (elements (content w))"]
    by (simp_all add: multihashmap_defs chainmap_iterator_create_def Let_def)
  have mem: "set_member w sid (me_key e) = is_element_of_iteration (element_heap (content w) ! me_value e) ?st" if "e \<in> set ?es" for e
    using entries(3)[OF that] content_get[OF assms(1)] assms(2) by (simp add: set_member_def in_view_def is_element_of_iteration_def)
  have P: "\<forall>e \<in> set ?es. is_element_of_iteration (element_heap (content w) ! me_value e) ?st = Some (?P e)"
  proof
    fix e assume "e \<in> set ?es"
    moreover obtain b where "set_member w sid (me_key e) = Some b" using assms(4) by blast
    ultimately show "is_element_of_iteration (element_heap (content w) ! me_value e) ?st = Some (?P e)" using mem by simp
  qed
  define hs where "hs = map me_key (filter ?P ?es)"
  have run: "Option.bind (gss_send_client_element eh vt sid ?w) (acknowledge eh vt sid (length (filter ?P ?es))) =
      Some (?w\<lparr>gss_sets := (gss_sets ?w)(sid \<mapsto> ?st\<lparr>set_iter := None, iteration_id := iteration_id ?st + 1\<rparr>),
        content := ?c\<lparr>iterator_count := 0\<rparr>,
        client_mq := client_mq ?w @ map (\<lambda>e. (sid, element_message ?c (iteration_id ?st) (me_value e))) (filter ?P ?es) @ [(sid, ITER_DONE)]\<rparr>)"
    by (rule iteration_run[of ?c ?w sid ?st ?it ?P]) (use wf assms(6) it P in \<open>simp_all del: length_concat\<close>)
  have iter: "handle_client_iterate eh vt sid w = gss_send_client_element eh vt sid ?w"
    using assms(2,3,5) by (simp add: handle_client_iterate_def)
  then obtain w1 w2 where w: "handle_client_iterate eh vt sid w = Some w1" "acknowledge eh vt sid (length hs) w1 = Some w2"
    "content w2 = (content w)\<lparr>iterator_count := 0\<rparr>"
    "client_mq w2 = client_mq w @ map (\<lambda>e. (sid, element_message ?c (iteration_id st) (me_value e))) (filter ?P ?es) @ [(sid, ITER_DONE)]"
    using run by (auto simp: hs_def bind_eq_Some_conv)
  have mq: "map (\<lambda>e. (sid, element_message ?c (iteration_id st) (me_value e))) (filter ?P ?es) =
      map (\<lambda>h. (sid, element_message (content w) (iteration_id st) (the (f h)))) hs"
    using entries(3) by (auto simp: hs_def element_message_def)
  have "set hs = {h. set_member w sid h = Some True}"
  proof -
    have "f h \<noteq> None" if "set_member w sid h = Some True" for h
      using that assms(2) content_get[OF assms(1), of h] by (auto simp: set_member_def in_view_def split: option.splits)
    moreover have "set hs = {h \<in> set (map me_key ?es). set_member w sid h = Some True}" by (auto simp: hs_def)
    ultimately show ?thesis unfolding entries(2) by auto
  qed
  moreover have "distinct hs" using entries(1) unfolding hs_def by (metis distinct_map_filter)
  moreover have "content w2 = content w" using w(3) assms(5) by simp
  moreover have "iterating w1 = insert sid (iterating w) \<and> iterator_count (content w1) = 1" if "hs \<noteq> []"
  proof -
    obtain e es where es: "filter ?P (unvisited ?c ?it) = e # es" using \<open>hs \<noteq> []\<close> it(2) by (cases "filter ?P ?es") (auto simp: hs_def)
    have pre: "mhm_wf (elements ?c)" "content ?w = ?c" "gss_sets ?w sid = Some ?st" "set_iter ?st = Some ?it"
        "it_modification_counter ?it = modification_counter (elements ?c)"
        "\<forall>e \<in> set (unvisited ?c ?it). is_element_of_iteration (element_heap ?c ! me_value e) ?st = Some (?P e)"
        "length (unvisited ?c ?it) \<le> length (concat (mhm_map (elements ?c)))"
      using wf it P by (simp_all del: length_concat)
    obtain it' where "gss_send_client_element eh vt sid ?w = Some (?w\<lparr>gss_sets := (gss_sets ?w)(sid \<mapsto> ?st\<lparr>set_iter := Some it'\<rparr>),
        client_mq := client_mq ?w @ [(sid, element_message ?c (iteration_id ?st) (me_value e))]\<rparr>)"
      by (rule iteration_send[OF pre es, of eh vt])
    then show ?thesis using iter w(1) by (auto simp: iterating_def)
  qed
  ultimately show ?thesis using that[OF w(1,2)] w(4) mq by simp
qed

text \<open>C19: An iteration is complete and exact. The client gets every element its set has, each once, and no others, with its type and data, then the
  end of the iteration; afterwards the content is as before.\<close>

theorem set_iteration_complete:
  assumes "family_wf w" "gss_sets w sid = Some st" "set_iter st = None"
    and "iterator_count (content w) = 0" "pending_mutations (content w) = []"
  shows "\<exists>hs w1 w2. handle_client_iterate eh vt sid w = Some w1 \<and> acknowledge eh vt sid (length hs) w1 = Some w2 \<and>
    distinct hs \<and> set hs = {h. set_member w sid h = Some True} \<and> content w2 = content w \<and>
    client_mq w2 = client_mq w @ map (\<lambda>h. (sid, element_message (content w) (iteration_id st)
      (the (GNUNET_CONTAINER_multihashmap_get (elements (content w)) h)))) hs @ [(sid, ITER_DONE)]"
proof -
  obtain f where f: "content_maps (content w) f" using assms(1) by (auto simp: family_wf_def below_latest_def)
  have "\<forall>h. set_member w sid h \<noteq> None" using assms(1,2) by (simp add: family_wf_def)
  then show ?thesis by (rule iteration_complete[OF f assms(2,3) _ assms(4,5), of eh vt]) (auto simp: content_get[OF f])
qed

text \<open>The family after one element was added.\<close>

lemma sample_filled:
  obtains w st where "handle_client_mutation first_byte_hash counting_vt 0 (sample_add 7) sample_family = Some w" "family_wf w"
    "{h. set_member w 0 h = Some True} = {hash_of_word 7}" "gss_sets w 0 = Some st" "set_iter st = None" "iteration_id st = 0" "iterating w = {}"
    "iterator_count (content w) = 0" "pending_mutations (content w) = []" "client_mq w = []"
proof -
  obtain w where w: "handle_client_mutation first_byte_hash counting_vt 0 (sample_add 7) sample_family = Some w" "family_wf w"
      "\<forall>sid h. set_member w sid h = (if sid = 0 \<and> h = first_byte_hash (message_element (sample_add 7)) then Some True else set_member sample_family sid h)"
    using mutation_family[OF sample_family_facts(1), of 0 _ "sample_add 7" True counting_vt first_byte_hash] sample_family_facts
    by (auto simp: sample_add_def)
  obtain st where st: "gss_sets sample_family 0 = Some st" by (simp add: sample_family_facts)
  have "execute_add first_byte_hash counting_vt 0 (sample_add 7) sample_family = Some w"
    using w(1) st sample_family_facts by (simp add: handle_client_mutation_def execute_mutation_def sample_add_def)
  from execute_add_mutates[OF st sample_family_facts(7) this]
  obtain c' s' where "w = sample_family\<lparr>content := c', gss_sets := (gss_sets sample_family)(0 \<mapsto> st\<lparr>set_state := s'\<rparr>)\<rparr>"
      "mutation_frame (content sample_family) c'"
    using st sample_family_facts(3) by (auto simp: mutates_def set_member_def)
  moreover have "{h. set_member w 0 h = Some True} = {hash_of_word 7}"
    using w(3) sample_family_facts(3) by (auto simp: first_byte_hash_def sample_add_def message_element_def)
  ultimately show ?thesis using w(1,2) st sample_family_facts
    by (intro that[of w "st\<lparr>set_state := s'\<rparr>"]) (auto simp: iterating_def mutation_frame_def split: if_splits)
qed

theorem set_iteration_complete_witness:
  "\<exists>w w1 w2. handle_client_mutation first_byte_hash counting_vt 0 (sample_add 7) sample_family = Some w \<and>
    handle_client_iterate first_byte_hash counting_vt 0 w = Some w1 \<and> handle_client_iter_ack first_byte_hash counting_vt 0 1 w1 = Some w2 \<and>
    (\<exists>msg. client_mq w2 = [msg, (0, ITER_DONE)])"
proof -
  obtain w st where w: "handle_client_mutation first_byte_hash counting_vt 0 (sample_add 7) sample_family = Some w" "family_wf w"
    "{h. set_member w 0 h = Some True} = {hash_of_word 7}" "gss_sets w 0 = Some st" "set_iter st = None" "iteration_id st = 0" "iterating w = {}"
    "iterator_count (content w) = 0" "pending_mutations (content w) = []" "client_mq w = []"
    by (rule sample_filled)
  obtain hs w1 w2 where hs: "handle_client_iterate first_byte_hash counting_vt 0 w = Some w1"
    "acknowledge first_byte_hash counting_vt 0 (length hs) w1 = Some w2" "distinct hs" "set hs = {hash_of_word 7}"
    "client_mq w2 = client_mq w @ map (\<lambda>h. (0, element_message (content w) (iteration_id st)
      (the (GNUNET_CONTAINER_multihashmap_get (elements (content w)) h)))) hs @ [(0, ITER_DONE)]"
    using set_iteration_complete[OF w(2,4,5,8,9), of first_byte_hash counting_vt] w(3) by auto
  have "length hs = 1" using distinct_card[OF hs(3)] hs(4) by simp
  then obtain h where h: "hs = [h]" by (auto simp: length_Suc_conv)
  have "handle_client_iter_ack first_byte_hash counting_vt 0 1 w1 = Some w2" using hs(2) h by (auto simp: bind_eq_Some_conv)
  then show ?thesis using w(1,10) hs(1,5) h by auto
qed

text \<open>C37: A client that ends an iteration early, with an acknowledgement that asks for no more elements, freezes the elements of the whole
  family for good: the iterator stays counted, so that whatever the clients do afterwards no addition or removal is carried
  out any more, only scheduled.\<close>

theorem iteration_abort_freezes:
  assumes "finite (iterating w)" "iterator_count (content w) = int (card (iterating w))" "sid \<in> iterating w"
    and "handle_client_iter_ack eh vt sid 0 w = Some w1" "(set_step eh vt)\<^sup>*\<^sup>* w1 w2"
  shows "elements (content w2) = elements (content w) \<and> element_heap (content w2) = element_heap (content w) \<and>
    iterator_count (content w2) > 0"
proof -
  obtain st where st: "gss_sets w sid = Some st" "set_iter st \<noteq> None" using assms(3) by (auto simp: iterating_def)
  then have w1: "w1 = w\<lparr>gss_sets := (gss_sets w)(sid \<mapsto> st\<lparr>set_iter := None, iteration_id := iteration_id st + 1\<rparr>)\<rparr>"
    using assms(4) by (auto simp: handle_client_iter_ack_def htonl_def)
  then have "iterating w1 = iterating w - {sid}" using iterating_upd[of w1 w sid] by simp
  then have "frozen (content w) w1" using w1 assms(1,2) card_Suc_Diff1[OF assms(1,3)] by (simp add: frozen_def)
  from set_steps_frozen[OF assms(5) this] show ?thesis by (auto simp: frozen_def)
qed

theorem iteration_abort_freezes_witness:
  "\<exists>w w1 w2 w3. handle_client_mutation first_byte_hash counting_vt 0 (sample_add 7) sample_family = Some w \<and>
    handle_client_iterate first_byte_hash counting_vt 0 w = Some w1 \<and> handle_client_iter_ack first_byte_hash counting_vt 0 0 w1 = Some w2 \<and>
    handle_client_mutation first_byte_hash counting_vt 0 (sample_add 8) w2 = Some w3 \<and> element_heap (content w3) = element_heap (content w1)"
proof -
  obtain w st where w: "handle_client_mutation first_byte_hash counting_vt 0 (sample_add 7) sample_family = Some w" "family_wf w"
    "{h. set_member w 0 h = Some True} = {hash_of_word 7}" "gss_sets w 0 = Some st" "set_iter st = None" "iteration_id st = 0" "iterating w = {}"
    "iterator_count (content w) = 0" "pending_mutations (content w) = []" "client_mq w = []"
    by (rule sample_filled)
  obtain f where f: "content_maps (content w) f" using w(2) by (auto simp: family_wf_def below_latest_def)
  have "\<forall>h. set_member w 0 h \<noteq> None" using w(2,4) by (simp add: family_wf_def)
  then obtain hs w1 where w1: "handle_client_iterate first_byte_hash counting_vt 0 w = Some w1" "set hs = {hash_of_word 7}"
      "hs \<noteq> [] \<Longrightarrow> iterating w1 = insert 0 (iterating w) \<and> iterator_count (content w1) = 1"
    using iteration_complete[OF f w(4,5) _ w(8,9), of first_byte_hash counting_vt] w(3) by metis
  moreover from this(2) have "hs \<noteq> []" by auto
  ultimately have i: "iterating w1 = {0}" "iterator_count (content w1) = 1" using w(7) by auto
  then have "0 \<in> iterating w1" by simp
  then obtain st1 where st1: "gss_sets w1 0 = Some st1" "set_iter st1 \<noteq> None" by (auto simp: iterating_def)
  then obtain w2 where w2: "handle_client_iter_ack first_byte_hash counting_vt 0 0 w1 = Some w2" "gss_sets w2 0 \<noteq> None" "content w2 = content w1"
    by (auto simp: handle_client_iter_ack_def htonl_def)
  then obtain w3 where w3: "handle_client_mutation first_byte_hash counting_vt 0 (sample_add 8) w2 = Some w3"
    using i(2) by (auto simp: handle_client_mutation_def)
  have "elements (content w3) = elements (content w1) \<and> element_heap (content w3) = element_heap (content w1) \<and> iterator_count (content w3) > 0"
    by (rule iteration_abort_freezes[OF _ _ _ w2(1)]) (use i step_mutation[OF w3] in auto)
  then show ?thesis using w(1) w1(1) w2(1) w3 by blast
qed

end
