(* ===== verification/Dns.thy ===== *)
theory Dns
  imports Time
begin

text \<open>
  The parser and the builder of DNS packets (\<^verbatim>\<open>src/src/dns/dnsparser.c\<close>). A payload is a list of bytes and an offset a natural number;
  every access goes through a function that is undefined out of range, so that the outer \<^verbatim>\<open>None\<close> of a result is an access outside of
  the payload, or of the buffer that is written, or to the wrong member of a union; the inner one is the \<^verbatim>\<open>NULL\<close> or
  \<^verbatim>\<open>GNUNET_SYSERR\<close> of a malformed packet. C strings are lists of bytes without zeros. The conversions between UTF-8 and IDNA, which
  are those of libidn, are arguments, as is the clock. Subtractions of sizes wrap around as \<^verbatim>\<open>size_t\<close> does.
\<close>

section \<open>Definitions\<close>

type_synonym cstring = "uint8 list"

record DnsQuery =
  q_name :: "cstring option"
  q_type :: uint16
  q_class :: uint16

record MxRecord =
  mx_preference :: uint16
  mx_host :: "cstring option"

record SrvRecord =
  srv_target :: "cstring option"
  srv_priority :: uint16
  srv_weight :: uint16
  srv_port :: uint16

record CertRecord =
  cert_type :: uint32
  cert_tag :: uint16
  cert_algorithm :: uint32
  certificate_data :: "uint8 list"

record SoaRecord =
  soa_mname :: "cstring option"
  soa_rname :: "cstring option"
  soa_serial :: uint32
  soa_refresh :: uint32
  soa_retry :: uint32
  soa_expire :: uint32
  soa_minimum_ttl :: uint32

text \<open>The union in a record.\<close>

datatype RecordData =
    DataHostname "cstring option"
  | DataSoa SoaRecord
  | DataCert CertRecord
  | DataMx MxRecord
  | DataSrv SrvRecord
  | DataRaw "uint8 list"

record DnsRecord =
  r_name :: "cstring option"
  r_data :: RecordData
  r_expiration :: GNUNET_TIME_Absolute
  r_type :: uint16
  r_class :: uint16

record DnsPacket =
  queries :: "DnsQuery list"
  answers :: "DnsRecord list"
  authority_records :: "DnsRecord list"
  additional_records :: "DnsRecord list"
  dns_flags :: uint16
  dns_id :: uint16

definition DNS_TYPE_NS :: uint16 where "DNS_TYPE_NS = 2"
definition DNS_TYPE_CNAME :: uint16 where "DNS_TYPE_CNAME = 5"
definition DNS_TYPE_SOA :: uint16 where "DNS_TYPE_SOA = 6"
definition DNS_TYPE_PTR :: uint16 where "DNS_TYPE_PTR = 12"
definition DNS_TYPE_MX :: uint16 where "DNS_TYPE_MX = 15"
definition DNS_TYPE_SRV :: uint16 where "DNS_TYPE_SRV = 33"
definition DNS_TYPE_CERT :: uint16 where "DNS_TYPE_CERT = 37"

lemmas dns_types = DNS_TYPE_NS_def DNS_TYPE_CNAME_def DNS_TYPE_SOA_def DNS_TYPE_PTR_def DNS_TYPE_MX_def DNS_TYPE_SRV_def DNS_TYPE_CERT_def

text \<open>Names are checked after conversion to IDNA.\<close>

definition GNUNET_DNSPARSER_check_label :: "(cstring \<Rightarrow> cstring option) \<Rightarrow> cstring \<Rightarrow> int" where
  "GNUNET_DNSPARSER_check_label to_ascii label =
     (if 46 \<in> set label then GNUNET_SYSERR
      else case to_ascii label of None \<Rightarrow> GNUNET_SYSERR
      | Some output \<Rightarrow> if length output > 63 then GNUNET_SYSERR else GNUNET_OK)"

text \<open>The tokens of \<^verbatim>\<open>strtok\<close>: the non-empty parts between dots.\<close>

function tokens :: "cstring \<Rightarrow> cstring list" where
  "tokens s = (let t = dropWhile (\<lambda>b. b = 46) s in
     if t = [] then [] else takeWhile (\<lambda>b. b \<noteq> 46) t # tokens (dropWhile (\<lambda>b. b \<noteq> 46) t))"
  by pat_completeness auto
termination
proof (relation "measure length", goal_cases)
  case (2 s t)
  then obtain b bs where "t = b # bs" "b \<noteq> 46" by (metis (full_types) hd_dropWhile list.exhaust_sel)
  then have "length (dropWhile (\<lambda>b. b \<noteq> 46) t) < length t" by (simp add: length_dropWhile_le less_Suc_eq_le)
  also have "\<dots> \<le> length s" using 2 by (simp add: length_dropWhile_le)
  finally show ?case by simp
qed simp

declare tokens.simps [simp del]

definition GNUNET_DNSPARSER_check_name :: "(cstring \<Rightarrow> cstring option) \<Rightarrow> cstring \<Rightarrow> int" where
  "GNUNET_DNSPARSER_check_name to_ascii name =
     (if \<exists>tok \<in> set (tokens name). GNUNET_DNSPARSER_check_label to_ascii tok \<noteq> GNUNET_OK then GNUNET_SYSERR
      else case to_ascii name of None \<Rightarrow> GNUNET_SYSERR
      | Some output \<Rightarrow> if length output > 253 then GNUNET_SYSERR else GNUNET_OK)"

text \<open>Freeing a record looks at the member of the union that belongs to its type.\<close>

definition GNUNET_DNSPARSER_free_record :: "DnsRecord \<Rightarrow> unit option" where
  "GNUNET_DNSPARSER_free_record r =
     (let t = r_type r in
      if t = DNS_TYPE_MX then (case r_data r of DataMx mx \<Rightarrow> Some () | _ \<Rightarrow> None)
      else if t = DNS_TYPE_SOA then (case r_data r of DataSoa soa \<Rightarrow> Some () | _ \<Rightarrow> None)
      else if t = DNS_TYPE_SRV then (case r_data r of DataSrv srv \<Rightarrow> Some () | _ \<Rightarrow> None)
      else if t = DNS_TYPE_CERT then (case r_data r of DataCert cert \<Rightarrow> Some () | _ \<Rightarrow> None)
      else if t = DNS_TYPE_NS \<or> t = DNS_TYPE_CNAME \<or> t = DNS_TYPE_PTR
      then (case r_data r of DataHostname h \<Rightarrow> Some () | _ \<Rightarrow> None)
      else (case r_data r of DataRaw d \<Rightarrow> Some () | _ \<Rightarrow> None))"

fun free_records :: "DnsRecord list \<Rightarrow> unit option" where
  "free_records [] = Some ()"
| "free_records (r # rs) = Option.bind (GNUNET_DNSPARSER_free_record r) (\<lambda>_. free_records rs)"

definition GNUNET_DNSPARSER_free_packet :: "DnsPacket \<Rightarrow> unit option" where
  "GNUNET_DNSPARSER_free_packet p = Option.bind (free_records (answers p)) (\<lambda>_.
     Option.bind (free_records (authority_records p)) (\<lambda>_. free_records (additional_records p)))"

subsection \<open>Parsing\<close>

text \<open>Reading bytes at an offset.\<close>

definition read_bytes :: "uint8 list \<Rightarrow> nat \<Rightarrow> nat \<Rightarrow> uint8 list option" where
  "read_bytes p off n = (if off + n \<le> length p then Some (take n (drop off p)) else None)"

text \<open>What \<^verbatim>\<open>%.*s\<close> prints of a label: its bytes up to the first zero.\<close>

definition c_string :: "uint8 list \<Rightarrow> cstring" where
  "c_string bs = takeWhile (\<lambda>b. b \<noteq> 0) bs"

text \<open>A label that cannot be converted is taken as it is.\<close>

definition label_text :: "(cstring \<Rightarrow> cstring option) \<Rightarrow> cstring \<Rightarrow> cstring" where
  "label_text to_unicode label = (case to_unicode label of None \<Rightarrow> label | Some utf8 \<Rightarrow> utf8)"

definition eat_dot :: "cstring \<Rightarrow> cstring" where
  "eat_dot s = (if s \<noteq> [] then butlast s else s)"

text \<open>The loop of \<^verbatim>\<open>parse_name\<close> with the name so far; the offset is returned as it is left, also on errors.\<close>

function parse_name :: "(cstring \<Rightarrow> cstring option) \<Rightarrow> uint8 list \<Rightarrow> nat \<Rightarrow> nat \<Rightarrow> cstring \<Rightarrow> (cstring option \<times> nat) option" where
  "parse_name to_unicode p off depth ret =
     (if length p \<le> off then Some (None, off)
      else let len = p ! off in
        if len = 0 then Some (Some (eat_dot ret), off + 1)
        else if len < 64 then
          (if off + 1 + unat len > length p then Some (None, off)
           else let label = c_string (take (unat len) (drop (off + 1) p));
                    tmp = ret @ label_text to_unicode label @ [46]
                in parse_name to_unicode p (off + 1 + unat len) depth tmp)
        else if len AND 192 = 192 then
          (if depth > 32 then Some (None, off)
           else if off + 1 > length p then Some (None, off)
           else if off + 1 \<ge> length p then None
           else let xoff = unat (len - 192) * 256 + unat (p ! (off + 1))
                in Option.bind (parse_name to_unicode p xoff (depth + 1) []) (\<lambda>(xstr, _). case xstr of
                     None \<Rightarrow> Some (None, off)
                   | Some x \<Rightarrow> let tmp = ret @ x @ [46]
                       in if length tmp > length p then Some (None, off) else Some (Some (eat_dot tmp), off + 2)))
        else Some (None, off))"
  by pat_completeness auto
termination
  by (relation "measures [\<lambda>(u, p, off, depth, ret). 33 - depth, \<lambda>(u, p, off, depth, ret). length p - off]") auto

declare parse_name.simps [simp del]

definition GNUNET_DNSPARSER_parse_name :: "(cstring \<Rightarrow> cstring option) \<Rightarrow> uint8 list \<Rightarrow> nat \<Rightarrow> (cstring option \<times> nat) option" where
  "GNUNET_DNSPARSER_parse_name to_unicode p off = parse_name to_unicode p off 0 []"

text \<open>A field of a structure that was copied from the payload: its bytes as a word of the host.\<close>

definition field16 :: "uint8 list \<Rightarrow> nat \<Rightarrow> uint16" where
  "field16 bs i = le_word (take 2 (drop i bs))"

definition field32 :: "uint8 list \<Rightarrow> nat \<Rightarrow> uint32" where
  "field32 bs i = le_word (take 4 (drop i bs))"

definition GNUNET_DNSPARSER_parse_query :: "(cstring \<Rightarrow> cstring option) \<Rightarrow> uint8 list \<Rightarrow> nat \<Rightarrow> (DnsQuery option \<times> nat) option" where
  "GNUNET_DNSPARSER_parse_query to_unicode p off =
     Option.bind (GNUNET_DNSPARSER_parse_name to_unicode p off) (\<lambda>(name, off). case name of
       None \<Rightarrow> Some (None, off)
     | Some n \<Rightarrow>
         if off + 4 > length p then Some (None, off)
         else Option.bind (read_bytes p off 4) (\<lambda>ql.
           Some (Some \<lparr>q_name = Some n, q_type = htons (field16 ql 0), q_class = htons (field16 ql 2)\<rparr>, off + 4)))"

definition GNUNET_DNSPARSER_parse_soa :: "(cstring \<Rightarrow> cstring option) \<Rightarrow> uint8 list \<Rightarrow> nat \<Rightarrow> (SoaRecord option \<times> nat) option" where
  "GNUNET_DNSPARSER_parse_soa to_unicode p old_off =
     Option.bind (GNUNET_DNSPARSER_parse_name to_unicode p old_off) (\<lambda>(mname, off).
     Option.bind (GNUNET_DNSPARSER_parse_name to_unicode p off) (\<lambda>(rname, off).
       if mname = None \<or> rname = None \<or> off + 20 > length p then Some (None, old_off)
       else Option.bind (read_bytes p off 20) (\<lambda>sd.
         Some (Some \<lparr>soa_mname = mname, soa_rname = rname, soa_serial = htonl (field32 sd 0), soa_refresh = htonl (field32 sd 4),
           soa_retry = htonl (field32 sd 8), soa_expire = htonl (field32 sd 12), soa_minimum_ttl = htonl (field32 sd 16)\<rparr>, off + 20))))"

definition GNUNET_DNSPARSER_parse_mx :: "(cstring \<Rightarrow> cstring option) \<Rightarrow> uint8 list \<Rightarrow> nat \<Rightarrow> (MxRecord option \<times> nat) option" where
  "GNUNET_DNSPARSER_parse_mx to_unicode p old_off =
     (if old_off + 2 > length p then Some (None, old_off)
      else Option.bind (read_bytes p old_off 2) (\<lambda>mxpref.
        Option.bind (GNUNET_DNSPARSER_parse_name to_unicode p (old_off + 2)) (\<lambda>(host, off).
          if host = None then Some (None, old_off)
          else Some (Some \<lparr>mx_preference = htons (field16 mxpref 0), mx_host = host\<rparr>, off))))"

definition GNUNET_DNSPARSER_parse_srv :: "(cstring \<Rightarrow> cstring option) \<Rightarrow> uint8 list \<Rightarrow> nat \<Rightarrow> (SrvRecord option \<times> nat) option" where
  "GNUNET_DNSPARSER_parse_srv to_unicode p old_off =
     (if old_off + 6 > length p then Some (None, old_off)
      else Option.bind (read_bytes p old_off 6) (\<lambda>sb.
        Option.bind (GNUNET_DNSPARSER_parse_name to_unicode p (old_off + 6)) (\<lambda>(target, off).
          if target = None then Some (None, old_off)
          else Some (Some \<lparr>srv_target = target, srv_priority = htons (field16 sb 0), srv_weight = htons (field16 sb 2),
            srv_port = htons (field16 sb 4)\<rparr>, off))))"

text \<open>The structure of a CERT record is not packed: it takes six bytes, the last of which is padding.\<close>

definition GNUNET_DNSPARSER_parse_cert :: "uint8 list \<Rightarrow> nat \<Rightarrow> (CertRecord option \<times> nat) option" where
  "GNUNET_DNSPARSER_parse_cert p old_off =
     (if old_off + 6 \<ge> length p then Some (None, old_off)
      else Option.bind (read_bytes p old_off 6) (\<lambda>dcert.
        let off = old_off + 6; size = length p - off
        in Option.bind (read_bytes p off size) (\<lambda>cdata.
          Some (Some \<lparr>cert_type = ucast (htons (field16 dcert 0)), cert_tag = htons (field16 dcert 2), cert_algorithm = ucast (dcert ! 4),
            certificate_data = cdata\<rparr>, off + size))))"

text \<open>The data of a record, by its type; \<open>old_off\<close> is where it begins and \<open>data_len\<close> how long it is said to be.\<close>

definition parse_record_data ::
  "(cstring \<Rightarrow> cstring option) \<Rightarrow> uint8 list \<Rightarrow> nat \<Rightarrow> nat \<Rightarrow> uint16 \<Rightarrow> (RecordData option \<times> nat) option" where
  "parse_record_data to_unicode p old_off data_len t =
     (let checked = (\<lambda>d off. if d = None \<or> old_off + data_len \<noteq> off then Some (None, off) else Some (d, off)) in
      if t = DNS_TYPE_NS \<or> t = DNS_TYPE_CNAME \<or> t = DNS_TYPE_PTR
      then Option.bind (GNUNET_DNSPARSER_parse_name to_unicode p old_off) (\<lambda>(h, off). checked (map_option (\<lambda>n. DataHostname (Some n)) h) off)
      else if t = DNS_TYPE_SOA
      then Option.bind (GNUNET_DNSPARSER_parse_soa to_unicode p old_off) (\<lambda>(soa, off). checked (map_option DataSoa soa) off)
      else if t = DNS_TYPE_MX
      then Option.bind (GNUNET_DNSPARSER_parse_mx to_unicode p old_off) (\<lambda>(mx, off). checked (map_option DataMx mx) off)
      else if t = DNS_TYPE_SRV
      then Option.bind (GNUNET_DNSPARSER_parse_srv to_unicode p old_off) (\<lambda>(srv, off). checked (map_option DataSrv srv) off)
      else Option.bind (read_bytes p old_off data_len) (\<lambda>d. Some (Some (DataRaw d), old_off + data_len)))"

definition GNUNET_DNSPARSER_parse_record ::
  "time_env \<Rightarrow> (cstring \<Rightarrow> cstring option) \<Rightarrow> uint8 list \<Rightarrow> nat \<Rightarrow> (DnsRecord option \<times> nat) option" where
  "GNUNET_DNSPARSER_parse_record env to_unicode p off =
     Option.bind (GNUNET_DNSPARSER_parse_name to_unicode p off) (\<lambda>(name, off). case name of
       None \<Rightarrow> Some (None, off)
     | Some n \<Rightarrow>
         if off + 10 > length p then Some (None, off)
         else Option.bind (read_bytes p off 10) (\<lambda>rl.
           let off = off + 10; t = htons (field16 rl 0); data_len = unat (htons (field16 rl 8));
               expiration = GNUNET_TIME_relative_to_absolute env
                 (GNUNET_TIME_relative_multiply GNUNET_TIME_relative_get_second (ucast (htonl (field32 rl 4))))
           in if off + data_len > length p then Some (None, off)
              else Option.bind (parse_record_data to_unicode p off data_len t) (\<lambda>(d, off).
                Some (map_option (\<lambda>d. \<lparr>r_name = Some n, r_data = d, r_expiration = expiration, r_type = t,
                  r_class = htons (field16 rl 2)\<rparr>) d, off))))"

text \<open>
  The loops over the entries of a section. If a record is malformed, the packet is freed, with the records \<open>prev\<close> that were parsed
  before; what the malformed record holds by then belongs to its type, or is a null pointer, and is freed safely.
\<close>

fun parse_queries :: "(cstring \<Rightarrow> cstring option) \<Rightarrow> uint8 list \<Rightarrow> nat \<Rightarrow> nat \<Rightarrow> (DnsQuery list option \<times> nat) option" where
  "parse_queries to_unicode p 0 off = Some (Some [], off)"
| "parse_queries to_unicode p (Suc n) off = Option.bind (GNUNET_DNSPARSER_parse_query to_unicode p off) (\<lambda>(q, off). case q of
     None \<Rightarrow> Some (None, off)
   | Some q \<Rightarrow> map_option (\<lambda>(qs, off). (map_option (\<lambda>qs. q # qs) qs, off)) (parse_queries to_unicode p n off))"

fun parse_records ::
  "time_env \<Rightarrow> (cstring \<Rightarrow> cstring option) \<Rightarrow> uint8 list \<Rightarrow> DnsRecord list \<Rightarrow> nat \<Rightarrow> nat \<Rightarrow> (DnsRecord list option \<times> nat) option" where
  "parse_records env to_unicode p prev 0 off = Some (Some [], off)"
| "parse_records env to_unicode p prev (Suc n) off = Option.bind (GNUNET_DNSPARSER_parse_record env to_unicode p off) (\<lambda>(r, off). case r of
     None \<Rightarrow> map_option (\<lambda>_. (None, off)) (free_records prev)
   | Some r \<Rightarrow> map_option (\<lambda>(rs, off). (map_option (\<lambda>rs. r # rs) rs, off)) (parse_records env to_unicode p (prev @ [r]) n off))"

definition GNUNET_DNSPARSER_parse :: "time_env \<Rightarrow> (cstring \<Rightarrow> cstring option) \<Rightarrow> uint8 list \<Rightarrow> DnsPacket option option" where
  "GNUNET_DNSPARSER_parse env to_unicode p =
     (if length p < 12 then Some None
      else Option.bind (read_bytes p 0 12) (\<lambda>dns.
        Option.bind (parse_queries to_unicode p (unat (htons (field16 dns 4))) 12) (\<lambda>(qs, off). case qs of
          None \<Rightarrow> Some None
        | Some qs \<Rightarrow> Option.bind (parse_records env to_unicode p [] (unat (htons (field16 dns 6))) off) (\<lambda>(ans, off). case ans of
          None \<Rightarrow> Some None
        | Some ans \<Rightarrow> Option.bind (parse_records env to_unicode p ans (unat (htons (field16 dns 8))) off) (\<lambda>(auth, off). case auth of
          None \<Rightarrow> Some None
        | Some auth \<Rightarrow> Option.bind (parse_records env to_unicode p (ans @ auth) (unat (htons (field16 dns 10))) off) (\<lambda>(add, off). case add of
          None \<Rightarrow> Some None
        | Some add \<Rightarrow> Some (Some \<lparr>queries = qs, answers = ans, authority_records = auth, additional_records = add,
            dns_flags = field16 dns 2, dns_id = field16 dns 0\<rparr>)))))))"

subsection \<open>Building\<close>

text \<open>Writing bytes into the buffer, and the difference of two sizes.\<close>

definition write_bytes :: "uint8 list \<Rightarrow> nat \<Rightarrow> uint8 list \<Rightarrow> uint8 list option" where
  "write_bytes dst pos bs =
     (if pos + length bs \<le> length dst then Some (take pos dst @ bs @ drop (pos + length bs) dst) else None)"

definition size_minus :: "nat \<Rightarrow> nat \<Rightarrow> nat" where
  "size_minus a b = (if b \<le> a then a - b else 2 ^ 64 + a - b)"

text \<open>The loop over the labels of a name, with the position after the name or none if a label is too long or empty.\<close>

function add_labels :: "uint8 list \<Rightarrow> nat \<Rightarrow> cstring \<Rightarrow> (nat option \<times> uint8 list) option" where
  "add_labels dst pos s =
     (let len = length (takeWhile (\<lambda>b. b \<noteq> 46) s); dot = (len < length s) in
      if len \<ge> 64 \<or> len = 0 then Some (None, dst)
      else Option.bind (write_bytes dst pos (of_nat len # take len s)) (\<lambda>dst.
        if dot then add_labels dst (pos + 1 + len) (drop (len + 1) s)
        else map_option (Pair (Some (pos + 1 + len + 1))) (write_bytes dst (pos + 1 + len) [0])))"
  by pat_completeness auto
termination by (relation "measure (\<lambda>(dst, pos, s). length s)") auto

declare add_labels.simps [simp del]

text \<open>The operations of the builder return their return code, the buffer and the offset.\<close>

definition GNUNET_DNSPARSER_builder_add_name ::
  "(cstring \<Rightarrow> cstring option) \<Rightarrow> uint8 list \<Rightarrow> nat \<Rightarrow> nat \<Rightarrow> cstring option \<Rightarrow> (int \<times> uint8 list \<times> nat) option" where
  "GNUNET_DNSPARSER_builder_add_name to_ascii dst dst_len off name =
     (case name of None \<Rightarrow> Some (GNUNET_SYSERR, dst, off)
      | Some n \<Rightarrow> (case to_ascii n of None \<Rightarrow> Some (GNUNET_NO, dst, off)
        | Some idna_name \<Rightarrow>
            if off + length idna_name + 2 > dst_len then Some (GNUNET_NO, dst, off)
            else map_option (\<lambda>(pos, dst). case pos of None \<Rightarrow> (GNUNET_NO, dst, off) | Some pos \<Rightarrow> (GNUNET_OK, dst, pos))
              (add_labels dst off idna_name)))"

definition GNUNET_DNSPARSER_builder_add_query ::
  "(cstring \<Rightarrow> cstring option) \<Rightarrow> uint8 list \<Rightarrow> nat \<Rightarrow> nat \<Rightarrow> DnsQuery \<Rightarrow> (int \<times> uint8 list \<times> nat) option" where
  "GNUNET_DNSPARSER_builder_add_query to_ascii dst dst_len off query =
     Option.bind (GNUNET_DNSPARSER_builder_add_name to_ascii dst (size_minus dst_len 4) off (q_name query)) (\<lambda>(ret, dst, off).
       if ret \<noteq> GNUNET_OK then Some (ret, dst, off)
       else map_option (\<lambda>dst. (GNUNET_OK, dst, off + 4))
         (write_bytes dst off (le_bytes 2 (htons (q_type query)) @ le_bytes 2 (htons (q_class query)))))"

definition GNUNET_DNSPARSER_builder_add_mx ::
  "(cstring \<Rightarrow> cstring option) \<Rightarrow> uint8 list \<Rightarrow> nat \<Rightarrow> nat \<Rightarrow> MxRecord \<Rightarrow> (int \<times> uint8 list \<times> nat) option" where
  "GNUNET_DNSPARSER_builder_add_mx to_ascii dst dst_len off mx =
     (if off + 2 > dst_len then Some (GNUNET_NO, dst, off)
      else Option.bind (write_bytes dst off (le_bytes 2 (htons (mx_preference mx)))) (\<lambda>dst.
        GNUNET_DNSPARSER_builder_add_name to_ascii dst dst_len (off + 2) (mx_host mx)))"

text \<open>\<open>pad\<close> is the byte of padding of the structure.\<close>

definition GNUNET_DNSPARSER_builder_add_cert ::
  "uint8 \<Rightarrow> uint8 list \<Rightarrow> nat \<Rightarrow> nat \<Rightarrow> CertRecord \<Rightarrow> (int \<times> uint8 list \<times> nat) option" where
  "GNUNET_DNSPARSER_builder_add_cert pad dst dst_len off cert =
     (if cert_type cert > 65535 \<or> cert_algorithm cert > 255 then Some (GNUNET_SYSERR, dst, off)
      else if off + 6 + length (certificate_data cert) > dst_len then Some (GNUNET_NO, dst, off)
      else Option.bind (write_bytes dst off (le_bytes 2 (htons (ucast (cert_type cert))) @ le_bytes 2 (htons (cert_tag cert)) @
             [ucast (cert_algorithm cert), pad])) (\<lambda>dst.
        map_option (\<lambda>dst. (GNUNET_OK, dst, off + 6 + length (certificate_data cert)))
          (write_bytes dst (off + 6) (certificate_data cert))))"

definition GNUNET_DNSPARSER_builder_add_soa ::
  "(cstring \<Rightarrow> cstring option) \<Rightarrow> uint8 list \<Rightarrow> nat \<Rightarrow> nat \<Rightarrow> SoaRecord \<Rightarrow> (int \<times> uint8 list \<times> nat) option" where
  "GNUNET_DNSPARSER_builder_add_soa to_ascii dst dst_len off soa =
     Option.bind (GNUNET_DNSPARSER_builder_add_name to_ascii dst dst_len off (soa_mname soa)) (\<lambda>(ret, dst, off).
       if ret \<noteq> GNUNET_OK then Some (ret, dst, off)
       else Option.bind (GNUNET_DNSPARSER_builder_add_name to_ascii dst dst_len off (soa_rname soa)) (\<lambda>(ret, dst, off).
         if ret \<noteq> GNUNET_OK then Some (ret, dst, off)
         else if off + 20 > dst_len then Some (GNUNET_NO, dst, off)
         else map_option (\<lambda>dst. (GNUNET_OK, dst, off + 20))
           (write_bytes dst off (le_bytes 4 (htonl (soa_serial soa)) @ le_bytes 4 (htonl (soa_refresh soa)) @
             le_bytes 4 (htonl (soa_retry soa)) @ le_bytes 4 (htonl (soa_expire soa)) @ le_bytes 4 (htonl (soa_minimum_ttl soa))))))"

definition GNUNET_DNSPARSER_builder_add_srv ::
  "(cstring \<Rightarrow> cstring option) \<Rightarrow> uint8 list \<Rightarrow> nat \<Rightarrow> nat \<Rightarrow> SrvRecord \<Rightarrow> (int \<times> uint8 list \<times> nat) option" where
  "GNUNET_DNSPARSER_builder_add_srv to_ascii dst dst_len off srv =
     (if off + 6 > dst_len then Some (GNUNET_NO, dst, off)
      else Option.bind (write_bytes dst off (le_bytes 2 (htons (srv_priority srv)) @ le_bytes 2 (htons (srv_weight srv)) @
             le_bytes 2 (htons (srv_port srv)))) (\<lambda>dst.
        GNUNET_DNSPARSER_builder_add_name to_ascii dst dst_len (off + 6) (srv_target srv)))"

text \<open>The data of a record, written at \<open>pos\<close>, by its type.\<close>

definition add_record_data ::
  "uint8 \<Rightarrow> (cstring \<Rightarrow> cstring option) \<Rightarrow> uint8 list \<Rightarrow> nat \<Rightarrow> nat \<Rightarrow> DnsRecord \<Rightarrow> (int \<times> uint8 list \<times> nat) option" where
  "add_record_data pad to_ascii dst dst_len pos r =
     (let t = r_type r in
      if t = DNS_TYPE_MX
      then (case r_data r of DataMx mx \<Rightarrow> GNUNET_DNSPARSER_builder_add_mx to_ascii dst dst_len pos mx | _ \<Rightarrow> None)
      else if t = DNS_TYPE_CERT
      then (case r_data r of DataCert cert \<Rightarrow> GNUNET_DNSPARSER_builder_add_cert pad dst dst_len pos cert | _ \<Rightarrow> None)
      else if t = DNS_TYPE_SOA
      then (case r_data r of DataSoa soa \<Rightarrow> GNUNET_DNSPARSER_builder_add_soa to_ascii dst dst_len pos soa | _ \<Rightarrow> None)
      else if t = DNS_TYPE_NS \<or> t = DNS_TYPE_CNAME \<or> t = DNS_TYPE_PTR
      then (case r_data r of DataHostname h \<Rightarrow> GNUNET_DNSPARSER_builder_add_name to_ascii dst dst_len pos h | _ \<Rightarrow> None)
      else if t = DNS_TYPE_SRV
      then (case r_data r of DataSrv srv \<Rightarrow> GNUNET_DNSPARSER_builder_add_srv to_ascii dst dst_len pos srv | _ \<Rightarrow> None)
      else (case r_data r of
          DataRaw d \<Rightarrow> if pos + length d > dst_len then Some (GNUNET_NO, dst, pos)
            else map_option (\<lambda>dst. (GNUNET_OK, dst, pos + length d)) (write_bytes dst pos d)
        | _ \<Rightarrow> None))"

text \<open>The time a record still lives, in seconds.\<close>

definition record_ttl :: "time_env \<Rightarrow> DnsRecord \<Rightarrow> uint32" where
  "record_ttl env r = ucast (rel_value_us (GNUNET_TIME_absolute_get_remaining env (r_expiration r)) div 1000 div 1000)"

definition add_record ::
  "uint8 \<Rightarrow> time_env \<Rightarrow> (cstring \<Rightarrow> cstring option) \<Rightarrow> uint8 list \<Rightarrow> nat \<Rightarrow> nat \<Rightarrow> DnsRecord \<Rightarrow> (int \<times> uint8 list \<times> nat) option" where
  "add_record pad env to_ascii dst dst_len start r =
     Option.bind (GNUNET_DNSPARSER_builder_add_name to_ascii dst (size_minus dst_len 10) start (r_name r)) (\<lambda>(ret, dst, off).
       if ret \<noteq> GNUNET_OK then Some (ret, dst, off)
       else Option.bind (add_record_data pad to_ascii dst dst_len (off + 10) r) (\<lambda>(ret, dst, pos).
         if ret \<noteq> GNUNET_OK then Some (GNUNET_NO, dst, start)
         else if pos - (off + 10) > 65535 then Some (GNUNET_NO, dst, start)
         else map_option (\<lambda>dst. (GNUNET_OK, dst, pos))
           (write_bytes dst off (le_bytes 2 (htons (r_type r)) @ le_bytes 2 (htons (r_class r)) @
             le_bytes 4 (htonl (record_ttl env r)) @ le_bytes 2 (htons (of_nat (pos - (off + 10))))))))"

text \<open>
  The loops over the entries: \<^verbatim>\<open>None\<close> if one is invalid, and otherwise the buffer, the offset and the number
  that goes into the header: of all entries, or one less than the index of the entry that did not fit.
\<close>

fun add_queries ::
  "(cstring \<Rightarrow> cstring option) \<Rightarrow> uint8 list \<Rightarrow> nat \<Rightarrow> nat \<Rightarrow> uint32 \<Rightarrow> DnsQuery list \<Rightarrow>
   (uint8 list \<times> nat \<times> uint16 option) option option" where
  "add_queries to_ascii dst dst_len off i [] = Some (Some (dst, off, None))"
| "add_queries to_ascii dst dst_len off i (q # qs) =
     Option.bind (GNUNET_DNSPARSER_builder_add_query to_ascii dst dst_len off q) (\<lambda>(ret, dst, off).
       if ret = GNUNET_SYSERR then Some None
       else if ret = GNUNET_NO then Some (Some (dst, off, Some (ucast (i - 1))))
       else add_queries to_ascii dst dst_len off (i + 1) qs)"

fun add_records ::
  "uint8 \<Rightarrow> time_env \<Rightarrow> (cstring \<Rightarrow> cstring option) \<Rightarrow> uint8 list \<Rightarrow> nat \<Rightarrow> nat \<Rightarrow> uint32 \<Rightarrow> DnsRecord list \<Rightarrow>
   (uint8 list \<times> nat \<times> uint16 option) option option" where
  "add_records pad env to_ascii dst dst_len off i [] = Some (Some (dst, off, None))"
| "add_records pad env to_ascii dst dst_len off i (r # rs) =
     Option.bind (add_record pad env to_ascii dst dst_len off r) (\<lambda>(ret, dst, off).
       if ret = GNUNET_SYSERR then Some None
       else if ret = GNUNET_NO then Some (Some (dst, off, Some (ucast (i - 1))))
       else add_records pad env to_ascii dst dst_len off (i + 1) rs)"

text \<open>\<open>tmp\<close> is the uninitialised buffer, whose length is the maximum; the result is a return code with the packet.\<close>

definition GNUNET_DNSPARSER_pack ::
  "uint8 \<Rightarrow> time_env \<Rightarrow> (cstring \<Rightarrow> cstring option) \<Rightarrow> uint8 list \<Rightarrow> DnsPacket \<Rightarrow> (int \<times> uint8 list) option option" where
  "GNUNET_DNSPARSER_pack pad env to_ascii tmp p =
     (let max = length tmp; announced = (\<lambda>n c. case c of None \<Rightarrow> of_nat n | Some m \<Rightarrow> m) in
      if length (queries p) > 65535 \<or> length (answers p) > 65535 \<or> length (authority_records p) > 65535 \<or>
         length (additional_records p) > 65535 then Some None
      else Option.bind (add_queries to_ascii tmp max 12 0 (queries p)) (\<lambda>x. case x of None \<Rightarrow> Some None | Some (tmp, off, nq) \<Rightarrow>
        Option.bind (add_records pad env to_ascii tmp max off 0 (answers p)) (\<lambda>x. case x of None \<Rightarrow> Some None | Some (tmp, off, na) \<Rightarrow>
        Option.bind (add_records pad env to_ascii tmp max off 0 (authority_records p)) (\<lambda>x. case x of None \<Rightarrow> Some None | Some (tmp, off, nu) \<Rightarrow>
        Option.bind (add_records pad env to_ascii tmp max off 0 (additional_records p)) (\<lambda>x. case x of None \<Rightarrow> Some None | Some (tmp, off, nd) \<Rightarrow>
          let trc = (nq \<noteq> None \<or> na \<noteq> None \<or> nu \<noteq> None \<or> nd \<noteq> None);
              flags = (if trc then dns_flags p OR 2 else dns_flags p)
          in Option.bind (write_bytes tmp 0 (le_bytes 2 (dns_id p) @ le_bytes 2 flags @ le_bytes 2 (htons (announced (length (queries p)) nq)) @
               le_bytes 2 (htons (announced (length (answers p)) na)) @ le_bytes 2 (htons (announced (length (authority_records p)) nu)) @
               le_bytes 2 (htons (announced (length (additional_records p)) nd)))) (\<lambda>tmp.
             Option.bind (read_bytes tmp 0 off) (\<lambda>buf. Some (Some (if trc then GNUNET_NO else GNUNET_OK, buf)))))))))"

section \<open>Parsing stays inside of the payload\<close>

lemma pointer_tag: "(len :: uint8) AND 192 = 192 \<Longrightarrow> 192 \<le> len"
  by (metis word_and_le1 word_and_le2)

lemma parse_name_safe: "p = [] \<or> last p < 192 \<Longrightarrow> \<exists>r. parse_name u p off depth ret = Some r"
proof (induction u p off depth ret rule: parse_name.induct)
  case (1 u p off depth ret)
  show ?case
  proof (cases "off < length p")
    case True
    then have off: "\<not> length p \<le> off" by simp
    consider "p ! off = 0" | "p ! off \<noteq> 0" "p ! off < 64" | "\<not> p ! off < 64" "p ! off AND 192 \<noteq> 192" | "\<not> p ! off < 64" "p ! off AND 192 = 192"
      by blast
    then show ?thesis
    proof cases
      case 2
      show ?thesis
      proof (cases "off + 1 + unat (p ! off) > length p")
        case False
        show ?thesis using 1(1)[OF off refl 2 False refl refl 1(3)] off 2 False
          by (simp add: parse_name.simps[of u p off depth ret] Let_def)
      qed (use off 2 in \<open>simp add: parse_name.simps[of u p off depth ret]\<close>)
    next
      case 4
      then have nz: "p ! off \<noteq> 0" by auto
      show ?thesis
      proof (cases "depth > 32")
        case False
        have "off + 1 < length p"
        proof (rule ccontr)
          assume "\<not> off + 1 < length p"
          then have "off = length p - 1" "p \<noteq> []" using True by auto
          then have "last p = p ! off" by (simp add: last_conv_nth)
          then show False using 1(3) pointer_tag[OF 4(2)] True by auto
        qed
        then have ns: "\<not> off + 1 > length p" "\<not> off + 1 \<ge> length p" by simp_all
        have "\<exists>r. parse_name u p (unat (p ! off - 192) * 256 + unat (p ! (off + 1))) (depth + 1) [] = Some r"
          by (rule 1(2)[OF off refl nz 4 False ns refl 1(3)])
        then obtain x o' where "parse_name u p (unat (p ! off - 192) * 256 + unat (p ! (off + 1))) (depth + 1) [] = Some (x, o')" by auto
        then show ?thesis using off 4 nz False ns
          by (cases x) (simp_all add: parse_name.simps[of u p off depth ret] Let_def)
      qed (use off 4 nz in \<open>simp add: parse_name.simps[of u p off depth ret]\<close>)
    qed (use off in \<open>auto simp add: parse_name.simps[of u p off depth ret] Let_def\<close>)
  qed (simp add: parse_name.simps[of u p off depth ret])
qed

lemma api_parse_name_safe: "p = [] \<or> last p < 192 \<Longrightarrow> \<exists>n off'. GNUNET_DNSPARSER_parse_name u p off = Some (n, off')"
  using parse_name_safe[of p u off 0 "[]"] by (auto simp: GNUNET_DNSPARSER_parse_name_def)

lemma read_bytes_safe: "off + n \<le> length p \<Longrightarrow> read_bytes p off n = Some (take n (drop off p))"
  by (simp add: read_bytes_def)

lemma parse_query_safe:
  assumes "p = [] \<or> last p < 192"
  shows "\<exists>r off'. GNUNET_DNSPARSER_parse_query u p off = Some (r, off')"
proof -
  obtain n o1 where "GNUNET_DNSPARSER_parse_name u p off = Some (n, o1)" using api_parse_name_safe[OF assms] by blast
  then show ?thesis by (cases n) (auto simp: GNUNET_DNSPARSER_parse_query_def read_bytes_safe)
qed

lemma parse_soa_safe:
  assumes "p = [] \<or> last p < 192"
  shows "\<exists>r off'. GNUNET_DNSPARSER_parse_soa u p off = Some (r, off')"
proof -
  obtain n o1 where n: "GNUNET_DNSPARSER_parse_name u p off = Some (n, o1)" using api_parse_name_safe[OF assms] by blast
  obtain m o2 where "GNUNET_DNSPARSER_parse_name u p o1 = Some (m, o2)" using api_parse_name_safe[OF assms] by blast
  with n show ?thesis by (auto simp: GNUNET_DNSPARSER_parse_soa_def read_bytes_safe)
qed

lemma parse_mx_safe:
  assumes "p = [] \<or> last p < 192"
  shows "\<exists>r off'. GNUNET_DNSPARSER_parse_mx u p off = Some (r, off')"
proof -
  obtain n o1 where "GNUNET_DNSPARSER_parse_name u p (off + 2) = Some (n, o1)" using api_parse_name_safe[OF assms] by blast
  then show ?thesis by (auto simp: GNUNET_DNSPARSER_parse_mx_def read_bytes_safe)
qed

lemma parse_srv_safe:
  assumes "p = [] \<or> last p < 192"
  shows "\<exists>r off'. GNUNET_DNSPARSER_parse_srv u p off = Some (r, off')"
proof -
  obtain n o1 where "GNUNET_DNSPARSER_parse_name u p (off + 6) = Some (n, o1)" using api_parse_name_safe[OF assms] by blast
  then show ?thesis by (auto simp: GNUNET_DNSPARSER_parse_srv_def read_bytes_safe)
qed

lemma parse_record_data_safe:
  assumes "p = [] \<or> last p < 192" "off + len \<le> length p"
  shows "\<exists>r off'. parse_record_data u p off len t = Some (r, off')"
proof -
  obtain n o1 where "GNUNET_DNSPARSER_parse_name u p off = Some (n, o1)" using api_parse_name_safe[OF assms(1)] by blast
  moreover obtain soa o2 where "GNUNET_DNSPARSER_parse_soa u p off = Some (soa, o2)" using parse_soa_safe[OF assms(1)] by blast
  moreover obtain mx o3 where "GNUNET_DNSPARSER_parse_mx u p off = Some (mx, o3)" using parse_mx_safe[OF assms(1)] by blast
  moreover obtain srv o4 where "GNUNET_DNSPARSER_parse_srv u p off = Some (srv, o4)" using parse_srv_safe[OF assms(1)] by blast
  ultimately show ?thesis using assms(2) by (auto simp: parse_record_data_def read_bytes_safe)
qed

lemma parse_record_safe:
  assumes "p = [] \<or> last p < 192"
  shows "\<exists>r off'. GNUNET_DNSPARSER_parse_record env u p off = Some (r, off')"
proof -
  obtain n o1 where n: "GNUNET_DNSPARSER_parse_name u p off = Some (n, o1)" using api_parse_name_safe[OF assms] by blast
  show ?thesis
  proof (cases "n = None \<or> o1 + 10 > length p \<or> o1 + 10 + unat (htons (field16 (take 10 (drop o1 p)) 8)) > length p")
    case True
    then show ?thesis using n by (cases n) (auto simp: GNUNET_DNSPARSER_parse_record_def Let_def read_bytes_safe)
  next
    case False
    then obtain d o2 where "parse_record_data u p (o1 + 10) (unat (htons (field16 (take 10 (drop o1 p)) 8))) (htons (field16 (take 10 (drop o1 p)) 0)) = Some (d, o2)"
      using parse_record_data_safe[OF assms, of "o1 + 10" "unat (htons (field16 (take 10 (drop o1 p)) 8))"] by (metis not_le)
    then show ?thesis using n False by (auto simp: GNUNET_DNSPARSER_parse_record_def Let_def read_bytes_safe)
  qed
qed

lemma parse_queries_safe: "p = [] \<or> last p < 192 \<Longrightarrow> \<exists>r off'. parse_queries u p n off = Some (r, off')"
proof (induction n arbitrary: off)
  case (Suc n)
  obtain q o1 where "GNUNET_DNSPARSER_parse_query u p off = Some (q, o1)" using parse_query_safe[OF Suc.prems] by blast
  moreover obtain r o2 where "parse_queries u p n o1 = Some (r, o2)" using Suc.IH[OF Suc.prems] by blast
  ultimately show ?case by (cases q) auto
qed simp

text \<open>No two bytes of the payload read as the type CERT; then the records that are parsed can be freed.\<close>

definition no_cert :: "uint8 list \<Rightarrow> bool" where
  "no_cert p = list_all (\<lambda>i. htons (field16 p i) \<noteq> DNS_TYPE_CERT) [0..<length p - 1]"

lemma parse_record_data_type:
  assumes "parse_record_data u p off len t = Some (Some d, off')" "t \<noteq> DNS_TYPE_CERT"
  shows "GNUNET_DNSPARSER_free_record \<lparr>r_name = n, r_data = d, r_expiration = e, r_type = t, r_class = c\<rparr> = Some ()"
  using assms by (auto simp: parse_record_data_def GNUNET_DNSPARSER_free_record_def Let_def dns_types bind_eq_Some_conv split: if_splits)

lemma parse_record_freeable:
  assumes "GNUNET_DNSPARSER_parse_record env u p off = Some (Some r, off')" "no_cert p"
  shows "GNUNET_DNSPARSER_free_record r = Some ()"
proof -
  obtain n o1 where n: "GNUNET_DNSPARSER_parse_name u p off = Some (Some n, o1)" "o1 + 10 \<le> length p"
    using assms(1) by (auto simp: GNUNET_DNSPARSER_parse_record_def bind_eq_Some_conv split: option.splits if_splits)
  let ?t = "htons (field16 (take 10 (drop o1 p)) 0)"
  have "field16 (take 10 (drop o1 p)) 0 = field16 p o1" by (simp add: field16_def)
  then have t: "?t \<noteq> DNS_TYPE_CERT" using assms(2) n(2) by (auto simp: no_cert_def list_all_iff)
  obtain d o2 len e c where "parse_record_data u p (o1 + 10) len ?t = Some (Some d, o2)"
    and r: "r = \<lparr>r_name = Some n, r_data = d, r_expiration = e, r_type = ?t, r_class = c\<rparr>"
    using assms(1) n by (auto simp: GNUNET_DNSPARSER_parse_record_def Let_def read_bytes_safe bind_eq_Some_conv split: if_splits)
  then show ?thesis using parse_record_data_type[OF _ t] by blast
qed

lemma free_records_append: "free_records (rs @ qs) = Option.bind (free_records rs) (\<lambda>_. free_records qs)"
  by (induction rs) simp_all

lemma parse_records_safe:
  assumes "p = [] \<or> last p < 192" "no_cert p"
  shows "free_records prev = Some () \<Longrightarrow> \<exists>rs off'. parse_records env u p prev n off = Some (rs, off') \<and>
    (\<forall>rs'. rs = Some rs' \<longrightarrow> free_records (prev @ rs') = Some ())"
proof (induction n arbitrary: prev off)
  case (Suc n)
  obtain q o1 where q: "GNUNET_DNSPARSER_parse_record env u p off = Some (q, o1)" using parse_record_safe[OF assms(1)] by blast
  show ?case
  proof (cases q)
    case None
    then show ?thesis using q Suc.prems by simp
  next
    case (Some r)
    then have "free_records (prev @ [r]) = Some ()"
      using Suc.prems parse_record_freeable[OF _ assms(2)] q by (simp add: free_records_append)
    from Suc.IH[OF this, of o1] show ?thesis using q Some by auto
  qed
qed simp

lemma parse_safe:
  assumes "p = [] \<or> last p < 192" "no_cert p"
  shows "GNUNET_DNSPARSER_parse env u p \<noteq> None"
proof (cases "length p < 12")
  case False
  let ?dns = "take 12 (drop 0 p)"
  have r: "read_bytes p 0 12 = Some ?dns" using False by (simp add: read_bytes_def)
  note parse = GNUNET_DNSPARSER_parse_def if_not_P[OF False] r bind.bind_lunit prod.case option.case
  obtain qs o1 where q: "parse_queries u p (unat (htons (field16 ?dns 4))) 12 = Some (qs, o1)" using parse_queries_safe[OF assms(1)] by blast
  obtain ans o2 where a: "parse_records env u p [] (unat (htons (field16 ?dns 6))) o1 = Some (ans, o2)"
    "\<forall>rs. ans = Some rs \<longrightarrow> free_records ([] @ rs) = Some ()"
    using parse_records_safe[OF assms, of "[]" env u "unat (htons (field16 ?dns 6))" o1] free_records.simps(1) by blast
  show ?thesis
  proof (cases qs)
    case None
    show ?thesis unfolding parse q None by simp
  next
    case (Some ql)
    note parse = parse q[unfolded Some] a(1)
    show ?thesis
    proof (cases ans)
      case None
      show ?thesis unfolding parse None by simp
    next
      case (Some rs)
      note parse = parse[unfolded Some]
      have "free_records rs = Some ()" using a(2) Some by simp
      from parse_records_safe[OF assms this, of env u "unat (htons (field16 ?dns 8))" o2]
      obtain auth o3 where b: "parse_records env u p rs (unat (htons (field16 ?dns 8))) o2 = Some (auth, o3)"
        "\<forall>as. auth = Some as \<longrightarrow> free_records (rs @ as) = Some ()" by blast
      note parse = parse b(1)
      show ?thesis
      proof (cases auth)
        case None
        show ?thesis unfolding parse None by simp
      next
        case (Some as)
        from parse_records_safe[OF assms b(2)[rule_format, OF Some], of env u "unat (htons (field16 ?dns 10))" o3]
        obtain add o4 where "parse_records env u p (rs @ as) (unat (htons (field16 ?dns 10))) o3 = Some (add, o4)" by blast
        then show ?thesis unfolding parse Some by (cases add) simp_all
      qed
    qed
  qed
qed (simp add: GNUNET_DNSPARSER_parse_def)

section \<open>What the builder writes\<close>

text \<open>The bytes \<open>bs\<close> follow what was in the buffer up to the offset.\<close>

definition emits :: "uint8 list \<Rightarrow> nat \<Rightarrow> uint8 list \<Rightarrow> uint8 list \<Rightarrow> nat \<Rightarrow> bool" where
  "emits dst off bs dst' off' \<longleftrightarrow> off' = off + length bs \<and> length dst' = length dst \<and> (bs \<noteq> [] \<longrightarrow> off' \<le> length dst) \<and>
     take off' dst' = take off dst @ bs"

lemma write_bytes_emits: "write_bytes dst pos bs = Some dst' \<Longrightarrow> emits dst pos bs dst' (pos + length bs)"
  by (auto simp: write_bytes_def emits_def split: if_splits)

lemma emits_trans: "emits dst off bs d1 o1 \<Longrightarrow> emits d1 o1 cs d2 o2 \<Longrightarrow> emits dst off (bs @ cs) d2 o2"
  by (auto simp: emits_def)

lemma emits_nil: "emits dst off [] dst off"
  by (simp add: emits_def)

lemma emits_length: "emits dst off bs dst' off' \<Longrightarrow> length dst' = length dst"
  by (simp add: emits_def)

text \<open>The labels of a name and their encoding.\<close>

function labels :: "cstring \<Rightarrow> cstring list" where
  "labels s = (let l = takeWhile (\<lambda>b. b \<noteq> 46) s in if length l < length s then l # labels (drop (length l + 1) s) else [l])"
  by pat_completeness auto
termination by (relation "measure length") auto

declare labels.simps [simp del]

definition wire_labels :: "cstring list \<Rightarrow> uint8 list" where
  "wire_labels ls = concat (map (\<lambda>l. of_nat (length l) # l) ls) @ [0]"

definition labels_ok :: "cstring list \<Rightarrow> bool" where
  "labels_ok ls \<longleftrightarrow> ls \<noteq> [] \<and> (\<forall>l \<in> set ls. 0 < length l \<and> length l < 64)"

lemma wire_labels_Cons: "wire_labels (l # ls) = of_nat (length l) # l @ wire_labels ls"
  by (simp add: wire_labels_def)

lemma add_labels_emits:
  "add_labels dst pos s = Some (Some pos', dst') \<Longrightarrow> emits dst pos (wire_labels (labels s)) dst' pos' \<and> labels_ok (labels s)"
proof (induction dst pos s arbitrary: pos' dst' rule: add_labels.induct)
  case (1 dst pos s)
  let ?l = "takeWhile (\<lambda>b. b \<noteq> 46) s"
  have l: "take (length ?l) s = ?l" by (metis takeWhile_eq_take)
  have len: "\<not> (length ?l \<ge> 64 \<or> length ?l = 0)" using 1(2) by (auto simp: add_labels.simps[of dst pos s] Let_def split: if_splits)
  then obtain d1 where d1: "write_bytes dst pos (of_nat (length ?l) # ?l) = Some d1"
    using 1(2) l by (auto simp: add_labels.simps[of dst pos s] Let_def bind_eq_Some_conv)
  have e1: "emits dst pos (of_nat (length ?l) # ?l) d1 (pos + 1 + length ?l)" using write_bytes_emits[OF d1] by simp
  show ?case
  proof (cases "length ?l < length s")
    case True
    then have rest: "add_labels d1 (pos + 1 + length ?l) (drop (length ?l + 1) s) = Some (Some pos', dst')"
      using 1(2) d1 l len by (simp add: add_labels.simps[of dst pos s] Let_def)
    have "write_bytes dst pos (of_nat (length ?l) # take (length ?l) s) = Some d1" using d1 l by simp
    from 1(1)[OF refl refl len this _ rest] True
    have "emits d1 (pos + 1 + length ?l) (wire_labels (labels (drop (length ?l + 1) s))) dst' pos'" "labels_ok (labels (drop (length ?l + 1) s))"
      by auto
    moreover have "labels s = ?l # labels (drop (length ?l + 1) s)" using True by (simp add: labels.simps[of s] Let_def)
    ultimately show ?thesis using emits_trans[OF e1] len by (auto simp: wire_labels_Cons labels_ok_def)
  next
    case False
    then have last: "write_bytes d1 (pos + 1 + length ?l) [0] = Some dst'" "pos' = pos + 1 + length ?l + 1"
      using 1(2) d1 l len by (auto simp: add_labels.simps[of dst pos s] Let_def)
    have "labels s = [?l]" using False by (simp add: labels.simps[of s] Let_def)
    then show ?thesis using emits_trans[OF e1, of "[0]" dst' pos'] write_bytes_emits[OF last(1)] last(2) len
      by (simp add: wire_labels_def labels_ok_def)
  qed
qed

text \<open>The encoding of a name.\<close>

definition wire_name :: "(cstring \<Rightarrow> cstring option) \<Rightarrow> cstring option \<Rightarrow> uint8 list" where
  "wire_name to_ascii name = wire_labels (labels (the (to_ascii (the name))))"

definition name_encodes :: "(cstring \<Rightarrow> cstring option) \<Rightarrow> cstring option \<Rightarrow> bool" where
  "name_encodes to_ascii name \<longleftrightarrow> (\<exists>n a. name = Some n \<and> to_ascii n = Some a \<and> labels_ok (labels a))"

lemma add_name_emits:
  assumes "GNUNET_DNSPARSER_builder_add_name to_ascii dst dst_len off name = Some (GNUNET_OK, dst', off')"
  shows "emits dst off (wire_name to_ascii name) dst' off'" "name_encodes to_ascii name"
  using assms add_labels_emits[of dst off _ off' dst']
  by (auto simp: GNUNET_DNSPARSER_builder_add_name_def wire_name_def name_encodes_def split: option.splits if_splits)

definition wire_query :: "(cstring \<Rightarrow> cstring option) \<Rightarrow> DnsQuery \<Rightarrow> uint8 list" where
  "wire_query to_ascii q = wire_name to_ascii (q_name q) @ le_bytes 2 (htons (q_type q)) @ le_bytes 2 (htons (q_class q))"

lemma map_option_emits:
  assumes "map_option (\<lambda>dst. (GNUNET_OK, dst, off + n)) (write_bytes dst off bs) = Some (ret, dst', off')" "length bs = n"
  shows "emits dst off bs dst' off'"
  using assms write_bytes_emits[of dst off bs dst'] by auto

lemma add_query_emits:
  assumes "GNUNET_DNSPARSER_builder_add_query to_ascii dst dst_len off q = Some (GNUNET_OK, dst', off')"
  shows "emits dst off (wire_query to_ascii q) dst' off'" "name_encodes to_ascii (q_name q)"
proof -
  let ?ql = "le_bytes 2 (htons (q_type q)) @ le_bytes 2 (htons (q_class q))"
  obtain d1 o1 where n: "GNUNET_DNSPARSER_builder_add_name to_ascii dst (size_minus dst_len 4) off (q_name q) = Some (GNUNET_OK, d1, o1)"
    and w: "map_option (\<lambda>dst. (GNUNET_OK, dst, o1 + 4)) (write_bytes d1 o1 ?ql) = Some (GNUNET_OK, dst', off')"
    using assms by (auto simp: GNUNET_DNSPARSER_builder_add_query_def bind_eq_Some_conv split: if_splits)
  note e = add_name_emits[OF n]
  show "name_encodes to_ascii (q_name q)" by (rule e(2))
  show "emits dst off (wire_query to_ascii q) dst' off'"
    using emits_trans[OF e(1) map_option_emits[OF w]] by (simp add: wire_query_def)
qed

text \<open>The encoding of the data of a record, for the types the parser knows.\<close>

fun wire_data :: "(cstring \<Rightarrow> cstring option) \<Rightarrow> RecordData \<Rightarrow> uint8 list" where
  "wire_data to_ascii (DataHostname h) = wire_name to_ascii h"
| "wire_data to_ascii (DataSoa soa) = wire_name to_ascii (soa_mname soa) @ wire_name to_ascii (soa_rname soa) @
     le_bytes 4 (htonl (soa_serial soa)) @ le_bytes 4 (htonl (soa_refresh soa)) @ le_bytes 4 (htonl (soa_retry soa)) @
     le_bytes 4 (htonl (soa_expire soa)) @ le_bytes 4 (htonl (soa_minimum_ttl soa))"
| "wire_data to_ascii (DataCert c) = []"
| "wire_data to_ascii (DataMx mx) = le_bytes 2 (htons (mx_preference mx)) @ wire_name to_ascii (mx_host mx)"
| "wire_data to_ascii (DataSrv srv) = le_bytes 2 (htons (srv_priority srv)) @ le_bytes 2 (htons (srv_weight srv)) @
     le_bytes 2 (htons (srv_port srv)) @ wire_name to_ascii (srv_target srv)"
| "wire_data to_ascii (DataRaw d) = d"

fun data_names :: "RecordData \<Rightarrow> cstring option list" where
  "data_names (DataHostname h) = [h]"
| "data_names (DataSoa soa) = [soa_mname soa, soa_rname soa]"
| "data_names (DataCert c) = []"
| "data_names (DataMx mx) = [mx_host mx]"
| "data_names (DataSrv srv) = [srv_target srv]"
| "data_names (DataRaw d) = []"

lemma add_mx_emits:
  assumes "GNUNET_DNSPARSER_builder_add_mx to_ascii dst dst_len off mx = Some (GNUNET_OK, dst', off')"
  shows "emits dst off (wire_data to_ascii (DataMx mx)) dst' off'" "name_encodes to_ascii (mx_host mx)"
proof -
  obtain d1 where w: "write_bytes dst off (le_bytes 2 (htons (mx_preference mx))) = Some d1"
    and n: "GNUNET_DNSPARSER_builder_add_name to_ascii d1 dst_len (off + 2) (mx_host mx) = Some (GNUNET_OK, dst', off')"
    using assms by (auto simp: GNUNET_DNSPARSER_builder_add_mx_def bind_eq_Some_conv split: if_splits)
  have "emits dst off (le_bytes 2 (htons (mx_preference mx))) d1 (off + 2)" using write_bytes_emits[OF w] by simp
  then show "emits dst off (wire_data to_ascii (DataMx mx)) dst' off'" using emits_trans add_name_emits(1)[OF n] by fastforce
  show "name_encodes to_ascii (mx_host mx)" by (rule add_name_emits[OF n])
qed

lemma add_srv_emits:
  assumes "GNUNET_DNSPARSER_builder_add_srv to_ascii dst dst_len off srv = Some (GNUNET_OK, dst', off')"
  shows "emits dst off (wire_data to_ascii (DataSrv srv)) dst' off'" "name_encodes to_ascii (srv_target srv)"
proof -
  let ?sd = "le_bytes 2 (htons (srv_priority srv)) @ le_bytes 2 (htons (srv_weight srv)) @ le_bytes 2 (htons (srv_port srv))"
  obtain d1 where w: "write_bytes dst off ?sd = Some d1"
    and n: "GNUNET_DNSPARSER_builder_add_name to_ascii d1 dst_len (off + 6) (srv_target srv) = Some (GNUNET_OK, dst', off')"
    using assms by (auto simp: GNUNET_DNSPARSER_builder_add_srv_def bind_eq_Some_conv split: if_splits)
  have "emits dst off ?sd d1 (off + 6)" using write_bytes_emits[OF w] by simp
  from emits_trans[OF this add_name_emits(1)[OF n]]
  show "emits dst off (wire_data to_ascii (DataSrv srv)) dst' off'" by simp
  show "name_encodes to_ascii (srv_target srv)" by (rule add_name_emits[OF n])
qed

lemma add_soa_emits:
  assumes "GNUNET_DNSPARSER_builder_add_soa to_ascii dst dst_len off soa = Some (GNUNET_OK, dst', off')"
  shows "emits dst off (wire_data to_ascii (DataSoa soa)) dst' off'" "name_encodes to_ascii (soa_mname soa)" "name_encodes to_ascii (soa_rname soa)"
proof -
  let ?sd = "le_bytes 4 (htonl (soa_serial soa)) @ le_bytes 4 (htonl (soa_refresh soa)) @ le_bytes 4 (htonl (soa_retry soa)) @
     le_bytes 4 (htonl (soa_expire soa)) @ le_bytes 4 (htonl (soa_minimum_ttl soa))"
  obtain d1 o1 d2 o2 where m: "GNUNET_DNSPARSER_builder_add_name to_ascii dst dst_len off (soa_mname soa) = Some (GNUNET_OK, d1, o1)"
    and r: "GNUNET_DNSPARSER_builder_add_name to_ascii d1 dst_len o1 (soa_rname soa) = Some (GNUNET_OK, d2, o2)"
    and w: "map_option (\<lambda>dst. (GNUNET_OK, dst, o2 + 20)) (write_bytes d2 o2 ?sd) = Some (GNUNET_OK, dst', off')"
    using assms by (auto simp: GNUNET_DNSPARSER_builder_add_soa_def bind_eq_Some_conv split: if_splits)
  have "emits d2 o2 ?sd dst' off'" by (rule map_option_emits[OF w]) simp
  from emits_trans[OF add_name_emits(1)[OF m] emits_trans[OF add_name_emits(1)[OF r] this]]
  show "emits dst off (wire_data to_ascii (DataSoa soa)) dst' off'" by simp
  show "name_encodes to_ascii (soa_mname soa)" "name_encodes to_ascii (soa_rname soa)" by (rule add_name_emits[OF m], rule add_name_emits[OF r])
qed

text \<open>A record whose data is the member of the union that its type says, and not a CERT record.\<close>

definition data_fits :: "uint16 \<Rightarrow> RecordData \<Rightarrow> bool" where
  "data_fits t d = (case d of
     DataHostname h \<Rightarrow> t = DNS_TYPE_NS \<or> t = DNS_TYPE_CNAME \<or> t = DNS_TYPE_PTR
   | DataSoa soa \<Rightarrow> t = DNS_TYPE_SOA | DataMx mx \<Rightarrow> t = DNS_TYPE_MX | DataSrv srv \<Rightarrow> t = DNS_TYPE_SRV | DataCert c \<Rightarrow> False
   | DataRaw d \<Rightarrow> t \<notin> {DNS_TYPE_NS, DNS_TYPE_CNAME, DNS_TYPE_PTR, DNS_TYPE_SOA, DNS_TYPE_MX, DNS_TYPE_SRV, DNS_TYPE_CERT})"

lemma add_record_data_emits:
  assumes "add_record_data pad to_ascii dst dst_len pos r = Some (GNUNET_OK, dst', pos')" "data_fits (r_type r) (r_data r)"
  shows "emits dst pos (wire_data to_ascii (r_data r)) dst' pos'" "\<forall>n \<in> set (data_names (r_data r)). name_encodes to_ascii n"
proof -
  have "emits dst pos (wire_data to_ascii (r_data r)) dst' pos' \<and> (\<forall>n \<in> set (data_names (r_data r)). name_encodes to_ascii n)"
  proof (cases "r_data r")
    case (DataHostname h)
    then show ?thesis using assms add_name_emits[of to_ascii dst dst_len pos h dst' pos']
      by (auto simp: add_record_data_def Let_def data_fits_def dns_types)
  next
    case (DataSoa soa)
    then show ?thesis using assms add_soa_emits[of to_ascii dst dst_len pos soa dst' pos']
      by (auto simp: add_record_data_def Let_def data_fits_def dns_types)
  next
    case (DataMx mx)
    then show ?thesis using assms add_mx_emits[of to_ascii dst dst_len pos mx dst' pos']
      by (auto simp: add_record_data_def Let_def data_fits_def dns_types)
  next
    case (DataSrv srv)
    then show ?thesis using assms add_srv_emits[of to_ascii dst dst_len pos srv dst' pos']
      by (auto simp: add_record_data_def Let_def data_fits_def dns_types)
  next
    case (DataRaw d)
    then show ?thesis using assms write_bytes_emits[of dst pos d dst']
      by (auto simp: add_record_data_def Let_def data_fits_def split: if_splits)
  qed (use assms(2) in \<open>simp add: data_fits_def\<close>)
  then show "emits dst pos (wire_data to_ascii (r_data r)) dst' pos'" "\<forall>n \<in> set (data_names (r_data r)). name_encodes to_ascii n" by auto
qed

text \<open>The line before the data of a record, and a whole record.\<close>

definition wire_line :: "time_env \<Rightarrow> nat \<Rightarrow> DnsRecord \<Rightarrow> uint8 list" where
  "wire_line env n r = le_bytes 2 (htons (r_type r)) @ le_bytes 2 (htons (r_class r)) @
     le_bytes 4 (htonl (record_ttl env r)) @ le_bytes 2 (htons (of_nat n))"

definition wire_record :: "time_env \<Rightarrow> (cstring \<Rightarrow> cstring option) \<Rightarrow> DnsRecord \<Rightarrow> uint8 list" where
  "wire_record env to_ascii r = wire_name to_ascii (r_name r) @ wire_line env (length (wire_data to_ascii (r_data r))) r @
     wire_data to_ascii (r_data r)"

definition record_encodes :: "(cstring \<Rightarrow> cstring option) \<Rightarrow> DnsRecord \<Rightarrow> bool" where
  "record_encodes to_ascii r \<longleftrightarrow> name_encodes to_ascii (r_name r) \<and> (\<forall>n \<in> set (data_names (r_data r)). name_encodes to_ascii n) \<and>
     length (wire_data to_ascii (r_data r)) \<le> 65535"

lemma length_wire_line [simp]: "length (wire_line env n r) = 10"
  by (simp add: wire_line_def)

lemma write_before_emits:
  assumes "emits dst (off + length ls) ds d1 pos" "write_bytes d1 off ls = Some d2"
  shows "emits dst off (ls @ ds) d2 pos"
proof -
  have fit: "off + length ls \<le> length d1" using assms(2) by (auto simp: write_bytes_def split: if_splits)
  have d: "pos = off + length ls + length ds" "length d1 = length dst" "pos \<le> length dst" "take pos d1 = take (off + length ls) dst @ ds"
    using assms(1) fit unfolding emits_def by (cases "ds = []"; auto)+
  have d2: "d2 = take off d1 @ ls @ drop (off + length ls) d1" using assms(2) by (auto simp: write_bytes_def split: if_splits)
  have "take off d1 = take off (take pos d1)" using d(1) by (simp add: min_def)
  also have "\<dots> = take off dst" unfolding d(4) using d(1,3) by simp
  finally have t: "take off d1 = take off dst" .
  have "take (length ds) (drop (off + length ls) d1) = drop (off + length ls) (take pos d1)"
    using d(1) by (simp add: drop_take)
  also have "\<dots> = ds" unfolding d(4) using d(1,3) by simp
  finally have "take (length ds) (drop (off + length ls) d1) = ds" .
  then show ?thesis using d t by (simp add: emits_def d2)
qed

lemma add_record_emits:
  assumes "add_record pad env to_ascii dst dst_len off r = Some (GNUNET_OK, dst', off')" "data_fits (r_type r) (r_data r)"
  shows "emits dst off (wire_record env to_ascii r) dst' off'" "record_encodes to_ascii r"
proof -
  obtain d1 o1 d2 pos where n: "GNUNET_DNSPARSER_builder_add_name to_ascii dst (size_minus dst_len 10) off (r_name r) = Some (GNUNET_OK, d1, o1)"
    and d: "add_record_data pad to_ascii d1 dst_len (o1 + 10) r = Some (GNUNET_OK, d2, pos)" "pos - (o1 + 10) \<le> 65535"
    and w: "write_bytes d2 o1 (wire_line env (pos - (o1 + 10)) r) = Some dst'" "off' = pos"
    using assms(1) unfolding add_record_def wire_line_def by (auto simp: bind_eq_Some_conv split: if_splits)
  note e1 = add_name_emits[OF n] and e2 = add_record_data_emits[OF d(1) assms(2)]
  have len: "pos - (o1 + 10) = length (wire_data to_ascii (r_data r))" using e2(1) by (simp add: emits_def)
  have "emits d1 (o1 + length (wire_line env (pos - (o1 + 10)) r)) (wire_data to_ascii (r_data r)) d2 pos" using e2(1) by simp
  from emits_trans[OF e1(1) write_before_emits[OF this w(1)]]
  show "emits dst off (wire_record env to_ascii r) dst' off'" by (simp add: wire_record_def len w(2))
  show "record_encodes to_ascii r" using e1(2) e2(2) d(2) len by (simp add: record_encodes_def)
qed

lemma GNUNET_codes: "ret \<noteq> GNUNET_SYSERR \<Longrightarrow> ret \<noteq> GNUNET_NO \<Longrightarrow> ret \<in> {GNUNET_OK, GNUNET_NO, GNUNET_SYSERR} \<Longrightarrow> ret = GNUNET_OK"
  by auto

lemma add_name_codes: "GNUNET_DNSPARSER_builder_add_name to_ascii dst dst_len off name = Some (ret, dst', off') \<Longrightarrow>
    ret \<in> {GNUNET_OK, GNUNET_NO, GNUNET_SYSERR}"
  by (auto simp: GNUNET_DNSPARSER_builder_add_name_def split: option.splits if_splits)

lemma add_query_codes: "GNUNET_DNSPARSER_builder_add_query to_ascii dst dst_len off q = Some (ret, dst', off') \<Longrightarrow>
    ret \<in> {GNUNET_OK, GNUNET_NO, GNUNET_SYSERR}"
  using add_name_codes by (fastforce simp: GNUNET_DNSPARSER_builder_add_query_def bind_eq_Some_conv split: if_splits)

lemma add_record_codes: "add_record pad env to_ascii dst dst_len off r = Some (ret, dst', off') \<Longrightarrow>
    ret \<in> {GNUNET_OK, GNUNET_NO, GNUNET_SYSERR}"
  using add_name_codes by (fastforce simp: add_record_def bind_eq_Some_conv split: if_splits)

lemma add_queries_emits:
  "add_queries to_ascii dst dst_len off i qs = Some (Some (dst', off', None)) \<Longrightarrow>
   emits dst off (concat (map (wire_query to_ascii) qs)) dst' off' \<and> (\<forall>q \<in> set qs. name_encodes to_ascii (q_name q))"
proof (induction qs arbitrary: dst off i)
  case Nil
  then show ?case by (simp add: emits_nil)
next
  case (Cons q qs)
  obtain ret d1 o1 where q: "GNUNET_DNSPARSER_builder_add_query to_ascii dst dst_len off q = Some (ret, d1, o1)"
    "ret \<noteq> GNUNET_SYSERR" "ret \<noteq> GNUNET_NO" and rest: "add_queries to_ascii d1 dst_len o1 (i + 1) qs = Some (Some (dst', off', None))"
    using Cons.prems(1) by (auto simp: bind_eq_Some_conv split: if_splits)
  have "ret = GNUNET_OK" using GNUNET_codes[OF q(2,3) add_query_codes[OF q(1)]] .
  with q(1) have "GNUNET_DNSPARSER_builder_add_query to_ascii dst dst_len off q = Some (GNUNET_OK, d1, o1)" by simp
  note e = add_query_emits[OF this]
  show ?case using Cons.IH[OF rest] emits_trans[OF e(1)] e(2) by simp
qed

lemma add_records_emits:
  "add_records pad env to_ascii dst dst_len off i rs = Some (Some (dst', off', None)) \<Longrightarrow>
   (\<forall>r \<in> set rs. data_fits (r_type r) (r_data r)) \<Longrightarrow>
   emits dst off (concat (map (wire_record env to_ascii) rs)) dst' off' \<and> (\<forall>r \<in> set rs. record_encodes to_ascii r)"
proof (induction rs arbitrary: dst off i)
  case Nil
  then show ?case by (simp add: emits_nil)
next
  case (Cons r rs)
  obtain ret d1 o1 where r: "add_record pad env to_ascii dst dst_len off r = Some (ret, d1, o1)"
    "ret \<noteq> GNUNET_SYSERR" "ret \<noteq> GNUNET_NO" and rest: "add_records pad env to_ascii d1 dst_len o1 (i + 1) rs = Some (Some (dst', off', None))"
    using Cons.prems(1) by (auto simp: bind_eq_Some_conv split: if_splits)
  have "ret = GNUNET_OK" using GNUNET_codes[OF r(2,3) add_record_codes[OF r(1)]] .
  with r(1) have "add_record pad env to_ascii dst dst_len off r = Some (GNUNET_OK, d1, o1)" by simp
  note e = add_record_emits[OF this] and fits = Cons.prems(2)
  have "data_fits (r_type r) (r_data r)" using fits by simp
  note e' = e[OF this]
  show ?case using Cons.IH[OF rest] emits_trans[OF e'(1)] e'(2) fits by simp
qed

section \<open>What the parser reads\<close>

lemma field16_bytes [simp]:
  "field16 (le_bytes 2 w @ bs) 0 = w" "length as = i \<Longrightarrow> field16 (as @ le_bytes 2 w @ bs) i = w" "length as = i \<Longrightarrow> field16 (as @ le_bytes 2 w) i = w"
  by (simp_all add: field16_def le_word_bytes)

lemma field32_bytes [simp]:
  "field32 (le_bytes 4 w @ bs) 0 = w" "length as = i \<Longrightarrow> field32 (as @ le_bytes 4 w @ bs) i = w" "length as = i \<Longrightarrow> field32 (as @ le_bytes 4 w) i = w"
  by (simp_all add: field32_def le_word_bytes)

lemma read_bytes_at: "length as = off \<Longrightarrow> length bs = n \<Longrightarrow> read_bytes (as @ bs @ cs) off n = Some bs"
  by (simp add: read_bytes_def)

definition joined :: "(cstring \<Rightarrow> cstring option) \<Rightarrow> cstring list \<Rightarrow> cstring" where
  "joined u ls = concat (map (\<lambda>l. label_text u l @ [46]) ls)"

lemma c_string_id: "0 \<notin> set l \<Longrightarrow> c_string l = l"
  unfolding c_string_def by (metis (mono_tags, lifting) takeWhile_eq_all_conv)

lemma parse_name_label:
  assumes "p ! off = of_nat (length l)" "take (length l) (drop (off + 1) p) = l" "0 < length l" "length l < 64" "0 \<notin> set l"
    and "off + 1 + length l \<le> length p"
  shows "parse_name u p off d ret = parse_name u p (off + 1 + length l) d (ret @ label_text u l @ [46])"
proof -
  have len: "unat (of_nat (length l) :: uint8) = length l" using assms(4) by (simp add: unsigned_of_nat take_bit_nat_eq_self)
  then have small: "(of_nat (length l) :: uint8) \<noteq> 0" "(of_nat (length l) :: uint8) < 64"
    using assms(3,4) by (auto simp: word_less_nat_alt)
  show ?thesis unfolding parse_name.simps[of u p off] using assms small len by (simp add: Let_def c_string_id)
qed

lemma parse_name_labels:
  assumes "\<forall>l \<in> set ls. 0 < length l \<and> length l < 64 \<and> 0 \<notin> set l"
  shows "parse_name u (pre @ wire_labels ls @ post) (length pre) d ret =
    Some (Some (eat_dot (ret @ joined u ls)), length pre + length (wire_labels ls))"
  using assms
proof (induction ls arbitrary: pre ret)
  case Nil
  then show ?case by (simp add: parse_name.simps[of u _ "length pre"] wire_labels_def joined_def nth_append)
next
  case (Cons l ls)
  let ?p = "pre @ wire_labels (l # ls) @ post" and ?pre = "pre @ of_nat (length l) # l"
  have l: "0 < length l" "length l < 64" "0 \<notin> set l" using Cons.prems by auto
  have p: "?p = ?pre @ wire_labels ls @ post" by (simp add: wire_labels_Cons)
  have at: "?p ! length pre = of_nat (length l)" "take (length l) (drop (length pre + 1) ?p) = l" by (simp_all add: wire_labels_Cons)
  have "parse_name u ?p (length pre) d ret = parse_name u ?p (length pre + 1 + length l) d (ret @ label_text u l @ [46])"
    by (rule parse_name_label[OF at l]) (simp add: wire_labels_Cons)
  also have "\<dots> = parse_name u (?pre @ wire_labels ls @ post) (length ?pre) d (ret @ label_text u l @ [46])" unfolding p by simp
  also have "\<dots> = Some (Some (eat_dot ((ret @ label_text u l @ [46]) @ joined u ls)), length ?pre + length (wire_labels ls))"
    by (rule Cons.IH) (use Cons.prems in auto)
  finally show ?case by (simp add: joined_def wire_labels_Cons)
qed

text \<open>
  What the conversions of libidn promise for a name that can be converted: the result is a C string, and converting its labels back and
  joining them with dots gives the name.
\<close>

definition idna_inverse :: "(cstring \<Rightarrow> cstring option) \<Rightarrow> (cstring \<Rightarrow> cstring option) \<Rightarrow> cstring option \<Rightarrow> bool" where
  "idna_inverse to_ascii to_unicode name \<longleftrightarrow> (\<forall>n a. name = Some n \<and> to_ascii n = Some a \<longrightarrow>
     0 \<notin> set a \<and> eat_dot (joined to_unicode (labels a)) = n)"

lemma labels_subset: "l \<in> set (labels s) \<Longrightarrow> set l \<subseteq> set s"
proof (induction s rule: labels.induct)
  case (1 s)
  let ?l = "takeWhile (\<lambda>b. b \<noteq> 46) s"
  show ?case
  proof (cases "l = ?l")
    case True
    then show ?thesis using set_takeWhileD by fastforce
  next
    case False
    then have "length ?l < length s" "l \<in> set (labels (drop (length ?l + 1) s))"
      using 1(2) by (auto simp: labels.simps[of s] Let_def split: if_splits)
    then show ?thesis using 1(1)[OF refl] set_drop_subset by fast
  qed
qed

lemma parse_wire_name:
  assumes "name_encodes to_ascii name" "idna_inverse to_ascii u name"
  shows "GNUNET_DNSPARSER_parse_name u (pre @ wire_name to_ascii name @ post) (length pre) =
    Some (name, length pre + length (wire_name to_ascii name))"
proof -
  obtain n a where na: "name = Some n" "to_ascii n = Some a" "labels_ok (labels a)" using assms(1) by (auto simp: name_encodes_def)
  then have a: "0 \<notin> set a" "eat_dot (joined u (labels a)) = n" using assms(2) by (auto simp: idna_inverse_def)
  have "\<forall>l \<in> set (labels a). 0 < length l \<and> length l < 64 \<and> 0 \<notin> set l" using na(3) a(1) labels_subset[of _ a] by (auto simp: labels_ok_def)
  from parse_name_labels[OF this, of u pre post 0 "[]"] show ?thesis
    using na a by (simp add: GNUNET_DNSPARSER_parse_name_def wire_name_def)
qed

lemma parse_wire_query:
  assumes "name_encodes to_ascii (q_name q)" "idna_inverse to_ascii u (q_name q)"
  shows "GNUNET_DNSPARSER_parse_query u (pre @ wire_query to_ascii q @ post) (length pre) =
    Some (Some q, length pre + length (wire_query to_ascii q))"
proof -
  obtain n where n: "q_name q = Some n" using assms(1) by (auto simp: name_encodes_def)
  let ?w = "wire_name to_ascii (q_name q)" and ?ql = "le_bytes 2 (htons (q_type q)) @ le_bytes 2 (htons (q_class q))"
  have p: "pre @ wire_query to_ascii q @ post = pre @ ?w @ (?ql @ post)" by (simp add: wire_query_def)
  have r: "read_bytes (pre @ ?w @ ?ql @ post) (length pre + length ?w) 4 = Some ?ql"
    using read_bytes_at[of "pre @ ?w" "length pre + length ?w" ?ql 4 post] by simp
  show ?thesis unfolding GNUNET_DNSPARSER_parse_query_def p parse_wire_name[OF assms]
    using r n by (simp add: wire_query_def)
qed

definition names_invert :: "(cstring \<Rightarrow> cstring option) \<Rightarrow> (cstring \<Rightarrow> cstring option) \<Rightarrow> DnsRecord \<Rightarrow> bool" where
  "names_invert to_ascii u r \<longleftrightarrow> idna_inverse to_ascii u (r_name r) \<and> (\<forall>n \<in> set (data_names (r_data r)). idna_inverse to_ascii u n)"

lemma parse_wire_data:
  assumes "data_fits t d" "\<forall>n \<in> set (data_names d). name_encodes to_ascii n" "\<forall>n \<in> set (data_names d). idna_inverse to_ascii u n"
  shows "parse_record_data u (pre @ wire_data to_ascii d @ post) (length pre) (length (wire_data to_ascii d)) t =
    Some (Some d, length pre + length (wire_data to_ascii d))"
proof (cases d)
  case (DataHostname h)
  then obtain n where "h = Some n" using assms(2) by (auto simp: name_encodes_def)
  then show ?thesis using assms DataHostname parse_wire_name[of to_ascii h u pre post]
    by (auto simp: parse_record_data_def data_fits_def Let_def)
next
  case (DataSoa soa)
  let ?m = "wire_name to_ascii (soa_mname soa)" and ?r = "wire_name to_ascii (soa_rname soa)"
  let ?sd = "le_bytes 4 (htonl (soa_serial soa)) @ le_bytes 4 (htonl (soa_refresh soa)) @ le_bytes 4 (htonl (soa_retry soa)) @
     le_bytes 4 (htonl (soa_expire soa)) @ le_bytes 4 (htonl (soa_minimum_ttl soa))"
  have n: "name_encodes to_ascii (soa_mname soa)" "name_encodes to_ascii (soa_rname soa)" "idna_inverse to_ascii u (soa_mname soa)"
    "idna_inverse to_ascii u (soa_rname soa)" using assms DataSoa by auto
  then have nn: "soa_mname soa \<noteq> None" "soa_rname soa \<noteq> None" by (auto simp: name_encodes_def)
  have p: "GNUNET_DNSPARSER_parse_name u (pre @ ?m @ ?r @ ?sd @ post) (length pre) = Some (soa_mname soa, length pre + length ?m)"
    "GNUNET_DNSPARSER_parse_name u (pre @ ?m @ ?r @ ?sd @ post) (length pre + length ?m) = Some (soa_rname soa, length pre + length ?m + length ?r)"
    using parse_wire_name[OF n(1,3), of pre "?r @ ?sd @ post"] parse_wire_name[OF n(2,4), of "pre @ ?m" "?sd @ post"] by simp_all
  have r: "read_bytes (pre @ ?m @ ?r @ ?sd @ post) (length pre + length ?m + length ?r) 20 = Some ?sd"
    using read_bytes_at[of "pre @ ?m @ ?r" "length pre + length ?m + length ?r" ?sd 20 post] by simp
  have f: "field32 ?sd 0 = htonl (soa_serial soa)" "field32 ?sd 4 = htonl (soa_refresh soa)" "field32 ?sd 8 = htonl (soa_retry soa)"
    "field32 ?sd 12 = htonl (soa_expire soa)" "field32 ?sd 16 = htonl (soa_minimum_ttl soa)"
    by (simp_all add: field32_def le_word_bytes)
  have "GNUNET_DNSPARSER_parse_soa u (pre @ ?m @ ?r @ ?sd @ post) (length pre) = Some (Some soa, length pre + length ?m + length ?r + 20)"
    unfolding GNUNET_DNSPARSER_parse_soa_def p bind.bind_lunit split_beta fst_conv snd_conv r f using nn by simp
  then show ?thesis using assms(1) DataSoa by (simp add: parse_record_data_def data_fits_def Let_def dns_types)
next
  case (DataMx mx)
  let ?w = "wire_name to_ascii (mx_host mx)" and ?pr = "le_bytes 2 (htons (mx_preference mx))"
  have n: "name_encodes to_ascii (mx_host mx)" "idna_inverse to_ascii u (mx_host mx)" using assms DataMx by auto
  then have "mx_host mx \<noteq> None" by (auto simp: name_encodes_def)
  moreover have "GNUNET_DNSPARSER_parse_name u (pre @ ?pr @ ?w @ post) (length pre + 2) = Some (mx_host mx, length pre + 2 + length ?w)"
    using parse_wire_name[OF n, of "pre @ ?pr" post] by simp
  moreover have "read_bytes (pre @ ?pr @ ?w @ post) (length pre) 2 = Some ?pr" by (rule read_bytes_at) simp_all
  ultimately have "GNUNET_DNSPARSER_parse_mx u (pre @ ?pr @ ?w @ post) (length pre) = Some (Some mx, length pre + 2 + length ?w)"
    using field16_bytes(1)[of "htons (mx_preference mx)" "[]"] by (simp add: GNUNET_DNSPARSER_parse_mx_def)
  then show ?thesis using assms(1) DataMx by (simp add: parse_record_data_def data_fits_def Let_def dns_types)
next
  case (DataSrv srv)
  let ?w = "wire_name to_ascii (srv_target srv)"
  let ?sd = "le_bytes 2 (htons (srv_priority srv)) @ le_bytes 2 (htons (srv_weight srv)) @ le_bytes 2 (htons (srv_port srv))"
  have n: "name_encodes to_ascii (srv_target srv)" "idna_inverse to_ascii u (srv_target srv)" using assms DataSrv by auto
  then have "srv_target srv \<noteq> None" by (auto simp: name_encodes_def)
  moreover have "GNUNET_DNSPARSER_parse_name u (pre @ ?sd @ ?w @ post) (length pre + 6) = Some (srv_target srv, length pre + 6 + length ?w)"
    using parse_wire_name[OF n, of "pre @ ?sd" post] by simp
  moreover have "read_bytes (pre @ ?sd @ ?w @ post) (length pre) 6 = Some ?sd" by (rule read_bytes_at) simp_all
  moreover have "field16 ?sd 0 = htons (srv_priority srv)" "field16 ?sd 2 = htons (srv_weight srv)" "field16 ?sd 4 = htons (srv_port srv)"
    by (simp_all add: field16_def le_word_bytes)
  ultimately have "GNUNET_DNSPARSER_parse_srv u (pre @ ?sd @ ?w @ post) (length pre) = Some (Some srv, length pre + 6 + length ?w)"
    by (simp add: GNUNET_DNSPARSER_parse_srv_def)
  then show ?thesis using assms(1) DataSrv by (simp add: parse_record_data_def data_fits_def Let_def dns_types)
next
  case (DataRaw bs)
  then show ?thesis using assms(1) read_bytes_at[of pre "length pre" bs "length bs" post]
    by (simp add: parse_record_data_def data_fits_def Let_def)
qed (use assms(1) in \<open>simp add: data_fits_def\<close>)

text \<open>A record that was packed at one time and parsed at another expires later by the time in between, and in whole seconds.\<close>

definition renewed :: "time_env \<Rightarrow> time_env \<Rightarrow> DnsRecord \<Rightarrow> DnsRecord" where
  "renewed env env' r = r\<lparr>r_expiration := GNUNET_TIME_relative_to_absolute env'
     (GNUNET_TIME_relative_multiply GNUNET_TIME_relative_get_second (ucast (record_ttl env r)))\<rparr>"

lemma parse_wire_record:
  assumes "data_fits (r_type r) (r_data r)" "record_encodes to_ascii r" "names_invert to_ascii u r"
  shows "GNUNET_DNSPARSER_parse_record env' u (pre @ wire_record env to_ascii r @ post) (length pre) =
    Some (Some (renewed env env' r), length pre + length (wire_record env to_ascii r))"
proof -
  let ?n = "wire_name to_ascii (r_name r)" and ?d = "wire_data to_ascii (r_data r)"
  let ?l = "wire_line env (length ?d) r"
  have e: "name_encodes to_ascii (r_name r)" "\<forall>n \<in> set (data_names (r_data r)). name_encodes to_ascii n" "length ?d \<le> 65535"
    "idna_inverse to_ascii u (r_name r)" "\<forall>n \<in> set (data_names (r_data r)). idna_inverse to_ascii u n"
    using assms by (simp_all add: record_encodes_def names_invert_def)
  obtain n where n: "r_name r = Some n" using e(1) by (auto simp: name_encodes_def)
  have p: "pre @ wire_record env to_ascii r @ post = pre @ ?n @ ?l @ ?d @ post" by (simp add: wire_record_def)
  have name: "GNUNET_DNSPARSER_parse_name u (pre @ ?n @ ?l @ ?d @ post) (length pre) = Some (Some n, length pre + length ?n)"
    using parse_wire_name[OF e(1,4), of pre "?l @ ?d @ post"] n by simp
  have line: "read_bytes (pre @ ?n @ ?l @ ?d @ post) (length pre + length ?n) 10 = Some ?l"
    using read_bytes_at[of "pre @ ?n" "length pre + length ?n" ?l 10 "?d @ post"] by simp
  have f: "field16 ?l 0 = htons (r_type r)" "field16 ?l 2 = htons (r_class r)" "field32 ?l 4 = htonl (record_ttl env r)"
    "field16 ?l 8 = htons (of_nat (length ?d))"
    by (simp_all add: wire_line_def field16_def field32_def le_word_bytes)
  have len: "unat (of_nat (length ?d) :: uint16) = length ?d" using e(3) by (simp add: unsigned_of_nat take_bit_nat_eq_self)
  have data: "parse_record_data u (pre @ ?n @ ?l @ ?d @ post) (length pre + length ?n + 10) (length ?d) (r_type r) =
      Some (Some (r_data r), length pre + length ?n + 10 + length ?d)"
    using parse_wire_data[OF assms(1) e(2,5), of "pre @ ?n @ ?l" post] by (simp add: add.assoc)
  show ?thesis unfolding p GNUNET_DNSPARSER_parse_record_def name bind.bind_lunit split option.case line
    using n data[unfolded n] by (simp add: f len renewed_def Let_def line wire_record_def)
qed

lemma parse_wire_queries:
  "\<forall>q \<in> set qs. name_encodes to_ascii (q_name q) \<and> idna_inverse to_ascii u (q_name q) \<Longrightarrow>
   parse_queries u (pre @ concat (map (wire_query to_ascii) qs) @ post) (length qs) (length pre) =
     Some (Some qs, length pre + length (concat (map (wire_query to_ascii) qs)))"
proof (induction qs arbitrary: pre)
  case (Cons q qs)
  have "GNUNET_DNSPARSER_parse_query u (pre @ wire_query to_ascii q @ concat (map (wire_query to_ascii) qs) @ post) (length pre) =
      Some (Some q, length pre + length (wire_query to_ascii q))"
    using Cons.prems by (intro parse_wire_query) auto
  moreover have "parse_queries u ((pre @ wire_query to_ascii q) @ concat (map (wire_query to_ascii) qs) @ post) (length qs)
      (length (pre @ wire_query to_ascii q)) = Some (Some qs, length (pre @ wire_query to_ascii q) + length (concat (map (wire_query to_ascii) qs)))"
    by (rule Cons.IH) (use Cons.prems in auto)
  ultimately show ?case by (simp del: length_concat add: add.assoc)
qed simp

lemma parse_wire_records:
  "\<forall>r \<in> set rs. data_fits (r_type r) (r_data r) \<and> record_encodes to_ascii r \<and> names_invert to_ascii u r \<Longrightarrow>
   parse_records env' u (pre @ concat (map (wire_record env to_ascii) rs) @ post) prev (length rs) (length pre) =
     Some (Some (map (renewed env env') rs), length pre + length (concat (map (wire_record env to_ascii) rs)))"
proof (induction rs arbitrary: pre prev)
  case (Cons r rs)
  have "GNUNET_DNSPARSER_parse_record env' u (pre @ wire_record env to_ascii r @ concat (map (wire_record env to_ascii) rs) @ post) (length pre) =
      Some (Some (renewed env env' r), length pre + length (wire_record env to_ascii r))"
    using Cons.prems by (intro parse_wire_record) auto
  moreover have "parse_records env' u ((pre @ wire_record env to_ascii r) @ concat (map (wire_record env to_ascii) rs) @ post) (prev @ [renewed env env' r]) (length rs)
      (length (pre @ wire_record env to_ascii r)) =
      Some (Some (map (renewed env env') rs), length (pre @ wire_record env to_ascii r) + length (concat (map (wire_record env to_ascii) rs)))"
    by (rule Cons.IH) (use Cons.prems in auto)
  ultimately show ?case by (simp del: length_concat add: add.assoc)
qed simp

definition wire_header :: "DnsPacket \<Rightarrow> uint8 list" where
  "wire_header p = le_bytes 2 (dns_id p) @ le_bytes 2 (dns_flags p) @ le_bytes 2 (htons (of_nat (length (queries p)))) @
     le_bytes 2 (htons (of_nat (length (answers p)))) @ le_bytes 2 (htons (of_nat (length (authority_records p)))) @
     le_bytes 2 (htons (of_nat (length (additional_records p))))"

definition all_records :: "DnsPacket \<Rightarrow> DnsRecord list" where
  "all_records p = answers p @ authority_records p @ additional_records p"

lemma loop_result: "x = None \<or> x = Some None \<or> (\<exists>a b c. x = Some (Some (a, b, c)))"
  by (metis option.exhaust prod_cases3)

lemma pack_emits:
  assumes "GNUNET_DNSPARSER_pack pad env to_ascii tmp p = Some (Some (GNUNET_OK, buf))"
    and fits: "\<forall>r \<in> set (all_records p). data_fits (r_type r) (r_data r)"
  shows "buf = wire_header p @ concat (map (wire_query to_ascii) (queries p)) @ concat (map (wire_record env to_ascii) (answers p)) @
      concat (map (wire_record env to_ascii) (authority_records p)) @ concat (map (wire_record env to_ascii) (additional_records p))"
    "\<forall>q \<in> set (queries p). name_encodes to_ascii (q_name q)" "\<forall>r \<in> set (all_records p). record_encodes to_ascii r"
    "length (queries p) \<le> 65535" "length (answers p) \<le> 65535" "length (authority_records p) \<le> 65535" "length (additional_records p) \<le> 65535"
proof -
  let ?Q = "concat (map (wire_query to_ascii) (queries p))" and ?A = "concat (map (wire_record env to_ascii) (answers p))"
  let ?U = "concat (map (wire_record env to_ascii) (authority_records p))" and ?D = "concat (map (wire_record env to_ascii) (additional_records p))"
  show sizes: "length (queries p) \<le> 65535" "length (answers p) \<le> 65535" "length (authority_records p) \<le> 65535" "length (additional_records p) \<le> 65535"
    using assms(1) by (auto simp: GNUNET_DNSPARSER_pack_def Let_def split: if_splits)
  have small: "\<not> (length (queries p) > 65535 \<or> length (answers p) > 65535 \<or> length (authority_records p) > 65535 \<or> length (additional_records p) > 65535)"
    using sizes by simp
  note pack = assms(1)[unfolded GNUNET_DNSPARSER_pack_def Let_def if_not_P[OF small]]
  obtain t1 o1 nq where q: "add_queries to_ascii tmp (length tmp) 12 0 (queries p) = Some (Some (t1, o1, nq))"
    using pack loop_result[of "add_queries to_ascii tmp (length tmp) 12 0 (queries p)"] by fastforce
  note pack = pack[unfolded q bind.bind_lunit option.case prod.case]
  obtain t2 o2 na where a: "add_records pad env to_ascii t1 (length tmp) o1 0 (answers p) = Some (Some (t2, o2, na))"
    using pack loop_result[of "add_records pad env to_ascii t1 (length tmp) o1 0 (answers p)"] by fastforce
  note pack = pack[unfolded a bind.bind_lunit option.case prod.case]
  obtain t3 o3 nu where b: "add_records pad env to_ascii t2 (length tmp) o2 0 (authority_records p) = Some (Some (t3, o3, nu))"
    using pack loop_result[of "add_records pad env to_ascii t2 (length tmp) o2 0 (authority_records p)"] by fastforce
  note pack = pack[unfolded b bind.bind_lunit option.case prod.case]
  obtain t4 o4 nd where d: "add_records pad env to_ascii t3 (length tmp) o3 0 (additional_records p) = Some (Some (t4, o4, nd))"
    using pack loop_result[of "add_records pad env to_ascii t3 (length tmp) o3 0 (additional_records p)"] by fastforce
  note pack = pack[unfolded d bind.bind_lunit option.case prod.case]
  have none: "nq = None" "na = None" "nu = None" "nd = None" using pack by (auto simp: bind_eq_Some_conv split: if_splits)
  obtain t5 where h: "write_bytes t4 0 (wire_header p) = Some t5" and buf: "read_bytes t5 0 o4 = Some buf"
    using pack by (auto simp: none wire_header_def bind_eq_Some_conv)
  have f: "\<forall>r \<in> set (answers p). data_fits (r_type r) (r_data r)" "\<forall>r \<in> set (authority_records p). data_fits (r_type r) (r_data r)"
    "\<forall>r \<in> set (additional_records p). data_fits (r_type r) (r_data r)" using fits by (auto simp: all_records_def)
  have hl: "length (wire_header p) = 12" by (simp add: wire_header_def)
  note Q = add_queries_emits[OF q[unfolded none]] and A = add_records_emits[OF a[unfolded none] f(1)]
    and U = add_records_emits[OF b[unfolded none] f(2)] and D = add_records_emits[OF d[unfolded none] f(3)]
  have "emits tmp 12 (?Q @ ?A @ ?U @ ?D) t4 o4"
    using emits_trans[OF conjunct1[OF Q] emits_trans[OF conjunct1[OF A] emits_trans[OF conjunct1[OF U] conjunct1[OF D]]]] .
  then have "emits tmp (0 + length (wire_header p)) (?Q @ ?A @ ?U @ ?D) t4 o4" by (simp add: hl)
  from write_before_emits[OF this h] have "emits tmp 0 (wire_header p @ ?Q @ ?A @ ?U @ ?D) t5 o4" .
  then show "buf = wire_header p @ ?Q @ ?A @ ?U @ ?D" using buf by (auto simp: emits_def read_bytes_def split: if_splits)
  show "\<forall>q \<in> set (queries p). name_encodes to_ascii (q_name q)" using Q by blast
  show "\<forall>r \<in> set (all_records p). record_encodes to_ascii r" using A U D by (auto simp: all_records_def)
qed

section \<open>Properties\<close>

text \<open>C13: Packing and parsing are inverse. A packet that was packed completely is parsed again to the same packet, for all record types except CERT and
  whatever the uninitialised buffer held, with the life time of the records counted from the time of parsing; provided the IDNA conversions
  undo each other on the names of the packet and the data of each record is of its type.\<close>

theorem dns_pack_parse_roundtrip:
  assumes "GNUNET_DNSPARSER_pack pad env to_ascii tmp p = Some (Some (GNUNET_OK, buf))"
    and "\<forall>r \<in> set (all_records p). data_fits (r_type r) (r_data r)"
    and "\<forall>q \<in> set (queries p). idna_inverse to_ascii to_unicode (q_name q)"
    and "\<forall>r \<in> set (all_records p). names_invert to_ascii to_unicode r"
  shows "GNUNET_DNSPARSER_parse env' to_unicode buf = Some (Some (p\<lparr>answers := map (renewed env env') (answers p),
    authority_records := map (renewed env env') (authority_records p), additional_records := map (renewed env env') (additional_records p)\<rparr>))"
proof -
  let ?Q = "concat (map (wire_query to_ascii) (queries p))" and ?A = "concat (map (wire_record env to_ascii) (answers p))"
  let ?U = "concat (map (wire_record env to_ascii) (authority_records p))" and ?D = "concat (map (wire_record env to_ascii) (additional_records p))"
  let ?H = "wire_header p"
  note e = pack_emits[OF assms(1,2)]
  have h: "length ?H = 12" by (simp add: wire_header_def)
  have f: "field16 ?H 0 = dns_id p" "field16 ?H 2 = dns_flags p" "field16 ?H 4 = htons (of_nat (length (queries p)))"
    "field16 ?H 6 = htons (of_nat (length (answers p)))" "field16 ?H 8 = htons (of_nat (length (authority_records p)))"
    "field16 ?H 10 = htons (of_nat (length (additional_records p)))"
    by (simp_all add: wire_header_def field16_def le_word_bytes)
  have n: "unat (of_nat (length (queries p)) :: uint16) = length (queries p)" "unat (of_nat (length (answers p)) :: uint16) = length (answers p)"
    "unat (of_nat (length (authority_records p)) :: uint16) = length (authority_records p)"
    "unat (of_nat (length (additional_records p)) :: uint16) = length (additional_records p)"
    using e(4-7) by (simp_all add: unsigned_of_nat take_bit_nat_eq_self)
  have r: "\<forall>r \<in> set (all_records p). data_fits (r_type r) (r_data r) \<and> record_encodes to_ascii r \<and> names_invert to_ascii to_unicode r"
    using assms(2,4) e(3) by blast
  have Q: "parse_queries to_unicode buf (length (queries p)) 12 = Some (Some (queries p), length (?H @ ?Q))"
    using parse_wire_queries[of "queries p" to_ascii to_unicode ?H "?A @ ?U @ ?D"] assms(3) e(1,2) h by simp
  have A: "parse_records env' to_unicode buf [] (length (answers p)) (length (?H @ ?Q)) =
      Some (Some (map (renewed env env') (answers p)), length (?H @ ?Q @ ?A))"
    using parse_wire_records[of "answers p" to_ascii to_unicode env' "?H @ ?Q" env "?U @ ?D"] r e(1)
    by (simp add: all_records_def add.assoc del: length_concat)
  have U: "parse_records env' to_unicode buf (map (renewed env env') (answers p)) (length (authority_records p)) (length (?H @ ?Q @ ?A)) =
      Some (Some (map (renewed env env') (authority_records p)), length (?H @ ?Q @ ?A @ ?U))"
    using parse_wire_records[of "authority_records p" to_ascii to_unicode env' "?H @ ?Q @ ?A" env ?D] r e(1)
    by (simp add: all_records_def add.assoc del: length_concat)
  have D: "parse_records env' to_unicode buf (map (renewed env env') (answers p) @ map (renewed env env') (authority_records p)) (length (additional_records p)) (length (?H @ ?Q @ ?A @ ?U)) =
      Some (Some (map (renewed env env') (additional_records p)), length (?H @ ?Q @ ?A @ ?U @ ?D))"
    using parse_wire_records[of "additional_records p" to_ascii to_unicode env' "?H @ ?Q @ ?A @ ?U" env "[]"] r e(1)
    by (simp add: all_records_def add.assoc del: length_concat)
  have hdr: "read_bytes buf 0 12 = Some ?H" and nl: "\<not> length buf < 12" using e(1) h by (simp_all add: read_bytes_def)
  show ?thesis unfolding GNUNET_DNSPARSER_parse_def if_not_P[OF nl] hdr bind.bind_lunit f htons_htons n Q prod.case option.case A U D
    by simp
qed

definition sample_name :: cstring where
  "sample_name = [119, 119, 119, 46, 103, 110, 117]"

definition sample_packet :: DnsPacket where
  "sample_packet = \<lparr>queries = [\<lparr>q_name = Some sample_name, q_type = 1, q_class = 1\<rparr>],
     answers = [\<lparr>r_name = Some sample_name, r_data = DataRaw [10, 0, 0, 1], r_expiration = \<lparr>abs_value_us = 5000000\<rparr>, r_type = 1, r_class = 1\<rparr>],
     authority_records = [], additional_records = [], dns_flags = 128, dns_id = 7\<rparr>"

definition sample_clock :: time_env where
  "sample_clock = \<lparr>tv_sec = 2, tv_usec = 0, timestamp_offset = 0\<rparr>"

lemma sample_name_inverse: "idna_inverse Some Some (Some sample_name)"
proof -
  have "0 \<notin> set sample_name" by (simp add: sample_name_def)
  moreover have "eat_dot (joined Some (labels sample_name)) = sample_name" by code_simp
  ultimately show ?thesis by (simp add: idna_inverse_def)
qed

lemma sample_packet_packs: "\<exists>buf. GNUNET_DNSPARSER_pack 0 sample_clock Some (replicate 64 0) sample_packet = Some (Some (GNUNET_OK, buf))"
proof -
  have "map_option (map_option fst) (GNUNET_DNSPARSER_pack 0 sample_clock Some (replicate 64 0) sample_packet) = Some (Some GNUNET_OK)"
    by (simp add: GNUNET_DNSPARSER_pack_def sample_packet_def sample_name_def GNUNET_DNSPARSER_builder_add_query_def
      GNUNET_DNSPARSER_builder_add_name_def add_record_def add_record_data_def add_labels.simps write_bytes_def read_bytes_def dns_types
      size_minus_def Let_def)
  then show ?thesis by auto
qed

theorem dns_pack_parse_roundtrip_witness:
  "\<exists>buf. GNUNET_DNSPARSER_pack 0 sample_clock Some (replicate 64 0) sample_packet = Some (Some (GNUNET_OK, buf)) \<and>
     GNUNET_DNSPARSER_parse sample_clock Some buf = Some (Some sample_packet)"
proof -
  obtain buf where buf: "GNUNET_DNSPARSER_pack 0 sample_clock Some (replicate 64 0) sample_packet = Some (Some (GNUNET_OK, buf))"
    using sample_packet_packs by blast
  have "\<forall>r \<in> set (all_records sample_packet). data_fits (r_type r) (r_data r)" "\<forall>q \<in> set (queries sample_packet). idna_inverse Some Some (q_name q)"
    "\<forall>r \<in> set (all_records sample_packet). names_invert Some Some r"
    using sample_name_inverse by (simp_all add: sample_packet_def all_records_def data_fits_def names_invert_def dns_types)
  note r = dns_pack_parse_roundtrip[OF buf this, of sample_clock]
  have "map (renewed sample_clock sample_clock) (answers sample_packet) = answers sample_packet" by code_simp
  then show ?thesis using buf r by (simp add: sample_packet_def)
qed



text \<open>C38: A payload that ends in the middle of a compression pointer makes the parser read one byte past its end: the bounds check before the
  second byte of a pointer is off by one. A packet with a query that consists of one such byte suffices.\<close>

theorem dns_pointer_overread:
  assumes "length h = 12" "htons (field16 h 4) \<noteq> 0" "b AND 192 = 192"
  shows "GNUNET_DNSPARSER_parse env to_unicode (h @ [b]) = None"
proof -
  have n: "unat (htons (field16 h 4)) \<noteq> 0" using assms(2) by (simp add: unat_eq_0)
  then obtain k where k: "unat (htons (field16 h 4)) = Suc k" by (meson not0_implies_Suc)
  have "\<not> b < 64" "b \<noteq> 0" using order.strict_trans1[OF pointer_tag[OF assms(3)], of 64] pointer_tag[OF assms(3)] by auto
  then have "parse_name to_unicode (h @ [b]) 12 0 [] = None"
    using assms(1,3) by (simp add: parse_name.simps[of to_unicode _ 12] nth_append Let_def)
  then show ?thesis using assms(1) k
    by (simp add: GNUNET_DNSPARSER_parse_def read_bytes_def GNUNET_DNSPARSER_parse_query_def GNUNET_DNSPARSER_parse_name_def)
qed

theorem dns_pointer_overread_witness:
  "GNUNET_DNSPARSER_parse sample_clock Some ([0, 0, 0, 0, 0, 1, 0, 0, 0, 0, 0, 0] @ [192]) = None"
  by (rule dns_pointer_overread) (simp, code_simp, simp)

lemma parse_first_query_fails:
  assumes "length h = 12" "GNUNET_DNSPARSER_parse_query to_unicode h 12 = Some (None, off)" "unat (htons (field16 h 4)) \<noteq> 0"
  shows "GNUNET_DNSPARSER_parse env to_unicode h = Some None"
proof -
  obtain k where "unat (htons (field16 h 4)) = Suc k" using assms(3) by (meson not0_implies_Suc)
  then show ?thesis using assms(1,2) by (simp add: GNUNET_DNSPARSER_parse_def read_bytes_def)
qed

text \<open>C39: A packet whose first query does not fit is truncated to a header that announces 65535 queries, because the number of the
  entries that did fit is counted one too low and wraps around; the parser rejects it.\<close>

theorem dns_truncated_count:
  assumes "queries p = q # qs" "length qs < 65535" "answers p = []" "authority_records p = []" "additional_records p = []"
    and "q_name q = Some n" "to_ascii n = Some a" "16 \<le> length tmp" "length tmp < length a + 18"
  shows "\<exists>buf. GNUNET_DNSPARSER_pack pad env to_ascii tmp p = Some (Some (GNUNET_NO, buf)) \<and>
    htons (field16 buf 4) = 65535 \<and> GNUNET_DNSPARSER_parse env' to_unicode buf = Some None"
proof -
  have "length tmp - 4 < 14 + length a" using assms(8,9) by linarith
  then have "GNUNET_DNSPARSER_builder_add_query to_ascii tmp (length tmp) 12 q = Some (GNUNET_NO, tmp, 12)"
    using assms by (simp add: GNUNET_DNSPARSER_builder_add_query_def GNUNET_DNSPARSER_builder_add_name_def size_minus_def)
  moreover have "ucast (0 - 1 :: uint32) = (65535 :: uint16)" by code_simp
  ultimately have q: "add_queries to_ascii tmp (length tmp) 12 0 (queries p) = Some (Some (tmp, 12, Some 65535))" using assms(1) by simp
  let ?h = "le_bytes 2 (dns_id p) @ le_bytes 2 (dns_flags p OR 2) @ le_bytes 2 (htons 65535) @ le_bytes 2 (htons 0) @ le_bytes 2 (htons 0) @
    le_bytes 2 (htons 0)"
  have h: "length ?h = 12" by simp
  have len: "\<not> 65535 < length (queries p)" using assms(1,2) by simp
  have pack: "GNUNET_DNSPARSER_pack pad env to_ascii tmp p = Some (Some (GNUNET_NO, ?h))"
    using assms(3-5,8) q h len by (simp add: GNUNET_DNSPARSER_pack_def write_bytes_def read_bytes_def Let_def)
  have c: "field16 ?h 4 = htons 65535" by (simp add: field16_def le_word_bytes)
  have "parse_name to_unicode ?h 12 0 [] = Some (None, 12)" by (simp add: parse_name.simps[of to_unicode _ 12])
  then have "GNUNET_DNSPARSER_parse_query to_unicode ?h 12 = Some (None, 12)"
    by (simp add: GNUNET_DNSPARSER_parse_query_def GNUNET_DNSPARSER_parse_name_def del: append_assoc)
  moreover have "unat (htons (field16 ?h 4)) \<noteq> 0" unfolding c htons_htons by simp
  ultimately have "GNUNET_DNSPARSER_parse env' to_unicode ?h = Some None" by (rule parse_first_query_fails[OF h])
  then show ?thesis using pack c by (metis htons_htons)
qed

theorem dns_truncated_count_witness:
  "\<exists>buf. GNUNET_DNSPARSER_pack 0 sample_clock Some (replicate 16 0) (sample_packet\<lparr>answers := []\<rparr>) = Some (Some (GNUNET_NO, buf)) \<and>
    htons (field16 buf 4) = 65535 \<and> GNUNET_DNSPARSER_parse sample_clock Some buf = Some None"
  by (rule dns_truncated_count[of _ "\<lparr>q_name = Some sample_name, q_type = 1, q_class = 1\<rparr>" "[]" sample_name Some sample_name])
    (simp_all add: sample_packet_def sample_name_def)

lemma parse_record_cert:
  assumes "GNUNET_DNSPARSER_parse_record env u p off = Some (Some r, off')" "r_type r = DNS_TYPE_CERT"
  shows "GNUNET_DNSPARSER_free_record r = None"
proof -
  obtain len o1 o2 where "parse_record_data u p o1 len (r_type r) = Some (Some (r_data r), o2)"
    using assms(1) by (auto simp: GNUNET_DNSPARSER_parse_record_def Let_def bind_eq_Some_conv split: option.splits if_splits)
  then obtain d where "r_data r = DataRaw d"
    using assms(2) by (auto simp: parse_record_data_def Let_def dns_types bind_eq_Some_conv dest: sym)
  then show ?thesis using assms(2) by (simp add: GNUNET_DNSPARSER_free_record_def Let_def dns_types)
qed

lemma parse_records_cert:
  "parse_records env u p prev n off = Some (Some rs, off') \<Longrightarrow> r \<in> set rs \<Longrightarrow> r_type r = DNS_TYPE_CERT \<Longrightarrow> GNUNET_DNSPARSER_free_record r = None"
proof (induction n arbitrary: off rs prev)
  case (Suc n)
  obtain r1 o1 rs1 where r1: "GNUNET_DNSPARSER_parse_record env u p off = Some (Some r1, o1)"
    and rest: "parse_records env u p (prev @ [r1]) n o1 = Some (Some rs1, off')" "rs = r1 # rs1"
    using Suc.prems(1) by (auto simp: bind_eq_Some_conv split: option.splits)
  show ?case
  proof (cases "r = r1")
    case True
    then show ?thesis using parse_record_cert[OF r1] Suc.prems(3) by simp
  next
    case False
    then show ?thesis using Suc.IH[OF rest(1)] Suc.prems(2,3) rest(2) by simp
  qed
qed simp

lemma free_records_None: "r \<in> set rs \<Longrightarrow> GNUNET_DNSPARSER_free_record r = None \<Longrightarrow> free_records rs = None"
  by (induction rs) (auto simp: bind_eq_None_conv)

lemma parse_sections:
  assumes "GNUNET_DNSPARSER_parse env u p = Some (Some q)"
  obtains n1 o1 m1 n2 o2 m2 n3 o3 m3 where "parse_records env u p [] n1 o1 = Some (Some (answers q), m1)"
    "parse_records env u p (answers q) n2 o2 = Some (Some (authority_records q), m2)"
    "parse_records env u p (answers q @ authority_records q) n3 o3 = Some (Some (additional_records q), m3)"
  using assms by (auto simp: GNUNET_DNSPARSER_parse_def bind_eq_Some_conv split: option.splits if_splits)

text \<open>C40: A CERT record that the parser accepts is stored as raw data, but freed as a CERT record: freeing any packet with a CERT record
  interprets bytes from the network as a structure with a pointer, which is freed.\<close>

theorem dns_cert_type_confusion:
  assumes "GNUNET_DNSPARSER_parse env to_unicode payload = Some (Some p)" "r \<in> set (all_records p)" "r_type r = DNS_TYPE_CERT"
  shows "GNUNET_DNSPARSER_free_packet p = None"
proof -
  obtain n1 o1 m1 n2 o2 m2 n3 o3 m3 where "parse_records env to_unicode payload [] n1 o1 = Some (Some (answers p), m1)"
    "parse_records env to_unicode payload (answers p) n2 o2 = Some (Some (authority_records p), m2)"
    "parse_records env to_unicode payload (answers p @ authority_records p) n3 o3 = Some (Some (additional_records p), m3)"
    by (rule parse_sections[OF assms(1)])
  then have "GNUNET_DNSPARSER_free_record r = None" using assms(2,3) parse_records_cert by (auto simp: all_records_def)
  then show ?thesis using assms(2) free_records_None
    by (auto simp: GNUNET_DNSPARSER_free_packet_def all_records_def bind_eq_None_conv)
qed

text \<open>A packet with one CERT record of no data.\<close>

definition cert_payload :: "uint8 list" where
  "cert_payload = [0, 0, 0, 0, 0, 0, 0, 1, 0, 0, 0, 0] @ [0, 0, 37, 0, 1, 0, 0, 0, 0, 0, 0]"

theorem dns_cert_type_confusion_witness:
  "\<exists>p. GNUNET_DNSPARSER_parse sample_clock Some cert_payload = Some (Some p) \<and> GNUNET_DNSPARSER_free_packet p = None"
proof -
  have "map_option (map_option (\<lambda>p. map r_type (all_records p))) (GNUNET_DNSPARSER_parse sample_clock Some cert_payload) = Some (Some [DNS_TYPE_CERT])"
    by code_simp
  then obtain p where p: "GNUNET_DNSPARSER_parse sample_clock Some cert_payload = Some (Some p)" "map r_type (all_records p) = [DNS_TYPE_CERT]" by auto
  then obtain r where "all_records p = [r]" "r_type r = DNS_TYPE_CERT" by (auto simp: map_eq_Cons_conv)
  then have "GNUNET_DNSPARSER_free_packet p = None" using dns_cert_type_confusion[OF p(1), of r] by simp
  then show ?thesis using p(1) by blast
qed

end
