(* ===== verification/Spec2Isabelle.thy ===== *)
theory Spec2Isabelle
  imports Time HashCode MultiHashMap MultiPeerMap MultiShortmap MultiHashMap32 Heap BloomFilter CRC Datacache DatacacheHeap MST
    CustomMap RpsView Sampler Rps Peer Base64 Bandwidth Fragmentation Defragmentation FragmentProtocol
    IBF StrataEstimator SetContent Dns
begin

text \<open>
  A verification library for the GNUnet framework for secure peer-to-peer networking (C sources under \<^verbatim>\<open>src/src\<close>).

  \<^bold>\<open>The program.\<close> GNUnet is a stack of services that exchange messages. At the bottom is a utility library
  (\<^verbatim>\<open>util\<close>) of time arithmetic, hash codes, containers, checksums, encodings, stream tokenizing and bandwidth
  accounting; on top of it are libraries and services such as the data cache (\<^verbatim>\<open>datacache\<close>), message fragmentation
  (\<^verbatim>\<open>fragmentation\<close>), random peer sampling (\<^verbatim>\<open>rps\<close>),
  set reconciliation (\<^verbatim>\<open>set\<close>) and DNS packets (\<^verbatim>\<open>dns\<close>). The development models the part of this code that is
  computation on data structures; each theory has a section of definitions that follow one source file, function by
  function, and sections of lemmas about them.

  \<^bold>\<open>Conventions.\<close> Structures are records, enumerations and unions datatypes, C integers words of their width (integers with
  the conversions written out where signed and unsigned are mixed). State is passed explicitly. An operation that may fail an
  assertion, access memory it must not or not terminate returns an option, and \<^verbatim>\<open>None\<close> is that outcome; return codes are
  those of the C functions. Addresses whose sharing matters are keys of an explicit store. Code outside of the repository
  (hash functions, the allocator, random numbers, the clock, callbacks, compression, IDNA conversion) is an argument. Loops that may run forever are partial
  functions, and that they end is a theorem; the other recursive functions are total. Two loops are given a number of turns that their data bounds,
  and not returning within it is \<^verbatim>\<open>None\<close>: \<open>count_stratum\<close> (as many as the stratum has cells plus two: more are not reached, by
  \<open>count_stratum_ends\<close>) and \<open>next_of_iteration\<close> (one more than the map has entries, which suffices by \<open>next_of_iteration_spec\<close>).

  \<^bold>\<open>Shared theories.\<close> \<open>Prelude\<close> has the integer types, return codes and facts on words and lists. \<open>Interfaces\<close> has the locales
  through which components use each other: \<open>handle_queue\<close> (a priority queue with handles), \<open>multimap\<close> (a bag of key-value pairs) and
  \<open>unique_map\<close> (a finite map). They are interpreted on the heap and on the four hash maps, and the clients' lemmas are
  proved from their laws. The locale \<open>datacache_plugin\<close> of theory \<open>Datacache\<close> is the contract of a storage plugin,
  interpreted on the heap plugin.

  \<^bold>\<open>Time and numbers.\<close> \<open>Endian\<close> (\<^verbatim>\<open>util/common_endian.c\<close>): byte order conversion is an involution. \<open>Time\<close> (\<^verbatim>\<open>util/time.c\<close>): addition and
  multiplication of times refine extended natural numbers that saturate at forever. \<open>HashCode\<close>
  (\<^verbatim>\<open>util/crypto_hash.c\<close>): comparison and XOR distance are orders on 512-bit numbers, matching bits are a common prefix. \<open>CRC\<close>
  (\<^verbatim>\<open>util/crypto_crc.c\<close>): the table-driven CRC-32 equals the bitwise one; the internet checksum of a checksummed buffer is
  zero. \<open>Base64\<close> (\<^verbatim>\<open>util/strings.c\<close>): decoding inverts encoding.
  \<open>Bandwidth\<close> (\<^verbatim>\<open>util/bandwidth.c\<close>): waiting the delay a tracker asks for keeps the limit, and polling starves it.

  \<^bold>\<open>Containers.\<close> \<open>ChainMap\<close> is the chained hash table all four hash maps are copies of; \<open>MultiHashMap\<close>, \<open>MultiPeerMap\<close>,
  \<open>MultiShortmap\<close> and \<open>MultiHashMap32\<close> (\<^verbatim>\<open>util/container_multi*.c\<close>) instantiate it, and every operation is specified on
  the multiset of entries. \<open>Heap\<close> (\<^verbatim>\<open>util/container_heap.c\<close>): insertion, removal and cost updates keep a heap ordered tree with correct
  sizes, and draining sorts. \<open>BloomFilter\<close> (\<^verbatim>\<open>util/container_bloomfilter.c\<close>): no false negatives with counters that saturate, loading,
  resizing and its termination. \<open>Peer\<close> (\<^verbatim>\<open>util/peer.c\<close>): interned peer identities, with the free list inside the table.

  \<^bold>\<open>Data cache.\<close> \<open>Datacache\<close> (\<^verbatim>\<open>datacache/datacache.c\<close>) and \<open>DatacacheHeap\<close> (\<^verbatim>\<open>datacache/plugin_datacache_heap.c\<close>): library and plugin
  call each other through function tables; a PUT keeps map, heap, Bloom filter and accounting consistent, or provably fails an
  assertion when the entry exceeds the quota.

  \<^bold>\<open>Messages.\<close> \<open>MST\<close> (\<^verbatim>\<open>util/mst.c\<close>): the tokenizer refines cutting a byte stream into messages, however it is chunked.
  \<open>Fragmentation\<close> and \<open>Defragmentation\<close> (\<^verbatim>\<open>fragmentation/*.c\<close>) are the two ends of a retransmission protocol;
  the receiver is safe under arbitrary fragments and assembles genuine ones exactly once. \<open>FragmentProtocol\<close> runs both over
  an unreliable network as a step relation: safety in all reachable states, and completion is always possible.

  \<^bold>\<open>Random peer sampling.\<close> \<open>CustomMap\<close>, \<open>RpsView\<close>, \<open>Sampler\<close> and \<open>Rps\<close> (\<^verbatim>\<open>rps/gnunet-service-rps*.c\<close>): indexed peer sets and the view refine
  lists of distinct peers, a sampler holds the peer of the smallest keyed hash, and forgetting a peer removes it everywhere, except through
  an aliased pointer, which is a use after free.

  \<^bold>\<open>Sets.\<close> \<open>IBF\<close> (\<^verbatim>\<open>set/ibf.c\<close>): the difference of two invertible Bloom filters decodes to exactly the keys only one side has, whenever
  it can be peeled; which single keys cannot be decoded. \<open>StrataEstimator\<close> (\<^verbatim>\<open>set/gnunet-service-set_union_strata_estimator.c\<close>): the estimate is
  exact when every stratum decodes, and two accesses out of range. \<open>SetContent\<close> (\<^verbatim>\<open>set/gnunet-service-set.c\<close>): elements with a history of
  mutations that sets, operations and iterations see up to their generation. Mutations change one membership, operations work on a snapshot under
  every interleaving of the clients' requests, iterations are complete; lazy copies are not independent of their
  source, and an iteration that its client ends freezes the content.

  \<^bold>\<open>DNS packets.\<close> \<open>Dns\<close> (\<^verbatim>\<open>dns/dnsparser.c\<close>): packets are parsed, with compressed names, built and freed. Parsing inverts packing for
  all types of records but CERT. Parsing is memory safe and ends on every payload that does not end in the tag of a pointer and has no two bytes that read
  as the type CERT. Otherwise, a pointer that is cut is read past the end, and freeing a packet with a CERT record uses bytes from
  the network as a structure. A packet that does not fit announces a wrong number of entries.

  \<^bold>\<open>Not modelled.\<close> Code whose content is input and output: sockets, processes, files, the scheduler's event loop, and the services, whose
  handlers run in callbacks of these. Cryptography (libgcrypt), databases, HTTP, JSON and media are external libraries. Floating point
  code: load and latency estimates (a parameter where other code uses them), the schedule of excess bandwidth notifications, ETA and
  calendar functions of \<^verbatim>\<open>time.c\<close>. Of the sampling service only the forgetting of peers is modelled, of the samplers all but pending requests; of DNS packets
  all but the conversion to and from hexadecimal digits. Serialization of name records, address advertisements, packet headers and automata for regular
  expressions (\<^verbatim>\<open>gnsrecord\<close>, \<^verbatim>\<open>hello\<close>, \<^verbatim>\<open>tun\<close>, \<^verbatim>\<open>regex\<close>) are computations on data too, but outside of this development.
\<close>

end
